(* ===== verification/Prelude.thy ===== *)
theory Prelude
  imports Main "HOL-Library.Word"
begin

unbundle bit_operations_syntax

text \<open>
  What every component of the model shares.  The kernels are built for 32-bit x86
  (\<open>GCC_OPTIONS = -m32\<close> in both makefiles), so \<open>unsigned long\<close>, \<open>unsigned int\<close> and every
  pointer is a 32-bit word, \<open>unsigned short\<close> a 16-bit and \<open>unsigned char\<close> an 8-bit word;
  arithmetic on them wraps as it does in the code.

  A failed \<open>assert\<close> prints and then spins in \<open>abort()\<close> (neither makefile defines
  \<open>NDEBUG\<close>), so the operation never returns: it is the value \<open>Inl Assertion\<close> of the result
  type \<open>outcome\<close>.  A loop of the source that does not end is \<open>Inl Hang\<close>, an access through
  an unmapped virtual address inside the fault handler is \<open>Inl (Fault a)\<close>, and what the C++
  standard leaves undefined is \<open>Inl Wild\<close>.
\<close>

section \<open>Machine types and outcomes\<close>

type_synonym u8 = "8 word"
type_synonym u16 = "16 word"
type_synonym u32 = "32 word"

text \<open>Flat physical memory, one byte per address.\<close>

type_synonym memory = "u32 \<Rightarrow> u8"

datatype stop = Assertion | Hang | Fault u32 | Wild

type_synonym 'a outcome = "stop + 'a"

text \<open>The rewrite rules that unfold the operations of each layer.\<close>

named_theorems mem_simps \<open>reading memory back after a write\<close>
named_theorems outcome_simps \<open>sequencing of operations that may stop\<close>

text \<open>Sequencing: the first operation that stops, stops the whole.\<close>

definition andThen :: "'a outcome \<Rightarrow> ('a \<Rightarrow> 'b outcome) \<Rightarrow> 'b outcome" where
  "andThen r f = (case r of Inl e \<Rightarrow> Inl e | Inr x \<Rightarrow> f x)"

text \<open>The \<open>assert\<close> macro of \<open>assert.H\<close>.\<close>

definition assert_that :: "bool \<Rightarrow> unit outcome" where
  "assert_that b = (if b then Inr () else Inl Assertion)"

text \<open>A loop that is a partial function: \<open>None\<close> is a loop that never ends.\<close>

definition of_loop :: "'a option \<Rightarrow> 'a outcome" where
  "of_loop r = (case r of None \<Rightarrow> Inl Hang | Some x \<Rightarrow> Inr x)"

lemma andThen_simps [simp, outcome_simps]:
  "andThen (Inl e) f = Inl e"
  "andThen (Inr x) f = f x"
  by (simp_all add: andThen_def)

lemma assert_that_simps [simp, outcome_simps]:
  "assert_that True = Inr ()"
  "assert_that False = Inl Assertion"
  by (simp_all add: assert_that_def)

lemma of_loop_simps [simp, outcome_simps]:
  "of_loop None = Inl Hang"
  "of_loop (Some x) = Inr x"
  by (simp_all add: of_loop_def)

lemma andThen_eq_Inr [outcome_simps]:
  "andThen r f = Inr y \<longleftrightarrow> (\<exists>x. r = Inr x \<and> f x = Inr y)"
  by (cases r) auto

lemma andThen_cong [fundef_cong]:
  "r = r' \<Longrightarrow> (\<And>x. r' = Inr x \<Longrightarrow> f x = g x) \<Longrightarrow> andThen r f = andThen r' g"
  by (cases r') auto

lemma assert_that_eq_Inr [simp]: "assert_that b = Inr u \<longleftrightarrow> b"
  by (simp add: assert_that_def)

lemma of_loop_eq_Inr [simp]: "of_loop r = Inr x \<longleftrightarrow> r = Some x"
  by (cases r) auto

text \<open>A counting loop of the source: the body for each index in turn, stopping when one stops.\<close>

primrec for_each :: "('i \<Rightarrow> 's \<Rightarrow> 's outcome) \<Rightarrow> 'i list \<Rightarrow> 's \<Rightarrow> 's outcome" where
  "for_each body [] s = Inr s"
| "for_each body (i # is) s = andThen (body i s) (for_each body is)"

text \<open>
  A loop over \<open>a, \<dots>, b - 1\<close> whose body keeps an invariant of the position.
\<close>

lemma for_each_invariant:
  assumes "a \<le> b" and "J a s"
    and "\<And>i s. a \<le> i \<Longrightarrow> i < b \<Longrightarrow> J i s \<Longrightarrow> \<exists>s'. body i s = Inr s' \<and> J (Suc i) s'"
  shows "\<exists>s'. for_each body [a..<b] s = Inr s' \<and> J b s'"
  using assms
proof (induction "b - a" arbitrary: a s)
  case 0
  then show ?case by simp
next
  case (Suc d)
  then obtain s1 where "body a s = Inr s1" "J (Suc a) s1"
    by (metis Suc_leI diff_is_0_eq nat.distinct(1) not_le order_refl)
  moreover have "\<exists>s'. for_each body [Suc a..<b] s1 = Inr s' \<and> J b s'"
    using Suc calculation by (intro Suc.hyps(1)) auto
  moreover have "[a..<b] = a # [Suc a..<b]" using Suc.hyps(2) by (simp add: upt_rec)
  ultimately show ?case by simp
qed

section \<open>Words as indices\<close>

lemma unat_of_nat_32 [simp]: "n < 4294967296 \<Longrightarrow> unat (word_of_nat n :: u32) = n"
  by (simp add: unat_of_nat take_bit_nat_eq_self)

lemma of_nat_less_32:
  "i < 4294967296 \<Longrightarrow> (word_of_nat i < (w :: u32)) \<longleftrightarrow> i < unat w"
  by (simp add: word_less_nat_alt)

lemma of_nat_eq_32:
  "i < 4294967296 \<Longrightarrow> j < 4294967296 \<Longrightarrow> (word_of_nat i = (word_of_nat j :: u32)) \<longleftrightarrow> i = j"
  by (metis unat_of_nat_32)

lemma unat_less_32: "unat (w :: u32) < 4294967296"
  using unsigned_less [of w] by simp

lemma unat_Suc_32: "w < (b :: u32) \<Longrightarrow> unat (w + 1) = Suc (unat w)"
  using unat_less_32 [of b]
  by (simp add: unat_word_ariths word_less_nat_alt)

lemma word_Suc_le: "w < b \<Longrightarrow> w + 1 \<le> g \<longleftrightarrow> w < g" for w b g :: u32
  by (simp add: word_le_nat_alt word_less_nat_alt unat_Suc_32 Suc_le_eq)

lemma word_le_pred: "lo < w \<Longrightarrow> g \<le> w - 1 \<longleftrightarrow> g < w" for w lo g :: u32
  by (auto simp: word_le_nat_alt word_less_nat_alt unat_sub_if_size)

text \<open>One step of an upward and of a downward loop over a range of words.\<close>

lemma range_up_step:
  "w < b \<Longrightarrow> insert w {g. w + 1 \<le> g \<and> g < b} = {g. w \<le> g \<and> g < b}" for w b :: u32
  by (auto simp: word_Suc_le)

lemma range_down_step:
  "lo < w \<Longrightarrow> insert w {g. lo < g \<and> g \<le> w - 1} = {g. lo < g \<and> g \<le> w}" for w lo :: u32
  by (auto simp: word_le_pred)

section \<open>Interface: an array of cells\<close>

text \<open>
  A store of cells: reading a cell gives what was last written to it, and writing one cell
  leaves the others.  \<open>ok\<close> is the set of indices at which this holds (all of them, or the
  aligned addresses).  The frame bitmap, the 32-bit words of memory and the descriptor tables
  are interpretations.
\<close>

locale cell_store =
  fixes rd :: "'s \<Rightarrow> 'k \<Rightarrow> 'v"
    and wr :: "'s \<Rightarrow> 'k \<Rightarrow> 'v \<Rightarrow> 's"
    and ok :: "'k \<Rightarrow> bool"
  assumes rd_wr: "ok i \<Longrightarrow> ok j \<Longrightarrow> rd (wr s i v) j = (if i = j then v else rd s j)"
begin

lemma rd_wr_same: "ok i \<Longrightarrow> rd (wr s i v) i = v"
  by (simp add: rd_wr)

lemma rd_wr_other: "ok i \<Longrightarrow> ok j \<Longrightarrow> i \<noteq> j \<Longrightarrow> rd (wr s i v) j = rd s j"
  by (simp add: rd_wr)

text \<open>A loop that writes a set of cells.\<close>

lemma rd_fold:
  assumes "\<forall>i\<in>set is. ok i" and "ok j"
  shows "rd (fold (\<lambda>i s. wr s i (f i)) is s) j = (if j \<in> set is then f j else rd s j)"
  using assms
proof (induction "is" arbitrary: s)
  case Nil
  then show ?case by simp
next
  case (Cons i "is")
  then show ?case by (auto simp: rd_wr)
qed

text \<open>The cells of a list of distinct indices form a list, and a write updates it.\<close>

lemma view_wr:
  assumes "distinct ks" and "i < length ks" and "\<forall>k\<in>set ks. ok k"
  shows "map (rd (wr s (ks ! i) v)) ks = (map (rd s) ks)[i := v]"
proof (rule nth_equalityI)
  fix j assume "j < length (map (rd (wr s (ks ! i) v)) ks)"
  then have j: "j < length ks" by simp
  with assms show "map (rd (wr s (ks ! i) v)) ks ! j = (map (rd s) ks)[i := v] ! j"
    by (auto simp: rd_wr nth_list_update nth_eq_iff_index_eq)
qed simp

lemma view_wr_outside:
  assumes "i \<notin> set ks" and "ok i" and "\<forall>k\<in>set ks. ok k"
  shows "map (rd (wr s i v)) ks = map (rd s) ks"
  using assms by (auto simp: rd_wr)

end

end
