(* ===== verification/Machine.thy ===== *)
theory Machine
  imports Prelude
begin

text \<open>
  Class \<open>Machine\<close> (\<open>machine.C\<close>, \<open>machine.H\<close>, \<open>machine_low.H\<close>): the interrupt flag of EFLAGS, and
  output to I/O ports as a log of the writes in order.  Values read from ports come from the
  devices: the components that read take the input as a parameter.  The stack of values an
  interrupt leaves for its handler is \<open>regs\<close>.
\<close>

text \<open>What an interrupt or exception pushes on the stack, lowest address first.\<close>

record regs =
  reg_gs :: u32
  reg_fs :: u32
  reg_es :: u32
  reg_ds :: u32
  reg_edi :: u32
  reg_esi :: u32
  reg_ebp :: u32
  reg_esp :: u32
  reg_ebx :: u32
  reg_edx :: u32
  reg_ecx :: u32
  reg_eax :: u32
  reg_int_no :: u32
  reg_err_code :: u32
  reg_eip :: u32
  reg_cs :: u32
  reg_eflags :: u32
  reg_useresp :: u32
  reg_ss :: u32

datatype port_write = OutB u16 u8 | OutW u16 u16

record machine_state =
  EFLAGS :: u32
  port_log :: "port_write list"

text \<open>\<open>1 << 9\<close>, the IF bit.\<close>

definition IF_mask :: u32 where
  "IF_mask = push_bit 9 1"

definition interrupts_enabled :: "'a machine_state_scheme \<Rightarrow> bool" where
  "interrupts_enabled s \<longleftrightarrow> EFLAGS s AND IF_mask \<noteq> 0"

text \<open>\<open>sti\<close> and \<open>cli\<close> set and clear the flag.\<close>

definition enable_interrupts :: "'a machine_state_scheme \<Rightarrow> 'a machine_state_scheme outcome" where
  "enable_interrupts s =
     andThen (assert_that (\<not> interrupts_enabled s)) (\<lambda>_.
     Inr (s\<lparr>EFLAGS := EFLAGS s OR IF_mask\<rparr>))"

definition disable_interrupts :: "'a machine_state_scheme \<Rightarrow> 'a machine_state_scheme outcome" where
  "disable_interrupts s =
     andThen (assert_that (interrupts_enabled s)) (\<lambda>_.
     Inr (s\<lparr>EFLAGS := EFLAGS s AND NOT IF_mask\<rparr>))"

definition outportb :: "u16 \<Rightarrow> u8 \<Rightarrow> 'a machine_state_scheme \<Rightarrow> 'a machine_state_scheme" where
  "outportb port data s = s\<lparr>port_log := port_log s @ [OutB port data]\<rparr>"

definition outportw :: "u16 \<Rightarrow> u16 \<Rightarrow> 'a machine_state_scheme \<Rightarrow> 'a machine_state_scheme" where
  "outportw port data s = s\<lparr>port_log := port_log s @ [OutW port data]\<rparr>"

section \<open>The interrupt flag\<close>

lemma bit_IF_mask: "bit IF_mask n \<longleftrightarrow> n = 9"
  by (cases "n < 32") (auto simp: IF_mask_def bit_push_bit_iff bit_1_iff simp del: push_bit_of_1 dest: bit_imp_le_length)

lemma interrupts_enabled_bit: "interrupts_enabled s \<longleftrightarrow> bit (EFLAGS s) 9"
  by (simp add: interrupts_enabled_def IF_mask_def bit_iff_and_push_bit_not_eq_0)

lemma interrupts_simps [simp]:
  "interrupts_enabled (s\<lparr>EFLAGS := v OR IF_mask\<rparr>)"
  "\<not> interrupts_enabled (s\<lparr>EFLAGS := v AND NOT IF_mask\<rparr>)"
  "interrupts_enabled (outportb p b s) = interrupts_enabled s"
  "interrupts_enabled (outportw p w s) = interrupts_enabled s"
  by (simp_all add: interrupts_enabled_bit bit_simps bit_IF_mask outportb_def outportw_def)

lemma enable_disable:
  "enable_interrupts s = (if interrupts_enabled s then Inl Assertion
     else Inr (s\<lparr>EFLAGS := EFLAGS s OR IF_mask\<rparr>))"
  "disable_interrupts s = (if interrupts_enabled s
     then Inr (s\<lparr>EFLAGS := EFLAGS s AND NOT IF_mask\<rparr>) else Inl Assertion)"
  by (simp_all add: enable_interrupts_def disable_interrupts_def)

end
