(* ===== verification/Memory.thy ===== *)
theory Memory
  imports Prelude
begin

text \<open>
  Access to memory in units larger than a byte.  The x86 is little-endian and every
  \<open>unsigned long\<close> the two kernels read or write through a pointer (page table entries, the
  lists of a \<open>VMPool\<close>, a thread's stack) is 4-aligned, so an aligned access never wraps and two
  aligned words either coincide or share no byte.
\<close>

section \<open>Words in memory\<close>

definition load32 :: "memory \<Rightarrow> u32 \<Rightarrow> u32" where
  "load32 m a = ucast (m a) OR push_bit 8 (ucast (m (a + 1)))
     OR push_bit 16 (ucast (m (a + 2))) OR push_bit 24 (ucast (m (a + 3)))"

definition store32 :: "u32 \<Rightarrow> u32 \<Rightarrow> memory \<Rightarrow> memory" where
  "store32 a v m = m(a := ucast v, a + 1 := ucast (drop_bit 8 v),
     a + 2 := ucast (drop_bit 16 v), a + 3 := ucast (drop_bit 24 v))"

definition aligned :: "u32 \<Rightarrow> bool" where
  "aligned a \<longleftrightarrow> unat a mod 4 = 0"

text \<open>The four bytes of the word at \<open>a\<close>.\<close>

definition word_bytes :: "u32 \<Rightarrow> u32 set" where
  "word_bytes a = {a, a + 1, a + 2, a + 3}"

lemma aligned_offset:
  assumes "aligned a" and "i < 4"
  shows "unat (a + word_of_nat i) = unat a + i"
proof -
  have "unat a = 4 * (unat a div 4)" using assms(1) mult_div_mod_eq [of 4 "unat a"] by (simp add: aligned_def)
  moreover have "unat a div 4 < 1073741824" using unat_less_32 [of a] by linarith
  ultimately have "unat a + i < 4294967296" using assms(2) by linarith
  then show ?thesis using assms(2) by (simp add: unat_word_ariths)
qed

lemma aligned_offsets:
  assumes "aligned a"
  shows "unat (a + 1) = unat a + 1" "unat (a + 2) = unat a + 2" "unat (a + 3) = unat a + 3"
  using aligned_offset [OF assms, of 1] aligned_offset [OF assms, of 2]
    aligned_offset [OF assms, of 3] by simp_all

lemma unat_word_bytes: "aligned a \<Longrightarrow> x \<in> word_bytes a \<longleftrightarrow> unat x div 4 = unat a div 4"
proof
  assume "aligned a" "x \<in> word_bytes a"
  then show "unat x div 4 = unat a div 4"
    unfolding aligned_def word_bytes_def using aligned_offsets [of a] by (auto simp: aligned_def)
next
  assume a: "aligned a" and x: "unat x div 4 = unat a div 4"
  have "unat a = 4 * (unat a div 4)" "unat x = 4 * (unat a div 4) + unat x mod 4"
    using a x mult_div_mod_eq [of 4 "unat a"] mult_div_mod_eq [of 4 "unat x"] by (simp_all add: aligned_def)
  moreover have "unat x mod 4 < 4" by simp
  ultimately have "unat x = unat a \<or> unat x = unat a + 1 \<or> unat x = unat a + 2 \<or> unat x = unat a + 3"
    by linarith
  then show "x \<in> word_bytes a"
    using aligned_offsets [OF a] by (auto simp: word_bytes_def word_unat_eq_iff)
qed

lemma aligned_apart:
  assumes "aligned a" and "aligned b" and "a \<noteq> b"
  shows "word_bytes a \<inter> word_bytes b = {}"
proof -
  have "unat a div 4 \<noteq> unat b div 4"
    using assms mult_div_mod_eq [of 4 "unat a"] mult_div_mod_eq [of 4 "unat b"]
    unfolding aligned_def word_unat_eq_iff by linarith
  then show ?thesis using assms by (auto simp: unat_word_bytes)
qed

lemma store32_outside: "x \<notin> word_bytes a \<Longrightarrow> store32 a v m x = m x"
  by (simp add: store32_def word_bytes_def)

lemma load32_cong: "\<forall>x\<in>word_bytes a. m' x = m x \<Longrightarrow> load32 m' a = load32 m a"
  by (simp add: load32_def word_bytes_def)

lemma load32_store32_same:
  assumes "aligned a" shows "load32 (store32 a v m) a = v"
proof -
  have "a \<noteq> a + 1" "a \<noteq> a + 2" "a \<noteq> a + 3" "a + 1 \<noteq> a + 2" "a + 1 \<noteq> a + 3" "a + 2 \<noteq> a + 3"
    using aligned_offsets [OF assms] by (auto simp: word_unat_eq_iff)
  then have "load32 (store32 a v m) a =
      ucast (ucast v :: u8) OR push_bit 8 (ucast (ucast (drop_bit 8 v) :: u8))
      OR push_bit 16 (ucast (ucast (drop_bit 16 v) :: u8))
      OR push_bit 24 (ucast (ucast (drop_bit 24 v) :: u8))"
    by (simp add: load32_def store32_def)
  also have "\<dots> = v"
  proof (rule bit_word_eqI)
    fix n assume n: "n < LENGTH(32)"
    consider "n < 8" | "8 \<le> n" "n < 16" | "16 \<le> n" "n < 24" | "24 \<le> n" by linarith
    then show "bit (ucast (ucast v :: u8)
        OR push_bit 8 (ucast (ucast (drop_bit 8 v) :: u8))
        OR push_bit 16 (ucast (ucast (drop_bit 16 v) :: u8))
        OR push_bit 24 (ucast (ucast (drop_bit 24 v) :: u8)) :: u32) n = bit v n"
      using n by cases (simp_all add: bit_simps, (auto; linarith)+)
  qed
  finally show ?thesis .
qed

lemma load32_store32 [mem_simps]:
  "aligned a \<Longrightarrow> aligned b \<Longrightarrow> load32 (store32 a v m) b = (if a = b then v else load32 m b)"
  using aligned_apart [of a b]
  by (auto simp: load32_store32_same intro!: load32_cong store32_outside)

interpretation words: cell_store load32 "\<lambda>m a v. store32 a v m" aligned
  by unfold_locales (rule load32_store32)

section \<open>Frames of entries\<close>

text \<open>
  Frame \<open>f\<close> seen as an array of 1024 words: the address of entry \<open>i\<close>.  Frame numbers are below
  \<open>2\<^sup>2\<^sup>0\<close>.
\<close>

definition entry_addr :: "nat \<Rightarrow> nat \<Rightarrow> u32" where
  "entry_addr f i = word_of_nat (4096 * f + 4 * i)"

abbreviation (input) frame_bound :: nat where
  "frame_bound \<equiv> 1048576"

definition frame_bytes :: "nat \<Rightarrow> u32 set" where
  "frame_bytes f = {x. unat x div 4096 = f}"

lemma unat_entry_addr:
  "f < frame_bound \<Longrightarrow> i < 1024 \<Longrightarrow> unat (entry_addr f i) = 4096 * f + 4 * i"
  unfolding entry_addr_def by (subst unat_of_nat_32) auto

lemma aligned_entry_addr [simp]:
  "f < frame_bound \<Longrightarrow> i < 1024 \<Longrightarrow> aligned (entry_addr f i)"
  by (simp add: aligned_def unat_entry_addr)

lemma entry_addr_eq:
  assumes "f < frame_bound" "i < 1024" "g < frame_bound" "j < 1024"
  shows "entry_addr f i = entry_addr g j \<longleftrightarrow> f = g \<and> i = j"
proof -
  have "(4096 * f + 4 * i) div 4096 = f" "(4096 * g + 4 * j) div 4096 = g"
    using assms by simp_all
  then have "f = g" if "4096 * f + 4 * i = 4096 * g + 4 * j" using that by metis
  then have "4096 * f + 4 * i = 4096 * g + 4 * j \<longleftrightarrow> f = g \<and> i = j" by auto
  then show ?thesis using assms by (simp add: word_unat_eq_iff unat_entry_addr)
qed

lemma entry_bytes:
  assumes "f < frame_bound" "i < 1024"
  shows "word_bytes (entry_addr f i) \<subseteq> frame_bytes f"
proof
  fix x assume "x \<in> word_bytes (entry_addr f i)"
  then have "unat x div 4 = 1024 * f + i"
    using assms by (simp add: unat_word_bytes unat_entry_addr)
  moreover have "unat x div 4096 = unat x div 4 div 1024" by (simp add: div_mult2_eq [symmetric])
  ultimately have "unat x div 4096 = f" using assms by simp
  then show "x \<in> frame_bytes f" by (simp add: frame_bytes_def)
qed

lemma frame_bytes_disjoint: "f \<noteq> g \<Longrightarrow> frame_bytes f \<inter> frame_bytes g = {}"
  by (auto simp: frame_bytes_def)

definition entry :: "memory \<Rightarrow> nat \<Rightarrow> nat \<Rightarrow> u32" where
  "entry m f i = load32 m (entry_addr f i)"

lemma entry_store32 [mem_simps]:
  "f < frame_bound \<Longrightarrow> i < 1024 \<Longrightarrow> g < frame_bound \<Longrightarrow> j < 1024 \<Longrightarrow>
     entry (store32 (entry_addr f i) v m) g j = (if f = g \<and> i = j then v else entry m g j)"
  by (simp add: entry_def load32_store32 entry_addr_eq)

lemma entry_cong:
  assumes "f < frame_bound" "i < 1024" and "\<forall>x\<in>frame_bytes f. m' x = m x"
  shows "entry m' f i = entry m f i"
  unfolding entry_def using entry_bytes [OF assms(1,2)] assms(3) by (intro load32_cong) auto

end
