(* ===== verification/Utils.thy ===== *)
theory Utils
  imports Memory "HOL-Library.Signed_Division"
begin

text \<open>
  \<open>utils.C\<close>: memory and string operations on flat memory, and the two conversions of numbers to
  decimal text that the console uses.  Counts are natural numbers: every call in the two kernels
  passes a nonnegative one.  \<open>abort\<close> never returns and is the outcome \<open>Inl Assertion\<close> of the
  prelude.  Strings are the bytes up to a terminating 0; \<open>strlen\<close> and \<open>strcpy\<close> may not find one.
\<close>

section \<open>Half words\<close>

definition load16 :: "memory \<Rightarrow> u32 \<Rightarrow> u16" where
  "load16 m a = ucast (m a) OR push_bit 8 (ucast (m (a + 1)))"

definition store16 :: "u32 \<Rightarrow> u16 \<Rightarrow> memory \<Rightarrow> memory" where
  "store16 a v m = m(a := ucast v, a + 1 := ucast (drop_bit 8 v))"

section \<open>Memory operations\<close>

primrec memcpy :: "u32 \<Rightarrow> u32 \<Rightarrow> nat \<Rightarrow> memory \<Rightarrow> memory" where
  "memcpy dest src 0 m = m"
| "memcpy dest src (Suc count) m = memcpy (dest + 1) (src + 1) count (m(dest := m src))"

primrec memset :: "u32 \<Rightarrow> u8 \<Rightarrow> nat \<Rightarrow> memory \<Rightarrow> memory" where
  "memset dest val 0 m = m"
| "memset dest val (Suc count) m = memset (dest + 1) val count (m(dest := val))"

primrec memsetw :: "u32 \<Rightarrow> u16 \<Rightarrow> nat \<Rightarrow> memory \<Rightarrow> memory" where
  "memsetw dest val 0 m = m"
| "memsetw dest val (Suc count) m = memsetw (dest + 2) val count (store16 dest val m)"

section \<open>Strings\<close>

text \<open>\<open>None\<close>: no byte of memory is 0 and the loop never ends.\<close>

partial_function (option) strlen_from :: "memory \<Rightarrow> u32 \<Rightarrow> u32 \<Rightarrow> u32 option" where
  "strlen_from m str len = (if m str \<noteq> 0 then strlen_from m (str + 1) (len + 1) else Some len)"

definition strlen :: "memory \<Rightarrow> u32 \<Rightarrow> u32 option" where
  "strlen m str = strlen_from m str 0"

partial_function (option) strcpy :: "u32 \<Rightarrow> u32 \<Rightarrow> memory \<Rightarrow> memory option" where
  "strcpy dst src m =
     (if m src \<noteq> 0 then strcpy (dst + 1) (src + 1) (m(dst := m src)) else Some (m(dst := 0)))"

section \<open>Numbers as text\<close>

text \<open>
  \<open>temp[1..10]\<close>: the last ten decimal digits of a number, the lowest first, with C's division
  and remainder, which round towards zero.
\<close>

primrec digit_bytes :: "nat \<Rightarrow> int \<Rightarrow> u8 list" where
  "digit_bytes 0 num = []"
| "digit_bytes (Suc k) num = word_of_int (num smod 10 + 48) # digit_bytes k (num sdiv 10)"

text \<open>\<open>for(i = 10; temp[i] == '0'; i--);\<close> which \<open>temp[0] = 0\<close> ends at the latest.\<close>

primrec skip_zeros :: "u8 list \<Rightarrow> nat \<Rightarrow> nat" where
  "skip_zeros temp 0 = 0"
| "skip_zeros temp (Suc i) = (if temp ! Suc i = 48 then skip_zeros temp i else Suc i)"

text \<open>The bytes written to \<open>_str\<close>, the terminating 0 included.\<close>

definition int2str :: "int \<Rightarrow> u8 list" where
  "int2str num =
     (let temp = 0 # digit_bytes 10 num;
          i = skip_zeros temp 10;
          i = (if i = 0 then i + 1 else i)
      in rev (take (i + 1) temp))"

primrec udigit_bytes :: "nat \<Rightarrow> u32 \<Rightarrow> u8 list" where
  "udigit_bytes 0 num = []"
| "udigit_bytes (Suc k) num = (ucast (num mod 10) + 48) # udigit_bytes k (num div 10)"

definition uint2str :: "u32 \<Rightarrow> u8 list" where
  "uint2str num =
     (let temp = 0 # udigit_bytes 10 num;
          i = skip_zeros temp 10;
          i = (if i = 0 then i + 1 else i)
      in rev (take (i + 1) temp))"

section \<open>Copying\<close>

text \<open>
  A forward copy: if the source does not start inside the destination's later part the bytes
  arrive as they were, also when the ranges overlap with the destination in front.
\<close>

lemma memcpy_outside:
  assumes "unat dest + n \<le> 4294967296" and "unat x < unat dest \<or> unat dest + n \<le> unat x"
  shows "memcpy dest src n m x = m x"
  using assms
proof (induction n arbitrary: dest src m)
  case (Suc n)
  have "x \<noteq> dest" using Suc.prems(2) by auto
  show ?case
  proof (cases n)
    case 0
    then show ?thesis using \<open>x \<noteq> dest\<close> by simp
  next
    case (Suc k)
    then have "unat (dest + 1) = unat dest + 1" using Suc.prems(1) by (simp add: unat_word_ariths)
    then have "memcpy (dest + 1) (src + 1) n (m(dest := m src)) x = (m(dest := m src)) x"
      using Suc.prems by (intro Suc.IH) auto
    then show ?thesis using \<open>x \<noteq> dest\<close> by simp
  qed
qed simp

lemma memcpy_forward:
  assumes "unat dest + n \<le> 4294967296" and "unat src + n \<le> 4294967296" and "dest \<le> src" and "i < n"
  shows "memcpy dest src n m (dest + word_of_nat i) = m (src + word_of_nat i)"
  using assms
proof (induction n arbitrary: dest src m i)
  case (Suc n)
  show ?case
  proof (cases n)
    case 0
    then show ?thesis using Suc.prems by simp
  next
    case (Suc k)
    have u: "unat (dest + 1) = unat dest + 1" "unat (src + 1) = unat src + 1"
      using Suc Suc.prems(1,2) by (simp_all add: unat_word_ariths)
    have le: "dest + 1 \<le> src + 1" using Suc.prems(3) u by (simp add: word_le_nat_alt)
    show ?thesis
    proof (cases i)
      case 0
      then show ?thesis
        using memcpy_outside [of "dest + 1" n dest "src + 1"] u Suc.prems(1) by simp
    next
      case (Suc j)
      have ne: "src + word_of_nat i \<noteq> dest"
      proof
        assume "src + word_of_nat i = dest"
        moreover have "unat (src + word_of_nat i) = unat src + i"
          using Suc.prems(2,4) by (simp add: unat_word_ariths)
        ultimately show False using Suc.prems(3) Suc by (simp add: word_le_nat_alt)
      qed
      have e: "dest + 1 + word_of_nat j = dest + word_of_nat i"
          "src + 1 + word_of_nat j = src + word_of_nat i"
        using Suc by simp_all
      have "memcpy (dest + 1) (src + 1) n (m(dest := m src)) (dest + 1 + word_of_nat j)
          = (m(dest := m src)) (src + 1 + word_of_nat j)"
        using u le Suc.prems Suc by (intro Suc.IH) auto
      then show ?thesis using ne unfolding e by simp
    qed
  qed
qed simp

section \<open>Decimal text\<close>

fun decimal :: "nat \<Rightarrow> nat list" where
  "decimal n = (if n < 10 then [n] else decimal (n div 10) @ [n mod 10])"

declare decimal.simps [simp del]

definition digit_char :: "nat \<Rightarrow> u8" where
  "digit_char d = word_of_nat (d + 48)"

text \<open>The digits of \<open>n\<close>, lowest first, \<open>k\<close> of them.\<close>

primrec low_digits :: "nat \<Rightarrow> nat \<Rightarrow> nat list" where
  "low_digits 0 n = []"
| "low_digits (Suc k) n = n mod 10 # low_digits k (n div 10)"

lemma length_low_digits [simp]: "length (low_digits k n) = k"
  by (induction k arbitrary: n) auto

lemma unat_digit_char: "d < 200 \<Longrightarrow> unat (digit_char d) = d + 48"
  unfolding digit_char_def by (subst unat_of_nat) (simp add: take_bit_eq_mod)

lemma digit_bytes_low: "digit_bytes k (int n) = map digit_char (low_digits k n)"
proof (induction k arbitrary: n)
  case (Suc k)
  have "int n smod 10 = int (n mod 10)" "int n sdiv 10 = int (n div 10)"
    by (cases n; simp add: signed_modulo_int_def signed_divide_int_def zmod_int zdiv_int)+
  then show ?case using Suc by (simp add: digit_char_def add.commute)
qed simp

lemma udigit_bytes_low: "udigit_bytes k w = map digit_char (low_digits k (unat w))"
proof (induction k arbitrary: w)
  case (Suc k)
  have u: "unat (w mod 10) = unat w mod 10" by (simp add: unat_mod)
  have "unat (ucast (w mod 10) + 48 :: u8) = unat w mod 10 + 48"
    using u by (simp add: unat_word_ariths unsigned_ucast_eq take_bit_eq_mod)
  then have "ucast (w mod 10) + 48 = digit_char (unat w mod 10)"
    by (simp add: word_unat_eq_iff unat_digit_char)
  then show ?case using Suc by (simp add: unat_div)
qed simp

lemma digit_char_zero: "d < 10 \<Longrightarrow> digit_char d = 48 \<longleftrightarrow> d = 0"
  using unat_digit_char [of d] by (auto simp: word_unat_eq_iff)

lemma low_digits_0: "low_digits k 0 = replicate k 0"
  by (induction k) auto

lemma decimal_digits: "decimal n \<noteq> []" "\<forall>d\<in>set (decimal n). d < 10"
  "0 < n \<Longrightarrow> hd (decimal n) \<noteq> 0"
proof -
  have "decimal n \<noteq> [] \<and> (\<forall>d\<in>set (decimal n). d < 10) \<and> (0 < n \<longrightarrow> hd (decimal n) \<noteq> 0)"
  proof (induction n rule: decimal.induct)
    case (1 n)
    then show ?case by (cases "n < 10") (auto simp: decimal.simps [of n])
  qed
  then show "decimal n \<noteq> []" "\<forall>d\<in>set (decimal n). d < 10" "0 < n \<Longrightarrow> hd (decimal n) \<noteq> 0" by auto
qed

text \<open>The lowest \<open>k\<close> digits are the decimal digits backwards, padded with zeros.\<close>

lemma low_digits_decimal:
  "0 < k \<Longrightarrow> n < 10 ^ k \<Longrightarrow>
     low_digits k n = rev (decimal n) @ replicate (k - length (decimal n)) 0"
proof (induction k arbitrary: n)
  case (Suc k)
  show ?case
  proof (cases "n < 10")
    case True
    then show ?thesis by (simp add: decimal.simps [of n] low_digits_0)
  next
    case False
    then have "0 < k" using Suc.prems by (cases k) auto
    moreover have "n div 10 < 10 ^ k" using Suc.prems(2) by (simp add: less_mult_imp_div_less)
    ultimately show ?thesis using Suc.IH [of "n div 10"] False by (simp add: decimal.simps [of n])
  qed
qed simp

lemma skip_zeros_pad:
  "m \<le> j \<Longrightarrow> skip_zeros (a # xs @ replicate j 48) (length xs + m)
     = skip_zeros (a # xs @ replicate j 48) (length xs)"
  by (induction m) (auto simp: nth_append)

text \<open>What both conversions do with the bytes of the digits.\<close>

lemma significant_digits:
  assumes "n < 10000000000" and t: "temp = 0 # map digit_char (low_digits 10 n)"
    and i: "i = skip_zeros temp 10"
  shows "rev (take ((if i = 0 then i + 1 else i) + 1) temp) = map digit_char (decimal n) @ [0]"
proof -
  let ?xs = "map digit_char (rev (decimal n))" and ?j = "10 - length (decimal n)"
  have z: "digit_char 0 = 48" by (simp add: digit_char_def)
  have low: "low_digits 10 n = rev (decimal n) @ replicate ?j 0"
    using low_digits_decimal [of 10 n] assms(1) by simp
  have temp: "temp = 0 # ?xs @ replicate ?j 48" using t low z by simp
  have "length (low_digits 10 n) = 10" by simp
  then have len: "length ?xs + ?j = 10" using low by (metis length_append length_map length_replicate)
  have i1: "i = skip_zeros temp (length ?xs)"
    using i skip_zeros_pad [OF order_refl, of 0 ?xs ?j] unfolding len temp by (rule trans)
  obtain l where l: "length ?xs = Suc l" using decimal_digits(1) [of n] by (cases "length ?xs") auto
  have last: "temp ! Suc l = digit_char (hd (decimal n))"
    using l decimal_digits(1) [of n] unfolding temp
    by (simp add: nth_append rev_nth hd_conv_nth)
  have "(if i = 0 then i + 1 else i) = Suc l"
  proof (cases "n = 0")
    case True
    then have "l = 0" using l decimal.simps [of 0] by simp
    then show ?thesis using i1 l by auto
  next
    case False
    then have "hd (decimal n) \<noteq> 0" "hd (decimal n) < 10"
      using decimal_digits [of n] by auto
    then show ?thesis using i1 l last digit_char_zero by auto
  qed
  then have "take ((if i = 0 then i + 1 else i) + 1) temp = 0 # ?xs"
    using l by (simp add: temp)
  then show ?thesis by (simp add: rev_map)
qed

lemma int2str_decimal:
  "n < 10000000000 \<Longrightarrow> int2str (int n) = map digit_char (decimal n) @ [0]"
  unfolding int2str_def Let_def
  by (rule significant_digits) (simp_all add: digit_bytes_low)

lemma uint2str_decimal: "uint2str w = map digit_char (decimal (unat w)) @ [0]"
proof -
  have "unat w < 10000000000" using unat_less_32 [of w] by simp
  then show ?thesis
    unfolding uint2str_def Let_def by (rule significant_digits) (simp_all add: udigit_bytes_low)
qed

text \<open>The digits denote the number.\<close>

lemma decimal_value: "foldl (\<lambda>v d. 10 * v + d) 0 (decimal n) = n"
proof (induction n rule: decimal.induct)
  case (1 n)
  then show ?case by (cases "n < 10") (auto simp: decimal.simps [of n])
qed

section \<open>Strings in memory\<close>

definition string_at :: "memory \<Rightarrow> u32 \<Rightarrow> u8 list \<Rightarrow> bool" where
  "string_at m a bs \<longleftrightarrow>
     (\<forall>i<length bs. m (a + word_of_nat i) = bs ! i \<and> bs ! i \<noteq> 0) \<and> m (a + word_of_nat (length bs)) = 0"

lemma string_at_Cons:
  "string_at m a (b # bs) \<longleftrightarrow> m a = b \<and> b \<noteq> 0 \<and> string_at m (a + 1) bs"
  by (auto simp: string_at_def less_Suc_eq_0_disj add.assoc)

lemma string_at_Nil [simp]: "string_at m a [] \<longleftrightarrow> m a = 0"
  by (simp add: string_at_def)

lemma strlen_string: "string_at m a bs \<Longrightarrow> strlen m a = Some (word_of_nat (length bs))"
proof -
  have "string_at m a bs \<Longrightarrow> strlen_from m a len = Some (len + word_of_nat (length bs))" for len
  proof (induction bs arbitrary: a len)
    case Nil
    then show ?case by (simp add: strlen_from.simps [of m a len])
  next
    case (Cons b bs)
    then show ?case by (simp add: strlen_from.simps [of m a len] string_at_Cons add.assoc)
  qed
  then show "string_at m a bs \<Longrightarrow> strlen m a = Some (word_of_nat (length bs))"
    by (simp add: strlen_def)
qed

end
