(* ===== verification/Console.thy ===== *)
theory Console
  imports Machine Utils
begin

text \<open>
  Class \<open>Console\<close> (\<open>console.C\<close>): the text screen of 25 rows of 80 cells in memory from \<open>0xB8000\<close>,
  the cursor, and the copy of the output that is sent to the serial port.  A cell is 16 bits, the
  character below its colours.  Characters are signed bytes, as gcc makes them: one above 127 is
  not printable.

  \<open>puts\<close> takes the bytes of its string up to the terminating 0.

  The lemmas give the screen as a table of cells (\<open>screen\<close>) and show that \<open>putch\<close> implements
  the abstract terminal \<open>term_putch\<close>, keeps the cursor on the screen and writes no byte outside the
  screen's memory.
\<close>

record console_state = machine_state +
  vram :: memory
  attrib :: u32
  csr_x :: int
  csr_y :: int
  textmemptr :: u32
  output_redirected :: bool

text \<open>\<open>textmemptr + i\<close>, a pointer to \<open>unsigned short\<close>.\<close>

definition text_cell :: "'a console_state_scheme \<Rightarrow> u32 \<Rightarrow> u32" where
  "text_cell s i = textmemptr s + 2 * i"

definition redirect_output :: "bool \<Rightarrow> 'a console_state_scheme \<Rightarrow> 'a console_state_scheme" where
  "redirect_output on_off s = s\<lparr>output_redirected := on_off\<rparr>"

definition blank_word :: "'a console_state_scheme \<Rightarrow> u16" where
  "blank_word s = ucast (0x20 OR push_bit 8 (attrib s))"

definition scroll :: "'a console_state_scheme \<Rightarrow> 'a console_state_scheme" where
  "scroll s =
     (if csr_y s \<ge> 25 then
        let temp = word_of_int (csr_y s - 25 + 1) :: u32;
            m1 = memcpy (textmemptr s) (text_cell s (temp * 80)) (unat ((25 - temp) * 80 * 2)) (vram s);
            m2 = memsetw (text_cell s ((25 - temp) * 80)) (blank_word s) 80 m1
        in s\<lparr>vram := m2, csr_y := 25 - 1\<rparr>
      else s)"

definition move_cursor :: "'a console_state_scheme \<Rightarrow> 'a console_state_scheme" where
  "move_cursor s = outportb 0x3D4 15 (outportb 0x3D4 14 s)"

primrec clear_rows :: "nat \<Rightarrow> 'a console_state_scheme \<Rightarrow> memory \<Rightarrow> memory" where
  "clear_rows 0 s m = m"
| "clear_rows (Suc i) s m =
     memsetw (text_cell s (word_of_nat i * 80)) (blank_word s) 80 (clear_rows i s m)"

definition cls :: "'a console_state_scheme \<Rightarrow> 'a console_state_scheme" where
  "cls s = move_cursor (s\<lparr>vram := clear_rows 25 s (vram s), csr_x := 0, csr_y := 0\<rparr>)"

definition set_TextColor :: "u8 \<Rightarrow> u8 \<Rightarrow> 'a console_state_scheme \<Rightarrow> 'a console_state_scheme" where
  "set_TextColor forecolor backcolor s =
     s\<lparr>attrib := push_bit 4 (ucast backcolor) OR (ucast forecolor AND 0x0F)\<rparr>"

definition init_console :: "u8 \<Rightarrow> u8 \<Rightarrow> 'a console_state_scheme \<Rightarrow> 'a console_state_scheme" where
  "init_console fore_color back_color s =
     cls ((set_TextColor fore_color back_color s)\<lparr>csr_x := 0, csr_y := 0, textmemptr := 0xB8000\<rparr>)"

definition serial :: "bool \<Rightarrow> u8 \<Rightarrow> 'a console_state_scheme \<Rightarrow> 'a console_state_scheme" where
  "serial on c s = (if on then outportb 0x3F8 c s else s)"

text \<open>
  The branch for \<open>'\r'\<close> tests \<open>redirect_output\<close>, which is a function and so always true.
\<close>

definition put_char :: "u8 \<Rightarrow> 'a console_state_scheme \<Rightarrow> 'a console_state_scheme" where
  "put_char c s =
     (if c = 0x08 then (if csr_x s \<noteq> 0 then s\<lparr>csr_x := csr_x s - 1\<rparr> else s)
      else if c = 0x09 then s\<lparr>csr_x := (csr_x s + 8) AND NOT (8 - 1)\<rparr>
      else if c = 0x0D then serial True c (s\<lparr>csr_x := 0\<rparr>)
      else if c = 0x0A then serial (output_redirected s) c (s\<lparr>csr_x := 0, csr_y := csr_y s + 1\<rparr>)
      else if sint c \<ge> 0x20 then
        serial (output_redirected s) c
          (s\<lparr>vram := store16 (text_cell s (word_of_int (csr_y s * 80 + csr_x s)))
               (ucast (scast c OR push_bit 8 (attrib s))) (vram s), csr_x := csr_x s + 1\<rparr>)
      else s)"

definition putch :: "u8 \<Rightarrow> 'a console_state_scheme \<Rightarrow> 'a console_state_scheme" where
  "putch c s =
     (let s = put_char c s;
          s = (if csr_x s \<ge> 80 then s\<lparr>csr_x := 0, csr_y := csr_y s + 1\<rparr> else s)
      in move_cursor (scroll s))"

definition puts :: "u8 list \<Rightarrow> 'a console_state_scheme \<Rightarrow> 'a console_state_scheme" where
  "puts str s = fold putch (takeWhile (\<lambda>c. c \<noteq> 0) str) s"

definition puti :: "int \<Rightarrow> 'a console_state_scheme \<Rightarrow> 'a console_state_scheme" where
  "puti n s = puts (int2str n) s"

definition putui :: "u32 \<Rightarrow> 'a console_state_scheme \<Rightarrow> 'a console_state_scheme" where
  "putui n s = putch 0x3E (puts (uint2str n) (putch 0x3C s))"

text \<open>A string literal of the source, without and with a final newline.\<close>

definition bytes :: "string \<Rightarrow> u8 list" where
  "bytes str = map of_char str"

definition print :: "string \<Rightarrow> 'a console_state_scheme \<Rightarrow> 'a console_state_scheme" where
  "print str s = puts (bytes str) s"

definition print_line :: "string \<Rightarrow> 'a console_state_scheme \<Rightarrow> 'a console_state_scheme" where
  "print_line str s = puts (bytes str @ [0x0A]) s"

section \<open>The screen as a table\<close>

abbreviation (input) screen_base :: nat where
  "screen_base \<equiv> 753664"

definition cell_addr :: "nat \<Rightarrow> u32" where
  "cell_addr k = word_of_nat (screen_base + 2 * k)"

lemma unat_cell_addr: "k \<le> 4000 \<Longrightarrow> unat (cell_addr k) = screen_base + 2 * k"
  unfolding cell_addr_def by (subst unat_of_nat_32) simp_all

lemma unat_cell_addr_1: "k \<le> 4000 \<Longrightarrow> unat (cell_addr k + 1) = screen_base + 2 * k + 1"
  using unat_cell_addr [of k] by (simp add: unat_word_ariths)

definition screen_bytes :: "u32 set" where
  "screen_bytes = {x. screen_base \<le> unat x \<and> unat x < screen_base + 4000}"

lemma load16_store16:
  assumes "j \<le> 4000" "k \<le> 4000"
  shows "load16 (store16 (cell_addr k) v m) (cell_addr j) = (if j = k then v else load16 m (cell_addr j))"
proof (cases "j = k")
  case True
  have ne: "cell_addr k \<noteq> cell_addr k + 1"
    using unat_cell_addr [OF assms(2)] unat_cell_addr_1 [OF assms(2)] by (metis Suc_eq_plus1 n_not_Suc_n)
  have "ucast (ucast v :: u8) OR push_bit 8 (ucast (ucast (drop_bit 8 v) :: u8)) = v" for v :: u16
    by (rule bit_word_eqI) (auto simp: bit_simps)
  then show ?thesis using True ne by (simp add: load16_def store16_def)
next
  case False
  note u = unat_cell_addr [OF assms(1)] unat_cell_addr [OF assms(2)]
      unat_cell_addr_1 [OF assms(1)] unat_cell_addr_1 [OF assms(2)]
  have "2 * j \<noteq> Suc (2 * k)" "Suc (2 * j) \<noteq> 2 * k"
    by (simp_all add: double_not_eq_Suc_double Suc_double_not_eq_double)
  then have "cell_addr j \<noteq> cell_addr k" "cell_addr j \<noteq> cell_addr k + 1"
    "cell_addr j + 1 \<noteq> cell_addr k" "cell_addr j + 1 \<noteq> cell_addr k + 1"
    using False u unfolding word_unat_eq_iff by linarith+
  then show ?thesis using False by (simp add: load16_def store16_def)
qed

lemma store16_outside: "k < 2000 \<Longrightarrow> x \<notin> screen_bytes \<Longrightarrow> store16 (cell_addr k) v m x = m x"
  using unat_cell_addr [of k] unat_cell_addr_1 [of k] by (auto simp: store16_def screen_bytes_def)

lemma cell_addr_Suc: "cell_addr k + 2 = cell_addr (Suc k)"
  by (simp add: cell_addr_def)

lemma memsetw_cells:
  "k + n \<le> 2000 \<Longrightarrow> j < 2000 \<Longrightarrow> load16 (memsetw (cell_addr k) v n m) (cell_addr j)
     = (if k \<le> j \<and> j < k + n then v else load16 m (cell_addr j))"
proof (induction n arbitrary: k m)
  case (Suc n)
  then show ?case using Suc.IH [of "Suc k"] by (auto simp: cell_addr_Suc load16_store16)
qed auto

lemma memsetw_outside:
  "k + n \<le> 2000 \<Longrightarrow> x \<notin> screen_bytes \<Longrightarrow> memsetw (cell_addr k) v n m x = m x"
proof (induction n arbitrary: k m)
  case (Suc n)
  then show ?case using Suc.IH [of "Suc k"] by (simp add: cell_addr_Suc store16_outside)
qed simp

section \<open>Scrolling\<close>

text \<open>The cells of the screen, row by row.\<close>

definition cells_of :: "memory \<Rightarrow> nat \<Rightarrow> u16" where
  "cells_of m k = (if k < 2000 then load16 m (cell_addr k) else 0)"

definition roll :: "u16 \<Rightarrow> (nat \<Rightarrow> u16) \<Rightarrow> nat \<Rightarrow> u16" where
  "roll b f k = (if k < 1920 then f (k + 80) else if k < 2000 then b else 0)"

lemma memcpy_row:
  "j < 2000 \<Longrightarrow> load16 (memcpy (cell_addr 0) (cell_addr 80) 3840 m) (cell_addr j)
     = (if j < 1920 then load16 m (cell_addr (j + 80)) else load16 m (cell_addr j))"
proof -
  assume j: "j < 2000"
  let ?m = "memcpy (cell_addr 0) (cell_addr 80) 3840 m"
  have u: "unat (cell_addr 0) = screen_base" "unat (cell_addr 80) = screen_base + 160"
    using unat_cell_addr [of 0] unat_cell_addr [of 80] by simp_all
  have le: "cell_addr 0 \<le> cell_addr 80" using u by (simp add: word_le_nat_alt)
  show ?thesis
  proof (cases "j < 1920")
    case True
    have copy: "?m (cell_addr 0 + word_of_nat i) = m (cell_addr 80 + word_of_nat i)" if "i < 3840" for i
      using that u le by (intro memcpy_forward) simp_all
    have "?m (cell_addr j) = m (cell_addr (j + 80))" "?m (cell_addr j + 1) = m (cell_addr (j + 80) + 1)"
      using True copy [of "2 * j"] copy [of "2 * j + 1"] by (simp_all add: cell_addr_def add.commute add.left_commute)
    then show ?thesis using True by (simp add: load16_def)
  next
    case False
    have "?m x = m x" if "x = cell_addr j \<or> x = cell_addr j + 1" for x
      using that False j u unat_cell_addr [of j] unat_cell_addr_1 [of j] by (intro memcpy_outside) auto
    then show ?thesis using False by (simp add: load16_def)
  qed
qed

lemma memcpy_row_outside:
  "x \<notin> screen_bytes \<Longrightarrow> memcpy (cell_addr 0) (cell_addr 80) 3840 m x = m x"
  using unat_cell_addr [of 0] by (intro memcpy_outside) (auto simp: screen_bytes_def)

definition console_ok :: "'a console_state_scheme \<Rightarrow> bool" where
  "console_ok s \<longleftrightarrow> textmemptr s = 0xB8000 \<and> 0 \<le> csr_x s \<and> csr_x s < 80 \<and> 0 \<le> csr_y s \<and> csr_y s < 25"

lemma text_cell_addr: "textmemptr s = 0xB8000 \<Longrightarrow> text_cell s (word_of_nat k) = cell_addr k"
  by (simp add: text_cell_def cell_addr_def)

lemma scroll_at_end:
  assumes "textmemptr s = 0xB8000" and "csr_y s = 25"
  shows "\<exists>m. scroll s = s\<lparr>vram := m, csr_y := 24\<rparr> \<and> cells_of m = roll (blank_word s) (cells_of (vram s))
    \<and> (\<forall>x. x \<notin> screen_bytes \<longrightarrow> m x = vram s x)"
proof -
  have p: "textmemptr s = cell_addr 0" "text_cell s 80 = cell_addr 80" "text_cell s 1920 = cell_addr 1920"
    using assms(1) by (simp_all add: text_cell_def cell_addr_def)
  let ?m1 = "memcpy (cell_addr 0) (cell_addr 80) 3840 (vram s)"
  let ?m = "memsetw (cell_addr 1920) (blank_word s) 80 ?m1"
  have "scroll s = s\<lparr>vram := ?m, csr_y := 24\<rparr>"
    using assms(2) p by (simp add: scroll_def)
  moreover have "cells_of ?m k = roll (blank_word s) (cells_of (vram s)) k" for k
    using memsetw_cells [of 1920 80 k] memcpy_row [of k] by (auto simp: cells_of_def roll_def)
  then have "cells_of ?m = roll (blank_word s) (cells_of (vram s))" by blast
  moreover have "?m x = vram s x" if "x \<notin> screen_bytes" for x
    using memsetw_outside [of 1920 80 x] memcpy_row_outside [of x] that by simp
  ultimately show ?thesis by blast
qed

lemma scroll_inside: "csr_y s < 25 \<Longrightarrow> scroll s = s"
  by (simp add: scroll_def)

section \<open>The terminal\<close>

type_synonym "terminal" = "(nat \<Rightarrow> u16) \<times> nat \<times> nat"

definition glyph :: "u32 \<Rightarrow> u8 \<Rightarrow> u16" where
  "glyph attr c = ucast (scast c OR push_bit 8 attr)"

definition term_char :: "u32 \<Rightarrow> u8 \<Rightarrow> terminal \<Rightarrow> terminal" where
  "term_char attr c t = (case t of (f, x, y) \<Rightarrow>
     if c = 0x08 then (f, x - 1, y)
     else if c = 0x09 then (f, (x + 8) div 8 * 8, y)
     else if c = 0x0D then (f, 0, y)
     else if c = 0x0A then (f, 0, y + 1)
     else if 0x20 \<le> c \<and> c < 0x80 then (f(80 * y + x := glyph attr c), x + 1, y)
     else (f, x, y))"

definition term_wrap :: "u16 \<Rightarrow> terminal \<Rightarrow> terminal" where
  "term_wrap b t = (case t of (f, x, y) \<Rightarrow>
     let (x, y) = if x \<ge> 80 then (0, y + 1) else (x, y)
     in if y \<ge> 25 then (roll b f, x, 24) else (f, x, y))"

definition term_putch :: "u16 \<Rightarrow> u32 \<Rightarrow> u8 \<Rightarrow> terminal \<Rightarrow> terminal" where
  "term_putch b attr c t = term_wrap b (term_char attr c t)"

definition term_of :: "'a console_state_scheme \<Rightarrow> terminal" where
  "term_of s = (cells_of (vram s), nat (csr_x s), nat (csr_y s))"

text \<open>What \<open>put_char\<close> leaves for the wrapping and scrolling behind it.\<close>

definition half_ok :: "'a console_state_scheme \<Rightarrow> bool" where
  "half_ok s \<longleftrightarrow> textmemptr s = 0xB8000 \<and> 0 \<le> csr_x s \<and> 0 \<le> csr_y s \<and> csr_y s \<le> 25
     \<and> (csr_y s = 25 \<longrightarrow> csr_x s = 0)"

definition same_console :: "'a console_state_scheme \<Rightarrow> 'a console_state_scheme \<Rightarrow> bool" where
  "same_console s s' \<longleftrightarrow> attrib s' = attrib s \<and> textmemptr s' = textmemptr s \<and>
     output_redirected s' = output_redirected s \<and> EFLAGS s' = EFLAGS s \<and>
     (\<forall>x. x \<notin> screen_bytes \<longrightarrow> vram s' x = vram s x)"

lemma serial_simps [simp]:
  "vram (serial b c s) = vram s" "attrib (serial b c s) = attrib s" "csr_x (serial b c s) = csr_x s"
  "csr_y (serial b c s) = csr_y s" "textmemptr (serial b c s) = textmemptr s"
  "output_redirected (serial b c s) = output_redirected s" "EFLAGS (serial b c s) = EFLAGS s"
  by (simp_all add: serial_def outportb_def)

lemma move_cursor_simps [simp]:
  "vram (move_cursor s) = vram s" "attrib (move_cursor s) = attrib s" "csr_x (move_cursor s) = csr_x s"
  "csr_y (move_cursor s) = csr_y s" "textmemptr (move_cursor s) = textmemptr s"
  "output_redirected (move_cursor s) = output_redirected s" "EFLAGS (move_cursor s) = EFLAGS s"
  by (simp_all add: move_cursor_def outportb_def)

lemma tab_stop: "0 \<le> x \<Longrightarrow> nat ((x + 8) AND NOT (8 - 1)) = (nat x + 8) div 8 * 8"
  "0 \<le> x \<Longrightarrow> 0 \<le> (x + 8) AND NOT (8 - 1)" for x :: int
proof -
  have n: "(- 8 :: int) = NOT (mask 3)" by (simp add: mask_eq_exp_minus_1)
  have e: "a AND - 8 = push_bit 3 (drop_bit 3 a)" for a :: int
    unfolding n by (rule bit_eqI) (auto simp: bit_simps)
  have m: "(8 - 1 :: int) = 7" "NOT (7 :: int) = - 8" by simp_all
  show "0 \<le> x \<Longrightarrow> 0 \<le> (x + 8) AND NOT (8 - 1)" unfolding m e by simp
  show "0 \<le> x \<Longrightarrow> nat ((x + 8) AND NOT (8 - 1)) = (nat x + 8) div 8 * 8"
    unfolding m e by (simp add: push_bit_eq_mult drop_bit_eq_div nat_mult_distrib nat_div_distrib nat_add_distrib)
qed

lemma uint_less_256: "uint (c :: u8) < 256"
proof -
  have "uint c < 2 ^ LENGTH(8)" by (rule unsigned_less)
  then show ?thesis by simp
qed

lemma sint_8: "sint (c :: u8) = (if uint c < 128 then uint c else uint c - 256)"
proof -
  have c: "uint c < 256" "0 \<le> uint c" by (rule uint_less_256) simp
  have "bit (uint c) 7 \<longleftrightarrow> \<not> uint c < 128"
  proof (cases "uint c < 128")
    case True
    then have "uint c div 128 = 0" using c by simp
    then show ?thesis using True by (simp add: bit_iff_odd)
  next
    case False
    then have "uint c div 128 = 1" using c by (intro int_div_pos_eq [of _ _ _ "uint c - 128"]) simp_all
    then show ?thesis using False by (simp add: bit_iff_odd)
  qed
  then show ?thesis
    using c by (simp add: sint_uint signed_take_bit_eq_take_bit_minus take_bit_int_eq_self)
qed

lemma printable: "sint (c :: u8) \<ge> 0x20 \<longleftrightarrow> 0x20 \<le> c \<and> c < 0x80"
  using uint_less_256 [of c] by (auto simp: sint_8 word_le_def word_less_def)

lemma put_char_ok:
  assumes "console_ok s"
  shows "half_ok (put_char c s)" and "same_console s (put_char c s)"
    and "term_of (put_char c s) = term_char (attrib s) c (term_of s)"
proof -
  let ?k = "80 * nat (csr_y s) + nat (csr_x s)"
  have ok: "textmemptr s = 0xB8000" "0 \<le> csr_x s" "csr_x s < 80" "0 \<le> csr_y s" "csr_y s < 25"
    using assms by (simp_all add: console_ok_def)
  have k: "?k < 2000" using ok by linarith
  have "word_of_int (csr_y s * 80 + csr_x s) = (word_of_nat ?k :: u32)"
  proof -
    have "csr_y s * 80 + csr_x s = int ?k" using ok by simp
    then show ?thesis by (simp only: of_int_of_nat_eq)
  qed
  then have addr: "text_cell s (word_of_int (csr_y s * 80 + csr_x s)) = cell_addr ?k"
    using text_cell_addr [OF ok(1), of ?k] by simp
  have cells: "cells_of (store16 (cell_addr ?k) v (vram s)) = (cells_of (vram s))(?k := v)" for v
    using k by (auto simp: cells_of_def load16_store16 fun_eq_iff)
  have out: "store16 (cell_addr ?k) v (vram s) x = vram s x" if "x \<notin> screen_bytes" for v x
    using store16_outside [OF k that] .
  show "half_ok (put_char c s)"
    using ok tab_stop [OF ok(2)] by (auto simp: half_ok_def put_char_def)
  show "same_console s (put_char c s)"
    using out unfolding put_char_def addr by (auto simp: same_console_def)
  show "term_of (put_char c s) = term_char (attrib s) c (term_of s)"
    using ok tab_stop [OF ok(2)] cells unfolding put_char_def addr
    by (auto simp: term_of_def term_char_def printable glyph_def nat_add_distrib)
qed

lemma putch_refines:
  assumes ok: "console_ok s"
  shows "term_of (putch c s) = term_putch (blank_word s) (attrib s) c (term_of s)"
    and "console_ok (putch c s)" and "same_console s (putch c s)"
proof -
  define s1 where s1: "s1 = put_char c s"
  define s2 where s2: "s2 = (if csr_x s1 \<ge> 80 then s1\<lparr>csr_x := 0, csr_y := csr_y s1 + 1\<rparr> else s1)"
  note p = put_char_ok [OF ok, of c, folded s1]
  have put: "putch c s = move_cursor (scroll s2)"
    unfolding putch_def Let_def s1 [symmetric] s2 ..
  have h: "textmemptr s2 = 0xB8000" "0 \<le> csr_x s2" "csr_x s2 < 80" "0 \<le> csr_y s2" "csr_y s2 \<le> 25"
    using p(1) by (auto simp: half_ok_def s2)
  have same2: "same_console s s2" using p(2) by (simp add: same_console_def s2)
  have b: "blank_word s2 = blank_word s" using same2 by (simp add: same_console_def blank_word_def)
  have t2: "term_wrap b' (term_of s1) = (if csr_y s2 = 25 then (roll b' (cells_of (vram s2)), nat (csr_x s2), 24)
      else term_of s2)" for b'
    using p(1) h unfolding term_wrap_def term_of_def s2 by (auto simp: half_ok_def nat_add_distrib)
  show "term_of (putch c s) = term_putch (blank_word s) (attrib s) c (term_of s)"
    and "console_ok (putch c s)" and "same_console s (putch c s)"
  proof -
    consider "csr_y s2 = 25" | "csr_y s2 < 25" using h(5) by linarith
    then have "term_of (putch c s) = term_wrap (blank_word s) (term_of s1) \<and> console_ok (putch c s)
        \<and> same_console s (putch c s)"
    proof cases
      case 1
      obtain m where m: "scroll s2 = s2\<lparr>vram := m, csr_y := 24\<rparr>"
          "cells_of m = roll (blank_word s2) (cells_of (vram s2))" "\<forall>x. x \<notin> screen_bytes \<longrightarrow> m x = vram s2 x"
        using scroll_at_end [OF h(1) 1] by blast
      then show ?thesis
        using h same2 b 1 t2 unfolding put by (auto simp: term_of_def console_ok_def same_console_def)
    next
      case 2
      then show ?thesis
        using h same2 t2 scroll_inside [OF 2] unfolding put
        by (auto simp: term_of_def console_ok_def same_console_def)
    qed
    then show "term_of (putch c s) = term_putch (blank_word s) (attrib s) c (term_of s)"
      and "console_ok (putch c s)" and "same_console s (putch c s)"
      using p(3) by (simp_all add: term_putch_def)
  qed
qed

section \<open>Strings, numbers, clearing\<close>

lemma same_console_trans: "same_console s s' \<Longrightarrow> same_console s' s'' \<Longrightarrow> same_console s s''"
  by (simp add: same_console_def)

lemma same_console_blank: "same_console s s' \<Longrightarrow> blank_word s' = blank_word s"
  by (simp add: same_console_def blank_word_def)

lemma puts_refines:
  assumes "console_ok s"
  shows "console_ok (puts str s)" and "same_console s (puts str s)"
    and "term_of (puts str s)
      = fold (term_putch (blank_word s) (attrib s)) (takeWhile (\<lambda>c. c \<noteq> 0) str) (term_of s)"
proof -
  have "console_ok (fold putch cs s) \<and> same_console s (fold putch cs s)
      \<and> term_of (fold putch cs s) = fold (term_putch (blank_word s) (attrib s)) cs (term_of s)"
    if "console_ok s" for cs and s :: "'a console_state_scheme"
    using that
  proof (induction cs arbitrary: s)
    case (Cons c cs)
    note p = putch_refines [OF Cons.prems, of c]
    have "attrib (putch c s) = attrib s" using p(3) by (simp add: same_console_def)
    then show ?case
      using Cons.IH [OF p(2)] p same_console_trans [OF p(3)] same_console_blank [OF p(3)] by simp
  qed (simp add: same_console_def)
  then show "console_ok (puts str s)" and "same_console s (puts str s)"
    and "term_of (puts str s)
      = fold (term_putch (blank_word s) (attrib s)) (takeWhile (\<lambda>c. c \<noteq> 0) str) (term_of s)"
    using assms by (simp_all add: puts_def)
qed

lemma digits_nonzero: "takeWhile (\<lambda>c. c \<noteq> 0) (map digit_char (decimal n) @ [0]) = map digit_char (decimal n)"
proof -
  have "digit_char d \<noteq> 0" if "d < 10" for d
    using unat_digit_char [of d] that by (auto simp: word_unat_eq_iff)
  then show ?thesis using decimal_digits(2) [of n] by (subst takeWhile_append2) auto
qed

lemma puti_decimal: "n < 10000000000 \<Longrightarrow> puti (int n) s = fold putch (map digit_char (decimal n)) s"
  by (simp add: puti_def puts_def int2str_decimal digits_nonzero)

text \<open>Clearing fills all 2000 cells.\<close>

lemma clear_rows_cells:
  assumes "textmemptr s = 0xB8000" and "i \<le> 25"
  shows "cells_of (clear_rows i s m) k = (if k < 80 * i then blank_word s else cells_of m k)"
    and "x \<notin> screen_bytes \<Longrightarrow> clear_rows i s m x = m x"
  using assms(2)
proof (induction i)
  case (Suc i)
  have a: "text_cell s (word_of_nat i * 80) = cell_addr (80 * i)"
    using text_cell_addr [OF assms(1), of "80 * i"] by (simp add: mult.commute)
  { case 1
    then show ?case
      using memsetw_cells [of "80 * i" 80 k "blank_word s" "clear_rows i s m"] Suc.IH(1)
      by (auto simp: a cells_of_def split: if_splits) }
  { case 2
    then show ?case using memsetw_outside [of "80 * i" 80 x] Suc.IH(2) by (simp add: a) }
qed (simp_all add: cells_of_def)

lemma init_console_ok:
  "console_ok (init_console fore back s)"
  "term_of (init_console fore back s)
     = (\<lambda>k. if k < 2000 then blank_word (set_TextColor fore back s) else 0, 0, 0)"
  "x \<notin> screen_bytes \<Longrightarrow> vram (init_console fore back s) x = vram s x"
proof -
  let ?s = "(set_TextColor fore back s)\<lparr>csr_x := 0, csr_y := 0, textmemptr := 0xB8000\<rparr>"
  have p: "textmemptr ?s = 0xB8000" by simp
  note c = clear_rows_cells [OF p order_refl, where m = "vram ?s"]
  have b: "blank_word ?s = blank_word (set_TextColor fore back s)" by (simp add: blank_word_def)
  show "console_ok (init_console fore back s)"
    by (simp add: init_console_def cls_def console_ok_def)
  show "term_of (init_console fore back s)
     = (\<lambda>k. if k < 2000 then blank_word (set_TextColor fore back s) else 0, 0, 0)"
    using c(1) b by (auto simp: init_console_def cls_def term_of_def fun_eq_iff cells_of_def)
  show "x \<notin> screen_bytes \<Longrightarrow> vram (init_console fore back s) x = vram s x"
    using c(2) by (simp add: init_console_def cls_def set_TextColor_def)
qed

section \<open>Everything a message is made of\<close>

text \<open>An invariant of \<open>putch\<close> is one of every message.\<close>

lemma putch_invariant:
  assumes "\<And>c s. f (putch c s) = f s"
  shows "f (puts str s) = f s" "f (puti n s) = f s" "f (putui w s) = f s" "f (print msg s) = f s"
    "f (print_line msg s) = f s"
proof -
  have "f (fold putch cs s) = f s" for cs s
    by (induction cs arbitrary: s) (simp_all add: assms)
  then show "f (puts str s) = f s" "f (puti n s) = f s" "f (putui w s) = f s" "f (print msg s) = f s"
    "f (print_line msg s) = f s"
    by (simp_all add: puts_def puti_def putui_def print_def print_line_def assms)
qed

text \<open>A message does not touch the interrupt flag.\<close>

lemma EFLAGS_putch: "EFLAGS (putch c s) = EFLAGS s"
  by (simp add: putch_def put_char_def scroll_def Let_def)

lemmas EFLAGS_messages [simp] = EFLAGS_putch putch_invariant [where f = EFLAGS, OF EFLAGS_putch]

section \<open>The copy on the serial port\<close>

definition serial_bytes :: "'a machine_state_scheme \<Rightarrow> u8 list" where
  "serial_bytes s = concat (map (\<lambda>w. case w of OutB p b \<Rightarrow> if p = 0x3F8 then [b] else [] | OutW p v \<Rightarrow> [])
     (port_log s))"

lemma serial_bytes_out: "serial_bytes (outportb p b s) = serial_bytes s @ (if p = 0x3F8 then [b] else [])"
  by (simp add: serial_bytes_def outportb_def)

lemma serial_bytes_putch:
  "serial_bytes (putch c s) = serial_bytes s @
     (if c = 0x0D \<or> output_redirected s \<and> (c = 0x0A \<or> 0x20 \<le> c \<and> c < 0x80) then [c] else [])"
proof -
  have same: "serial_bytes (s\<lparr>vram := m, csr_x := x\<rparr>) = serial_bytes s" "serial_bytes (s\<lparr>csr_x := x\<rparr>) = serial_bytes s"
    "serial_bytes (s\<lparr>vram := m\<rparr>) = serial_bytes s"
    "serial_bytes (s\<lparr>csr_x := x, csr_y := y\<rparr>) = serial_bytes s" "serial_bytes (s\<lparr>vram := m, csr_y := y\<rparr>) = serial_bytes s"
    for s :: "'a console_state_scheme" and m x y
    by (simp_all add: serial_bytes_def)
  have "serial_bytes (put_char c s) = serial_bytes s @
     (if c = 0x0D \<or> output_redirected s \<and> (c = 0x0A \<or> 0x20 \<le> c \<and> c < 0x80) then [c] else [])"
    unfolding put_char_def printable by (auto simp: same serial_def serial_bytes_out)
  moreover have "serial_bytes (move_cursor s) = serial_bytes s" "serial_bytes (scroll s) = serial_bytes s"
    for s :: "'a console_state_scheme"
    by (simp_all add: move_cursor_def serial_bytes_out scroll_def Let_def same)
  then have "serial_bytes (putch c s) = serial_bytes (put_char c s)" by (simp add: putch_def Let_def same)
  ultimately show ?thesis by (simp only:)
qed

end
