(* ===== verification/Descriptors.thy ===== *)
theory Descriptors
  imports Console
begin

text \<open>
  The segment and interrupt descriptor tables (\<open>gdt.C\<close>, \<open>idt.C\<close>) and the programming of the two
  interrupt controllers (\<open>irq.C\<close>).  The packed C structs are records with the same fields; the
  addresses of the two tables and of the assembly stubs are fixed by the linker and are parameters.
  \<open>gdt_flush\<close> and \<open>idt_load\<close> (assembly) load the processor's registers from \<open>gp\<close> and \<open>idtp\<close>.

  The decoding functions say what the processor reads out of an entry, and \<open>pic\<close> what an 8259
  interrupt controller does with the bytes it is sent.
\<close>

section \<open>The global descriptor table\<close>

record gdt_entry =
  limit_low :: u16
  base_low :: u16
  base_middle :: u8
  gdt_access :: u8
  granularity :: u8
  base_high :: u8

record table_ptr =
  table_limit :: u16
  table_base :: u32

record idt_entry =
  base_lo :: u16
  sel :: u16
  always0 :: u8
  idt_flags :: u8
  base_hi :: u16

record tables = console_state +
  gdt :: "gdt_entry list"
  gp :: table_ptr
  gdt_register :: table_ptr
  idt :: "idt_entry list"
  idtp :: table_ptr
  idt_register :: table_ptr

definition gdt_gate :: "u32 \<Rightarrow> u32 \<Rightarrow> u8 \<Rightarrow> u8 \<Rightarrow> gdt_entry" where
  "gdt_gate base limit access gran =
     \<lparr> limit_low = ucast (limit AND 0xFFFF),
       base_low = ucast (base AND 0xFFFF),
       base_middle = ucast (drop_bit 16 base AND 0xFF),
       gdt_access = access,
       granularity = ucast (drop_bit 16 limit AND 0x0F) OR (gran AND 0xF0),
       base_high = ucast (drop_bit 24 base AND 0xFF) \<rparr>"

text \<open>\<open>num\<close> is in range in every call.\<close>

definition gdt_set_gate ::
  "nat \<Rightarrow> u32 \<Rightarrow> u32 \<Rightarrow> u8 \<Rightarrow> u8 \<Rightarrow> 'a tables_scheme \<Rightarrow> 'a tables_scheme outcome" where
  "gdt_set_gate num base limit access gran s =
     (if num < length (gdt s) then Inr (s\<lparr>gdt := (gdt s)[num := gdt_gate base limit access gran]\<rparr>)
      else Inl Wild)"

definition gdt_init :: "u32 \<Rightarrow> 'a tables_scheme \<Rightarrow> 'a tables_scheme outcome" where
  "gdt_init gdt_addr s =
     (let s = s\<lparr>gp := \<lparr>table_limit = 8 * 3 - 1, table_base = gdt_addr\<rparr>\<rparr> in
      andThen (gdt_set_gate 0 0 0 0 0 s) (\<lambda>s.
      andThen (gdt_set_gate 1 0 0xFFFFFFFF 0x9A 0xCF s) (\<lambda>s.
      andThen (gdt_set_gate 2 0 0xFFFFFFFF 0x92 0xCF s) (\<lambda>s.
      Inr (s\<lparr>gdt_register := gp s\<rparr>)))))"

text \<open>What the processor reads out of a descriptor.\<close>

definition segment_base :: "gdt_entry \<Rightarrow> u32" where
  "segment_base e = ucast (base_low e) OR push_bit 16 (ucast (base_middle e))
     OR push_bit 24 (ucast (base_high e))"

definition segment_limit :: "gdt_entry \<Rightarrow> u32" where
  "segment_limit e = ucast (limit_low e) OR push_bit 16 (ucast (granularity e AND 0x0F))"

text \<open>The last byte of the segment: bit 7 of the granularity byte scales the limit to pages.\<close>

definition segment_last :: "gdt_entry \<Rightarrow> u32" where
  "segment_last e = (if bit (granularity e) 7 then segment_limit e * 4096 + 4095 else segment_limit e)"

text \<open>The simplifier reads a bit of a word numeral as a bit of the integer numeral.\<close>

lemma bit_masks:
  "bit (0x0F :: int) n \<longleftrightarrow> n < 4"
  "bit (0xFF :: int) n \<longleftrightarrow> n < 8"
  "bit (0xFFFF :: int) n \<longleftrightarrow> n < 16"
  "bit (0xFFFFF :: int) n \<longleftrightarrow> n < 20"
  "bit (0xF0 :: int) n \<longleftrightarrow> 4 \<le> n \<and> n < 8"
proof -
  have m: "(0x0F :: int) = mask 4" "(0xFF :: int) = mask 8" "(0xFFFF :: int) = mask 16"
    "(0xFFFFF :: int) = mask 20" "(0xF0 :: int) = push_bit 4 (mask 4)"
    by (simp_all add: mask_eq_exp_minus_1 push_bit_eq_mult)
  show "bit (0x0F :: int) n \<longleftrightarrow> n < 4" unfolding m by (simp add: bit_mask_iff)
  show "bit (0xFF :: int) n \<longleftrightarrow> n < 8" unfolding m by (simp add: bit_mask_iff)
  show "bit (0xFFFF :: int) n \<longleftrightarrow> n < 16" unfolding m by (simp add: bit_mask_iff)
  show "bit (0xFFFFF :: int) n \<longleftrightarrow> n < 20" unfolding m by (simp add: bit_mask_iff)
  show "bit (0xF0 :: int) n \<longleftrightarrow> 4 \<le> n \<and> n < 8"
    unfolding m by (simp only: bit_push_bit_iff bit_mask_iff) auto
qed

lemmas mask_bits = bit_masks bit_simps

lemma segment_base_gate: "segment_base (gdt_gate base limit access gran) = base"
proof (rule bit_word_eqI)
  fix n assume n: "n < LENGTH(32)"
  consider "n < 16" | "16 \<le> n" "n < 24" | "24 \<le> n" by linarith
  then show "bit (segment_base (gdt_gate base limit access gran)) n = bit base n"
    using n by cases (auto simp: segment_base_def gdt_gate_def mask_bits)
qed

lemma segment_limit_gate: "segment_limit (gdt_gate base limit access gran) = limit AND 0xFFFFF"
proof (rule bit_word_eqI)
  fix n assume n: "n < LENGTH(32)"
  consider "n < 16" | "16 \<le> n" "n < 20" | "20 \<le> n" by linarith
  then show "bit (segment_limit (gdt_gate base limit access gran)) n = bit (limit AND 0xFFFFF) n"
    using n by cases (auto simp: segment_limit_def gdt_gate_def mask_bits)
qed

lemma granularity_gate: "granularity (gdt_gate base limit access gran) AND 0xF0 = gran AND 0xF0"
  by (rule bit_word_eqI) (auto simp: gdt_gate_def mask_bits)

lemma gate_round_trip:
  "segment_base (gdt_gate base limit access gran) = base
   \<and> segment_limit (gdt_gate base limit access gran) = limit AND 0xFFFFF
   \<and> gdt_access (gdt_gate base limit access gran) = access
   \<and> granularity (gdt_gate base limit access gran) AND 0xF0 = gran AND 0xF0"
  unfolding segment_base_gate segment_limit_gate granularity_gate by (simp add: gdt_gate_def)

text \<open>After \<open>GDT::init\<close> the code and the data segment both span the whole address space.\<close>

lemma gdt_init_entries:
  assumes "length (gdt s) = 3"
  shows "gdt_init addr s = Inr (s\<lparr>gp := \<lparr>table_limit = 23, table_base = addr\<rparr>,
    gdt := [gdt_gate 0 0 0 0, gdt_gate 0 0xFFFFFFFF 0x9A 0xCF, gdt_gate 0 0xFFFFFFFF 0x92 0xCF],
    gdt_register := \<lparr>table_limit = 23, table_base = addr\<rparr>\<rparr>)"
proof -
  obtain x y z where g: "gdt s = [x, y, z]"
    using assms by (auto simp: numeral_3_eq_3 length_Suc_conv)
  show ?thesis by (simp add: gdt_init_def gdt_set_gate_def g)
qed

lemma gdt_init_flat:
  assumes "length (gdt s) = 3"
  shows "\<exists>s'. gdt_init addr s = Inr s' \<and> length (gdt s') = 3 \<and> gdt_register s' = gp s'
    \<and> table_base (gp s') = addr \<and> unat (table_limit (gp s')) + 1 = 8 * length (gdt s')
    \<and> map gdt_access (gdt s') = [0, 0x9A, 0x92]
    \<and> map segment_base (gdt s') = [0, 0, 0] \<and> map segment_last (gdt s') = [0, 0xFFFFFFFF, 0xFFFFFFFF]"
proof -
  have hi: "bit (granularity (gdt_gate 0 0xFFFFFFFF a 0xCF)) 7" for a
    by (simp add: gdt_gate_def bit_simps bit_numeral_rec)
  have lo: "\<not> bit (granularity (gdt_gate 0 0 0 0)) 7"
    by (simp add: gdt_gate_def)
  have last: "segment_last (gdt_gate 0 0xFFFFFFFF a 0xCF) = 0xFFFFFFFF" "segment_last (gdt_gate 0 0 0 0) = 0" for a
    unfolding segment_last_def segment_limit_gate using hi [of a] lo by simp_all
  have acc: "gdt_access (gdt_gate b l a g) = a" for b l a g by (simp add: gdt_gate_def)
  show ?thesis unfolding gdt_init_entries [OF assms] by (simp add: last acc segment_base_gate)
qed

section \<open>The interrupt descriptor table\<close>

definition idt_gate :: "u32 \<Rightarrow> u16 \<Rightarrow> u8 \<Rightarrow> idt_entry" where
  "idt_gate base selector flags =
     \<lparr> base_lo = ucast (base AND 0xFFFF), sel = selector, always0 = 0, idt_flags = flags,
       base_hi = ucast (drop_bit 16 base AND 0xFFFF) \<rparr>"

text \<open>The table has 256 entries and \<open>num\<close> is a byte, so it is always in range.\<close>

definition idt_set_gate :: "u8 \<Rightarrow> u32 \<Rightarrow> u16 \<Rightarrow> u8 \<Rightarrow> 'a tables_scheme \<Rightarrow> 'a tables_scheme" where
  "idt_set_gate num base selector flags s =
     (let s = print_line '''' (puti (uint num) (print ''Installing handler in IDT position '' s))
      in s\<lparr>idt := (idt s)[unat num := idt_gate base selector flags]\<rparr>)"

definition idt_init :: "u32 \<Rightarrow> 'a tables_scheme \<Rightarrow> 'a tables_scheme" where
  "idt_init idt_addr s =
     (let s = s\<lparr>idtp := \<lparr>table_limit = 8 * 256 - 1, table_base = idt_addr\<rparr>,
                idt := replicate 256 \<lparr>base_lo = 0, sel = 0, always0 = 0, idt_flags = 0, base_hi = 0\<rparr>\<rparr>
      in s\<lparr>idt_register := idtp s\<rparr>)"

lemma tables_putch:
  "gdt (putch c s) = gdt s" "gp (putch c s) = gp s" "gdt_register (putch c s) = gdt_register s"
  "idt (putch c s) = idt s" "idtp (putch c s) = idtp s" "idt_register (putch c s) = idt_register s"
  by (simp_all add: putch_def put_char_def scroll_def move_cursor_def serial_def outportb_def Let_def)

lemmas tables_messages [simp] = tables_putch
  putch_invariant [where f = gdt, OF tables_putch(1)] putch_invariant [where f = gp, OF tables_putch(2)]
  putch_invariant [where f = gdt_register, OF tables_putch(3)]
  putch_invariant [where f = idt, OF tables_putch(4)] putch_invariant [where f = idtp, OF tables_putch(5)]
  putch_invariant [where f = idt_register, OF tables_putch(6)]

text \<open>What the processor reads: the handler's address, and whether the entry is present.\<close>

definition gate_target :: "idt_entry \<Rightarrow> u32" where
  "gate_target e = ucast (base_lo e) OR push_bit 16 (ucast (base_hi e))"

definition gate_present :: "idt_entry \<Rightarrow> bool" where
  "gate_present e \<longleftrightarrow> bit (idt_flags e) 7"

lemma gate_target_gate: "gate_target (idt_gate base selector flags) = base"
proof (rule bit_word_eqI)
  fix n assume n: "n < LENGTH(32)"
  consider "n < 16" | "16 \<le> n" by linarith
  then show "bit (gate_target (idt_gate base selector flags)) n = bit base n"
    using n by cases (auto simp: gate_target_def idt_gate_def mask_bits)
qed

lemma idt_set_gate_nth:
  assumes "length (idt s) = 256"
  shows "idt (idt_set_gate num base selector flags s) ! unat m
    = (if m = num then idt_gate base selector flags else idt s ! unat m)"
proof -
  have "unat num < 2 ^ LENGTH(8)" by (rule unsigned_less)
  then show ?thesis using assms by (auto simp: idt_set_gate_def Let_def nth_list_update word_unat_eq_iff)
qed

section \<open>The interrupt controllers\<close>

definition irq_remap :: "'a machine_state_scheme \<Rightarrow> 'a machine_state_scheme" where
  "irq_remap s =
     (let s = outportb 0x20 0x11 s; s = outportb 0xA0 0x11 s; s = outportb 0x21 0x20 s;
          s = outportb 0xA1 0x28 s; s = outportb 0x21 0x04 s; s = outportb 0xA1 0x02 s;
          s = outportb 0x21 0x01 s; s = outportb 0xA1 0x01 s; s = outportb 0x21 0x00 s
      in outportb 0xA1 0x00 s)"

definition irq_init :: "'a machine_state_scheme \<Rightarrow> 'a machine_state_scheme" where
  "irq_init s = irq_remap s"

text \<open>
  The 8259: a command byte with bit 4 set starts the initialisation, and the next three data
  bytes are the vector offset, the cascade wiring and the mode; a data byte outside the
  initialisation is the interrupt mask; other command bytes (such as the end of interrupt) leave
  all of this alone.
\<close>

record pic =
  icw_step :: nat
  vector_offset :: u8
  irq_mask :: u8

definition pic_command :: "u8 \<Rightarrow> pic \<Rightarrow> pic" where
  "pic_command v p = (if bit v 4 then p\<lparr>icw_step := 1\<rparr> else p)"

definition pic_data :: "u8 \<Rightarrow> pic \<Rightarrow> pic" where
  "pic_data v p =
     (if icw_step p = 1 then p\<lparr>icw_step := 2, vector_offset := v\<rparr>
      else if icw_step p = 2 then p\<lparr>icw_step := 3\<rparr>
      else if icw_step p = 3 then p\<lparr>icw_step := 0\<rparr>
      else p\<lparr>irq_mask := v\<rparr>)"

primrec pic_run :: "u16 \<Rightarrow> port_write list \<Rightarrow> pic \<Rightarrow> pic" where
  "pic_run base [] p = p"
| "pic_run base (w # ws) p = pic_run base ws
     (case w of OutB port v \<Rightarrow>
        if port = base then pic_command v p else if port = base + 1 then pic_data v p else p
      | OutW port v \<Rightarrow> p)"

lemma pic_run_append: "pic_run base (ws @ vs) p = pic_run base vs (pic_run base ws p)"
  by (induction ws arbitrary: p) simp_all

lemma irq_init_vectors:
  "pic_run 0x20 (port_log (irq_init s)) p = \<lparr>icw_step = 0, vector_offset = 32, irq_mask = 0\<rparr>"
  "pic_run 0xA0 (port_log (irq_init s)) p = \<lparr>icw_step = 0, vector_offset = 40, irq_mask = 0\<rparr>"
proof -
  obtain q q' where q: "pic_run 0x20 (port_log s) p = q" "pic_run 0xA0 (port_log s) p = q'" by simp
  show "pic_run 0x20 (port_log (irq_init s)) p = \<lparr>icw_step = 0, vector_offset = 32, irq_mask = 0\<rparr>"
    by (cases q) (simp add: irq_init_def irq_remap_def outportb_def Let_def pic_run_append q
        pic_command_def pic_data_def bit_numeral_rec)
  show "pic_run 0xA0 (port_log (irq_init s)) p = \<lparr>icw_step = 0, vector_offset = 40, irq_mask = 0\<rparr>"
    by (cases q') (simp add: irq_init_def irq_remap_def outportb_def Let_def pic_run_append q
        pic_command_def pic_data_def bit_numeral_rec)
qed

end
