(* ===== verification/Dispatch.thy ===== *)
theory Dispatch
  imports Descriptors
begin

text \<open>
  The exception dispatcher (\<open>exceptions.C\<close>) and the interrupt dispatcher (\<open>interrupts.C\<close>).  A
  handler object is named by a number; the virtual method \<open>handle_exception\<close> or
  \<open>handle_interrupt\<close> of the object is the parameter \<open>handle\<close>, which takes the object, the saved
  registers and the state.  The addresses of the assembly stubs are the parameters \<open>isr\<close> and
  \<open>irq\<close>; each stub pushes its number and calls the dispatcher.  \<open>abort()\<close> is the outcome
  \<open>Inl Assertion\<close>.  The frame of the lemmas is \<open>end_of_interrupts\<close>, the end-of-interrupt
  commands the two controllers have been sent, which \<open>deliver\<close> composes with the vector table.
\<close>

record dispatcher = tables +
  exception_table :: "nat option list"
  interrupt_table :: "nat option list"

abbreviation (input) EXCEPTION_TABLE_SIZE :: nat where "EXCEPTION_TABLE_SIZE \<equiv> 32"
abbreviation (input) IRQ_TABLE_SIZE :: nat where "IRQ_TABLE_SIZE \<equiv> 16"
abbreviation (input) IRQ_BASE :: nat where "IRQ_BASE \<equiv> 32"

section \<open>Exceptions\<close>

definition init_exceptions :: "(nat \<Rightarrow> u32) \<Rightarrow> 'a dispatcher_scheme \<Rightarrow> 'a dispatcher_scheme" where
  "init_exceptions isr s =
     (let s = fold (\<lambda>n. idt_set_gate (word_of_nat n) (isr n) 0x08 0x8E) [0..<32] s
      in s\<lparr>exception_table := replicate EXCEPTION_TABLE_SIZE None\<rparr>)"

definition dispatch_exception ::
  "(nat \<Rightarrow> regs \<Rightarrow> 'a dispatcher_scheme \<Rightarrow> 'a dispatcher_scheme outcome) \<Rightarrow> regs
     \<Rightarrow> 'a dispatcher_scheme \<Rightarrow> 'a dispatcher_scheme outcome" where
  "dispatch_exception handle r s =
     (let exc_no = reg_int_no r;
          s = print_line '''' (putui exc_no (print ''EXCEPTION DISPATCHER: exc_no = '' s)) in
      andThen (assert_that (unat exc_no < EXCEPTION_TABLE_SIZE)) (\<lambda>_.
      case exception_table s ! unat exc_no of
        None \<Rightarrow> Inl Assertion
      | Some h \<Rightarrow> handle h r s))"

definition register_exception_handler ::
  "u32 \<Rightarrow> nat \<Rightarrow> 'a dispatcher_scheme \<Rightarrow> 'a dispatcher_scheme outcome" where
  "register_exception_handler isr_code h s =
     andThen (assert_that (unat isr_code < EXCEPTION_TABLE_SIZE)) (\<lambda>_.
     let s = s\<lparr>exception_table := (exception_table s)[unat isr_code := Some h]\<rparr>
     in Inr (print_line '''' (putui isr_code (print ''Installed exception handler at ISR '' s))))"

definition deregister_exception_handler ::
  "u32 \<Rightarrow> 'a dispatcher_scheme \<Rightarrow> 'a dispatcher_scheme outcome" where
  "deregister_exception_handler isr_code s =
     andThen (assert_that (unat isr_code < EXCEPTION_TABLE_SIZE)) (\<lambda>_.
     let s = s\<lparr>exception_table := (exception_table s)[unat isr_code := None]\<rparr>
     in Inr (print_line '''' (putui isr_code (print ''UNINSTALLED exception handler at ISR '' s))))"

section \<open>Interrupts\<close>

definition init_interrupts :: "(nat \<Rightarrow> u32) \<Rightarrow> 'a dispatcher_scheme \<Rightarrow> 'a dispatcher_scheme" where
  "init_interrupts irq s =
     (let s = fold (\<lambda>n. idt_set_gate (word_of_nat (n + IRQ_BASE)) (irq n) 0x08 0x8E) [0..<16] s
      in s\<lparr>interrupt_table := replicate IRQ_TABLE_SIZE None\<rparr>)"

definition generated_by_slave_PIC :: "u32 \<Rightarrow> bool" where
  "generated_by_slave_PIC int_no \<longleftrightarrow> int_no > 7"

text \<open>The second kernel has the end of the dispatcher as a function of its own.\<close>

definition set_EOI :: "regs \<Rightarrow> 'a machine_state_scheme \<Rightarrow> 'a machine_state_scheme" where
  "set_EOI r s =
     (let int_no = reg_int_no r - 32;
          s = (if generated_by_slave_PIC int_no then outportb 0xA0 0x20 s else s)
      in outportb 0x20 0x20 s)"

definition dispatch_interrupt ::
  "(nat \<Rightarrow> regs \<Rightarrow> 'a dispatcher_scheme \<Rightarrow> 'a dispatcher_scheme outcome) \<Rightarrow> regs
     \<Rightarrow> 'a dispatcher_scheme \<Rightarrow> 'a dispatcher_scheme outcome" where
  "dispatch_interrupt handle r s =
     (let int_no = reg_int_no r - 32 in
      andThen (assert_that (unat int_no < IRQ_TABLE_SIZE)) (\<lambda>_.
      andThen (case interrupt_table s ! unat int_no of
          None \<Rightarrow> Inr (print_line ''NO DEFAULT INTERRUPT HANDLER REGISTERED''
            (print_line '''' (puti (sint int_no) (print ''INTERRUPT NO: '' s))))
        | Some h \<Rightarrow> handle h r s) (\<lambda>s.
      let s = (if generated_by_slave_PIC int_no then outportb 0xA0 0x20 s else s)
      in Inr (outportb 0x20 0x20 s))))"

text \<open>
  What the assembly stubs call.  The virtual methods are parameters here, as in the dispatchers.
\<close>

definition lowlevel_dispatch_exception ::
  "(nat \<Rightarrow> regs \<Rightarrow> 'a dispatcher_scheme \<Rightarrow> 'a dispatcher_scheme outcome) \<Rightarrow> regs
     \<Rightarrow> 'a dispatcher_scheme \<Rightarrow> 'a dispatcher_scheme outcome" where
  "lowlevel_dispatch_exception handle r s = dispatch_exception handle r s"

definition lowlevel_dispatch_interrupt ::
  "(nat \<Rightarrow> regs \<Rightarrow> 'a dispatcher_scheme \<Rightarrow> 'a dispatcher_scheme outcome) \<Rightarrow> regs
     \<Rightarrow> 'a dispatcher_scheme \<Rightarrow> 'a dispatcher_scheme outcome" where
  "lowlevel_dispatch_interrupt handle r s = dispatch_interrupt handle r s"

definition register_interrupt_handler ::
  "u32 \<Rightarrow> nat \<Rightarrow> 'a dispatcher_scheme \<Rightarrow> 'a dispatcher_scheme outcome" where
  "register_interrupt_handler irq_code h s =
     andThen (assert_that (unat irq_code < IRQ_TABLE_SIZE)) (\<lambda>_.
     let s = s\<lparr>interrupt_table := (interrupt_table s)[unat irq_code := Some h]\<rparr>
     in Inr (print_line '''' (putui irq_code (print ''Installed interrupt handler at IRQ '' s))))"

definition deregister_interrupt_handler ::
  "u32 \<Rightarrow> 'a dispatcher_scheme \<Rightarrow> 'a dispatcher_scheme outcome" where
  "deregister_interrupt_handler irq_code s =
     andThen (assert_that (unat irq_code < IRQ_TABLE_SIZE)) (\<lambda>_.
     let s = s\<lparr>interrupt_table := (interrupt_table s)[unat irq_code := None]\<rparr>
     in Inr (print_line '''' (putui irq_code (print ''UNINSTALLED interrupt handler at IRQ '' s))))"

section \<open>Messages leave the tables alone\<close>

lemma dispatcher_putch:
  "exception_table (putch c s) = exception_table s" "interrupt_table (putch c s) = interrupt_table s"
  by (simp_all add: putch_def put_char_def scroll_def move_cursor_def serial_def outportb_def Let_def)

lemmas dispatcher_messages [simp] = dispatcher_putch
  putch_invariant [where f = exception_table, OF dispatcher_putch(1)]
  putch_invariant [where f = interrupt_table, OF dispatcher_putch(2)]

lemma dispatcher_outportb [simp]:
  "exception_table (outportb p b s) = exception_table s" "interrupt_table (outportb p b s) = interrupt_table s"
  "idt (outportb p b s) = idt s" "idt_register (outportb p b s) = idt_register s"
  by (simp_all add: outportb_def)

lemma length_idt_set_gate [simp]: "length (idt (idt_set_gate n a sl f s)) = length (idt s)"
  by (simp add: idt_set_gate_def Let_def)

lemma idt_set_gate_simps [simp]:
  "exception_table (idt_set_gate n a sl f s) = exception_table s"
  "interrupt_table (idt_set_gate n a sl f s) = interrupt_table s"
  "idt_register (idt_set_gate n a sl f s) = idt_register s"
  "EFLAGS (idt_set_gate n a sl f s) = EFLAGS s"
  by (simp_all add: idt_set_gate_def Let_def)

text \<open>A run of gates: the entries from \<open>base\<close> on point at the stubs, the others are as they were.\<close>

definition set_gates :: "nat \<Rightarrow> (nat \<Rightarrow> u32) \<Rightarrow> nat \<Rightarrow> 'a tables_scheme \<Rightarrow> 'a tables_scheme" where
  "set_gates base stub k s = fold (\<lambda>n. idt_set_gate (word_of_nat (n + base)) (stub n) 0x08 0x8E) [0..<k] s"

lemma set_gates_Suc:
  "set_gates base stub (Suc k) s = idt_set_gate (word_of_nat (k + base)) (stub k) 0x08 0x8E (set_gates base stub k s)"
  by (simp add: set_gates_def)

lemma set_gates_idt:
  assumes "length (idt s) = 256" and "base + k \<le> 256"
  shows "length (idt (set_gates base stub k s)) = 256"
    and "idt (set_gates base stub k s) ! unat (m :: u8)
      = (if base \<le> unat m \<and> unat m < base + k then idt_gate (stub (unat m - base)) 0x08 0x8E else idt s ! unat m)"
  using assms(2)
proof (induction k arbitrary: m)
  case 0
  { case 1 then show ?case by (simp add: set_gates_def assms) }
  { case 2 then show ?case by (auto simp: set_gates_def) }
next
  case (Suc k)
  have u: "unat (word_of_nat (k + base) :: u8) = k + base"
    if "Suc k + base \<le> 256" using that by (subst unat_of_nat) (simp add: take_bit_eq_mod)
  { case 1 then show ?case using Suc.IH(1) by (simp add: set_gates_Suc) }
  { case 2
    then have len: "length (idt (set_gates base stub k s)) = 256" using Suc.IH(1) by simp
    have "m = word_of_nat (k + base) \<longleftrightarrow> unat m = k + base" using u 2 by (auto simp: word_unat_eq_iff)
    then show ?case
      unfolding set_gates_Suc idt_set_gate_nth [OF len] using 2 Suc.IH(2) [of m] by auto }
qed

lemma set_gates_simps [simp]:
  "exception_table (set_gates base stub k s) = exception_table s"
  "interrupt_table (set_gates base stub k s) = interrupt_table s"
  "idt_register (set_gates base stub k s) = idt_register s"
  "EFLAGS (set_gates base stub k s) = EFLAGS s"
  by (induction k) (simp_all add: set_gates_Suc, simp_all add: set_gates_def)

lemma init_gates:
  "init_exceptions isr s = (set_gates 0 isr 32 s)\<lparr>exception_table := replicate 32 None\<rparr>"
  "init_interrupts irq s = (set_gates 32 irq 16 s)\<lparr>interrupt_table := replicate 16 None\<rparr>"
  by (simp_all add: init_exceptions_def init_interrupts_def set_gates_def Let_def)

section \<open>Installing and removing handlers\<close>

text \<open>Both dispatchers are tables of handlers under this contract.\<close>

locale handler_table =
  fixes size :: nat
    and entries :: "'s \<Rightarrow> nat option list"
    and register :: "u32 \<Rightarrow> nat \<Rightarrow> 's \<Rightarrow> 's outcome"
    and deregister :: "u32 \<Rightarrow> 's \<Rightarrow> 's outcome"
  assumes register_ok: "unat n < size \<Longrightarrow> \<exists>s'. register n h s = Inr s' \<and> entries s' = (entries s)[unat n := Some h]"
    and register_bad: "size \<le> unat n \<Longrightarrow> register n h s = Inl Assertion"
    and deregister_ok: "unat n < size \<Longrightarrow> \<exists>s'. deregister n s = Inr s' \<and> entries s' = (entries s)[unat n := None]"
    and deregister_bad: "size \<le> unat n \<Longrightarrow> deregister n s = Inl Assertion"
begin

lemma registered:
  assumes "register n h s = Inr s'" and "length (entries s) = size"
  shows "unat n < size" and "length (entries s') = size"
    and "k < size \<Longrightarrow> entries s' ! k = (if k = unat n then Some h else entries s ! k)"
proof -
  show n: "unat n < size" using assms(1) register_bad [of n h s] by (cases "unat n < size") auto
  show "length (entries s') = size" "k < size \<Longrightarrow> entries s' ! k = (if k = unat n then Some h else entries s ! k)"
    using register_ok [OF n, of h s] assms by (auto simp: nth_list_update)
qed

lemma deregistered:
  assumes "deregister n s = Inr s'" and "length (entries s) = size"
  shows "unat n < size" and "length (entries s') = size"
    and "k < size \<Longrightarrow> entries s' ! k = (if k = unat n then None else entries s ! k)"
proof -
  show n: "unat n < size" using assms(1) deregister_bad [of n s] by (cases "unat n < size") auto
  show "length (entries s') = size" "k < size \<Longrightarrow> entries s' ! k = (if k = unat n then None else entries s ! k)"
    using deregister_ok [OF n, of s] assms by (auto simp: nth_list_update)
qed

lemma register_deregister:
  assumes "unat n < size" and "entries s ! unat n = None"
  shows "\<exists>s1 s2. register n h s = Inr s1 \<and> deregister n s1 = Inr s2 \<and> entries s2 = entries s"
proof -
  obtain s1 where s1: "register n h s = Inr s1" "entries s1 = (entries s)[unat n := Some h]"
    using register_ok [OF assms(1)] by blast
  obtain s2 where "deregister n s1 = Inr s2" "entries s2 = (entries s1)[unat n := None]"
    using deregister_ok [OF assms(1)] by blast
  then show ?thesis using s1 assms(2) by (metis list_update_id list_update_overwrite)
qed

end

interpretation exceptions: handler_table 32 exception_table register_exception_handler deregister_exception_handler
  by unfold_locales (simp_all add: register_exception_handler_def deregister_exception_handler_def Let_def)

interpretation interrupts: handler_table 16 interrupt_table register_interrupt_handler deregister_interrupt_handler
  by unfold_locales (simp_all add: register_interrupt_handler_def deregister_interrupt_handler_def Let_def)

section \<open>Dispatching\<close>

text \<open>The end-of-interrupt commands for line \<open>i\<close>: to the slave controller, if it raised it, then to the master.\<close>

definition eoi :: "nat \<Rightarrow> port_write list" where
  "eoi i = (if 7 < i then [OutB 0xA0 0x20] else []) @ [OutB 0x20 0x20]"

lemma unat_line: "i < 16 \<Longrightarrow> unat (32 + word_of_nat i - 32 :: u32) = i"
  by (simp add: unat_of_nat_32)

lemma slave_line: "i < 16 \<Longrightarrow> generated_by_slave_PIC (32 + word_of_nat i - 32) \<longleftrightarrow> 7 < i"
  unfolding generated_by_slave_PIC_def word_less_nat_alt using unat_line [of i] by simp

lemma set_EOI_eoi:
  "i < 16 \<Longrightarrow> reg_int_no r = 32 + word_of_nat i \<Longrightarrow> set_EOI r s = s\<lparr>port_log := port_log s @ eoi i\<rparr>"
  using slave_line [of i] by (simp add: set_EOI_def Let_def outportb_def eoi_def)

lemma dispatch_interrupt_line:
  assumes "i < 16" and "reg_int_no r = 32 + word_of_nat i"
  shows "dispatch_interrupt handle r s =
    andThen (case interrupt_table s ! i of
        None \<Rightarrow> Inr (print_line ''NO DEFAULT INTERRUPT HANDLER REGISTERED''
            (print_line '''' (puti (int i) (print ''INTERRUPT NO: '' s))))
      | Some h \<Rightarrow> handle h r s) (\<lambda>s. Inr (s\<lparr>port_log := port_log s @ eoi i\<rparr>))"
proof -
  let ?n = "32 + word_of_nat i - 32 :: u32"
  have "sint ?n = sint (word_of_int (int i) :: u32)" by simp
  also have "\<dots> = int i" using assms(1) by (subst signed_of_int) (simp add: signed_take_bit_int_eq_self)
  finally have s: "sint ?n = int i" .
  show ?thesis
    unfolding dispatch_interrupt_def Let_def assms(2) unat_line [OF assms(1)] slave_line [OF assms(1)] s
    using assms(1) by (simp add: outportb_def eoi_def cong: option.case_cong)
qed

lemma dispatch_interrupt_bad:
  "16 \<le> unat (reg_int_no r - 32) \<Longrightarrow> dispatch_interrupt handle r s = Inl Assertion"
  by (simp add: dispatch_interrupt_def Let_def)

lemma dispatch_exception_number:
  assumes "unat (reg_int_no r) < 32"
  shows "dispatch_exception handle r s =
    (case exception_table s ! unat (reg_int_no r) of None \<Rightarrow> Inl Assertion
     | Some h \<Rightarrow> handle h r (print_line '''' (putui (reg_int_no r) (print ''EXCEPTION DISPATCHER: exc_no = '' s))))"
  using assms by (simp add: dispatch_exception_def Let_def)

section \<open>From the interrupt line to the stub\<close>

text \<open>The vector the controllers put on the bus for a line, after the bytes they were sent.\<close>

definition vector_of :: "pic \<Rightarrow> 'a machine_state_scheme \<Rightarrow> nat \<Rightarrow> u8" where
  "vector_of p s i =
     (if i < 8 then vector_offset (pic_run 0x20 (port_log s) p) + word_of_nat i
      else vector_offset (pic_run 0xA0 (port_log s) p) + word_of_nat (i - 8))"

lemma pic_run_putch: "base = 0x20 \<or> base = 0xA0 \<Longrightarrow>
    pic_run base (port_log (putch c s)) p = pic_run base (port_log s) p"
  by (auto simp: putch_def put_char_def scroll_def move_cursor_def serial_def outportb_def Let_def pic_run_append)

lemmas pic_run_messages = putch_invariant [where f = "\<lambda>s. pic_run base (port_log s) p" for base p, OF pic_run_putch]

lemma pic_run_gates:
  "base = 0x20 \<or> base = 0xA0 \<Longrightarrow> pic_run base (port_log (set_gates b stub k s)) p = pic_run base (port_log s) p"
  by (induction k) (simp_all add: set_gates_Suc idt_set_gate_def Let_def pic_run_messages, simp add: set_gates_def)

end
