(* ===== verification/Mem_Pool.thy ===== *)
theory Mem_Pool
  imports Dispatch Memory
begin

text \<open>
  Memory of the second kernel: \<open>FramePool\<close> (\<open>frame_pool.C\<close>), which hands out frames in order and
  takes none back, and \<open>MemPool\<close> (\<open>mem_pool.C\<close>), which does the same with bytes.  \<open>kernel.C\<close>
  makes \<open>new\<close> and \<open>delete\<close> of \<open>System::MEMORY_POOL\<close>'s operations.  There is one pool of each kind.
\<close>

record mem_state = dispatcher +
  next_free_frame :: u32
  start_address :: u32

section \<open>Frames\<close>

definition FramePool :: "'a mem_state_scheme \<Rightarrow> 'a mem_state_scheme" where
  "FramePool s = s\<lparr>next_free_frame := 0x200000\<rparr>"

definition get_frame :: "'a mem_state_scheme \<Rightarrow> u32 \<times> 'a mem_state_scheme" where
  "get_frame s =
     (let new_frame = next_free_frame s
      in (new_frame, s\<lparr>next_free_frame := next_free_frame s + 4096\<rparr>))"

definition release_frame :: "u32 \<Rightarrow> 'a mem_state_scheme \<Rightarrow> 'a mem_state_scheme" where
  "release_frame frame_address s = s"

section \<open>Bytes\<close>

text \<open>The loop that takes the frames after the first.\<close>

primrec take_frames :: "nat \<Rightarrow> 'a mem_state_scheme \<Rightarrow> 'a mem_state_scheme" where
  "take_frames 0 s = s"
| "take_frames (Suc n) s = take_frames n (snd (get_frame s))"

definition MemPool :: "int \<Rightarrow> 'a mem_state_scheme \<Rightarrow> 'a mem_state_scheme" where
  "MemPool n_frames s =
     (let s = print ''Allocating Memory Pool... '' s;
          (addr, s) = get_frame s;
          s = s\<lparr>start_address := addr\<rparr>;
          s = take_frames (nat (n_frames - 1)) s
      in print_line ''done'' s)"

definition allocate_bytes :: "u32 \<Rightarrow> 'a mem_state_scheme \<Rightarrow> u32 \<times> 'a mem_state_scheme" where
  "allocate_bytes size0 s =
     (let return_address = start_address s
      in (return_address, s\<lparr>start_address := start_address s + size0\<rparr>))"

definition release_bytes :: "u32 \<Rightarrow> 'a mem_state_scheme \<Rightarrow> 'a mem_state_scheme" where
  "release_bytes start s = s"

text \<open>\<open>operator new\<close> and \<open>operator delete\<close>, for objects and arrays alike.\<close>

definition operator_new :: "u32 \<Rightarrow> 'a mem_state_scheme \<Rightarrow> u32 \<times> 'a mem_state_scheme" where
  "operator_new size0 s = allocate_bytes size0 s"

definition operator_new_array :: "u32 \<Rightarrow> 'a mem_state_scheme \<Rightarrow> u32 \<times> 'a mem_state_scheme" where
  "operator_new_array size0 s = allocate_bytes size0 s"

definition operator_delete :: "u32 \<Rightarrow> 'a mem_state_scheme \<Rightarrow> 'a mem_state_scheme" where
  "operator_delete p s = release_bytes p s"

definition operator_delete_array :: "u32 \<Rightarrow> 'a mem_state_scheme \<Rightarrow> 'a mem_state_scheme" where
  "operator_delete_array p s = release_bytes p s"

lemmas heap_operators = operator_new_def operator_new_array_def operator_delete_def operator_delete_array_def
  allocate_bytes_def release_bytes_def

section \<open>What is handed out\<close>

lemma take_frames_eq: "take_frames n s = s\<lparr>next_free_frame := next_free_frame s + word_of_nat n * 4096\<rparr>"
  by (induction n arbitrary: s) (simp_all add: get_frame_def algebra_simps)

lemma mem_putch:
  "next_free_frame (putch c s) = next_free_frame s" "start_address (putch c s) = start_address s"
  by (simp_all add: putch_def put_char_def scroll_def move_cursor_def serial_def outportb_def Let_def)

lemmas mem_messages [simp] = mem_putch
  putch_invariant [where f = next_free_frame, OF mem_putch(1)]
  putch_invariant [where f = start_address, OF mem_putch(2)]

lemma MemPool_range:
  assumes "0 < n"
  shows "start_address (MemPool (int n) s) = next_free_frame s"
    and "next_free_frame (MemPool (int n) s) = next_free_frame s + word_of_nat n * 4096"
proof -
  obtain k where k: "n = Suc k" using assms by (cases n) auto
  then have "nat (int n - 1) = k" by simp
  then show "start_address (MemPool (int n) s) = next_free_frame s"
    "next_free_frame (MemPool (int n) s) = next_free_frame s + word_of_nat n * 4096"
    by (simp_all add: MemPool_def get_frame_def take_frames_eq Let_def k distrib_right add.assoc)
qed

text \<open>A run of allocations of the given sizes and the addresses they return.\<close>

primrec allocate_all :: "u32 list \<Rightarrow> 'a mem_state_scheme \<Rightarrow> u32 list \<times> 'a mem_state_scheme" where
  "allocate_all [] s = ([], s)"
| "allocate_all (n # ns) s =
     (case allocate_bytes n s of (a, s) \<Rightarrow> case allocate_all ns s of (as, s) \<Rightarrow> (a # as, s))"

definition bytes_total :: "u32 list \<Rightarrow> nat" where
  "bytes_total ns = sum_list (map unat ns)"

lemma total_simps [simp]: "bytes_total [] = 0" "bytes_total (n # ns) = unat n + bytes_total ns"
  by (simp_all add: bytes_total_def)

lemma bytes_total_before:
  assumes "i < j" and "j \<le> length ns"
  shows "bytes_total (take i ns) + unat (ns ! i) \<le> bytes_total (take j ns)"
proof -
  have "take j ns = take (Suc i) ns @ take (j - Suc i) (drop (Suc i) ns)"
    using assms(1) take_add [of "Suc i" "j - Suc i" ns] by simp
  moreover have "take (Suc i) ns = take i ns @ [ns ! i]" using assms by (intro take_Suc_conv_app_nth) simp
  ultimately show ?thesis by (simp add: bytes_total_def)
qed

text \<open>As long as the addresses do not wrap, the blocks follow each other without overlap.\<close>

lemma allocate_all_addresses:
  assumes "unat (start_address s) + bytes_total ns \<le> 4294967295"
  shows "\<exists>as s'. allocate_all ns s = (as, s') \<and> length as = length ns
    \<and> (\<forall>i<length ns. unat (as ! i) = unat (start_address s) + bytes_total (take i ns))
    \<and> unat (start_address s') = unat (start_address s) + bytes_total ns"
  using assms
proof (induction ns arbitrary: s)
  case (Cons n ns)
  let ?s = "s\<lparr>start_address := start_address s + n\<rparr>"
  have u: "unat (start_address ?s) = unat (start_address s) + unat n"
    using Cons.prems by (simp add: unat_word_ariths)
  then have prem: "unat (start_address ?s) + bytes_total ns \<le> 4294967295" using Cons.prems by simp
  obtain as s' where r: "allocate_all ns ?s = (as, s')" "length as = length ns"
    "\<forall>i<length ns. unat (as ! i) = unat (start_address ?s) + bytes_total (take i ns)"
    "unat (start_address s') = unat (start_address ?s) + bytes_total ns"
    using Cons.IH [OF prem] by (elim exE conjE)
  have "allocate_all (n # ns) s = (start_address s # as, s')"
    using r(1) by (simp add: allocate_bytes_def Let_def)
  moreover have "unat ((start_address s # as) ! i) = unat (start_address s) + bytes_total (take i (n # ns))"
    if "i < length (n # ns)" for i
    using that r(3) u by (cases i) auto
  ultimately show ?case using r(2,4) u by auto
qed simp

end
