(* ===== verification/Thread.thy ===== *)
theory Thread
  imports Mem_Pool
begin

text \<open>
  Class \<open>Thread\<close> (\<open>thread.C\<close>) and the context switch of \<open>threads_low.asm\<close>.  Threads are named
  by the address of their control block; the blocks are \<open>thread_objs\<close> and the stacks are bytes of
  \<open>ram\<close>.  The fields \<open>priority\<close> and \<open>cargo\<close> are never written by the code (\<open>cargo\<close> is left
  uninitialised by the constructor); the destructor reads \<open>cargo\<close>.  The addresses of
  \<open>thread_start\<close> and \<open>thread_shutdown\<close> are parameters.

  \<open>dispatch_to\<close> returns when the thread is switched back in: what the other threads do until
  then is the parameter \<open>run_others\<close>, applied to the state in which the other thread starts to run.
\<close>

record thread_obj =
  thread_esp :: u32
  thread_id :: int
  thread_stack :: u32
  thread_stack_size :: u32
  thread_priority :: int
  thread_cargo :: u32

record thread_state = mem_state +
  ram :: memory
  thread_objs :: "u32 \<Rightarrow> thread_obj option"
  nextFreePid :: int
  current_thread :: u32

section \<open>Building a context\<close>

definition push :: "u32 \<Rightarrow> u32 \<times> memory \<Rightarrow> u32 \<times> memory" where
  "push val p = (case p of (esp, m) \<Rightarrow> let esp = esp - 4 in (esp, store32 esp val m))"

text \<open>The words that \<open>setup_context\<close> pushes, in order.\<close>

definition context_words :: "u32 \<Rightarrow> u32 \<Rightarrow> u32 \<Rightarrow> u32 list" where
  "context_words thread_start thread_shutdown tfunction =
     [0, thread_shutdown, tfunction,
      0, 0x08, thread_start,
      0, 0,
      0, 0, 0, 0, 0, 0, 0, 0,
      0x10, 0x10, 0, 0]"

definition setup_context ::
  "u32 \<Rightarrow> u32 \<Rightarrow> u32 \<Rightarrow> u32 \<Rightarrow> 'a thread_state_scheme \<Rightarrow> 'a thread_state_scheme outcome" where
  "setup_context thread_start thread_shutdown this tfunction s =
     (case thread_objs s this of
        None \<Rightarrow> Inl Wild
      | Some t \<Rightarrow>
          (case fold push (context_words thread_start thread_shutdown tfunction) (thread_esp t, ram s) of
             (esp, m) \<Rightarrow>
               let s = s\<lparr>ram := m, thread_objs := (thread_objs s)(this \<mapsto> t\<lparr>thread_esp := esp\<rparr>)\<rparr>;
                   s = print_line '''' (putui esp (print ''esp = '' s))
               in Inr (print_line ''done'' s)))"

text \<open>The constructor at the address \<open>this\<close>; \<open>old\<close> is what the memory of the object held before.\<close>

definition Thread ::
  "u32 \<Rightarrow> u32 \<Rightarrow> u32 \<Rightarrow> thread_obj \<Rightarrow> u32 \<Rightarrow> u32 \<Rightarrow> u32 \<Rightarrow> 'a thread_state_scheme
     \<Rightarrow> 'a thread_state_scheme outcome" where
  "Thread thread_start thread_shutdown this old tf stack0 size0 s =
     (let t = old\<lparr>thread_id := nextFreePid s, thread_esp := stack0 + size0,
                  thread_stack := stack0, thread_stack_size := size0\<rparr>;
          s = s\<lparr>nextFreePid := nextFreePid s + 1, thread_objs := (thread_objs s)(this \<mapsto> t)\<rparr>
      in setup_context thread_start thread_shutdown this tf s)"

text \<open>The destructor; after it the object is gone.\<close>

definition destroy_Thread :: "u32 \<Rightarrow> 'a thread_state_scheme \<Rightarrow> 'a thread_state_scheme outcome" where
  "destroy_Thread this s =
     (case thread_objs s this of
        None \<Rightarrow> Inl Wild
      | Some t \<Rightarrow>
          let s = (if thread_stack t \<noteq> 0 then operator_delete_array (thread_stack t) s else s);
              s = (if thread_cargo t \<noteq> 0 then operator_delete_array (thread_cargo t) s else s);
              s = (if thread_esp t \<noteq> 0 then operator_delete (thread_esp t) s else s)
          in Inr (s\<lparr>thread_objs := (thread_objs s)(this := None)\<rparr>))"

definition ThreadId :: "u32 \<Rightarrow> 'a thread_state_scheme \<Rightarrow> int outcome" where
  "ThreadId this s = (case thread_objs s this of None \<Rightarrow> Inl Wild | Some t \<Rightarrow> Inr (thread_id t))"

definition CurrentThread :: "'a thread_state_scheme \<Rightarrow> u32" where
  "CurrentThread s = current_thread s"

definition dispatch_to ::
  "('a thread_state_scheme \<Rightarrow> 'a thread_state_scheme outcome) \<Rightarrow> u32 \<Rightarrow> 'a thread_state_scheme
     \<Rightarrow> 'a thread_state_scheme outcome" where
  "dispatch_to run_others thread s = run_others (s\<lparr>current_thread := thread\<rparr>)"

definition thread_start :: "'a machine_state_scheme \<Rightarrow> 'a machine_state_scheme outcome" where
  "thread_start s = (if \<not> interrupts_enabled s then enable_interrupts s else Inr s)"

section \<open>The other side: loading a context\<close>

text \<open>
  What \<open>restore_registers\<close> and \<open>iret\<close> of \<open>threads_low.asm\<close> take from the stack at \<open>esp\<close>: the
  saved registers as \<open>regs\<close>, and the stack pointer they leave.
\<close>

definition stack_word :: "memory \<Rightarrow> u32 \<Rightarrow> nat \<Rightarrow> u32" where
  "stack_word m esp i = load32 m (esp + word_of_nat (4 * i))"

definition load_context :: "memory \<Rightarrow> u32 \<Rightarrow> regs" where
  "load_context m esp =
     \<lparr> reg_gs = stack_word m esp 0, reg_fs = stack_word m esp 1, reg_es = stack_word m esp 2,
       reg_ds = stack_word m esp 3, reg_edi = stack_word m esp 4, reg_esi = stack_word m esp 5,
       reg_ebp = stack_word m esp 6, reg_esp = stack_word m esp 7, reg_ebx = stack_word m esp 8,
       reg_edx = stack_word m esp 9, reg_ecx = stack_word m esp 10, reg_eax = stack_word m esp 11,
       reg_int_no = stack_word m esp 12, reg_err_code = stack_word m esp 13,
       reg_eip = stack_word m esp 14, reg_cs = stack_word m esp 15, reg_eflags = stack_word m esp 16,
       reg_useresp = stack_word m esp 17, reg_ss = stack_word m esp 18 \<rparr>"

text \<open>Within one privilege level \<open>iret\<close> pops three words, so the stack continues at word 17.\<close>

section \<open>Pushing\<close>

lemma fold_push:
  assumes "aligned esp" and "4 * length ws \<le> unat esp"
  shows "\<exists>m'. fold push ws (esp, m) = (esp - word_of_nat (4 * length ws), m')
    \<and> (\<forall>i<length ws. load32 m' (esp - word_of_nat (4 * Suc i)) = ws ! i)
    \<and> (\<forall>x. unat x < unat esp - 4 * length ws \<or> unat esp \<le> unat x \<longrightarrow> m' x = m x)"
  using assms
proof (induction ws arbitrary: esp m)
  case (Cons w ws)
  have "(4 :: u32) \<le> esp" using Cons.prems(2) by (simp add: word_le_nat_alt)
  then have u: "unat (esp - 4) = unat esp - 4" by (simp add: unat_sub)
  have al: "aligned (esp - 4)" using Cons.prems unfolding aligned_def u by presburger
  have le: "4 * length ws \<le> unat (esp - 4)" using Cons.prems(2) u by simp
  obtain m' where m': "fold push ws (esp - 4, store32 (esp - 4) w m) = (esp - 4 - word_of_nat (4 * length ws), m')"
    "\<forall>i<length ws. load32 m' (esp - 4 - word_of_nat (4 * Suc i)) = ws ! i"
    "\<forall>x. unat x < unat (esp - 4) - 4 * length ws \<or> unat (esp - 4) \<le> unat x \<longrightarrow> m' x = store32 (esp - 4) w m x"
    using Cons.IH [OF al le, of "store32 (esp - 4) w m"] by (elim exE conjE)
  have bytes: "unat x \<ge> unat (esp - 4) \<and> unat x < unat esp" if "x \<in> word_bytes (esp - 4)" for x
    using that aligned_offsets [OF al] u \<open>4 \<le> esp\<close> unfolding word_bytes_def by (auto simp: word_le_nat_alt)
  have "load32 m' (esp - 4) = load32 (store32 (esp - 4) w m) (esp - 4)"
    using m'(3) bytes by (intro load32_cong) blast
  then have first: "load32 m' (esp - 4) = w" using al by (simp add: load32_store32_same)
  have "load32 m' (esp - word_of_nat (4 * Suc i)) = (w # ws) ! i" if "i < length (w # ws)" for i
  proof (cases i)
    case (Suc j)
    have e: "esp - word_of_nat (4 * Suc i) = esp - 4 - word_of_nat (4 * Suc j)" using Suc by simp
    show ?thesis unfolding e using m'(2) [rule_format, of j] that Suc by simp
  qed (use first in simp)
  moreover have "m' x = m x" if x: "unat x < unat esp - 4 * length (w # ws) \<or> unat esp \<le> unat x" for x
  proof -
    have "unat x < unat (esp - 4) - 4 * length ws \<or> unat (esp - 4) \<le> unat x" using x u by auto
    moreover have "x \<notin> word_bytes (esp - 4)" using bytes [of x] x u Cons.prems(2) by auto
    ultimately show ?thesis using m'(3) store32_outside [of x "esp - 4" w m] by auto
  qed
  moreover have "fold push (w # ws) (esp, m) = (esp - word_of_nat (4 * length (w # ws)), m')"
    using m'(1) by (simp add: push_def Let_def)
  ultimately show ?case by blast
qed simp

section \<open>A new thread\<close>

lemma thread_putch:
  "ram (putch c s) = ram s" "thread_objs (putch c s) = thread_objs s" "nextFreePid (putch c s) = nextFreePid s"
  "current_thread (putch c s) = current_thread s"
  by (simp_all add: putch_def put_char_def scroll_def move_cursor_def serial_def outportb_def Let_def)

lemmas thread_messages [simp] = thread_putch
  putch_invariant [where f = ram, OF thread_putch(1)] putch_invariant [where f = thread_objs, OF thread_putch(2)]
  putch_invariant [where f = nextFreePid, OF thread_putch(3)]
  putch_invariant [where f = current_thread, OF thread_putch(4)]

text \<open>The context of a new thread, as the context switch will load it.\<close>

definition new_context :: "u32 \<Rightarrow> u32 \<Rightarrow> u32 \<Rightarrow> memory \<Rightarrow> u32 \<Rightarrow> bool" where
  "new_context start shutdown tf m esp \<longleftrightarrow>
     reg_eip (load_context m esp) = start \<and> reg_cs (load_context m esp) = 0x08 \<and> reg_eflags (load_context m esp) = 0
     \<and> reg_ds (load_context m esp) = 0x10 \<and> reg_es (load_context m esp) = 0x10
     \<and> stack_word m esp 17 = tf \<and> stack_word m esp 18 = shutdown \<and> stack_word m esp 19 = 0"

lemma context_loads:
  assumes "aligned sp" and "80 \<le> unat sp"
  shows "\<exists>m'. fold push (context_words start shutdown tf) (sp, m) = (sp - 80, m')
    \<and> new_context start shutdown tf m' (sp - 80)
    \<and> (\<forall>x. unat x < unat sp - 80 \<or> unat sp \<le> unat x \<longrightarrow> m' x = m x)"
proof -
  let ?ws = "context_words start shutdown tf"
  have len: "length ?ws = 20" by (simp add: context_words_def)
  then have room: "4 * length ?ws \<le> unat sp" using assms(2) by simp
  obtain m' where m': "fold push ?ws (sp, m) = (sp - word_of_nat (4 * length ?ws), m')"
    "\<forall>i<length ?ws. load32 m' (sp - word_of_nat (4 * Suc i)) = ?ws ! i"
    "\<forall>x. unat x < unat sp - 4 * length ?ws \<or> unat sp \<le> unat x \<longrightarrow> m' x = m x"
    using fold_push [OF assms(1) room, of m] by (elim exE conjE)
  have word: "stack_word m' (sp - 80) i = ?ws ! (19 - i)" if "i < 20" for i
  proof -
    have e: "sp - 80 + word_of_nat (4 * i) = sp - word_of_nat (4 * Suc (19 - i))"
      using that by (simp add: of_nat_diff algebra_simps)
    show ?thesis unfolding stack_word_def e using m'(2) [rule_format, of "19 - i"] len by simp
  qed
  have "new_context start shutdown tf m' (sp - 80)"
    by (simp add: new_context_def load_context_def word context_words_def)
  then show ?thesis using m'(1,3) len by simp
qed

lemma Thread_ok:
  assumes al: "aligned (stack0 + size0)" and room: "80 \<le> unat size0"
    and wrap: "unat stack0 + unat size0 \<le> 4294967295"
  shows "\<exists>s' t. Thread start shutdown this old tf stack0 size0 s = Inr s'
    \<and> thread_objs s' = (thread_objs s)(this \<mapsto> t) \<and> thread_id t = nextFreePid s \<and> nextFreePid s' = nextFreePid s + 1
    \<and> thread_stack t = stack0 \<and> thread_stack_size t = size0 \<and> thread_esp t = stack0 + size0 - 80
    \<and> new_context start shutdown tf (ram s') (thread_esp t)
    \<and> (\<forall>x. unat x < unat stack0 \<or> unat stack0 + unat size0 \<le> unat x \<longrightarrow> ram s' x = ram s x)
    \<and> current_thread s' = current_thread s \<and> start_address s' = start_address s"
proof -
  have u: "unat (stack0 + size0) = unat stack0 + unat size0" using wrap by (simp add: unat_word_ariths)
  have "80 \<le> unat (stack0 + size0)" using u room by simp
  then obtain m' where m': "fold push (context_words start shutdown tf) (stack0 + size0, ram s) = (stack0 + size0 - 80, m')"
    "new_context start shutdown tf m' (stack0 + size0 - 80)"
    "\<forall>x. unat x < unat (stack0 + size0) - 80 \<or> unat (stack0 + size0) \<le> unat x \<longrightarrow> m' x = ram s x"
    using context_loads [OF al, of start shutdown tf "ram s"] by auto
  have "m' x = ram s x" if "unat x < unat stack0 \<or> unat stack0 + unat size0 \<le> unat x" for x
    using m'(3) that room unfolding u by auto
  then show ?thesis
    using m'(1,2) by (simp add: Thread_def setup_context_def Let_def)
      (rule exI [of _ "old\<lparr>thread_id := nextFreePid s, thread_stack := stack0,
        thread_stack_size := size0, thread_esp := stack0 + size0 - 80\<rparr>"], simp)
qed

text \<open>The destructor reads \<open>cargo\<close>, which the constructor leaves as it was.\<close>

lemma destroy_Thread_eq:
  "thread_objs s this = Some t \<Longrightarrow> destroy_Thread this s = Inr (s\<lparr>thread_objs := (thread_objs s)(this := None)\<rparr>)"
  by (simp add: destroy_Thread_def heap_operators Let_def)

text \<open>Thread functions run with interrupts on.\<close>

lemma thread_start_enables: "\<exists>s'. thread_start s = Inr s' \<and> interrupts_enabled s'"
  by (cases "interrupts_enabled s") (simp_all add: thread_start_def enable_disable)

end
