(* ===== verification/Simple_Disk.thy ===== *)
theory Simple_Disk
  imports Thread
begin

text \<open>
  Class \<open>SimpleDisk\<close> (\<open>simple_disk.C\<close>): blocks of 512 bytes, read and written with programmed I/O
  on the registers of an ATA controller.  What the controller returns is the parameter
  \<open>port_input\<close> of the state: the value of the \<open>n\<close>-th input, whatever port it is from.  The virtual
  method \<open>wait_while_busy\<close> is a parameter of the operations that call it; \<open>SimpleDisk\<close>'s own
  spins until the status is not busy, for ever if the disk stays busy.

  The lemmas say what the controller is told (\<open>ata_run\<close> decodes the register writes), what ends
  up in the buffer, and that the words of a write are the bytes a read would give back.
\<close>

record disk_state = thread_state +
  port_input :: "nat \<Rightarrow> u16 \<Rightarrow> u16"
  port_reads :: nat
  disk_size :: u32

datatype disk_operation = READ | WRITE

section \<open>Ports\<close>

definition inportb :: "u16 \<Rightarrow> 'a disk_state_scheme \<Rightarrow> u8 \<times> 'a disk_state_scheme" where
  "inportb port s = (ucast (port_input s (port_reads s) port), s\<lparr>port_reads := port_reads s + 1\<rparr>)"

definition inportw :: "u16 \<Rightarrow> 'a disk_state_scheme \<Rightarrow> u16 \<times> 'a disk_state_scheme" where
  "inportw port s = (port_input s (port_reads s) port, s\<lparr>port_reads := port_reads s + 1\<rparr>)"

section \<open>The registers\<close>

definition SimpleDisk :: "u32 \<Rightarrow> 'a disk_state_scheme \<Rightarrow> 'a disk_state_scheme" where
  "SimpleDisk size0 s = s\<lparr>disk_size := size0\<rparr>"

definition NaiveSize :: "'a disk_state_scheme \<Rightarrow> u32" where
  "NaiveSize s = disk_size s"

abbreviation (input) ATA_REG_COMMAND :: u8 where "ATA_REG_COMMAND \<equiv> 0x07"
abbreviation (input) ATA_REG_ALTSTATUS :: u8 where "ATA_REG_ALTSTATUS \<equiv> 0x0C"
abbreviation (input) ATA_CMD_CACHE_FLUSH :: u8 where "ATA_CMD_CACHE_FLUSH \<equiv> 0xE7"
abbreviation (input) ATA_STATUS_BSY :: u8 where "ATA_STATUS_BSY \<equiv> 0x80"
abbreviation (input) ATA_STATUS_DF :: u8 where "ATA_STATUS_DF \<equiv> 0x20"
abbreviation (input) ATA_STATUS_DRQ :: u8 where "ATA_STATUS_DRQ \<equiv> 0x08"
abbreviation (input) ATA_STATUS_ERR :: u8 where "ATA_STATUS_ERR \<equiv> 0x01"

text \<open>A register number from 0x16 on leaves \<open>result\<close> uninitialised.\<close>

definition ide_read_register :: "u8 \<Rightarrow> 'a disk_state_scheme \<Rightarrow> (u8 \<times> 'a disk_state_scheme) outcome" where
  "ide_read_register reg s =
     (if reg < 0x08 then Inr (inportb (0x1F0 + ucast reg - 0x00) s)
      else if reg < 0x0C then Inr (inportb (0x1F0 + ucast reg - 0x06) s)
      else if reg < 0x0E then Inr (inportb (0x3F6 + ucast reg - 0x0A) s)
      else if reg < 0x16 then Inr (inportb (0x00 + ucast reg - 0x0E) s)
      else Inl Wild)"

definition ide_write_register :: "u8 \<Rightarrow> u8 \<Rightarrow> 'a machine_state_scheme \<Rightarrow> 'a machine_state_scheme" where
  "ide_write_register reg data s =
     (if reg < 0x08 then outportb (0x1F0 + ucast reg - 0x00) data s
      else if reg < 0x0C then outportb (0x1F0 + ucast reg - 0x06) data s
      else if reg < 0x0E then outportb (0x3F6 + ucast reg - 0x0A) data s
      else if reg < 0x16 then outportb (0x00 + ucast reg - 0x0E) data s
      else s)"

definition get_status :: "'a disk_state_scheme \<Rightarrow> u8 \<times> 'a disk_state_scheme" where
  "get_status s = inportb 0x1F7 s"

definition is_busy :: "'a disk_state_scheme \<Rightarrow> bool \<times> 'a disk_state_scheme" where
  "is_busy s = (case get_status s of (status, s) \<Rightarrow> (status AND ATA_STATUS_BSY \<noteq> 0, s))"

partial_function (option) busy_loop :: "'a disk_state_scheme \<Rightarrow> 'a disk_state_scheme option" where
  "busy_loop s = (case is_busy s of (busy, s) \<Rightarrow> if busy then busy_loop s else Some s)"

definition wait_while_busy :: "'a disk_state_scheme \<Rightarrow> 'a disk_state_scheme outcome" where
  "wait_while_busy s = of_loop (busy_loop s)"

section \<open>Commands\<close>

text \<open>The first argument is the method \<open>wait_while_busy\<close> of the object.\<close>

definition ide_polling ::
  "('a disk_state_scheme \<Rightarrow> 'a disk_state_scheme outcome) \<Rightarrow> bool \<Rightarrow> 'a disk_state_scheme
     \<Rightarrow> (u8 \<times> 'a disk_state_scheme) outcome" where
  "ide_polling wait advanced_check s =
     andThen (for_each (\<lambda>i s. andThen (ide_read_register ATA_REG_ALTSTATUS s) (\<lambda>(_, s). Inr s)) [0..<4] s) (\<lambda>s.
     andThen (wait s) (\<lambda>s.
     if advanced_check then
       case get_status s of (state, s) \<Rightarrow>
         if state AND ATA_STATUS_ERR \<noteq> 0 then Inr (2, s)
         else if state AND ATA_STATUS_DF \<noteq> 0 then Inr (1, s)
         else if state AND ATA_STATUS_DRQ = 0 then Inr (3, s)
         else Inr (0, s)
     else Inr (0, s)))"

definition ide_ata_issue_command ::
  "('a disk_state_scheme \<Rightarrow> 'a disk_state_scheme outcome) \<Rightarrow> disk_operation \<Rightarrow> u32 \<Rightarrow> 'a disk_state_scheme
     \<Rightarrow> 'a disk_state_scheme outcome" where
  "ide_ata_issue_command wait operation block_no s =
     andThen (wait s) (\<lambda>s.
     let s = outportb 0x1F2 0x01 s;
         s = outportb 0x1F3 (ucast block_no) s;
         s = outportb 0x1F4 (ucast (drop_bit 8 block_no)) s;
         s = outportb 0x1F5 (ucast (drop_bit 16 block_no)) s;
         s = outportb 0x1F6 (ucast (drop_bit 24 block_no) AND 0x0F OR 0xE0 OR push_bit 4 0) s
     in Inr (outportb 0x1F7 (if operation = READ then 0x20 else 0x30) s))"

primrec read_words :: "nat \<Rightarrow> u32 \<Rightarrow> 'a disk_state_scheme \<Rightarrow> 'a disk_state_scheme" where
  "read_words 0 buf s = s"
| "read_words (Suc i) buf s =
     (let s = read_words i buf s;
          (tmpw, s) = inportw 0x1F0 s
      in s\<lparr>ram := (ram s)(buf + word_of_nat (i * 2) := ucast tmpw,
             buf + word_of_nat (i * 2 + 1) := ucast (drop_bit 8 tmpw))\<rparr>)"

definition disk_read ::
  "('a disk_state_scheme \<Rightarrow> 'a disk_state_scheme outcome) \<Rightarrow> u32 \<Rightarrow> u32 \<Rightarrow> 'a disk_state_scheme
     \<Rightarrow> 'a disk_state_scheme outcome" where
  "disk_read wait block_no buf s =
     andThen (ide_ata_issue_command wait READ block_no s) (\<lambda>s.
     andThen (ide_polling wait True s) (\<lambda>(r, s).
     andThen (assert_that (r = 0)) (\<lambda>_.
     Inr (read_words 256 buf s))))"

primrec write_words :: "nat \<Rightarrow> u32 \<Rightarrow> 'a disk_state_scheme \<Rightarrow> 'a disk_state_scheme" where
  "write_words 0 buf s = s"
| "write_words (Suc i) buf s =
     (let s = write_words i buf s;
          tmpw = ucast (ram s (buf + word_of_nat (2 * i)))
                 OR push_bit 8 (ucast (ram s (buf + word_of_nat (2 * i + 1))))
      in outportw 0x1F0 tmpw s)"

definition disk_write ::
  "('a disk_state_scheme \<Rightarrow> 'a disk_state_scheme outcome) \<Rightarrow> u32 \<Rightarrow> u32 \<Rightarrow> 'a disk_state_scheme
     \<Rightarrow> 'a disk_state_scheme outcome" where
  "disk_write wait block_no buf s =
     andThen (ide_ata_issue_command wait WRITE block_no s) (\<lambda>s.
     andThen (ide_polling wait False s) (\<lambda>(r, s).
     andThen (assert_that (r = 0)) (\<lambda>_.
     let s = write_words 256 buf s;
         s = ide_write_register ATA_REG_COMMAND ATA_CMD_CACHE_FLUSH s
     in andThen (ide_polling wait False s) (\<lambda>(r, s).
        andThen (assert_that (r = 0)) (\<lambda>_. Inr s)))))"

section \<open>Waiting\<close>

text \<open>Input \<open>n\<close>, read as a status.\<close>

definition busy_at :: "'a disk_state_scheme \<Rightarrow> nat \<Rightarrow> bool" where
  "busy_at s n \<longleftrightarrow> bit (port_input s n 0x1F7) 7"

lemma is_busy_eq: "is_busy s = (busy_at s (port_reads s), s\<lparr>port_reads := port_reads s + 1\<rparr>)"
proof -
  have "(ucast w :: u8) AND 0x80 \<noteq> 0 \<longleftrightarrow> bit w 7" for w :: u16
  proof -
    have "(0x80 :: u8) = push_bit 7 1" by simp
    then have "(ucast w :: u8) AND 0x80 \<noteq> 0 \<longleftrightarrow> bit (ucast w :: u8) 7"
      by (simp only: bit_iff_and_push_bit_not_eq_0)
    then show ?thesis by (simp add: bit_simps)
  qed
  then show ?thesis by (simp add: is_busy_def get_status_def inportb_def busy_at_def)
qed

lemma wait_done:
  "\<not> busy_at s (port_reads s + k) \<Longrightarrow> \<forall>j<k. busy_at s (port_reads s + j) \<Longrightarrow>
     wait_while_busy s = Inr (s\<lparr>port_reads := port_reads s + k + 1\<rparr>)"
proof -
  have "\<not> busy_at s (port_reads s + k) \<Longrightarrow> \<forall>j<k. busy_at s (port_reads s + j) \<Longrightarrow>
     busy_loop s = Some (s\<lparr>port_reads := port_reads s + k + 1\<rparr>)"
  proof (induction k arbitrary: s)
    case 0
    then show ?case by (simp add: busy_loop.simps [of s] is_busy_eq)
  next
    case (Suc k)
    let ?s = "s\<lparr>port_reads := port_reads s + 1\<rparr>"
    have "busy_at s (port_reads s)" using Suc.prems(2) by force
    moreover have "\<not> busy_at ?s (port_reads ?s + k)" "\<forall>j<k. busy_at ?s (port_reads ?s + j)"
      using Suc.prems by (auto simp: busy_at_def dest: spec [of _ "Suc _"])
    ultimately show ?case using Suc.IH [of ?s] by (simp add: busy_loop.simps [of s] is_busy_eq)
  qed
  then show "\<not> busy_at s (port_reads s + k) \<Longrightarrow> \<forall>j<k. busy_at s (port_reads s + j) \<Longrightarrow>
     wait_while_busy s = Inr (s\<lparr>port_reads := port_reads s + k + 1\<rparr>)"
    by (simp add: wait_while_busy_def)
qed

lemma wait_for_ever:
  assumes "\<And>n. busy_at s n" shows "wait_while_busy s = Inl Hang"
proof -
  have no: "port_input v = port_input s \<longrightarrow> False" if ret: "busy_loop v = Some r" for v r
  proof (rule busy_loop.raw_induct [where P = "\<lambda>v r. port_input v = port_input s \<longrightarrow> False", OF _ ret])
    fix rec v r
    assume IH: "\<And>v r. rec v = Some r \<Longrightarrow> port_input v = port_input s \<longrightarrow> False"
      and eq: "(case is_busy v of (busy, v) \<Rightarrow> if busy then rec v else Some v) = Some r"
    show "port_input v = port_input s \<longrightarrow> False"
    proof
      assume i: "port_input v = port_input s"
      then have "busy_at v (port_reads v)" using assms by (simp add: busy_at_def)
      then have "rec (v\<lparr>port_reads := port_reads v + 1\<rparr>) = Some r" using eq by (simp add: is_busy_eq)
      from IH [OF this] i show False by simp
    qed
  qed
  have "busy_loop s = None" using no [of s] by (cases "busy_loop s") auto
  then show ?thesis by (simp add: wait_while_busy_def)
qed

section \<open>What the controller is told\<close>

text \<open>
  The task file of the controller: the parameters it has been given, the commands with the block
  they are for, and the data words written.
\<close>

record ata =
  sector_count :: u8
  lba_low :: u8
  lba_mid :: u8
  lba_high :: u8
  device_head :: u8
  ata_commands :: "(u8 \<times> u32) list"
  ata_data :: "u16 list"

definition ata_lba :: "ata \<Rightarrow> u32" where
  "ata_lba c = ucast (lba_low c) OR push_bit 8 (ucast (lba_mid c)) OR push_bit 16 (ucast (lba_high c))
     OR push_bit 24 (ucast (device_head c AND 0x0F))"

definition ata_step :: "port_write \<Rightarrow> ata \<Rightarrow> ata" where
  "ata_step w c = (case w of
     OutB port v \<Rightarrow>
       if port = 0x1F2 then c\<lparr>sector_count := v\<rparr>
       else if port = 0x1F3 then c\<lparr>lba_low := v\<rparr>
       else if port = 0x1F4 then c\<lparr>lba_mid := v\<rparr>
       else if port = 0x1F5 then c\<lparr>lba_high := v\<rparr>
       else if port = 0x1F6 then c\<lparr>device_head := v\<rparr>
       else if port = 0x1F7 then c\<lparr>ata_commands := ata_commands c @ [(v, ata_lba c)]\<rparr>
       else c
   | OutW port v \<Rightarrow> if port = 0x1F0 then c\<lparr>ata_data := ata_data c @ [v]\<rparr> else c)"

definition ata_run :: "port_write list \<Rightarrow> ata \<Rightarrow> ata" where
  "ata_run ws c = fold ata_step ws c"

lemma ata_run_append: "ata_run (ws @ vs) c = ata_run vs (ata_run ws c)"
  by (simp add: ata_run_def)

lemma device_head_bits: "((ucast (w :: u32) :: u8) AND 0x0F OR 0xE0 OR push_bit 4 0) AND 0x0F = ucast w AND 0x0F"
  "\<not> bit ((ucast (w :: u32) :: u8) AND 0x0F OR 0xE0 OR push_bit 4 0) 4"
  "bit ((ucast (w :: u32) :: u8) AND 0x0F OR 0xE0 OR push_bit 4 0) 6"
proof -
  have "(0xE0 :: u8) AND 0x0F = 0" by simp
  then show "((ucast w :: u8) AND 0x0F OR 0xE0 OR push_bit 4 0) AND 0x0F = ucast w AND 0x0F"
    by (simp add: and.assoc bit.conj_disj_distrib2)
qed (simp_all add: bit_simps bit_numeral_rec)

lemma lba_bytes: "ucast (ucast w :: u8) OR push_bit 8 (ucast (ucast (drop_bit 8 w) :: u8))
    OR push_bit 16 (ucast (ucast (drop_bit 16 w) :: u8)) OR push_bit 24 (ucast ((ucast (drop_bit 24 w) :: u8) AND 0x0F))
    = (w AND 0x0FFFFFFF :: u32)"
proof (rule bit_word_eqI)
  fix n assume n: "n < LENGTH(32)"
  have "(0x0FFFFFFF :: int) = mask 28" by (simp add: mask_eq_exp_minus_1)
  then have m: "bit (0x0FFFFFFF :: int) n \<longleftrightarrow> n < 28" by (simp only: bit_mask_iff) simp
  consider "n < 8" | "8 \<le> n" "n < 16" | "16 \<le> n" "n < 24" | "24 \<le> n" "n < 28" | "28 \<le> n" by linarith
  then show "bit (ucast (ucast w :: u8) OR push_bit 8 (ucast (ucast (drop_bit 8 w) :: u8))
    OR push_bit 16 (ucast (ucast (drop_bit 16 w) :: u8)) OR push_bit 24 (ucast ((ucast (drop_bit 24 w) :: u8) AND 0x0F)) :: u32) n
    = bit (w AND 0x0FFFFFFF) n"
    using n m by cases (auto simp: mask_bits)
qed

definition command_byte :: "disk_operation \<Rightarrow> u8" where
  "command_byte operation = (if operation = READ then 0x20 else 0x30)"

lemma issue_command_log:
  assumes "wait s = Inr s1"
  shows "\<exists>s'. ide_ata_issue_command wait operation block_no s = Inr s'
    \<and> s' = s1\<lparr>port_log := port_log s'\<rparr>
    \<and> ata_run (port_log s') c = (let c1 = ata_run (port_log s1) c in
        c1\<lparr>sector_count := 1, lba_low := ucast block_no, lba_mid := ucast (drop_bit 8 block_no),
          lba_high := ucast (drop_bit 16 block_no), device_head := ucast (drop_bit 24 block_no) AND 0x0F OR 0xE0 OR push_bit 4 0,
          ata_commands := ata_commands c1 @ [(command_byte operation, block_no AND 0x0FFFFFFF)]\<rparr>)"
  using assms
  by (simp add: ide_ata_issue_command_def outportb_def Let_def ata_run_append command_byte_def)
    (simp add: ata_run_def ata_step_def ata_lba_def device_head_bits(1) [simplified] lba_bytes)

section \<open>Polling\<close>

lemma four_reads:
  "for_each (\<lambda>i s. andThen (ide_read_register ATA_REG_ALTSTATUS s) (\<lambda>(_, s). Inr s)) [0..<4] s
     = Inr (s\<lparr>port_reads := port_reads s + 4\<rparr>)"
  by (simp add: upt_rec ide_read_register_def inportb_def)

text \<open>The verdict of the advanced check on a status byte.\<close>

definition verdict :: "u8 \<Rightarrow> u8" where
  "verdict st = (if bit st 0 then 2 else if bit st 5 then 1 else if \<not> bit st 3 then 3 else 0)"

lemma status_bits: "(v :: u8) AND ATA_STATUS_ERR \<noteq> 0 \<longleftrightarrow> bit v 0" "v AND ATA_STATUS_DF \<noteq> 0 \<longleftrightarrow> bit v 5"
  "v AND ATA_STATUS_DRQ = 0 \<longleftrightarrow> \<not> bit v 3"
proof -
  show "v AND ATA_STATUS_ERR \<noteq> 0 \<longleftrightarrow> bit v 0" using bit_iff_and_push_bit_not_eq_0 [of v 0] by simp
  show "v AND ATA_STATUS_DF \<noteq> 0 \<longleftrightarrow> bit v 5" using bit_iff_and_push_bit_not_eq_0 [of v 5] by simp
  show "v AND ATA_STATUS_DRQ = 0 \<longleftrightarrow> \<not> bit v 3" using bit_iff_and_push_bit_not_eq_0 [of v 3] by simp
qed

lemma ide_polling_eq:
  "ide_polling wait advanced_check s =
     andThen (wait (s\<lparr>port_reads := port_reads s + 4\<rparr>)) (\<lambda>s.
     Inr (if advanced_check
          then (verdict (ucast (port_input s (port_reads s) 0x1F7)), s\<lparr>port_reads := port_reads s + 1\<rparr>)
          else (0, s)))"
  unfolding ide_polling_def four_reads andThen_simps
  by (rule andThen_cong [OF refl])
    (simp add: get_status_def inportb_def status_bits verdict_def)

section \<open>Blocks\<close>

text \<open>The words of a block that starts with input \<open>n\<close>, and the bytes of a buffer as words.\<close>

definition buffer_word :: "memory \<Rightarrow> u32 \<Rightarrow> nat \<Rightarrow> u16" where
  "buffer_word m buf i = ucast (m (buf + word_of_nat (2 * i))) OR push_bit 8 (ucast (m (buf + word_of_nat (2 * i + 1))))"

lemma buffer_cells: "i < 1024 \<Longrightarrow> j < 1024 \<Longrightarrow> (buf :: u32) + word_of_nat i = buf + word_of_nat j \<longleftrightarrow> i = j"
  by (simp add: of_nat_eq_32)

lemma word_of_bytes: "ucast (ucast (w :: u16) :: u8) OR push_bit 8 (ucast (ucast (drop_bit 8 w) :: u8)) = w"
  by (rule bit_word_eqI) (auto simp: bit_simps)

lemma read_words_spec:
  "n \<le> 256 \<Longrightarrow> \<exists>m. read_words n buf s = s\<lparr>ram := m, port_reads := port_reads s + n\<rparr>
    \<and> (\<forall>i<n. buffer_word m buf i = port_input s (port_reads s + i) 0x1F0)
    \<and> (\<forall>x. (\<forall>j<2 * n. x \<noteq> buf + word_of_nat j) \<longrightarrow> m x = ram s x)"
proof (induction n)
  case 0
  then show ?case by (intro exI [of _ "ram s"]) simp
next
  case (Suc n)
  then obtain m where m: "read_words n buf s = s\<lparr>ram := m, port_reads := port_reads s + n\<rparr>"
    "\<forall>i<n. buffer_word m buf i = port_input s (port_reads s + i) 0x1F0"
    "\<forall>x. (\<forall>j<2 * n. x \<noteq> buf + word_of_nat j) \<longrightarrow> m x = ram s x" by auto
  let ?w = "port_input s (port_reads s + n) 0x1F0"
  let ?lo = "buf + word_of_nat (n * 2)" and ?hi = "buf + word_of_nat (n * 2 + 1)"
  define m' where "m' = m(?lo := ucast ?w, ?hi := ucast (drop_bit 8 ?w))"
  have "read_words (Suc n) buf s = s\<lparr>ram := m', port_reads := port_reads s + Suc n\<rparr>"
    by (simp add: m(1) inportw_def Let_def m'_def)
  moreover have "buffer_word m' buf i = port_input s (port_reads s + i) 0x1F0" if i: "i < Suc n" for i
  proof (cases "i = n")
    case True
    have "?lo \<noteq> ?hi" using Suc.prems buffer_cells [of "n * 2" "n * 2 + 1" buf] by (simp del: of_nat_add of_nat_mult)
    then show ?thesis using True
      by (simp add: buffer_word_def m'_def mult.commute [of 2] word_of_bytes del: of_nat_add of_nat_mult)
  next
    case False
    have "2 * i \<noteq> n * 2" "2 * i \<noteq> n * 2 + 1" "2 * i + 1 \<noteq> n * 2" "2 * i + 1 \<noteq> n * 2 + 1"
      using False by presburger+
    moreover have "2 * i < 1024" "2 * i + 1 < 1024" "n * 2 < 1024" "n * 2 + 1 < 1024" using i Suc.prems by simp_all
    ultimately have "buf + word_of_nat (2 * i) \<noteq> ?lo" "buf + word_of_nat (2 * i) \<noteq> ?hi"
      "buf + word_of_nat (2 * i + 1) \<noteq> ?lo" "buf + word_of_nat (2 * i + 1) \<noteq> ?hi"
      by (simp_all only: buffer_cells simp_thms)
    then have "buffer_word m' buf i = buffer_word m buf i"
      by (simp add: buffer_word_def m'_def del: of_nat_add of_nat_mult add_left_cancel)
    then show ?thesis using m(2) i False by simp
  qed
  moreover have "m' x = ram s x" if "\<forall>j<2 * Suc n. x \<noteq> buf + word_of_nat j" for x
  proof -
    have "x \<noteq> ?lo" "x \<noteq> ?hi" using that [rule_format, of "n * 2"] that [rule_format, of "n * 2 + 1"] by simp_all
    moreover have "m x = ram s x" using m(3) that by simp
    ultimately show ?thesis by (simp add: m'_def del: of_nat_add of_nat_mult)
  qed
  ultimately show ?case by blast
qed

lemma write_words_eq:
  "write_words n buf s = s\<lparr>port_log := port_log s @ map (\<lambda>i. OutW 0x1F0 (buffer_word (ram s) buf i)) [0..<n]\<rparr>"
  by (induction n) (simp_all add: outportw_def buffer_word_def Let_def)

text \<open>The disk is busy for \<open>k\<close> status reads from input \<open>n\<close> on, and then ready.\<close>

definition busy_for :: "'a disk_state_scheme \<Rightarrow> nat \<Rightarrow> nat \<Rightarrow> bool" where
  "busy_for s n k \<longleftrightarrow> (\<forall>j<k. busy_at s (n + j)) \<and> \<not> busy_at s (n + k)"

lemma wait_busy_for:
  "busy_for s (port_reads s) k \<Longrightarrow> wait_while_busy s = Inr (s\<lparr>port_reads := port_reads s + k + 1\<rparr>)"
  by (rule wait_done) (simp_all add: busy_for_def)

lemma busy_for_fields:
  "busy_for (s\<lparr>port_reads := r\<rparr>) n k = busy_for s n k"
  "busy_for (s\<lparr>port_log := l\<rparr>) n k = busy_for s n k"
  "busy_for (s\<lparr>port_reads := r, port_log := l\<rparr>) n k = busy_for s n k"
  by (simp_all add: busy_for_def busy_at_def)

lemma ata_run_data: "ata_run (map (\<lambda>i. OutW 0x1F0 (f i)) is) c = c\<lparr>ata_data := ata_data c @ map f is\<rparr>"
  by (induction "is" arbitrary: c) (simp_all add: ata_run_def ata_step_def)

lemma issued:
  assumes "busy_for s (port_reads s) k"
  shows "\<exists>log. ide_ata_issue_command wait_while_busy operation block_no s
      = Inr (s\<lparr>port_log := log, port_reads := port_reads s + k + 1\<rparr>)
    \<and> ata_commands (ata_run log c) = ata_commands (ata_run (port_log s) c) @ [(command_byte operation, block_no AND 0x0FFFFFFF)]
    \<and> ata_data (ata_run log c) = ata_data (ata_run (port_log s) c)
    \<and> sector_count (ata_run log c) = 1 \<and> ata_lba (ata_run log c) = block_no AND 0x0FFFFFFF"
proof -
  obtain s' where s': "ide_ata_issue_command wait_while_busy operation block_no s = Inr s'"
    "s' = (s\<lparr>port_reads := port_reads s + k + 1\<rparr>)\<lparr>port_log := port_log s'\<rparr>"
    "ata_run (port_log s') c = (let c1 = ata_run (port_log (s\<lparr>port_reads := port_reads s + k + 1\<rparr>)) c in
        c1\<lparr>sector_count := 1, lba_low := ucast block_no, lba_mid := ucast (drop_bit 8 block_no),
          lba_high := ucast (drop_bit 16 block_no), device_head := ucast (drop_bit 24 block_no) AND 0x0F OR 0xE0 OR push_bit 4 0,
          ata_commands := ata_commands c1 @ [(command_byte operation, block_no AND 0x0FFFFFFF)]\<rparr>)"
    using issue_command_log [where wait = wait_while_busy and s = s, OF wait_busy_for [OF assms], of operation block_no c] by (elim exE conjE)
  have comm: "(s\<lparr>port_reads := r\<rparr>)\<lparr>port_log := l\<rparr> = s\<lparr>port_log := l, port_reads := r\<rparr>" for r l by simp
  note s'(2) [unfolded comm]
  moreover have "ata_lba (ata_run (port_log s') c) = block_no AND 0x0FFFFFFF"
    unfolding s'(3) Let_def by (simp add: ata_lba_def device_head_bits(1) [simplified] lba_bytes)
  ultimately show ?thesis using s'(1,3) by (intro exI [of _ "port_log s'"]) (simp add: Let_def)
qed

lemma disk_read_block:
  assumes first: "busy_for s (port_reads s) k" and second: "busy_for s (port_reads s + k + 5) k'"
  defines "n \<equiv> port_reads s + k + k' + 6"
  shows "if verdict (ucast (port_input s n 0x1F7)) = 0
    then \<exists>m log. disk_read wait_while_busy block_no buf s
        = Inr (s\<lparr>port_log := log, ram := m, port_reads := n + 257\<rparr>)
      \<and> (\<forall>i<256. buffer_word m buf i = port_input s (n + 1 + i) 0x1F0)
      \<and> (\<forall>x. (\<forall>j<512. x \<noteq> buf + word_of_nat j) \<longrightarrow> m x = ram s x)
      \<and> ata_commands (ata_run log c) = ata_commands (ata_run (port_log s) c) @ [(0x20, block_no AND 0x0FFFFFFF)]
      \<and> ata_data (ata_run log c) = ata_data (ata_run (port_log s) c)
    else disk_read wait_while_busy block_no buf s = Inl Assertion"
proof -
  obtain log where i: "ide_ata_issue_command wait_while_busy READ block_no s
      = Inr (s\<lparr>port_log := log, port_reads := port_reads s + k + 1\<rparr>)"
    and log: "ata_commands (ata_run log c) = ata_commands (ata_run (port_log s) c) @ [(0x20, block_no AND 0x0FFFFFFF)]"
      "ata_data (ata_run log c) = ata_data (ata_run (port_log s) c)"
    using issued [OF first, of READ block_no c] by (auto simp: command_byte_def)
  let ?s = "s\<lparr>port_log := log, port_reads := port_reads s + k + 5\<rparr>"
  have "busy_for ?s (port_reads ?s) k'" using second by (simp add: busy_for_def busy_at_def)
  from wait_busy_for [OF this]
  have w: "wait_while_busy ?s = Inr (s\<lparr>port_log := log, port_reads := n\<rparr>)"
    by (simp add: n_def add.commute add.left_commute)
  have p: "ide_polling wait_while_busy True (s\<lparr>port_log := log, port_reads := port_reads s + k + 1\<rparr>)
      = Inr (verdict (ucast (port_input s n 0x1F7)), s\<lparr>port_log := log, port_reads := n + 1\<rparr>)"
    using w by (simp add: ide_polling_eq add.commute add.left_commute)
  let ?r = "s\<lparr>port_log := log, port_reads := n + 1\<rparr>"
  obtain m where m: "read_words 256 buf ?r = ?r\<lparr>ram := m, port_reads := port_reads ?r + 256\<rparr>"
    "\<forall>i<256. buffer_word m buf i = port_input ?r (port_reads ?r + i) 0x1F0"
    "\<forall>x. (\<forall>j<2 * 256. x \<noteq> buf + word_of_nat j) \<longrightarrow> m x = ram ?r x"
    using read_words_spec [of 256 buf ?r] by auto
  have rd: "disk_read wait_while_busy block_no buf s =
      andThen (assert_that (verdict (ucast (port_input s n 0x1F7)) = 0)) (\<lambda>_. Inr (read_words 256 buf ?r))"
    by (simp only: disk_read_def i p andThen_simps split_conv)
  show ?thesis
  proof (cases "verdict (ucast (port_input s n 0x1F7)) = 0")
    case True
    have "disk_read wait_while_busy block_no buf s = Inr (s\<lparr>port_log := log, ram := m, port_reads := n + 257\<rparr>)"
      unfolding rd m(1) using True by simp
    moreover have "\<forall>i<256. buffer_word m buf i = port_input s (n + 1 + i) 0x1F0"
      "\<forall>x. (\<forall>j<512. x \<noteq> buf + word_of_nat j) \<longrightarrow> m x = ram s x"
      using m(2,3) by simp_all
    ultimately show ?thesis unfolding if_P [OF True] using log by blast
  next
    case False
    then show ?thesis using rd by simp
  qed
qed

lemma disk_write_block:
  assumes first: "busy_for s (port_reads s) k" and second: "busy_for s (port_reads s + k + 5) k'"
    and third: "busy_for s (port_reads s + k + k' + 10) k''"
  shows "\<exists>log. disk_write wait_while_busy block_no buf s
        = Inr (s\<lparr>port_log := log, port_reads := port_reads s + k + k' + k'' + 11\<rparr>)
      \<and> ata_commands (ata_run log c) = ata_commands (ata_run (port_log s) c)
          @ [(0x30, block_no AND 0x0FFFFFFF), (0xE7, block_no AND 0x0FFFFFFF)]
      \<and> ata_data (ata_run log c) = ata_data (ata_run (port_log s) c) @ map (buffer_word (ram s) buf) [0..<256]"
proof -
  obtain log where i: "ide_ata_issue_command wait_while_busy WRITE block_no s
      = Inr (s\<lparr>port_log := log, port_reads := port_reads s + k + 1\<rparr>)"
    and log: "ata_commands (ata_run log c) = ata_commands (ata_run (port_log s) c) @ [(0x30, block_no AND 0x0FFFFFFF)]"
      "ata_data (ata_run log c) = ata_data (ata_run (port_log s) c)" "ata_lba (ata_run log c) = block_no AND 0x0FFFFFFF"
    using issued [OF first, of WRITE block_no c] by (auto simp: command_byte_def)
  let ?s = "s\<lparr>port_log := log, port_reads := port_reads s + k + 5\<rparr>"
  have "busy_for ?s (port_reads ?s) k'" using second by (simp add: busy_for_def busy_at_def)
  from wait_busy_for [OF this]
  have p: "ide_polling wait_while_busy False (s\<lparr>port_log := log, port_reads := port_reads s + k + 1\<rparr>)
      = Inr (0, s\<lparr>port_log := log, port_reads := port_reads s + k + k' + 6\<rparr>)"
    by (simp add: ide_polling_eq add.commute add.left_commute)
  define log' where "log' = log @ map (\<lambda>i. OutW 0x1F0 (buffer_word (ram s) buf i)) [0..<256] @ [OutB 0x1F7 0xE7]"
  have wr: "ide_write_register ATA_REG_COMMAND ATA_CMD_CACHE_FLUSH
      (write_words 256 buf (s\<lparr>port_log := log, port_reads := port_reads s + k + k' + 6\<rparr>))
      = s\<lparr>port_log := log', port_reads := port_reads s + k + k' + 6\<rparr>"
    by (simp add: write_words_eq ide_write_register_def outportb_def log'_def del: upt_Suc)
  let ?t = "s\<lparr>port_log := log', port_reads := port_reads s + k + k' + 10\<rparr>"
  have "busy_for ?t (port_reads ?t) k''" using third by (simp add: busy_for_def busy_at_def)
  from wait_busy_for [OF this]
  have q: "ide_polling wait_while_busy False (s\<lparr>port_log := log', port_reads := port_reads s + k + k' + 6\<rparr>)
      = Inr (0, s\<lparr>port_log := log', port_reads := port_reads s + k + k' + k'' + 11\<rparr>)"
    by (simp add: ide_polling_eq add.commute add.left_commute)
  have "disk_write wait_while_busy block_no buf s = Inr (s\<lparr>port_log := log', port_reads := port_reads s + k + k' + k'' + 11\<rparr>)"
    by (simp only: disk_write_def i p wr q andThen_simps split_conv Let_def assert_that_simps simp_thms)
  moreover have "ata_run log' c = (let c1 = (ata_run log c)\<lparr>ata_data := ata_data (ata_run log c) @ map (buffer_word (ram s) buf) [0..<256]\<rparr>
      in c1\<lparr>ata_commands := ata_commands c1 @ [(0xE7, ata_lba c1)]\<rparr>)"
    unfolding log'_def ata_run_append ata_run_data by (simp add: ata_run_def ata_step_def Let_def)
  moreover have "ata_lba ((ata_run log c)\<lparr>ata_data := d\<rparr>) = ata_lba (ata_run log c)" for d
    by (simp add: ata_lba_def)
  ultimately show ?thesis using log by (intro exI [of _ log']) (simp add: Let_def)
qed

end
