(* ===== verification/Ready_Queue.thy ===== *)
theory Ready_Queue
  imports Prelude
begin

text \<open>
  The doubly linked lists of threads: \<open>Scheduler::ReadyThread\<close> (\<open>scheduler.H\<close>, \<open>scheduler.C\<close>)
  and \<open>NonBlockingDisk::IOThreadNode\<close> (\<open>nonblocking_disk.H\<close>), two structs with the same fields and
  the same code.  Nodes are named by their addresses, 0 is \<open>nullptr\<close>; following a null or dangling
  pointer is \<open>Inl Wild\<close>.

  \<open>list_repr\<close> relates a list in the heap with the sequence of its nodes, and the locale
  \<open>fifo\<close> is the contract the scheduler and the disk rely on.
\<close>

record list_node =
  node_thread :: u32
  node_next :: u32
  node_prev :: u32

type_synonym node_heap = "u32 \<Rightarrow> list_node option"

record thread_list =
  list_head :: u32
  list_tail :: u32

text \<open>\<open>ReadyThread(Thread *x)\<close> at the address \<open>n\<close>.\<close>

definition new_node :: "u32 \<Rightarrow> u32 \<Rightarrow> node_heap \<Rightarrow> node_heap" where
  "new_node n x h = h(n \<mapsto> \<lparr>node_thread = x, node_next = 0, node_prev = 0\<rparr>)"

definition append_node :: "u32 \<Rightarrow> node_heap \<times> thread_list \<Rightarrow> (node_heap \<times> thread_list) outcome" where
  "append_node n q = (case q of (h, l) \<Rightarrow>
     if list_tail l = 0 then Inr (h, l\<lparr>list_tail := n, list_head := n\<rparr>)
     else
       case h (list_tail l) of
         None \<Rightarrow> Inl Wild
       | Some t \<Rightarrow>
           let h = h(list_tail l \<mapsto> t\<lparr>node_next := n\<rparr>) in
           (case h n of
              None \<Rightarrow> Inl Wild
            | Some v \<Rightarrow> Inr (h(n \<mapsto> v\<lparr>node_prev := list_tail l\<rparr>), l\<lparr>list_tail := n\<rparr>)))"

text \<open>Removal of the head, which is not null.\<close>

definition remove_head :: "node_heap \<times> thread_list \<Rightarrow> (node_heap \<times> thread_list) outcome" where
  "remove_head q = (case q of (h, l) \<Rightarrow>
     if list_head l = list_tail l then Inr (h, l\<lparr>list_head := 0, list_tail := 0\<rparr>)
     else
       case h (list_head l) of
         None \<Rightarrow> Inl Wild
       | Some v \<Rightarrow>
           (case h (node_next v) of
              None \<Rightarrow> Inl Wild
            | Some w \<Rightarrow>
                Inr (h(node_next v \<mapsto> w\<lparr>node_prev := 0\<rparr>), l\<lparr>list_head := node_next v\<rparr>)))"

section \<open>The sequence a list stands for\<close>

text \<open>\<open>chain h p ns q\<close>: the nodes \<open>ns\<close> are linked both ways, after \<open>p\<close> and before \<open>q\<close>.\<close>

fun chain :: "node_heap \<Rightarrow> u32 \<Rightarrow> (u32 \<times> u32) list \<Rightarrow> u32 \<Rightarrow> bool" where
  "chain h p [] q = True"
| "chain h p ((n, x) # ns) q =
     (h n = Some \<lparr>node_thread = x, node_next = (case ns of [] \<Rightarrow> q | (m, _) # _ \<Rightarrow> m), node_prev = p\<rparr>
      \<and> chain h n ns q)"

definition list_repr :: "node_heap \<Rightarrow> thread_list \<Rightarrow> (u32 \<times> u32) list \<Rightarrow> bool" where
  "list_repr h l ns \<longleftrightarrow> chain h 0 ns 0 \<and> distinct (map fst ns) \<and> 0 \<notin> fst ` set ns
     \<and> list_head l = (if ns = [] then 0 else fst (hd ns))
     \<and> list_tail l = (if ns = [] then 0 else fst (last ns))"

lemma chain_cong: "(\<And>n. n \<in> fst ` set ns \<Longrightarrow> h' n = h n) \<Longrightarrow> chain h' p ns q = chain h p ns q"
  by (induction ns arbitrary: p rule: list.induct) (auto split: list.splits)

lemma chain_append:
  "chain h p (ns @ [(m, y)]) q \<longleftrightarrow> chain h p ns m \<and>
     h m = Some \<lparr>node_thread = y, node_next = q, node_prev = (if ns = [] then p else fst (last ns))\<rparr>"
proof (induction ns arbitrary: p)
  case (Cons a ns)
  then show ?case by (cases a; cases ns) auto
qed simp

lemma append_node_repr:
  assumes r: "list_repr h l ns" and n: "n \<noteq> 0" "n \<notin> fst ` set ns"
  shows "\<exists>h' l'. append_node n (new_node n x h, l) = Inr (h', l') \<and> list_repr h' l' (ns @ [(n, x)])
    \<and> (\<forall>m. m \<noteq> n \<longrightarrow> m \<notin> fst ` set ns \<longrightarrow> h' m = h m)"
proof (cases ns rule: rev_cases)
  case Nil
  then show ?thesis using r n by (simp add: list_repr_def append_node_def new_node_def)
next
  case (snoc ms t)
  obtain m y where t: "t = (m, y)" by fastforce
  let ?v = "\<lparr>node_thread = y, node_next = 0, node_prev = (if ms = [] then 0 else fst (last ms))\<rparr>"
  have "chain h 0 (ms @ [(m, y)]) 0" using r snoc t by (simp add: list_repr_def)
  note c = this [unfolded chain_append]
  have m: "list_tail l = m" "m \<noteq> 0" "m \<noteq> n" "m \<notin> fst ` set ms" "n \<notin> fst ` set ms" "h m = Some ?v"
    using r n snoc t c by (auto simp: list_repr_def)
  define h' where "h' = (new_node n x h)(m \<mapsto> ?v\<lparr>node_next := n\<rparr>, n \<mapsto> \<lparr>node_thread = x, node_next = 0, node_prev = m\<rparr>)"
  have "append_node n (new_node n x h, l) = Inr (h', l\<lparr>list_tail := n\<rparr>)"
    using m by (simp add: append_node_def new_node_def h'_def)
  moreover have "h' a = h a" if "a \<in> fst ` set ms" for a
  proof -
    have "a \<noteq> m" "a \<noteq> n" using that m(4,5) by blast+
    then show ?thesis by (simp add: h'_def new_node_def)
  qed
  then have "chain h' 0 ms m" using c chain_cong [of ms h' h 0 m] by simp
  then have "chain h' 0 ((ms @ [(m, y)]) @ [(n, x)]) 0"
    unfolding chain_append using m by (simp add: h'_def)
  then have "list_repr h' (l\<lparr>list_tail := n\<rparr>) (ns @ [(n, x)])"
    using r n snoc t by (auto simp: list_repr_def hd_append)
  moreover have "h' a = h a" if "a \<noteq> n" "a \<notin> fst ` set ns" for a
    using that snoc t by (auto simp: h'_def new_node_def)
  ultimately show ?thesis by blast
qed

lemma remove_head_repr:
  assumes r: "list_repr h l ((n, x) # ns)"
  shows "list_head l = n" and "h n = Some v \<Longrightarrow> node_thread v = x"
    and "\<exists>h' l'. remove_head (h, l) = Inr (h', l') \<and> list_repr h' l' ns
      \<and> (\<forall>m. m \<notin> fst ` set ns \<longrightarrow> h' m = h m)"
proof -
  show "list_head l = n" "h n = Some v \<Longrightarrow> node_thread v = x" using r by (auto simp: list_repr_def)
  show "\<exists>h' l'. remove_head (h, l) = Inr (h', l') \<and> list_repr h' l' ns
      \<and> (\<forall>m. m \<notin> fst ` set ns \<longrightarrow> h' m = h m)"
  proof (cases ns)
    case Nil
    then show ?thesis using r by (simp add: list_repr_def remove_head_def)
  next
    case (Cons a ms)
    obtain m y where a: "a = (m, y)" by fastforce
    let ?w = "\<lparr>node_thread = y, node_next = (case ms of [] \<Rightarrow> 0 | (m, _) # _ \<Rightarrow> m), node_prev = n\<rparr>"
    define h' where "h' = h(m \<mapsto> ?w\<lparr>node_prev := 0\<rparr>)"
    have h: "list_head l = n" "list_tail l = fst (last ns)" "h n = Some \<lparr>node_thread = x, node_next = m, node_prev = 0\<rparr>" "h m = Some ?w"
      "n \<notin> fst ` set ns" "chain h m ms 0" "m \<notin> fst ` set ms"
      using r Cons a by (auto simp: list_repr_def)
    have "fst (last ns) \<in> fst ` set ns" using Cons by (intro imageI last_in_set) simp
    then have "n \<noteq> fst (last ns)" using h(5) by blast
    then have "remove_head (h, l) = Inr (h', l\<lparr>list_head := m\<rparr>)"
      using h by (simp add: remove_head_def h'_def)
    moreover have "chain h' m ms 0" using h(6,7) by (subst chain_cong [where h = h]) (auto simp: h'_def)
    then have "list_repr h' (l\<lparr>list_head := m\<rparr>) ns"
      using r Cons a h by (auto simp: list_repr_def h'_def)
    moreover have "h' b = h b" if "b \<notin> fst ` set ns" for b using that Cons a by (auto simp: h'_def)
    ultimately show ?thesis by blast
  qed
qed

end
