(* ===== verification/Scheduler.thy ===== *)
theory Scheduler
  imports Simple_Disk Ready_Queue
begin

text \<open>
  Class \<open>Scheduler\<close> (\<open>scheduler.C\<close>) with the parts of \<open>NonBlockingDisk\<close> it uses: the queue of
  threads that wait for the disk, and \<open>DiskLock\<close> (\<open>nonblocking_disk.C\<close>).  The components of
  \<open>System\<close> (\<open>system.C\<close>) are the fields of the state.

  \<open>lock\<close> of the queue's lock yields when the lock is taken, and \<open>yield\<close> takes the queue's lock:
  \<open>scheduler_call\<close> is that recursion, with \<open>None\<close> for a call that never returns.  A yield is
  split where the processor changes hands: \<open>yield_select\<close> ends with the node whose thread is to be
  dispatched, \<open>yield_dispatch\<close> switches, and what the other threads do until this one is switched
  back is the parameter \<open>run_others\<close>.
\<close>

record sched_state = disk_state +
  queue_nodes :: node_heap
  ready_queue :: thread_list
  io_queue :: thread_list
  currThread :: u32
  zombieThread :: u32
  queue_locked :: bool
  hw_locked :: bool
  eoq_ticks :: int

definition new_Scheduler :: "'a sched_state_scheme \<Rightarrow> 'a sched_state_scheme" where
  "new_Scheduler s =
     print_line ''Constructed Scheduler.''
       (s\<lparr>ready_queue := \<lparr>list_head = 0, list_tail = 0\<rparr>, currThread := CurrentThread s, zombieThread := 0\<rparr>)"

text \<open>\<open>if (Machine::interrupts_enabled()) Machine::disable_interrupts();\<close> and its counterpart.\<close>

definition interrupts_off :: "'a machine_state_scheme \<Rightarrow> 'a machine_state_scheme outcome" where
  "interrupts_off s = (if interrupts_enabled s then disable_interrupts s else Inr s)"

definition interrupts_on :: "'a machine_state_scheme \<Rightarrow> 'a machine_state_scheme outcome" where
  "interrupts_on s = (if \<not> interrupts_enabled s then enable_interrupts s else Inr s)"

section \<open>Locks\<close>

text \<open>
  One round of \<open>DiskLock::lock\<close> on the lock with the accessors \<open>getl\<close> and \<open>setl\<close>: the result says
  whether the lock was taken.
\<close>

definition lock_attempt ::
  "('a machine_state_scheme \<Rightarrow> bool) \<Rightarrow> (bool \<Rightarrow> 'a machine_state_scheme \<Rightarrow> 'a machine_state_scheme)
     \<Rightarrow> 'a machine_state_scheme \<Rightarrow> (bool \<times> 'a machine_state_scheme) outcome" where
  "lock_attempt getl setl s =
     andThen (interrupts_off s) (\<lambda>s.
     if \<not> getl s then andThen (enable_interrupts (setl True s)) (\<lambda>s. Inr (True, s))
     else andThen (enable_interrupts s) (\<lambda>s. Inr (False, s)))"

definition unlock ::
  "(bool \<Rightarrow> 'a machine_state_scheme \<Rightarrow> 'a machine_state_scheme) \<Rightarrow> 'a machine_state_scheme
     \<Rightarrow> 'a machine_state_scheme outcome" where
  "unlock setl s =
     andThen (interrupts_off s) (\<lambda>s.
     enable_interrupts (setl False s))"

definition set_queue_lock :: "bool \<Rightarrow> 'a sched_state_scheme \<Rightarrow> 'a sched_state_scheme" where
  "set_queue_lock b s = s\<lparr>queue_locked := b\<rparr>"

definition set_hw_lock :: "bool \<Rightarrow> 'a sched_state_scheme \<Rightarrow> 'a sched_state_scheme" where
  "set_hw_lock b s = s\<lparr>hw_locked := b\<rparr>"

definition unlock_queue :: "'a sched_state_scheme \<Rightarrow> 'a sched_state_scheme outcome" where
  "unlock_queue s = unlock set_queue_lock s"

section \<open>Yielding\<close>

text \<open>The start of \<open>yield\<close>: the result says whether the disk is taken to be busy.\<close>

definition yield_start :: "int \<Rightarrow> 'a sched_state_scheme \<Rightarrow> (bool \<times> 'a sched_state_scheme) outcome" where
  "yield_start interrupt s =
     andThen (interrupts_off s) (\<lambda>s.
     let s = s\<lparr>currThread := CurrentThread s\<rparr> in
     andThen (assert_that (currThread s \<noteq> 0)) (\<lambda>_.
     if interrupt = 0 then Inr (is_busy s) else Inr (False, s)))"

text \<open>Taking the first node of a queue off; the node and its thread are the result.\<close>

definition take_ready :: "'a sched_state_scheme \<Rightarrow> (u32 option \<times> 'a sched_state_scheme) outcome" where
  "take_ready s =
     (if list_head (ready_queue s) \<noteq> 0 then
        let node = list_head (ready_queue s) in
        andThen (remove_head (queue_nodes s, ready_queue s)) (\<lambda>(h, q).
        andThen (interrupts_on (s\<lparr>queue_nodes := h, ready_queue := q\<rparr>)) (\<lambda>s.
        Inr (Some node, s)))
      else Inr (None, s))"

definition take_io :: "'a sched_state_scheme \<Rightarrow> (u32 option \<times> 'a sched_state_scheme) outcome" where
  "take_io s =
     (let node = list_head (io_queue s) in
      andThen (remove_head (queue_nodes s, io_queue s)) (\<lambda>(h, q).
      andThen (unlock_queue (s\<lparr>queue_nodes := h, io_queue := q\<rparr>)) (\<lambda>s.
      andThen (interrupts_on s) (\<lambda>s.
      Inr (Some node, s)))))"

text \<open>\<open>Thread::dispatch_to(node->thread); delete node; currThread = Thread::CurrentThread();\<close>\<close>

definition yield_finish :: "u32 \<Rightarrow> 'a sched_state_scheme \<Rightarrow> 'a sched_state_scheme" where
  "yield_finish node s =
     (let s = operator_delete node (s\<lparr>queue_nodes := (queue_nodes s)(node := None)\<rparr>)
      in s\<lparr>currThread := CurrentThread s\<rparr>)"

definition yield_dispatch ::
  "('a sched_state_scheme \<Rightarrow> 'a sched_state_scheme outcome) \<Rightarrow> u32 option \<times> 'a sched_state_scheme
     \<Rightarrow> 'a sched_state_scheme outcome" where
  "yield_dispatch run_others r = (case r of
     (None, s) \<Rightarrow> Inr s
   | (Some node, s) \<Rightarrow>
       (case queue_nodes s node of
          None \<Rightarrow> Inl Wild
        | Some v \<Rightarrow>
            andThen (dispatch_to run_others (node_thread v) s) (\<lambda>s. Inr (yield_finish node s))))"

datatype call = Lock_queue | Select int

partial_function (option) scheduler_call ::
  "('a sched_state_scheme \<Rightarrow> 'a sched_state_scheme outcome) \<Rightarrow> call \<Rightarrow> 'a sched_state_scheme
     \<Rightarrow> (u32 option \<times> 'a sched_state_scheme) outcome option" where
  "scheduler_call run_others c s =
     (case c of
        Lock_queue \<Rightarrow>
          (case lock_attempt queue_locked set_queue_lock s of
             Inl e \<Rightarrow> Some (Inl e)
           | Inr (got, s) \<Rightarrow>
               if got then Some (Inr (None, s))
               else Option.bind (scheduler_call run_others (Select 0) s) (\<lambda>r.
                    (case andThen r (yield_dispatch run_others) of
                       Inl e \<Rightarrow> Some (Inl e)
                     | Inr s \<Rightarrow> scheduler_call run_others Lock_queue s)))
      | Select interrupt \<Rightarrow>
          (case yield_start interrupt s of
             Inl e \<Rightarrow> Some (Inl e)
           | Inr (disk_busy, s) \<Rightarrow>
               Option.bind (scheduler_call run_others Lock_queue s) (\<lambda>r.
               (case r of
                  Inl e \<Rightarrow> Some (Inl e)
                | Inr (_, s) \<Rightarrow>
                    (let disk_queue_empty = (list_head (io_queue s) = 0) in
                     (case unlock_queue s of
                        Inl e \<Rightarrow> Some (Inl e)
                      | Inr s \<Rightarrow>
                          if disk_busy \<or> disk_queue_empty then Some (take_ready s)
                          else Option.bind (scheduler_call run_others Lock_queue s) (\<lambda>r.
                               (case r of
                                  Inl e \<Rightarrow> Some (Inl e)
                                | Inr (_, s) \<Rightarrow> Some (take_io s)))))))))"

text \<open>\<open>queue_lock.lock()\<close>, \<open>yield\<close>, and \<open>RRScheduler::yield\<close>.\<close>

definition lock_queue ::
  "('a sched_state_scheme \<Rightarrow> 'a sched_state_scheme outcome) \<Rightarrow> 'a sched_state_scheme
     \<Rightarrow> 'a sched_state_scheme outcome" where
  "lock_queue run_others s =
     andThen (of_loop (scheduler_call run_others Lock_queue s)) (\<lambda>r. andThen r (\<lambda>(_, s). Inr s))"

definition yield_select ::
  "('a sched_state_scheme \<Rightarrow> 'a sched_state_scheme outcome) \<Rightarrow> int \<Rightarrow> 'a sched_state_scheme
     \<Rightarrow> (u32 option \<times> 'a sched_state_scheme) outcome" where
  "yield_select run_others interrupt s =
     andThen (of_loop (scheduler_call run_others (Select interrupt) s)) (\<lambda>r. r)"

definition yield ::
  "('a sched_state_scheme \<Rightarrow> 'a sched_state_scheme outcome) \<Rightarrow> int \<Rightarrow> 'a sched_state_scheme
     \<Rightarrow> 'a sched_state_scheme outcome" where
  "yield run_others interrupt s = andThen (yield_select run_others interrupt s) (yield_dispatch run_others)"

definition reset_ticks :: "'a sched_state_scheme \<Rightarrow> 'a sched_state_scheme" where
  "reset_ticks s = s\<lparr>eoq_ticks := 0\<rparr>"

definition RR_yield ::
  "('a sched_state_scheme \<Rightarrow> 'a sched_state_scheme outcome) \<Rightarrow> int \<Rightarrow> 'a sched_state_scheme
     \<Rightarrow> 'a sched_state_scheme outcome" where
  "RR_yield run_others interrupt s = yield run_others interrupt (reset_ticks s)"

section \<open>The other operations\<close>

text \<open>\<open>new ReadyThread(_thread)\<close>: a node of 12 bytes.\<close>

definition make_node :: "u32 \<Rightarrow> 'a sched_state_scheme \<Rightarrow> u32 \<times> 'a sched_state_scheme" where
  "make_node thread s =
     (case operator_new 12 s of (node, s) \<Rightarrow>
      (node, s\<lparr>queue_nodes := new_node node thread (queue_nodes s)\<rparr>))"

definition resume :: "u32 \<Rightarrow> 'a sched_state_scheme \<Rightarrow> 'a sched_state_scheme outcome" where
  "resume thread s =
     andThen (interrupts_off s) (\<lambda>s.
     case make_node thread s of (node, s) \<Rightarrow>
     andThen (append_node node (queue_nodes s, ready_queue s)) (\<lambda>(h, q).
     interrupts_on (s\<lparr>queue_nodes := h, ready_queue := q\<rparr>)))"

definition add_thread :: "u32 \<Rightarrow> 'a sched_state_scheme \<Rightarrow> 'a sched_state_scheme outcome" where
  "add_thread thread s = resume thread s"

definition terminate :: "u32 \<Rightarrow> 'a sched_state_scheme \<Rightarrow> 'a sched_state_scheme outcome" where
  "terminate thread s =
     andThen
       (if zombieThread s \<noteq> 0 then
          andThen (destroy_Thread (zombieThread s) s) (\<lambda>s.
          Inr ((operator_delete (zombieThread s) s)\<lparr>zombieThread := 0\<rparr>))
        else Inr s) (\<lambda>s.
     Inr (s\<lparr>zombieThread := thread\<rparr>))"

text \<open>\<open>thread_shutdown\<close> of \<open>thread.C\<close>.\<close>

definition thread_shutdown ::
  "('a sched_state_scheme \<Rightarrow> 'a sched_state_scheme outcome) \<Rightarrow> 'a sched_state_scheme
     \<Rightarrow> 'a sched_state_scheme outcome" where
  "thread_shutdown run_others s =
     andThen (terminate (CurrentThread s) s) (\<lambda>s. yield run_others 0 s)"

text \<open>\<open>pass_on_CPU\<close> of \<open>kernel.C\<close>, which does not use its argument when there is a scheduler.\<close>

definition pass_on_CPU ::
  "('a sched_state_scheme \<Rightarrow> 'a sched_state_scheme outcome) \<Rightarrow> u32 \<Rightarrow> 'a sched_state_scheme
     \<Rightarrow> 'a sched_state_scheme outcome" where
  "pass_on_CPU run_others to_thread s =
     andThen (resume (CurrentThread s) s) (\<lambda>s. yield run_others 0 s)"

section \<open>The interrupt flag\<close>

lemma flag_words: "((x :: u32) AND NOT IF_mask) OR IF_mask = x OR IF_mask" "bit x 9 \<Longrightarrow> x OR IF_mask = x"
  by (rule bit_word_eqI; auto simp: bit_simps bit_IF_mask)+

lemma interrupts_on_eq: "interrupts_on s = Inr (s\<lparr>EFLAGS := EFLAGS s OR IF_mask\<rparr>)"
  by (cases "interrupts_enabled s")
    (simp_all add: interrupts_on_def enable_disable interrupts_enabled_bit flag_words(2))

definition flags_off :: "u32 \<Rightarrow> u32" where
  "flags_off x = (if bit x 9 then x AND NOT IF_mask else x)"

lemma flags_off: "flags_off x OR IF_mask = x OR IF_mask" "\<not> bit (flags_off x) 9"
  by (simp_all add: flags_off_def flag_words(1) bit_simps bit_IF_mask)

lemma interrupts_off_eq: "interrupts_off s = Inr (s\<lparr>EFLAGS := flags_off (EFLAGS s)\<rparr>)"
  by (simp add: interrupts_off_def enable_disable interrupts_enabled_bit flags_off_def)

lemma enable_off: "\<not> bit (EFLAGS s) 9 \<Longrightarrow> enable_interrupts s = Inr (s\<lparr>EFLAGS := EFLAGS s OR IF_mask\<rparr>)"
  by (simp add: enable_disable interrupts_enabled_bit)

lemma lock_attempt_queue:
  "lock_attempt queue_locked set_queue_lock s =
     Inr (\<not> queue_locked s, s\<lparr>EFLAGS := EFLAGS s OR IF_mask, queue_locked := True\<rparr>)"
proof -
  have "s\<lparr>queue_locked := True\<rparr> = s" if "queue_locked s" using that by (cases s) simp
  then show ?thesis
    by (simp add: lock_attempt_def interrupts_off_eq set_queue_lock_def enable_off flags_off)
qed

lemma lock_attempt_hw:
  "lock_attempt hw_locked set_hw_lock s =
     Inr (\<not> hw_locked s, s\<lparr>EFLAGS := EFLAGS s OR IF_mask, hw_locked := True\<rparr>)"
proof -
  have "s\<lparr>hw_locked := True\<rparr> = s" if "hw_locked s" using that by (cases s) simp
  then show ?thesis
    by (simp add: lock_attempt_def interrupts_off_eq set_hw_lock_def enable_off flags_off)
qed

lemma unlock_eq:
  "unlock_queue s = Inr (s\<lparr>EFLAGS := EFLAGS s OR IF_mask, queue_locked := False\<rparr>)"
  "unlock set_hw_lock s = Inr (s\<lparr>EFLAGS := EFLAGS s OR IF_mask, hw_locked := False\<rparr>)"
  by (simp_all add: unlock_queue_def unlock_def interrupts_off_eq set_queue_lock_def set_hw_lock_def
      enable_off flags_off)

section \<open>The queue's lock\<close>

lemma Lock_queue_free:
  "\<not> queue_locked s \<Longrightarrow> scheduler_call ro Lock_queue s
     = Some (Inr (None, s\<lparr>EFLAGS := EFLAGS s OR IF_mask, queue_locked := True\<rparr>))"
  by (simp add: scheduler_call.simps [of ro Lock_queue s] lock_attempt_queue)

lemma yield_start_eq:
  "current_thread s \<noteq> 0 \<Longrightarrow> yield_start interrupt s =
     Inr (interrupt = 0 \<and> busy_at s (port_reads s),
       s\<lparr>EFLAGS := flags_off (EFLAGS s), currThread := current_thread s,
         port_reads := port_reads s + (if interrupt = 0 then 1 else 0)\<rparr>)"
  by (simp add: yield_start_def interrupts_off_eq CurrentThread_def is_busy_eq busy_at_def Let_def)

text \<open>A yield with the queue's lock free: one status read unless an interrupt caused it.\<close>

definition at_select :: "int \<Rightarrow> 'a sched_state_scheme \<Rightarrow> 'a sched_state_scheme" where
  "at_select interrupt s = s\<lparr>currThread := current_thread s,
     port_reads := port_reads s + (if interrupt = 0 then 1 else 0),
     EFLAGS := EFLAGS s OR IF_mask, queue_locked := False\<rparr>"

lemma or_mask_twice: "(x OR IF_mask) OR IF_mask = x OR IF_mask" for x :: u32
  by (simp add: or.assoc)

lemma take_io_locked: "take_io (s\<lparr>queue_locked := b\<rparr>) = take_io s"
  by (simp add: take_io_def unlock_eq interrupts_on_eq Let_def)

lemma yield_select_eq:
  assumes "\<not> queue_locked s" and "current_thread s \<noteq> 0"
  shows "yield_select ro interrupt s =
    (if interrupt = 0 \<and> busy_at s (port_reads s) \<or> list_head (io_queue s) = 0
     then take_ready (at_select interrupt s) else take_io (at_select interrupt s))"
proof -
  have "scheduler_call ro (Select interrupt) s =
    Some (if interrupt = 0 \<and> busy_at s (port_reads s) \<or> list_head (io_queue s) = 0
     then take_ready (at_select interrupt s) else take_io (at_select interrupt s))"
    using assms(1) by (simp add: scheduler_call.simps [of ro "Select interrupt" s] yield_start_eq [OF assms(2)]
        Lock_queue_free unlock_eq or_mask_twice flags_off at_select_def take_io_locked Let_def)
  then show ?thesis by (simp add: yield_select_def)
qed

text \<open>If the lock is taken, locking it never returns: the yield inside the lock loop wants the lock first.\<close>

lemma queue_lock_hangs:
  assumes "queue_locked s" and "current_thread s \<noteq> 0"
  shows "scheduler_call ro c s = None"
proof (rule ccontr)
  assume "scheduler_call ro c s \<noteq> None"
  then obtain r where ret: "scheduler_call ro c s = Some r" by blast
  have "queue_locked s \<longrightarrow> current_thread s \<noteq> 0 \<longrightarrow> False"
  proof (rule scheduler_call.raw_induct
      [where P = "\<lambda>ro c s r. queue_locked s \<longrightarrow> current_thread s \<noteq> 0 \<longrightarrow> False", OF _ ret])
    fix rec :: "('a sched_state_scheme \<Rightarrow> 'a sched_state_scheme outcome) \<Rightarrow> call \<Rightarrow> 'a sched_state_scheme
        \<Rightarrow> (u32 option \<times> 'a sched_state_scheme) outcome option" and ro c s r
    assume IH: "\<And>ro c s r. rec ro c s = Some r \<Longrightarrow> queue_locked s \<longrightarrow> current_thread s \<noteq> 0 \<longrightarrow> False"
    have none: "rec ro c s = None" if "queue_locked s" "current_thread s \<noteq> 0" for ro c s
      using IH [of ro c s] that by (cases "rec ro c s") auto
    assume eq: "(case c of
        Lock_queue \<Rightarrow>
          (case lock_attempt queue_locked set_queue_lock s of
             Inl e \<Rightarrow> Some (Inl e)
           | Inr (got, s) \<Rightarrow>
               if got then Some (Inr (None, s))
               else Option.bind (rec ro (Select 0) s) (\<lambda>r.
                    (case andThen r (yield_dispatch ro) of
                       Inl e \<Rightarrow> Some (Inl e)
                     | Inr s \<Rightarrow> rec ro Lock_queue s)))
      | Select interrupt \<Rightarrow>
          (case yield_start interrupt s of
             Inl e \<Rightarrow> Some (Inl e)
           | Inr (disk_busy, s) \<Rightarrow>
               Option.bind (rec ro Lock_queue s) (\<lambda>r.
               (case r of
                  Inl e \<Rightarrow> Some (Inl e)
                | Inr (_, s) \<Rightarrow>
                    (let disk_queue_empty = (list_head (io_queue s) = 0) in
                     (case unlock_queue s of
                        Inl e \<Rightarrow> Some (Inl e)
                      | Inr s \<Rightarrow>
                          if disk_busy \<or> disk_queue_empty then Some (take_ready s)
                          else Option.bind (rec ro Lock_queue s) (\<lambda>r.
                               (case r of
                                  Inl e \<Rightarrow> Some (Inl e)
                                | Inr (_, s) \<Rightarrow> Some (take_io s))))))))) = Some r"
    show "queue_locked s \<longrightarrow> current_thread s \<noteq> 0 \<longrightarrow> False"
    proof (intro impI)
      assume l: "queue_locked s" "current_thread s \<noteq> 0"
      show False
        using eq l by (cases c) (simp_all add: lock_attempt_queue yield_start_eq none)
    qed
  qed
  then show False using assms by blast
qed

end
