(* ===== verification/Scheduling.thy ===== *)
theory Scheduling
  imports Scheduler
begin

text \<open>
  What the scheduler promises.  \<open>sched_ok s R D\<close> says that the ready queue holds the nodes and
  threads \<open>R\<close> and the disk's queue \<open>D\<close>; under it, \<open>resume\<close> appends and \<open>yield\<close> takes the first
  ready thread, or the first thread that waits for the disk when there is one and the disk is not
  busy.  The locale \<open>round_robin\<close> derives from this that every ready thread gets the processor
  after as many yields as there are threads in front of it.
\<close>

section \<open>The invariant of the queues\<close>

definition sched_ok :: "'a sched_state_scheme \<Rightarrow> (u32 \<times> u32) list \<Rightarrow> (u32 \<times> u32) list \<Rightarrow> bool" where
  "sched_ok s R D \<longleftrightarrow> list_repr (queue_nodes s) (ready_queue s) R \<and> list_repr (queue_nodes s) (io_queue s) D
     \<and> fst ` set R \<inter> fst ` set D = {} \<and> (\<forall>n \<in> fst ` set R \<union> fst ` set D. unat n < unat (start_address s))
     \<and> start_address s \<noteq> 0 \<and> \<not> queue_locked s"

text \<open>Bytes left before the addresses of the memory pool wrap.\<close>

definition heap_room :: "'a mem_state_scheme \<Rightarrow> nat" where
  "heap_room s = 4294967295 - unat (start_address s)"

lemma list_repr_cong: "(\<And>n. n \<in> fst ` set ns \<Longrightarrow> h' n = h n) \<Longrightarrow> list_repr h' l ns = list_repr h l ns"
  unfolding list_repr_def using chain_cong [of ns h' h 0 0] by simp

lemma list_repr_upd: "n \<notin> fst ` set ns \<Longrightarrow> list_repr (h(n := x)) l ns = list_repr h l ns"
  by (rule list_repr_cong) auto

lemma make_node_eq:
  "make_node t s = (start_address s, s\<lparr>start_address := start_address s + 12,
     queue_nodes := new_node (start_address s) t (queue_nodes s)\<rparr>)"
  by (simp add: make_node_def heap_operators)

lemma start_grows:
  assumes "12 \<le> heap_room s"
  shows "unat (start_address s + 12) = unat (start_address s) + 12" "start_address s + 12 \<noteq> 0"
proof -
  have "unat (start_address s) + 12 < 4294967296" using assms by (simp add: heap_room_def)
  then show u: "unat (start_address s + 12) = unat (start_address s) + 12" by (simp add: unat_word_ariths)
  then show "start_address s + 12 \<noteq> 0" by (metis add_is_0 unat_0 zero_neq_numeral)
qed

text \<open>A new node at the end of one of the queues.\<close>

lemma new_node_appended:
  assumes ok: "list_repr (queue_nodes s) l ns" "list_repr (queue_nodes s) l2 ms" "fst ` set ns \<inter> fst ` set ms = {}"
    and below: "\<forall>n \<in> fst ` set ns \<union> fst ` set ms. unat n < unat (start_address s)" and n: "start_address s \<noteq> 0"
  shows "\<exists>h' l'. append_node (start_address s) (new_node (start_address s) t (queue_nodes s), l) = Inr (h', l')
    \<and> list_repr h' l' (ns @ [(start_address s, t)]) \<and> list_repr h' l2 ms"
proof -
  let ?n = "start_address s"
  have fresh: "?n \<notin> fst ` set ns" "?n \<notin> fst ` set ms" using below by auto
  obtain h' l' where a: "append_node ?n (new_node ?n t (queue_nodes s), l) = Inr (h', l')"
    "list_repr h' l' (ns @ [(?n, t)])" "\<forall>m. m \<noteq> ?n \<longrightarrow> m \<notin> fst ` set ns \<longrightarrow> h' m = queue_nodes s m"
    using append_node_repr [OF ok(1) n fresh(1), of t] by (elim exE conjE)
  have "h' m = queue_nodes s m" if "m \<in> fst ` set ms" for m
    using a(3) that fresh(2) ok(3) by (metis disjoint_iff)
  then have "list_repr h' l2 ms" using ok(2) list_repr_cong [of ms h' "queue_nodes s" l2] by blast
  then show ?thesis using a by blast
qed

lemma resume_ok:
  assumes ok: "sched_ok s R D" and room: "12 \<le> heap_room s"
  shows "\<exists>s' h q. resume t s = Inr s' \<and> sched_ok s' (R @ [(start_address s, t)]) D
    \<and> s' = s\<lparr>start_address := start_address s + 12, queue_nodes := h, ready_queue := q,
        EFLAGS := EFLAGS s OR IF_mask\<rparr>"
proof -
  have n: "start_address s \<noteq> 0" using ok by (simp add: sched_ok_def)
  obtain h q where a: "append_node (start_address s) (new_node (start_address s) t (queue_nodes s), ready_queue s) = Inr (h, q)"
    "list_repr h q (R @ [(start_address s, t)])" "list_repr h (io_queue s) D"
    using new_node_appended [of s "ready_queue s" R "io_queue s" D t] ok by (auto simp: sched_ok_def)
  let ?s = "s\<lparr>start_address := start_address s + 12, queue_nodes := h, ready_queue := q, EFLAGS := EFLAGS s OR IF_mask\<rparr>"
  have "resume t s = Inr ?s"
    by (simp add: resume_def interrupts_off_eq interrupts_on_eq make_node_eq a(1) flags_off)
  moreover have "sched_ok ?s (R @ [(start_address s, t)]) D"
  proof -
    have below: "unat m < unat (start_address s)" if "m \<in> fst ` set R \<union> fst ` set D" for m
      using ok that by (simp add: sched_ok_def)
    have "\<forall>m \<in> fst ` set (R @ [(start_address s, t)]) \<union> fst ` set D. unat m < unat (start_address s + 12)"
      unfolding start_grows(1) [OF room] using below by (auto intro: trans_less_add1)
    moreover have "start_address s \<notin> fst ` set D" using below by blast
    ultimately show ?thesis using ok a start_grows(2) [OF room] by (simp add: sched_ok_def)
  qed
  ultimately show ?thesis by blast
qed

text \<open>Taking the first node of a queue.\<close>

lemma head_removed:
  assumes "list_repr h l ((n, t) # ns)" and "list_repr h l2 ms" and "fst ` set ((n, t) # ns) \<inter> fst ` set ms = {}"
  shows "\<exists>h' l' v. remove_head (h, l) = Inr (h', l') \<and> list_head l = n \<and> n \<noteq> 0 \<and> list_repr h' l' ns \<and> list_repr h' l2 ms
    \<and> h' n = Some v \<and> node_thread v = t"
proof -
  note r = remove_head_repr [OF assms(1)]
  obtain h' l' where a: "remove_head (h, l) = Inr (h', l')" "list_repr h' l' ns" "\<forall>m. m \<notin> fst ` set ns \<longrightarrow> h' m = h m"
    using r(3) by (elim exE conjE)
  have "h' m = h m" if "m \<in> fst ` set ms" for m using a(3) that assms(3) by auto
  then have "list_repr h' l2 ms" using assms(2) list_repr_cong [of ms h' h l2] by blast
  moreover have n: "n \<noteq> 0" "n \<notin> fst ` set ns" using assms(1) by (auto simp: list_repr_def)
  moreover obtain v where "h n = Some v" using assms(1) by (auto simp: list_repr_def)
  ultimately show ?thesis using a r(1,2) by auto
qed

lemma take_ready_ok:
  assumes ok: "sched_ok s ((n, t) # R) D"
  shows "\<exists>h q v. take_ready s = Inr (Some n, s\<lparr>queue_nodes := h, ready_queue := q, EFLAGS := EFLAGS s OR IF_mask\<rparr>)
    \<and> sched_ok (s\<lparr>queue_nodes := h, ready_queue := q, EFLAGS := EFLAGS s OR IF_mask\<rparr>) R D
    \<and> h n = Some v \<and> node_thread v = t"
proof -
  obtain h q v where a: "remove_head (queue_nodes s, ready_queue s) = Inr (h, q)" "list_head (ready_queue s) = n" "n \<noteq> 0"
    "list_repr h q R" "list_repr h (io_queue s) D" "h n = Some v" "node_thread v = t"
    using head_removed [of "queue_nodes s" "ready_queue s" n t R "io_queue s" D] ok unfolding sched_ok_def by blast
  have "take_ready s = Inr (Some n, s\<lparr>queue_nodes := h, ready_queue := q, EFLAGS := EFLAGS s OR IF_mask\<rparr>)"
    using a(1-3) by (simp add: take_ready_def interrupts_on_eq Let_def)
  moreover have "sched_ok (s\<lparr>queue_nodes := h, ready_queue := q, EFLAGS := EFLAGS s OR IF_mask\<rparr>) R D"
    using ok a(4,5) by (auto simp: sched_ok_def)
  ultimately show ?thesis using a(6,7) by blast
qed

lemma take_io_ok:
  assumes ok: "sched_ok s R ((n, t) # D)"
  shows "\<exists>h q v. take_io s = Inr (Some n, s\<lparr>queue_nodes := h, io_queue := q, EFLAGS := EFLAGS s OR IF_mask\<rparr>)
    \<and> sched_ok (s\<lparr>queue_nodes := h, io_queue := q, EFLAGS := EFLAGS s OR IF_mask\<rparr>) R D
    \<and> h n = Some v \<and> node_thread v = t"
proof -
  have "\<not> queue_locked s" using ok by (simp add: sched_ok_def)
  then have free: "s\<lparr>queue_locked := False\<rparr> = s" by (cases s) simp
  obtain h q v where a: "remove_head (queue_nodes s, io_queue s) = Inr (h, q)" "list_head (io_queue s) = n" "n \<noteq> 0"
    "list_repr h q D" "list_repr h (ready_queue s) R" "h n = Some v" "node_thread v = t"
    using head_removed [of "queue_nodes s" "io_queue s" n t D "ready_queue s" R] ok unfolding sched_ok_def by blast
  have "take_io s = Inr (Some n, (s\<lparr>queue_locked := False\<rparr>)\<lparr>queue_nodes := h, io_queue := q, EFLAGS := EFLAGS s OR IF_mask\<rparr>)"
    using a(1-3) by (simp add: take_io_def unlock_eq interrupts_on_eq or_mask_twice Let_def)
  then have "take_io s = Inr (Some n, s\<lparr>queue_nodes := h, io_queue := q, EFLAGS := EFLAGS s OR IF_mask\<rparr>)"
    unfolding free .
  moreover have "sched_ok (s\<lparr>queue_nodes := h, io_queue := q, EFLAGS := EFLAGS s OR IF_mask\<rparr>) R D"
    using ok a(4,5) by (auto simp: sched_ok_def)
  ultimately show ?thesis using a(6,7) by blast
qed

section \<open>Which thread is next\<close>

text \<open>The abstract choice: the node and thread to dispatch and the two queues after it.\<close>

definition next_thread ::
  "bool \<Rightarrow> (u32 \<times> u32) list \<Rightarrow> (u32 \<times> u32) list
     \<Rightarrow> (u32 \<times> u32) option \<times> (u32 \<times> u32) list \<times> (u32 \<times> u32) list" where
  "next_thread busy R D =
     (if busy \<or> D = [] then (case R of [] \<Rightarrow> (None, [], D) | r # R' \<Rightarrow> (Some r, R', D))
      else (Some (hd D), R, tl D))"

text \<open>What a choice leaves alone.\<close>

definition same_threads :: "'a sched_state_scheme \<Rightarrow> 'a sched_state_scheme \<Rightarrow> bool" where
  "same_threads s s' \<longleftrightarrow> thread_objs s' = thread_objs s \<and> ram s' = ram s \<and> current_thread s' = current_thread s
     \<and> start_address s' = start_address s \<and> zombieThread s' = zombieThread s \<and> hw_locked s' = hw_locked s
     \<and> port_log s' = port_log s \<and> port_input s' = port_input s \<and> eoq_ticks s' = eoq_ticks s
     \<and> sched_state.more s' = sched_state.more s"

lemma at_select_ok:
  "sched_ok s R D \<Longrightarrow> sched_ok (at_select interrupt s) R D"
  "same_threads s (at_select interrupt s)" "bit (EFLAGS (at_select interrupt s)) 9"
  by (simp_all add: sched_ok_def at_select_def same_threads_def bit_simps bit_IF_mask)

lemma io_head: "sched_ok s R D \<Longrightarrow> list_head (io_queue s) = 0 \<longleftrightarrow> D = []"
  by (cases D) (auto simp: sched_ok_def list_repr_def)

lemma yield_select_refines:
  assumes ok: "sched_ok s R D" and cur: "current_thread s \<noteq> 0"
    and choice: "next_thread (interrupt = 0 \<and> busy_at s (port_reads s)) R D = (choice, R', D')"
  shows "\<exists>s'. yield_select ro interrupt s = Inr (map_option fst choice, s') \<and> sched_ok s' R' D' \<and> same_threads s s'
    \<and> interrupts_enabled s'
    \<and> (\<forall>n t. choice = Some (n, t) \<longrightarrow> (\<exists>v. queue_nodes s' n = Some v \<and> node_thread v = t))"
proof -
  let ?b = "interrupt = 0 \<and> busy_at s (port_reads s)" and ?s = "at_select interrupt s"
  have l: "\<not> queue_locked s" "current_thread s \<noteq> 0" using ok cur by (simp_all add: sched_ok_def)
  have ys: "yield_select ro interrupt s = (if ?b \<or> D = [] then take_ready ?s else take_io ?s)"
    unfolding yield_select_eq [OF l] io_head [OF ok] by simp
  note ok' = at_select_ok(1) [OF ok, of interrupt]
  note same = at_select_ok(2) [of s interrupt] at_select_ok(3) [where interrupt = interrupt and s = s]
  have en: "interrupts_enabled (s\<lparr>queue_nodes := h, ready_queue := q, EFLAGS := x OR IF_mask\<rparr>)"
    "interrupts_enabled (s\<lparr>queue_nodes := h, io_queue := q, EFLAGS := x OR IF_mask\<rparr>)" for h q x and s :: "'a sched_state_scheme"
    by (simp_all add: interrupts_enabled_bit bit_simps bit_IF_mask)
  consider "?b \<or> D = []" "R = []" | n t R1 where "?b \<or> D = []" "R = (n, t) # R1"
    | n t D1 where "\<not> (?b \<or> D = [])" "D = (n, t) # D1"
    by (metis neq_Nil_conv surj_pair)
  then show ?thesis
  proof cases
    case 1
    then have "take_ready ?s = Inr (None, ?s)" using ok' by (simp add: take_ready_def sched_ok_def list_repr_def)
    moreover have "choice = None" "R' = R" "D' = D" using choice 1 by (auto simp: next_thread_def)
    ultimately show ?thesis using ys 1 ok' same by (simp add: interrupts_enabled_bit)
  next
    case 2
    have s: "choice = Some (n, t)" "R' = R1" "D' = D" using choice 2 by (auto simp: next_thread_def)
    obtain h q v where a: "take_ready ?s = Inr (Some n, ?s\<lparr>queue_nodes := h, ready_queue := q, EFLAGS := EFLAGS ?s OR IF_mask\<rparr>)"
      "sched_ok (?s\<lparr>queue_nodes := h, ready_queue := q, EFLAGS := EFLAGS ?s OR IF_mask\<rparr>) R1 D"
      "h n = Some v" "node_thread v = t"
      using take_ready_ok [of ?s n t R1 D] ok' 2 by auto
    show ?thesis
      using ys 2 a s same en(1) [where s = ?s and h = h and q = q and x = "EFLAGS ?s"]
      by (intro exI [of _ "?s\<lparr>queue_nodes := h, ready_queue := q, EFLAGS := EFLAGS ?s OR IF_mask\<rparr>"])
        (simp add: same_threads_def)
  next
    case 3
    have s: "choice = Some (n, t)" "R' = R" "D' = D1" using choice 3 by (auto simp: next_thread_def)
    obtain h q v where a: "take_io ?s = Inr (Some n, ?s\<lparr>queue_nodes := h, io_queue := q, EFLAGS := EFLAGS ?s OR IF_mask\<rparr>)"
      "sched_ok (?s\<lparr>queue_nodes := h, io_queue := q, EFLAGS := EFLAGS ?s OR IF_mask\<rparr>) R D1"
      "h n = Some v" "node_thread v = t"
      using take_io_ok [of ?s R n t D1] ok' 3 by auto
    show ?thesis
      using ys [unfolded if_not_P [OF 3(1)]] a s same en(2) [where s = ?s and h = h and q = q and x = "EFLAGS ?s"]
      by (intro exI [of _ "?s\<lparr>queue_nodes := h, io_queue := q, EFLAGS := EFLAGS ?s OR IF_mask\<rparr>"])
        (simp add: same_threads_def)
  qed
qed

lemma yield_dispatch_Some:
  "queue_nodes s n = Some v \<Longrightarrow> yield_dispatch ro (Some n, s)
     = andThen (ro (s\<lparr>current_thread := node_thread v\<rparr>)) (\<lambda>s. Inr (yield_finish n s))"
  by (simp add: yield_dispatch_def dispatch_to_def)

text \<open>Executing the statements behind a dispatch leaves the queues alone.\<close>

lemma yield_finish_ok:
  assumes ok: "sched_ok s R D" and n: "n \<notin> fst ` set R \<union> fst ` set D"
  shows "sched_ok (yield_finish n s) R D" and "same_threads s (yield_finish n s)"
    and "EFLAGS (yield_finish n s) = EFLAGS s"
proof -
  have "list_repr ((queue_nodes s)(n := None)) (ready_queue s) R" "list_repr ((queue_nodes s)(n := None)) (io_queue s) D"
    using ok n by (simp_all add: sched_ok_def list_repr_upd)
  then show "sched_ok (yield_finish n s) R D"
    using ok by (simp add: sched_ok_def yield_finish_def heap_operators Let_def)
qed (simp_all add: same_threads_def yield_finish_def heap_operators Let_def)

section \<open>Round robin\<close>

text \<open>Doing a step \<open>n\<close> times.\<close>

primrec repeat_step :: "nat \<Rightarrow> ('s \<Rightarrow> 's outcome) \<Rightarrow> 's \<Rightarrow> 's outcome" where
  "repeat_step 0 step s = Inr s"
| "repeat_step (Suc n) step s = andThen (step s) (repeat_step n step)"

text \<open>
  The contract of a processor that is passed on: \<open>runs s c q\<close> says that thread \<open>c\<close> has the
  processor and that \<open>q\<close> wait, in this order; a pass works as long as \<open>room\<close> is left.
\<close>

locale round_robin =
  fixes runs :: "'s \<Rightarrow> 't \<Rightarrow> 't list \<Rightarrow> bool" and room :: "'s \<Rightarrow> nat" and pass :: "'s \<Rightarrow> 's outcome"
  assumes pass_law: "runs s c (t # q) \<Longrightarrow> 0 < room s \<Longrightarrow>
      \<exists>s'. pass s = Inr s' \<and> runs s' t (q @ [c]) \<and> room s \<le> room s' + 1"
begin

lemma rotates:
  assumes "runs s c q" and "q \<noteq> []" and "n \<le> room s"
  shows "\<exists>s' c' q'. repeat_step n pass s = Inr s' \<and> runs s' c' q' \<and> c' # q' = rotate n (c # q)"
  using assms
proof (induction n arbitrary: s c q)
  case (Suc n)
  obtain t p where q: "q = t # p" using Suc.prems(2) by (cases q) auto
  obtain s1 where s1: "pass s = Inr s1" "runs s1 t (p @ [c])" "room s \<le> room s1 + 1"
    using pass_law [of s c t p] Suc.prems q by auto
  have "n \<le> room s1" using s1(3) Suc.prems(3) by simp
  then obtain s' c' q' where "repeat_step n pass s1 = Inr s'" "runs s' c' q'" "c' # q' = rotate n (t # p @ [c])"
    using Suc.IH [OF s1(2)] by auto
  then show ?case using s1(1) q by (auto simp: rotate1_rotate_swap)
qed simp

text \<open>No thread starves: the one with \<open>i\<close> threads in front of it runs after \<open>i + 1\<close> passes.\<close>

lemma gets_the_processor:
  assumes "runs s c q" and "i < length q" and "Suc i \<le> room s"
  shows "\<exists>s' q'. repeat_step (Suc i) pass s = Inr s' \<and> runs s' (q ! i) q'"
proof -
  obtain s' c' q' where r: "repeat_step (Suc i) pass s = Inr s'" "runs s' c' q'" "c' # q' = rotate (Suc i) (c # q)"
    using rotates [OF assms(1) _ assms(3)] assms(2) by fastforce
  have "c' = rotate (Suc i) (c # q) ! 0" using r(3) by (metis nth_Cons_0)
  also have "\<dots> = q ! i" using assms(2) by (simp add: nth_rotate del: rotate_Suc)
  finally show ?thesis using r by auto
qed

end

end
