(* ===== verification/Kernel_Threads.thy ===== *)
theory Kernel_Threads
  imports Scheduling
begin

text \<open>
  The threads of the second kernel (\<open>kernel.C\<close>) as a system: each step runs the current thread
  from one context switch to the next.  A step passes the processor on, creates a thread and adds
  it, or ends a thread whose function has returned.  Disk operations are not steps of this system.

  A suspended thread still has the two statements after its \<open>dispatch_to\<close> to execute: \<open>pending\<close>
  records, for each thread, the node it will delete.
\<close>

type_synonym 'a conf = "'a sched_state_scheme \<times> (u32 \<Rightarrow> u32 option)"

definition resumed :: "'a conf \<Rightarrow> 'a sched_state_scheme" where
  "resumed C = (case C of (s, pending) \<Rightarrow>
     case pending (current_thread s) of None \<Rightarrow> s | Some n \<Rightarrow> yield_finish n s)"

definition switch_to ::
  "u32 \<Rightarrow> (u32 \<Rightarrow> u32 option) \<Rightarrow> u32 option \<times> 'a sched_state_scheme \<Rightarrow> 'a conf outcome" where
  "switch_to c pending r = (case r of
     (None, s) \<Rightarrow> Inr (s, pending(c := None))
   | (Some n, s) \<Rightarrow>
       (case queue_nodes s n of
          None \<Rightarrow> Inl Wild
        | Some v \<Rightarrow> Inr (s\<lparr>current_thread := node_thread v\<rparr>, pending(c \<mapsto> n))))"

text \<open>\<open>pass_on_CPU\<close>, up to the switch.\<close>

definition pass_segment :: "'a conf \<Rightarrow> 'a conf outcome" where
  "pass_segment C =
     (let s = resumed C; c = current_thread s in
      andThen (resume (CurrentThread s) s) (\<lambda>s.
      andThen (yield_select Inr 0 s) (switch_to c (snd C))))"

text \<open>
  \<open>thread_shutdown\<close>, up to the switch.  If no thread is ready the function returns, and there is no
  address to return to.
\<close>

definition shutdown_segment :: "'a conf \<Rightarrow> 'a conf outcome" where
  "shutdown_segment C =
     (let s = resumed C; c = current_thread s in
      andThen (terminate (CurrentThread s) s) (\<lambda>s.
      andThen (yield_select Inr 0 s) (\<lambda>r.
      if fst r = None then Inl Wild else switch_to c (snd C) r)))"

text \<open>\<open>new char[4096]\<close>, \<open>new Thread(tf, stack, 4096)\<close>; an object has 24 bytes.\<close>

definition create_thread ::
  "u32 \<Rightarrow> u32 \<Rightarrow> thread_obj \<Rightarrow> u32 \<Rightarrow> 'a thread_state_scheme \<Rightarrow> (u32 \<times> 'a thread_state_scheme) outcome" where
  "create_thread start shutdown old tf s =
     (case operator_new_array 4096 s of (stack0, s) \<Rightarrow>
      case operator_new 24 s of (this, s) \<Rightarrow>
      andThen (Thread start shutdown this old tf stack0 4096 s) (\<lambda>s. Inr (this, s)))"

definition create_segment :: "u32 \<Rightarrow> u32 \<Rightarrow> thread_obj \<Rightarrow> u32 \<Rightarrow> 'a conf \<Rightarrow> 'a conf outcome" where
  "create_segment start shutdown old tf C =
     (let s = resumed C; c = current_thread s in
      andThen (create_thread start shutdown old tf s) (\<lambda>(t, s).
      andThen (add_thread t s) (\<lambda>s. Inr (s, (snd C)(c := None)))))"

inductive kernel_step :: "'a conf \<Rightarrow> 'a conf \<Rightarrow> bool" where
  pass: "pass_segment C = Inr C' \<Longrightarrow> 12 \<le> heap_room (fst C) \<Longrightarrow> kernel_step C C'"
| create: "create_segment start shutdown old tf C = Inr C' \<Longrightarrow> 4132 \<le> heap_room (fst C) \<Longrightarrow>
    aligned (start_address (fst C)) \<Longrightarrow> kernel_step C C'"
| shutdown: "shutdown_segment C = Inr C' \<Longrightarrow> kernel_step C C'"

inductive_cases kernel_stepE: "kernel_step C C'"

section \<open>The invariant\<close>

text \<open>
  The threads \<open>c # q\<close> are all different, have control blocks, and lie below the addresses that
  \<open>new\<close> will hand out; so does the zombie, which is none of them.
\<close>

definition threads_ok :: "'a sched_state_scheme \<Rightarrow> u32 list \<Rightarrow> bool" where
  "threads_ok s ts \<longleftrightarrow> distinct ts \<and> 0 \<notin> set ts \<and> (\<forall>t\<in>set ts. thread_objs s t \<noteq> None \<and> unat t < unat (start_address s))
     \<and> (zombieThread s \<noteq> 0 \<longrightarrow> zombieThread s \<notin> set ts \<and> thread_objs s (zombieThread s) \<noteq> None
         \<and> unat (zombieThread s) < unat (start_address s))"

definition pending_ok :: "(u32 \<Rightarrow> u32 option) \<Rightarrow> 'a sched_state_scheme \<Rightarrow> (u32 \<times> u32) list \<Rightarrow> bool" where
  "pending_ok pending s R \<longleftrightarrow> (\<forall>t n. pending t = Some n \<longrightarrow> n \<notin> fst ` set R \<and> unat n < unat (start_address s))"

definition running :: "'a conf \<Rightarrow> u32 \<Rightarrow> (u32 \<times> u32) list \<Rightarrow> bool" where
  "running C c R \<longleftrightarrow> sched_ok (fst C) R [] \<and> current_thread (fst C) = c
     \<and> threads_ok (fst C) (c # map snd R) \<and> pending_ok (snd C) (fst C) R"

lemma resumed_ok:
  assumes "running C c R"
  shows "sched_ok (resumed C) R []" "same_threads (fst C) (resumed C)"
proof -
  obtain s pending where C: "C = (s, pending)" by fastforce
  show "sched_ok (resumed C) R []" "same_threads (fst C) (resumed C)"
    using assms yield_finish_ok [of s R "[]"]
    by (auto simp: C resumed_def running_def pending_ok_def same_threads_def split: option.splits)
qed

lemma same_threads_running:
  assumes "same_threads s s'"
  shows "threads_ok s' ts = threads_ok s ts" "pending_ok p s' R = pending_ok p s R"
    "heap_room s' = heap_room s" "current_thread s' = current_thread s"
  using assms by (simp_all add: same_threads_def threads_ok_def pending_ok_def heap_room_def)

text \<open>From a choice to the switch.\<close>

lemma switch_ok:
  assumes ok: "sched_ok s ((n, t) # R) []" and th: "threads_ok s (t # map snd R)"
    and pd: "pending_ok pending s ((n, t) # R)" and cur: "current_thread s \<noteq> 0"
  shows "\<exists>C'. andThen (yield_select ro 0 s) (switch_to c pending) = Inr C' \<and> running C' t R
    \<and> heap_room (fst C') = heap_room s \<and> (\<exists>s'. yield_select ro 0 s = Inr (Some n, s'))"
proof -
  have "next_thread (0 = (0 :: int) \<and> busy_at s (port_reads s)) ((n, t) # R) [] = (Some (n, t), R, [])"
    by (simp add: next_thread_def)
  from yield_select_refines [OF ok cur this, of ro]
  obtain s' v where s': "yield_select ro 0 s = Inr (Some n, s')" "sched_ok s' R []" "same_threads s s'"
    "queue_nodes s' n = Some v" "node_thread v = t" by auto
  let ?C = "(s'\<lparr>current_thread := t\<rparr>, pending(c \<mapsto> n))"
  have n: "n \<notin> fst ` set R" "unat n < unat (start_address s)" "t \<noteq> 0"
    using ok th by (auto simp: sched_ok_def list_repr_def threads_ok_def)
  have fields: "start_address s' = start_address s" "thread_objs s' = thread_objs s" "zombieThread s' = zombieThread s"
    using s'(3) by (simp_all add: same_threads_def)
  have "sched_ok (s'\<lparr>current_thread := t\<rparr>) R []" using s'(2) n(3) by (simp add: sched_ok_def)
  moreover have "threads_ok (s'\<lparr>current_thread := t\<rparr>) (t # map snd R)"
    using th by (simp add: threads_ok_def fields)
  moreover have "pending_ok (pending(c \<mapsto> n)) (s'\<lparr>current_thread := t\<rparr>) R"
    using pd n by (auto simp: pending_ok_def fields)
  ultimately have "running ?C t R" by (simp add: running_def)
  moreover have "andThen (yield_select ro 0 s) (switch_to c pending) = Inr ?C"
    using s'(1,4,5) by (simp add: switch_to_def)
  moreover have "heap_room (fst ?C) = heap_room s" using fields by (simp add: heap_room_def)
  ultimately show ?thesis using s'(1) by blast
qed

lemma resume_threads:
  assumes ok: "sched_ok s R []" and th: "threads_ok s ts" and pd: "pending_ok pending s R" and room: "12 \<le> heap_room s"
  shows "\<exists>s'. resume t s = Inr s' \<and> sched_ok s' (R @ [(start_address s, t)]) [] \<and> threads_ok s' ts
    \<and> pending_ok pending s' (R @ [(start_address s, t)]) \<and> heap_room s' = heap_room s - 12
    \<and> current_thread s' = current_thread s"
proof -
  obtain s' h q where s': "resume t s = Inr s'" "sched_ok s' (R @ [(start_address s, t)]) []"
    "s' = s\<lparr>start_address := start_address s + 12, queue_nodes := h, ready_queue := q, EFLAGS := EFLAGS s OR IF_mask\<rparr>"
    using resume_ok [OF ok room, of t] by (elim exE conjE)
  have u: "unat (start_address s') = unat (start_address s) + 12" using start_grows(1) [OF room] s'(3) by simp
  have f: "thread_objs s' = thread_objs s" "zombieThread s' = zombieThread s" "current_thread s' = current_thread s"
    using s'(3) by simp_all
  have "threads_ok s' ts" using th unfolding threads_ok_def f u by auto
  moreover have "pending_ok pending s' (R @ [(start_address s, t)])"
    using pd unfolding pending_ok_def u by (fastforce intro: trans_less_add1)
  moreover have "heap_room s' = heap_room s - 12" unfolding heap_room_def u by simp
  ultimately show ?thesis using s'(1,2) f by blast
qed

text \<open>Passing on never fails: the first thread of the queue and the caller at its end rotates.\<close>

lemma pass_segment_ok:
  assumes run: "running C c R" and room: "12 \<le> heap_room (fst C)"
  shows "\<exists>C' t R'. pass_segment C = Inr C' \<and> running C' t R' \<and> t # map snd R' = map snd R @ [c]
    \<and> heap_room (fst C') = heap_room (fst C) - 12"
proof -
  let ?s = "resumed C"
  note r = resumed_ok [OF run] same_threads_running [OF resumed_ok(2) [OF run]]
  have th: "threads_ok ?s (c # map snd R)" "pending_ok (snd C) ?s R" "12 \<le> heap_room ?s" "current_thread ?s = c"
    using run room by (simp_all add: running_def r)
  obtain s1 where s1: "resume c ?s = Inr s1" "sched_ok s1 (R @ [(start_address ?s, c)]) []" "threads_ok s1 (c # map snd R)"
    "pending_ok (snd C) s1 (R @ [(start_address ?s, c)])" "heap_room s1 = heap_room ?s - 12"
    "current_thread s1 = current_thread ?s"
    using resume_threads [OF r(1) th(1-3), of c] by (elim exE conjE)
  have cur: "current_thread s1 \<noteq> 0" using th(1,4) s1(6) by (auto simp: threads_ok_def)
  obtain n t R' where R': "R @ [(start_address ?s, c)] = (n, t) # R'"
    by (metis append_is_Nil_conv neq_Nil_conv prod.exhaust)
  have snd: "t # map snd R' = map snd R @ [c]" using arg_cong [OF R', of "map snd"] by simp
  have "threads_ok s1 (t # map snd R')" using s1(3) unfolding snd by (auto simp: threads_ok_def)
  from switch_ok [OF s1(2) [unfolded R'] this s1(4) [unfolded R'] cur, of Inr c]
  obtain C' where C': "andThen (yield_select Inr 0 s1) (switch_to c (snd C)) = Inr C'" "running C' t R'"
    "heap_room (fst C') = heap_room s1" by blast
  have "pass_segment C = Inr C'"
    unfolding pass_segment_def Let_def CurrentThread_def th(4) s1(1) andThen_simps by (rule C'(1))
  moreover have "heap_room (fst C') = heap_room (fst C) - 12" using C'(3) s1(5) r by simp
  ultimately show ?thesis using C'(2) snd by blast
qed

text \<open>A thread that ends: the previous zombie is destroyed, and the thread itself becomes the zombie.\<close>

lemma terminate_ok:
  assumes ok: "sched_ok s R []" and th: "threads_ok s (c # map snd R)" and pd: "pending_ok pending s R"
  shows "\<exists>s'. terminate c s = Inr s' \<and> sched_ok s' R [] \<and> threads_ok s' (map snd R) \<and> zombieThread s' = c \<and> current_thread s' = current_thread s
    \<and> pending_ok pending s' R \<and> heap_room s' = heap_room s
    \<and> thread_objs s' = (if zombieThread s = 0 then thread_objs s else (thread_objs s)(zombieThread s := None))"
proof -
  let ?o = "if zombieThread s = 0 then thread_objs s else (thread_objs s)(zombieThread s := None)"
  let ?s = "s\<lparr>thread_objs := ?o, zombieThread := c\<rparr>"
  have z: "zombieThread s \<noteq> 0 \<Longrightarrow> zombieThread s \<notin> set (c # map snd R)" using th by (simp add: threads_ok_def)
  have "terminate c s = Inr ?s"
  proof (cases "zombieThread s = 0")
    case False
    then obtain t where "thread_objs s (zombieThread s) = Some t" using th by (auto simp: threads_ok_def)
    then show ?thesis using False by (simp add: terminate_def destroy_Thread_eq heap_operators)
  qed (simp add: terminate_def)
  moreover have "threads_ok ?s (map snd R)"
  proof -
    have "?o t = thread_objs s t" if "t \<in> set (map snd R)" for t
    proof -
      have "zombieThread s = 0 \<or> t \<noteq> zombieThread s" using z that by (metis list.set_intros(2))
      then show ?thesis by auto
    qed
    moreover have "?o c = thread_objs s c" using z by auto
    ultimately show ?thesis using th unfolding threads_ok_def by (simp del: set_map)
  qed
  moreover have "sched_ok ?s R []" "pending_ok pending ?s R" "heap_room ?s = heap_room s"
    using ok pd by (simp_all add: sched_ok_def pending_ok_def heap_room_def)
  ultimately show ?thesis by (intro exI [of _ ?s]) simp
qed

lemma shutdown_segment_ok:
  assumes run: "running C c R" and C': "shutdown_segment C = Inr C'"
  shows "\<exists>n t R'. R = (n, t) # R' \<and> running C' t R' \<and> heap_room (fst C') = heap_room (fst C)"
proof -
  let ?s = "resumed C"
  note r = resumed_ok [OF run] same_threads_running [OF resumed_ok(2) [OF run]]
  have th: "threads_ok ?s (c # map snd R)" "pending_ok (snd C) ?s R" "current_thread ?s = c"
    using run by (simp_all add: running_def r)
  obtain s1 where s1: "terminate c ?s = Inr s1" "sched_ok s1 R []" "threads_ok s1 (map snd R)" "pending_ok (snd C) s1 R"
    "heap_room s1 = heap_room ?s" "current_thread s1 = current_thread ?s"
    using terminate_ok [OF r(1) th(1,2)] by blast
  have cur: "current_thread s1 \<noteq> 0" using th(1,3) s1(6) by (auto simp: threads_ok_def)
  have seg: "andThen (yield_select Inr 0 s1) (\<lambda>r. if fst r = None then Inl Wild else switch_to c (snd C) r) = Inr C'"
    using C' unfolding shutdown_segment_def Let_def CurrentThread_def th(3) s1(1) andThen_simps .
  show ?thesis
  proof (cases R)
    case Nil
    have "next_thread (0 = (0 :: int) \<and> busy_at s1 (port_reads s1)) R [] = (None, [], [])"
      by (simp add: next_thread_def Nil)
    from yield_select_refines [OF s1(2) cur this, of Inr] seg show ?thesis by auto
  next
    case (Cons a R')
    obtain n t where R: "R = (n, t) # R'" using Cons by (cases a) auto
    have "threads_ok s1 (t # map snd R')" using s1(3) R by simp
    from switch_ok [OF s1(2) [unfolded R] this s1(4) [unfolded R] cur, of Inr c] seg R s1(5) r(5)
    show ?thesis by auto
  qed
qed

section \<open>Creating a thread\<close>

lemma create_thread_ok:
  assumes room: "4120 \<le> heap_room s" and al: "aligned (start_address s)"
  shows "\<exists>s' t. create_thread start shutdown old tf s = Inr (start_address s + 4096, s')
    \<and> thread_objs s' = (thread_objs s)(start_address s + 4096 \<mapsto> t)
    \<and> start_address s' = start_address s + 4120 \<and> new_context start shutdown tf (ram s') (thread_esp t)
    \<and> thread_stack t = start_address s \<and> thread_esp t = start_address s + 4016
    \<and> (\<forall>x. unat x < unat (start_address s) \<longrightarrow> ram s' x = ram s x)"
proof -
  let ?a = "start_address s"
  let ?s = "s\<lparr>start_address := ?a + 4120\<rparr>"
  have wrap: "unat ?a + unat (4096 :: u32) \<le> 4294967295" using room by (simp add: heap_room_def)
  then have "unat (?a + 4096) = unat ?a + 4096" by (simp add: unat_word_ariths)
  moreover have "(x + 4096) mod 4 = x mod 4" for x :: nat by presburger
  ultimately have al': "aligned (?a + 4096)" using al by (simp add: aligned_def)
  have "80 \<le> unat (4096 :: u32)" by simp
  from Thread_ok [OF al' this wrap, of start shutdown "?a + 4096" old tf ?s]
  obtain s' t where s': "Thread start shutdown (?a + 4096) old tf ?a 4096 ?s = Inr s'"
    "thread_objs s' = (thread_objs ?s)(?a + 4096 \<mapsto> t)" "new_context start shutdown tf (ram s') (thread_esp t)"
    "thread_stack t = ?a" "thread_esp t = ?a + 4096 - 80" "start_address s' = start_address ?s"
    "\<forall>x. unat x < unat ?a \<or> unat ?a + unat (4096 :: u32) \<le> unat x \<longrightarrow> ram s' x = ram ?s x"
    by blast
  have "create_thread start shutdown old tf s = Inr (?a + 4096, s')"
    using s'(1) unfolding create_thread_def heap_operators by (simp add: add.commute)
  then show ?thesis using s' by (intro exI [of _ s'] exI [of _ t]) simp
qed

text \<open>Fields of the scheduler that the construction of a thread leaves alone.\<close>

lemma sched_putch:
  "queue_nodes (putch c s) = queue_nodes s" "ready_queue (putch c s) = ready_queue s" "io_queue (putch c s) = io_queue s"
  "zombieThread (putch c s) = zombieThread s" "queue_locked (putch c s) = queue_locked s"
  by (simp_all add: putch_def put_char_def scroll_def move_cursor_def serial_def outportb_def Let_def)

lemmas sched_messages [simp] = sched_putch
  putch_invariant [where f = queue_nodes, OF sched_putch(1)] putch_invariant [where f = ready_queue, OF sched_putch(2)]
  putch_invariant [where f = io_queue, OF sched_putch(3)] putch_invariant [where f = zombieThread, OF sched_putch(4)]
  putch_invariant [where f = queue_locked, OF sched_putch(5)]

lemma create_thread_fields:
  assumes "create_thread start shutdown old tf s = Inr (t, s')"
  shows "queue_nodes s' = queue_nodes s" "ready_queue s' = ready_queue s" "io_queue s' = io_queue s"
    "zombieThread s' = zombieThread s" "queue_locked s' = queue_locked s" "current_thread s' = current_thread s"
  using assms
  by (auto simp: create_thread_def Thread_def setup_context_def heap_operators Let_def andThen_eq_Inr split: prod.splits)

lemma create_segment_ok:
  assumes run: "running C c R" and room: "4132 \<le> heap_room (fst C)" and al: "aligned (start_address (fst C))"
  shows "\<exists>C' n. create_segment start shutdown old tf C = Inr C'
    \<and> running C' c (R @ [(n, start_address (fst C) + 4096)]) \<and> heap_room (fst C') = heap_room (fst C) - 4132"
proof -
  let ?s = "resumed C"
  note r = resumed_ok [OF run] same_threads_running [OF resumed_ok(2) [OF run]]
  have th: "threads_ok ?s (c # map snd R)" "pending_ok (snd C) ?s R" "current_thread ?s = c"
    using run by (simp_all add: running_def r)
  have sa: "start_address ?s = start_address (fst C)" using r(2) by (simp add: same_threads_def)
  have room': "4120 \<le> heap_room ?s" using room r(5) by simp
  obtain s1 t where s1: "create_thread start shutdown old tf ?s = Inr (start_address ?s + 4096, s1)"
    "thread_objs s1 = (thread_objs ?s)(start_address ?s + 4096 \<mapsto> t)" "start_address s1 = start_address ?s + 4120"
    using create_thread_ok [OF room', of start shutdown old tf] al sa by auto
  note f = create_thread_fields [OF s1(1)]
  let ?t = "start_address ?s + 4096"
  have u: "unat ?t = unat (start_address ?s) + 4096" "unat (start_address s1) = unat (start_address ?s) + 4120"
    using room' unfolding s1(3) heap_room_def by (simp_all add: unat_word_ariths)
  have below: "\<forall>x\<in>set (c # map snd R). unat x < unat (start_address ?s)" using th(1) by (simp add: threads_ok_def)
  then have new: "?t \<notin> set (c # map snd R)" using u(1) by auto
  have "sched_ok s1 R []"
  proof -
    have "start_address s1 \<noteq> 0" using u(2) by auto
    then show ?thesis using r(1) u(2) unfolding sched_ok_def f by (auto intro: trans_less_add1)
  qed
  moreover have "threads_ok s1 (c # map snd R @ [?t])"
  proof -
    have "?t \<noteq> 0" using u(1) by auto
    moreover have "zombieThread ?s \<noteq> 0 \<longrightarrow> unat (zombieThread ?s) < unat (start_address ?s)" using th(1) by (simp add: threads_ok_def)
    moreover have "zombieThread ?s = ?t \<longrightarrow> zombieThread ?s = 0" using calculation(2) u(1) by auto
    ultimately show ?thesis
      using th(1) new u unfolding threads_ok_def s1(2) f by (auto intro: trans_less_add1)
  qed
  moreover have "pending_ok ((snd C)(c := None)) s1 R"
    using th(2) u(2) unfolding pending_ok_def by (auto intro: trans_less_add1)
  moreover have "12 \<le> heap_room s1" using room r(5) u(2) by (simp add: heap_room_def)
  ultimately obtain s2 where s2: "resume ?t s1 = Inr s2" "sched_ok s2 (R @ [(start_address s1, ?t)]) []"
    "threads_ok s2 (c # map snd R @ [?t])" "pending_ok ((snd C)(c := None)) s2 (R @ [(start_address s1, ?t)])"
    "current_thread s2 = current_thread s1" "heap_room s2 = heap_room s1 - 12"
    using resume_threads [of s1 R "c # map snd R @ [?t]" "(snd C)(c := None)" ?t] by blast
  have "create_segment start shutdown old tf C = Inr (s2, (snd C)(c := None))"
    by (simp add: create_segment_def th(3) s1(1) add_thread_def s2(1) Let_def)
  moreover have "running (s2, (snd C)(c := None)) c (R @ [(start_address s1, ?t)])"
    using s2 th(3) f(6) by (simp add: running_def)
  moreover have "heap_room s2 = heap_room (fst C) - 4132"
    using s2(6) u(2) sa by (simp add: heap_room_def)
  ultimately show ?thesis unfolding sa by auto
qed

section \<open>Every reachable state\<close>

lemma kernel_step_running:
  assumes "kernel_step C C'" and "running C c R"
  shows "\<exists>c' R'. running C' c' R'"
  using assms(1)
proof (cases rule: kernel_step.cases)
  case pass
  show ?thesis using pass_segment_ok [OF assms(2) pass(2)] pass(1) by auto
next
  case (create start shutdown old tf)
  show ?thesis using create_segment_ok [OF assms(2) create(2,3), of start shutdown old tf] create(1) by auto
next
  case shutdown
  show ?thesis using shutdown_segment_ok [OF assms(2) shutdown(1)] by auto
qed

lemma reachable_running:
  assumes "kernel_step\<^sup>*\<^sup>* C C'" and "running C c R"
  shows "\<exists>c' R'. running C' c' R'"
  using assms(1)
proof (induction rule: rtranclp_induct)
  case (step D E)
  then show ?case using kernel_step_running by blast
qed (use assms(2) in blast)

text \<open>
  A thread that neither has the processor nor is ready never runs again: the steps bring in only
  threads at new addresses.
\<close>

definition forgotten :: "u32 \<Rightarrow> 'a conf \<Rightarrow> bool" where
  "forgotten x C \<longleftrightarrow> (\<exists>c R. running C c R \<and> x \<notin> set (c # map snd R) \<and> unat x < unat (start_address (fst C)))"

lemma forgotten_step:
  assumes st: "kernel_step C C'" and x: "forgotten x C"
  shows "forgotten x C'"
proof -
  obtain c R where run: "running C c R" and new: "x \<notin> set (c # map snd R)" "unat x < unat (start_address (fst C))"
    using x by (auto simp: forgotten_def)
  have grows: "unat (start_address (fst C)) \<le> unat (start_address (fst C'))" if "heap_room (fst C') \<le> heap_room (fst C)"
    using that unat_less_32 [of "start_address (fst C)"] unat_less_32 [of "start_address (fst C')"]
    by (simp add: heap_room_def)
  show ?thesis using st
  proof (cases rule: kernel_step.cases)
    case pass
    obtain D t R' where D: "pass_segment C = Inr D" "running D t R'" "t # map snd R' = map snd R @ [c]"
      "heap_room (fst D) = heap_room (fst C) - 12"
      using pass_segment_ok [OF run pass(2)] by (elim exE conjE)
    have "set (t # map snd R') = set (c # map snd R)" unfolding D(3) by auto
    then show ?thesis using D(1,2,4) pass(1) new grows unfolding forgotten_def by (auto intro!: exI)
  next
    case (create start shutdown old tf)
    obtain D n where D: "create_segment start shutdown old tf C = Inr D"
      "running D c (R @ [(n, start_address (fst C) + 4096)])" "heap_room (fst D) = heap_room (fst C) - 4132"
      using create_segment_ok [OF run create(2,3), of start shutdown old tf] by (elim exE conjE)
    have "unat (start_address (fst C) + 4096) = unat (start_address (fst C)) + 4096"
      using create(2) by (simp add: heap_room_def unat_word_ariths)
    then have "x \<noteq> start_address (fst C) + 4096" using new(2) by auto
    then have "x \<notin> set (c # map snd (R @ [(n, start_address (fst C) + 4096)]))" using new(1) by simp
    moreover have "C' = D" using D(1) create(1) by simp
    moreover have "unat x < unat (start_address (fst D))" using D(3) grows new(2) \<open>C' = D\<close> by simp
    ultimately show ?thesis using D(2) unfolding forgotten_def by blast
  next
    case shutdown
    obtain n t R' where D: "R = (n, t) # R'" "running C' t R'" "heap_room (fst C') = heap_room (fst C)"
      using shutdown_segment_ok [OF run shutdown(1)] by (elim exE conjE)
    have "x \<notin> set (t # map snd R')" using new(1) D(1) by simp
    then show ?thesis using D(2,3) grows new(2) unfolding forgotten_def by fastforce
  qed
qed

lemma forgotten_for_ever:
  assumes "kernel_step\<^sup>*\<^sup>* C C'" and "forgotten x C"
  shows "forgotten x C'" and "current_thread (fst C') \<noteq> x"
proof -
  show f: "forgotten x C'" using assms(1)
    by (induction rule: rtranclp_induct) (use assms(2) forgotten_step in blast)+
  then show "current_thread (fst C') \<noteq> x" by (auto simp: forgotten_def running_def)
qed

section \<open>Fairness\<close>

interpretation cpu: round_robin "\<lambda>C c q. \<exists>R. running C c R \<and> map snd R = q"
  "\<lambda>C. heap_room (fst C) div 12" pass_segment
proof
  fix C :: "'a conf" and c t q
  assume ex: "\<exists>R. running C c R \<and> map snd R = t # q" and room: "0 < heap_room (fst C) div 12"
  obtain R where R: "running C c R" "map snd R = t # q" using ex by (elim exE conjE)
  have r12: "12 \<le> heap_room (fst C)" using room by (simp add: div_greater_zero_iff)
  obtain C' t' R' where P: "pass_segment C = Inr C'" "running C' t' R'" "t' # map snd R' = map snd R @ [c]"
    "heap_room (fst C') = heap_room (fst C) - 12"
    using pass_segment_ok [OF R(1) r12] by (elim exE conjE)
  then have C': "running C' t R'" "map snd R' = q @ [c]" using R(2) by simp_all
  have "heap_room (fst C) div 12 = Suc ((heap_room (fst C) - 12) div 12)"
    using r12 by (intro le_div_geq) simp_all
  then show "\<exists>C'. pass_segment C = Inr C' \<and> (\<exists>R. running C' t R \<and> map snd R = q @ [c])
      \<and> heap_room (fst C) div 12 \<le> heap_room (fst C') div 12 + 1"
    using P(1,4) C' by auto
qed

end
