(* ===== verification/NonBlocking_Disk.thy ===== *)
theory NonBlocking_Disk
  imports Scheduling
begin

text \<open>
  Class \<open>NonBlockingDisk\<close> (\<open>nonblocking_disk.C\<close>): a \<open>SimpleDisk\<close> whose waits yield the processor,
  whose commands are serialised by a lock, and whose callers stand in a queue that \<open>yield\<close> serves
  when the disk is not busy.  What the other threads do while the caller is switched out is the
  parameter \<open>run_others\<close>, as in \<open>Scheduler\<close>.
\<close>

definition NonBlockingDisk :: "u32 \<Rightarrow> 'a sched_state_scheme \<Rightarrow> 'a sched_state_scheme" where
  "NonBlockingDisk size0 s = (SimpleDisk size0 s)\<lparr>io_queue := \<lparr>list_head = 0, list_tail = 0\<rparr>\<rparr>"

partial_function (option) wait_yielding ::
  "('a sched_state_scheme \<Rightarrow> 'a sched_state_scheme outcome) \<Rightarrow> 'a sched_state_scheme
     \<Rightarrow> 'a sched_state_scheme outcome option" where
  "wait_yielding run_others s =
     (case is_busy s of (busy, s) \<Rightarrow>
        if busy then
          (case yield run_others 0 s of Inl e \<Rightarrow> Some (Inl e) | Inr s \<Rightarrow> wait_yielding run_others s)
        else Some (Inr s))"

definition nb_wait_while_busy ::
  "('a sched_state_scheme \<Rightarrow> 'a sched_state_scheme outcome) \<Rightarrow> 'a sched_state_scheme
     \<Rightarrow> 'a sched_state_scheme outcome" where
  "nb_wait_while_busy run_others s = andThen (of_loop (wait_yielding run_others s)) (\<lambda>r. r)"

text \<open>\<open>hw_lock.lock()\<close>: rounds of the attempt with a yield between them.\<close>

partial_function (option) lock_rounds ::
  "('a sched_state_scheme \<Rightarrow> 'a sched_state_scheme outcome) \<Rightarrow> 'a sched_state_scheme
     \<Rightarrow> 'a sched_state_scheme outcome option" where
  "lock_rounds run_others s =
     (case lock_attempt hw_locked set_hw_lock s of
        Inl e \<Rightarrow> Some (Inl e)
      | Inr (got, s) \<Rightarrow>
          if got then Some (Inr s)
          else (case yield run_others 0 s of Inl e \<Rightarrow> Some (Inl e) | Inr s \<Rightarrow> lock_rounds run_others s))"

definition lock_hw ::
  "('a sched_state_scheme \<Rightarrow> 'a sched_state_scheme outcome) \<Rightarrow> 'a sched_state_scheme
     \<Rightarrow> 'a sched_state_scheme outcome" where
  "lock_hw run_others s = andThen (of_loop (lock_rounds run_others s)) (\<lambda>r. r)"

definition unlock_hw :: "'a sched_state_scheme \<Rightarrow> 'a sched_state_scheme outcome" where
  "unlock_hw s = unlock set_hw_lock s"

text \<open>The part that \<open>read\<close> and \<open>write\<close> share: the caller goes to the end of the disk's queue.\<close>

definition enqueue_io ::
  "('a sched_state_scheme \<Rightarrow> 'a sched_state_scheme outcome) \<Rightarrow> 'a sched_state_scheme
     \<Rightarrow> 'a sched_state_scheme outcome" where
  "enqueue_io run_others s =
     (case make_node (CurrentThread s) s of (node, s) \<Rightarrow>
      andThen (lock_queue run_others s) (\<lambda>s.
      andThen (append_node node (queue_nodes s, io_queue s)) (\<lambda>(h, q).
      unlock_queue (s\<lparr>queue_nodes := h, io_queue := q\<rparr>))))"

definition nb_read ::
  "('a sched_state_scheme \<Rightarrow> 'a sched_state_scheme outcome) \<Rightarrow> u32 \<Rightarrow> u32 \<Rightarrow> 'a sched_state_scheme
     \<Rightarrow> 'a sched_state_scheme outcome" where
  "nb_read run_others block_no buf s =
     andThen (enqueue_io run_others s) (\<lambda>s.
     andThen (lock_hw run_others s) (\<lambda>s.
     andThen (disk_read (nb_wait_while_busy run_others) block_no buf s) (\<lambda>s.
     andThen (unlock_hw s) (\<lambda>s.
     andThen (resume (CurrentThread s) s) (\<lambda>s.
     yield run_others 0 s)))))"

definition nb_write ::
  "('a sched_state_scheme \<Rightarrow> 'a sched_state_scheme outcome) \<Rightarrow> u32 \<Rightarrow> u32 \<Rightarrow> 'a sched_state_scheme
     \<Rightarrow> 'a sched_state_scheme outcome" where
  "nb_write run_others block_no buf s =
     andThen (enqueue_io run_others s) (\<lambda>s.
     andThen (lock_hw run_others s) (\<lambda>s.
     andThen (disk_write (nb_wait_while_busy run_others) block_no buf s) (\<lambda>s.
     andThen (unlock_hw s) (\<lambda>s.
     andThen (resume (CurrentThread s) s) (\<lambda>s.
     yield run_others 0 s)))))"

definition nb_handle_interrupt ::
  "('a sched_state_scheme \<Rightarrow> 'a sched_state_scheme outcome) \<Rightarrow> regs \<Rightarrow> 'a sched_state_scheme
     \<Rightarrow> 'a sched_state_scheme outcome" where
  "nb_handle_interrupt run_others r s =
     (let s = print_line ''INTERRUPT HANDLED'' s;
          s = set_EOI r s
      in andThen (resume (CurrentThread s) s) (\<lambda>s. yield run_others 1 s))"

section \<open>The queue of callers\<close>

lemma lock_queue_free:
  "\<not> queue_locked s \<Longrightarrow> lock_queue ro s = Inr (s\<lparr>EFLAGS := EFLAGS s OR IF_mask, queue_locked := True\<rparr>)"
  by (simp add: lock_queue_def Lock_queue_free)

lemma enqueue_io_ok:
  assumes ok: "sched_ok s R D" and room: "12 \<le> heap_room s"
  shows "\<exists>h q. enqueue_io ro s = Inr (s\<lparr>start_address := start_address s + 12, queue_nodes := h, io_queue := q,
      EFLAGS := EFLAGS s OR IF_mask, queue_locked := False\<rparr>)
    \<and> sched_ok (s\<lparr>start_address := start_address s + 12, queue_nodes := h, io_queue := q,
      EFLAGS := EFLAGS s OR IF_mask, queue_locked := False\<rparr>) R (D @ [(start_address s, current_thread s)])"
proof -
  obtain h q where a: "append_node (start_address s)
      (new_node (start_address s) (current_thread s) (queue_nodes s), io_queue s) = Inr (h, q)"
    "list_repr h q (D @ [(start_address s, current_thread s)])" "list_repr h (ready_queue s) R"
    using new_node_appended [of s "io_queue s" D "ready_queue s" R "current_thread s"] ok
    by (auto simp: sched_ok_def Int_commute Un_commute)
  let ?s = "s\<lparr>start_address := start_address s + 12, queue_nodes := h, io_queue := q,
      EFLAGS := EFLAGS s OR IF_mask, queue_locked := False\<rparr>"
  have "enqueue_io ro s = Inr ?s"
    using ok a(1) by (simp add: enqueue_io_def make_node_eq CurrentThread_def lock_queue_free unlock_eq
        or_mask_twice sched_ok_def)
  moreover have "sched_ok ?s R (D @ [(start_address s, current_thread s)])"
  proof -
    have below: "unat m < unat (start_address s)" if "m \<in> fst ` set R \<union> fst ` set D" for m
      using ok that by (simp add: sched_ok_def)
    have "\<forall>m \<in> fst ` set R \<union> fst ` set (D @ [(start_address s, current_thread s)]). unat m < unat (start_address s + 12)"
      unfolding start_grows(1) [OF room] using below by (auto intro: trans_less_add1)
    moreover have "start_address s \<notin> fst ` set R" using below by blast
    ultimately show ?thesis using ok a start_grows(2) [OF room] by (simp add: sched_ok_def)
  qed
  ultimately show ?thesis by blast
qed

section \<open>Waiting\<close>

lemma wait_ready: "\<not> busy_at s (port_reads s) \<Longrightarrow> nb_wait_while_busy ro s = Inr (s\<lparr>port_reads := port_reads s + 1\<rparr>)"
  by (simp add: nb_wait_while_busy_def wait_yielding.simps [of ro s] is_busy_eq)

text \<open>
  A wait on a busy disk gives the processor to the first ready thread and puts the caller into no
  queue: afterwards the queues are the old ones without the thread that was chosen.
\<close>

lemma wait_busy_switches:
  assumes ok: "sched_ok s ((n, t) # R) D" and cur: "current_thread s \<noteq> 0" and b: "busy_at s (port_reads s)" "busy_at s (port_reads s + 1)"
  shows "\<exists>s1. nb_wait_while_busy ro s = andThen (ro s1) (\<lambda>s2. nb_wait_while_busy ro (yield_finish n s2))
    \<and> current_thread s1 = t
    \<and> sched_ok s1 R D \<and> thread_objs s1 = thread_objs s \<and> hw_locked s1 = hw_locked s
    \<and> start_address s1 = start_address s \<and> zombieThread s1 = zombieThread s"
proof -
  let ?s = "s\<lparr>port_reads := port_reads s + 1\<rparr>"
  have ok': "sched_ok ?s ((n, t) # R) D" using ok by (simp add: sched_ok_def)
  have "next_thread (0 = (0 :: int) \<and> busy_at ?s (port_reads ?s)) ((n, t) # R) D = (Some (n, t), R, D)"
    using b(2) by (simp add: next_thread_def busy_at_def)
  from yield_select_refines [OF ok' _ this, of ro] cur
  obtain s' v where s': "yield_select ro 0 ?s = Inr (Some n, s')" "sched_ok s' R D" "same_threads ?s s'"
    "queue_nodes s' n = Some v" "node_thread v = t" by auto
  let ?s1 = "s'\<lparr>current_thread := t\<rparr>"
  have y: "yield ro 0 ?s = andThen (ro ?s1) (\<lambda>s. Inr (yield_finish n s))"
    using s' by (simp add: yield_def yield_dispatch_Some)
  have "nb_wait_while_busy ro s = andThen (ro ?s1) (\<lambda>s2. nb_wait_while_busy ro (yield_finish n s2))"
    using b(1) y by (cases "ro ?s1") (simp_all add: nb_wait_while_busy_def wait_yielding.simps [of ro s] is_busy_eq)
  moreover have "sched_ok ?s1 R D" using s'(2) by (simp add: sched_ok_def)
  ultimately show ?thesis using s'(3) by (intro exI [of _ ?s1]) (simp add: same_threads_def)
qed

section \<open>An operation that never waits\<close>

lemma lock_hw_free:
  "\<not> hw_locked s \<Longrightarrow> lock_hw ro s = Inr (s\<lparr>EFLAGS := EFLAGS s OR IF_mask, hw_locked := True\<rparr>)"
  by (simp add: lock_hw_def lock_rounds.simps [of ro s] lock_attempt_hw)

text \<open>What \<open>read\<close> and \<open>write\<close> do around the transfer.\<close>

definition nb_transfer ::
  "('a sched_state_scheme \<Rightarrow> 'a sched_state_scheme outcome) \<Rightarrow> ('a sched_state_scheme \<Rightarrow> 'a sched_state_scheme outcome)
     \<Rightarrow> 'a sched_state_scheme \<Rightarrow> 'a sched_state_scheme outcome" where
  "nb_transfer run_others transfer0 s =
     andThen (enqueue_io run_others s) (\<lambda>s.
     andThen (lock_hw run_others s) (\<lambda>s.
     andThen (transfer0 s) (\<lambda>s.
     andThen (unlock_hw s) (\<lambda>s.
     andThen (resume (CurrentThread s) s) (\<lambda>s.
     yield run_others 0 s)))))"

lemma nb_operations:
  "nb_read ro block_no buf = nb_transfer ro (disk_read (nb_wait_while_busy ro) block_no buf)"
  "nb_write ro block_no buf = nb_transfer ro (disk_write (nb_wait_while_busy ro) block_no buf)"
  by (rule ext, simp add: nb_read_def nb_write_def nb_transfer_def)+

text \<open>
  The caller stands in the disk's queue from the start and is put into the ready queue at the end:
  of its two nodes the yield that follows takes at most one.
\<close>

lemma nb_transfer_ready:
  fixes s :: "'a sched_state_scheme"
  assumes ok: "sched_ok s R D" and cur: "current_thread s \<noteq> 0" and room: "24 \<le> heap_room s" and free: "\<not> hw_locked s"
    and op: "\<And>x :: 'a sched_state_scheme. ram x = ram s \<Longrightarrow> port_log x = port_log s \<Longrightarrow> port_reads x = port_reads s \<Longrightarrow> port_input x = port_input s
      \<Longrightarrow> \<exists>m log. transfer0 x = Inr (x\<lparr>port_log := log, ram := m, port_reads := r\<rparr>) \<and> P m log"
    and ready: "\<not> busy_at s r"
  defines "D1 \<equiv> D @ [(start_address s, current_thread s)]"
  shows "\<exists>s1. nb_transfer ro transfer0 s = andThen (ro s1) (\<lambda>s2. Inr (yield_finish (fst (hd D1)) s2))
    \<and> current_thread s1 = snd (hd D1) \<and> sched_ok s1 (R @ [(start_address s + 12, current_thread s)]) (tl D1)
    \<and> \<not> hw_locked s1 \<and> P (ram s1) (port_log s1) \<and> port_input s1 = port_input s \<and> heap_room s1 = heap_room s - 24
    \<and> start_address s1 = start_address s + 24 \<and> thread_objs s1 = thread_objs s \<and> sched_state.more s1 = sched_state.more s"
proof -
  let ?c = "current_thread s" and ?n = "start_address s"
  obtain h q where e: "enqueue_io ro s = Inr (s\<lparr>start_address := start_address s + 12, queue_nodes := h, io_queue := q,
      EFLAGS := EFLAGS s OR IF_mask, queue_locked := False\<rparr>)"
    "sched_ok (s\<lparr>start_address := start_address s + 12, queue_nodes := h, io_queue := q,
      EFLAGS := EFLAGS s OR IF_mask, queue_locked := False\<rparr>) R D1"
    using enqueue_io_ok [OF ok, of ro] room unfolding D1_def by auto
  let ?s1 = "s\<lparr>start_address := start_address s + 12, queue_nodes := h, io_queue := q,
      EFLAGS := EFLAGS s OR IF_mask, queue_locked := False\<rparr>"
  let ?s2 = "?s1\<lparr>EFLAGS := EFLAGS s OR IF_mask, hw_locked := True\<rparr>"
  have l: "lock_hw ro ?s1 = Inr ?s2" using lock_hw_free [of ?s1 ro] free by (simp add: or_mask_twice)
  obtain m log where t: "transfer0 ?s2 = Inr (?s2\<lparr>port_log := log, ram := m, port_reads := r\<rparr>)" "P m log"
    using op [of ?s2] by auto
  let ?s3 = "?s2\<lparr>port_log := log, ram := m, port_reads := r\<rparr>"
  define s4 where "s4 = ?s3\<lparr>EFLAGS := EFLAGS ?s3 OR IF_mask, hw_locked := False\<rparr>"
  have u: "unlock_hw ?s3 = Inr s4" by (simp add: unlock_hw_def unlock_eq s4_def)
  have h4: "heap_room s4 = heap_room s - 12"
    using start_grows [of s] room by (simp add: heap_room_def s4_def)
  have ok4: "sched_ok s4 R D1" using e(2) by (simp add: sched_ok_def s4_def)
  have f4: "current_thread s4 = ?c" "start_address s4 = ?n + 12" by (simp_all add: s4_def)
  have r4: "12 \<le> heap_room s4" using h4 room by simp
  from resume_ok [OF ok4 r4, of ?c]
  obtain s5 h5 q5 where r: "resume ?c s4 = Inr s5" "sched_ok s5 (R @ [(?n + 12, ?c)]) D1"
    "s5 = s4\<lparr>start_address := start_address s4 + 12, queue_nodes := h5, ready_queue := q5, EFLAGS := EFLAGS s4 OR IF_mask\<rparr>"
    unfolding f4(2) by (elim exE conjE)
  have cur5: "current_thread s5 \<noteq> 0" using r(3) f4 cur by simp
  have f5: "\<not> busy_at s5 (port_reads s5)" "\<not> hw_locked s5" "ram s5 = m" "port_log s5 = log" "port_input s5 = port_input s"
    "thread_objs s5 = thread_objs s" "start_address s5 = ?n + 24" "sched_state.more s5 = sched_state.more s"
    using ready unfolding r(3) s4_def by (simp_all add: busy_at_def)
  have h5: "heap_room s5 = heap_room s - 24"
    using start_grows(1) [OF r4] h4 by (simp add: heap_room_def r(3))
  obtain n t D' where D: "D1 = (n, t) # D'" unfolding D1_def by (cases "D @ [(?n, ?c)]") auto
  have "next_thread (0 = (0 :: int) \<and> busy_at s5 (port_reads s5)) (R @ [(?n + 12, ?c)]) ((n, t) # D')
      = (Some (n, t), R @ [(?n + 12, ?c)], D')"
    using f5(1) by (simp add: next_thread_def)
  from yield_select_refines [OF r(2) [unfolded D] cur5 this, of ro]
  obtain s6 v where y: "yield_select ro 0 s5 = Inr (Some n, s6)" "sched_ok s6 (R @ [(?n + 12, ?c)]) D'"
    "same_threads s5 s6" "queue_nodes s6 n = Some v" "node_thread v = t" by auto
  let ?s7 = "s6\<lparr>current_thread := t\<rparr>"
  have "nb_transfer ro transfer0 s = andThen (ro ?s7) (\<lambda>s2. Inr (yield_finish n s2))"
    unfolding nb_transfer_def e(1) andThen_simps l t(1) u
    using f4(1) r(1) y by (simp add: CurrentThread_def yield_def yield_dispatch_Some)
  moreover have "sched_ok ?s7 (R @ [(?n + 12, ?c)]) D'" using y(2) by (simp add: sched_ok_def)
  ultimately show ?thesis using y(3) f5 h5 t(2) unfolding D
    by (intro exI [of _ ?s7]) (simp add: same_threads_def heap_room_def)
qed

text \<open>A wait that finds the disk ready reads its status once.\<close>

lemma issue_ready:
  assumes wait: "\<And>x. \<not> busy_at x (port_reads x) \<Longrightarrow> wait x = Inr (x\<lparr>port_reads := port_reads x + 1\<rparr>)"
    and ready: "\<not> busy_at s (port_reads s)"
  shows "\<exists>x. ide_ata_issue_command wait operation block_no s = Inr x
    \<and> ide_ata_issue_command wait_while_busy operation block_no s = Inr x
    \<and> port_reads x = port_reads s + 1 \<and> port_input x = port_input s"
proof -
  have "wait_while_busy s = Inr (s\<lparr>port_reads := port_reads s + 1\<rparr>)"
    using wait_done [of s 0] ready by simp
  then show ?thesis by (simp add: ide_ata_issue_command_def wait [OF ready] outportb_def Let_def)
qed

lemma polling_ready:
  assumes wait: "\<And>x. \<not> busy_at x (port_reads x) \<Longrightarrow> wait x = Inr (x\<lparr>port_reads := port_reads x + 1\<rparr>)"
    and ready: "\<not> busy_at s (port_reads s + 4)"
  shows "ide_polling wait advanced s = ide_polling wait_while_busy advanced s"
    and "ide_polling wait_while_busy False s = Inr (0, s\<lparr>port_reads := port_reads s + 5\<rparr>)"
proof -
  let ?s = "s\<lparr>port_reads := port_reads s + 4\<rparr>"
  have r: "\<not> busy_at ?s (port_reads ?s)" using ready by (simp add: busy_at_def)
  have w: "wait_while_busy ?s = Inr (s\<lparr>port_reads := port_reads s + 5\<rparr>)" "wait ?s = Inr (s\<lparr>port_reads := port_reads s + 5\<rparr>)"
    using wait_done [of ?s 0] wait [OF r] r by simp_all
  show "ide_polling wait advanced s = ide_polling wait_while_busy advanced s"
    and "ide_polling wait_while_busy False s = Inr (0, s\<lparr>port_reads := port_reads s + 5\<rparr>)"
    by (simp_all add: ide_polling_eq w)
qed

lemma disk_read_ready:
  assumes wait: "\<And>x. \<not> busy_at x (port_reads x) \<Longrightarrow> wait x = Inr (x\<lparr>port_reads := port_reads x + 1\<rparr>)"
    and ready: "\<not> busy_at s (port_reads s)" "\<not> busy_at s (port_reads s + 5)"
  shows "disk_read wait block_no buf s = disk_read wait_while_busy block_no buf s"
proof -
  obtain x where i: "ide_ata_issue_command wait READ block_no s = Inr x"
    "ide_ata_issue_command wait_while_busy READ block_no s = Inr x"
    and f: "port_reads x = port_reads s + 1" "port_input x = port_input s"
    using issue_ready [where wait = wait and s = s, OF wait ready(1)] by blast
  have "\<not> busy_at x (port_reads x + 4)" using ready(2) f by (simp add: busy_at_def add.commute)
  then have "ide_polling wait True x = ide_polling wait_while_busy True x" using polling_ready(1) [where wait = wait] wait by blast
  then show ?thesis by (simp only: disk_read_def i andThen_simps)
qed

lemma disk_write_ready:
  assumes wait: "\<And>x. \<not> busy_at x (port_reads x) \<Longrightarrow> wait x = Inr (x\<lparr>port_reads := port_reads x + 1\<rparr>)"
    and ready: "\<not> busy_at s (port_reads s)" "\<not> busy_at s (port_reads s + 5)" "\<not> busy_at s (port_reads s + 10)"
  shows "disk_write wait block_no buf s = disk_write wait_while_busy block_no buf s"
proof -
  obtain x where i: "ide_ata_issue_command wait WRITE block_no s = Inr x"
    "ide_ata_issue_command wait_while_busy WRITE block_no s = Inr x"
    and f: "port_reads x = port_reads s + 1" "port_input x = port_input s"
    using issue_ready [where wait = wait and s = s, OF wait ready(1)] by blast
  have poll: "ide_polling wait False y = Inr (0, y\<lparr>port_reads := port_reads y + 5\<rparr>)"
    "ide_polling wait_while_busy False y = Inr (0, y\<lparr>port_reads := port_reads y + 5\<rparr>)"
    if "port_input y = port_input s" "\<not> busy_at s (port_reads y + 4)" for y
  proof -
    have "\<not> busy_at y (port_reads y + 4)" using that by (simp add: busy_at_def)
    from polling_ready [where wait = wait, OF wait this]
    show "ide_polling wait False y = Inr (0, y\<lparr>port_reads := port_reads y + 5\<rparr>)"
      "ide_polling wait_while_busy False y = Inr (0, y\<lparr>port_reads := port_reads y + 5\<rparr>)" by simp_all
  qed
  have "\<not> busy_at s (5 + port_reads s)" "\<not> busy_at s (10 + port_reads s)" using ready(2,3) by (simp_all add: add.commute)
  then show ?thesis
    using f by (simp add: disk_write_def i poll Let_def write_words_eq ide_write_register_def outportb_def del: upt_Suc)
qed

lemma nb_read_ready:
  assumes ok: "sched_ok s R D" and cur: "current_thread s \<noteq> 0" and room: "24 \<le> heap_room s" and free: "\<not> hw_locked s"
    and ready: "\<not> busy_at s (port_reads s)" "\<not> busy_at s (port_reads s + 5)"
      "verdict (ucast (port_input s (port_reads s + 6) 0x1F7)) = 0" "\<not> busy_at s (port_reads s + 263)"
  defines "D1 \<equiv> D @ [(start_address s, current_thread s)]"
  shows "\<exists>s1. nb_read ro block_no buf s = andThen (ro s1) (\<lambda>s2. Inr (yield_finish (fst (hd D1)) s2))
    \<and> current_thread s1 = snd (hd D1) \<and> sched_ok s1 (R @ [(start_address s + 12, current_thread s)]) (tl D1)
    \<and> \<not> hw_locked s1
    \<and> ((\<forall>i<256. buffer_word (ram s1) buf i = port_input s (port_reads s + 7 + i) 0x1F0)
      \<and> ata_commands (ata_run (port_log s1) c) = ata_commands (ata_run (port_log s) c) @ [(0x20, block_no AND 0x0FFFFFFF)]
      \<and> ata_data (ata_run (port_log s1) c) = ata_data (ata_run (port_log s) c))
    \<and> port_input s1 = port_input s \<and> heap_room s1 = heap_room s - 24
    \<and> start_address s1 = start_address s + 24 \<and> thread_objs s1 = thread_objs s \<and> sched_state.more s1 = sched_state.more s"
  unfolding nb_operations D1_def
proof (rule nb_transfer_ready [OF ok cur room free _ ready(4)])
  fix x :: "'a sched_state_scheme"
  assume x: "ram x = ram s" "port_log x = port_log s" "port_reads x = port_reads s" "port_input x = port_input s"
  have b: "busy_for x (port_reads x) 0" "busy_for x (port_reads x + 0 + 5) 0"
    using ready(1,2) x(3,4) by (simp_all add: busy_for_def busy_at_def)
  have "disk_read (nb_wait_while_busy ro) block_no buf x = disk_read wait_while_busy block_no buf x"
    by (rule disk_read_ready) (use wait_ready ready x(3,4) in \<open>auto simp: busy_at_def\<close>)
  then show "\<exists>m log. disk_read (nb_wait_while_busy ro) block_no buf x = Inr (x\<lparr>port_log := log, ram := m, port_reads := port_reads s + 263\<rparr>)
    \<and> (\<forall>i<256. buffer_word m buf i = port_input s (port_reads s + 7 + i) 0x1F0)
      \<and> ata_commands (ata_run log c) = ata_commands (ata_run (port_log s) c) @ [(0x20, block_no AND 0x0FFFFFFF)]
      \<and> ata_data (ata_run log c) = ata_data (ata_run (port_log s) c)"
    using disk_read_block [OF b, of block_no buf c] ready(3) x by (auto simp: add.commute add.left_commute)
qed

lemma nb_write_ready:
  assumes ok: "sched_ok s R D" and cur: "current_thread s \<noteq> 0" and room: "24 \<le> heap_room s" and free: "\<not> hw_locked s"
    and ready: "\<not> busy_at s (port_reads s)" "\<not> busy_at s (port_reads s + 5)" "\<not> busy_at s (port_reads s + 10)"
      "\<not> busy_at s (port_reads s + 11)"
  defines "D1 \<equiv> D @ [(start_address s, current_thread s)]"
  shows "\<exists>s1. nb_write ro block_no buf s = andThen (ro s1) (\<lambda>s2. Inr (yield_finish (fst (hd D1)) s2))
    \<and> current_thread s1 = snd (hd D1) \<and> sched_ok s1 (R @ [(start_address s + 12, current_thread s)]) (tl D1)
    \<and> \<not> hw_locked s1
    \<and> (ram s1 = ram s
      \<and> ata_commands (ata_run (port_log s1) c) = ata_commands (ata_run (port_log s) c)
          @ [(0x30, block_no AND 0x0FFFFFFF), (0xE7, block_no AND 0x0FFFFFFF)]
      \<and> ata_data (ata_run (port_log s1) c) = ata_data (ata_run (port_log s) c) @ map (buffer_word (ram s) buf) [0..<256])
    \<and> port_input s1 = port_input s \<and> heap_room s1 = heap_room s - 24
    \<and> start_address s1 = start_address s + 24 \<and> thread_objs s1 = thread_objs s \<and> sched_state.more s1 = sched_state.more s"
  unfolding nb_operations D1_def
proof (rule nb_transfer_ready [OF ok cur room free _ ready(4)])
  fix x :: "'a sched_state_scheme"
  assume x: "ram x = ram s" "port_log x = port_log s" "port_reads x = port_reads s" "port_input x = port_input s"
  have b: "busy_for x (port_reads x) 0" "busy_for x (port_reads x + 0 + 5) 0" "busy_for x (port_reads x + 0 + 0 + 10) 0"
    using ready(1-3) x(3,4) by (simp_all add: busy_for_def busy_at_def)
  have "disk_write (nb_wait_while_busy ro) block_no buf x = disk_write wait_while_busy block_no buf x"
    by (rule disk_write_ready) (use wait_ready ready x(3,4) in \<open>auto simp: busy_at_def\<close>)
  moreover obtain log where log: "disk_write wait_while_busy block_no buf x = Inr (x\<lparr>port_log := log, port_reads := port_reads s + 11\<rparr>)"
    "ata_commands (ata_run log c) = ata_commands (ata_run (port_log s) c) @ [(0x30, block_no AND 0x0FFFFFFF), (0xE7, block_no AND 0x0FFFFFFF)]"
    "ata_data (ata_run log c) = ata_data (ata_run (port_log s) c) @ map (buffer_word (ram s) buf) [0..<256]"
    using disk_write_block [OF b, of block_no buf c] x by auto
  moreover have "x\<lparr>port_log := log, port_reads := r\<rparr> = x\<lparr>port_log := log, ram := ram s, port_reads := r\<rparr>" for r
    using x(1) by (cases x) simp
  ultimately have "disk_write (nb_wait_while_busy ro) block_no buf x
      = Inr (x\<lparr>port_log := log, ram := ram s, port_reads := port_reads s + 11\<rparr>)" by (simp only:)
  then show "\<exists>m log. disk_write (nb_wait_while_busy ro) block_no buf x = Inr (x\<lparr>port_log := log, ram := m, port_reads := port_reads s + 11\<rparr>)
    \<and> m = ram s
      \<and> ata_commands (ata_run log c) = ata_commands (ata_run (port_log s) c) @ [(0x30, block_no AND 0x0FFFFFFF), (0xE7, block_no AND 0x0FFFFFFF)]
      \<and> ata_data (ata_run log c) = ata_data (ata_run (port_log s) c) @ map (buffer_word (ram s) buf) [0..<256]"
    using log(2,3) by blast
qed

section \<open>Mutual exclusion\<close>

text \<open>The other threads respect the lock: they do not open one they did not take.\<close>

definition respects_lock :: "('a sched_state_scheme \<Rightarrow> 'a sched_state_scheme outcome) \<Rightarrow> bool" where
  "respects_lock ro \<longleftrightarrow> (\<forall>s s'. hw_locked s \<longrightarrow> ro s = Inr s' \<longrightarrow> hw_locked s')"

lemma hw_kept:
  "yield_start i s = Inr (b, s') \<Longrightarrow> hw_locked s' = hw_locked s"
  "unlock_queue s = Inr s' \<Longrightarrow> hw_locked s' = hw_locked s"
  "take_ready s = Inr (c, s') \<Longrightarrow> hw_locked s' = hw_locked s"
  "take_io s = Inr (c, s') \<Longrightarrow> hw_locked s' = hw_locked s"
  by (auto simp: yield_start_def interrupts_off_eq is_busy_eq unlock_eq take_ready_def take_io_def interrupts_on_eq
      Let_def andThen_eq_Inr split: if_splits)

lemma hw_kept_dispatch:
  assumes ro: "respects_lock ro" and s: "hw_locked s" and d: "yield_dispatch ro (c, s) = Inr s'"
  shows "hw_locked s'"
proof (cases c)
  case None
  then show ?thesis using d s by (simp add: yield_dispatch_def)
next
  case (Some n)
  obtain v where v: "queue_nodes s n = Some v" using d Some by (auto simp: yield_dispatch_def split: option.splits)
  then obtain x where x: "ro (s\<lparr>current_thread := node_thread v\<rparr>) = Inr x" "s' = yield_finish n x"
    using d Some by (auto simp: yield_dispatch_Some andThen_eq_Inr)
  have "hw_locked (s\<lparr>current_thread := node_thread v\<rparr>)" using s by simp
  then have "hw_locked x" using ro x(1) unfolding respects_lock_def by blast
  then show ?thesis unfolding x(2) by (simp add: yield_finish_def heap_operators Let_def)
qed

lemma hw_kept_call:
  assumes "scheduler_call ro c s = Some (Inr r)" and "respects_lock ro" and "hw_locked s"
  shows "hw_locked (snd r)"
proof -
  have "\<forall>r. y = Inr r \<longrightarrow> respects_lock ro \<longrightarrow> hw_locked s \<longrightarrow> hw_locked (snd r)"
    if ret: "scheduler_call ro c s = Some y" for y
  proof (rule scheduler_call.raw_induct
      [where P = "\<lambda>ro c s y. \<forall>r. y = Inr r \<longrightarrow> respects_lock ro \<longrightarrow> hw_locked s \<longrightarrow> hw_locked (snd r)", OF _ ret])
    fix rec :: "('a sched_state_scheme \<Rightarrow> 'a sched_state_scheme outcome) \<Rightarrow> call \<Rightarrow> 'a sched_state_scheme
        \<Rightarrow> (u32 option \<times> 'a sched_state_scheme) outcome option" and ro c s y
    assume IH: "\<And>ro c s y. rec ro c s = Some y \<Longrightarrow>
        \<forall>r. y = Inr r \<longrightarrow> respects_lock ro \<longrightarrow> hw_locked s \<longrightarrow> hw_locked (snd r)"
    assume eq: "(case c of
        Lock_queue \<Rightarrow>
          (case lock_attempt queue_locked set_queue_lock s of
             Inl e \<Rightarrow> Some (Inl e)
           | Inr (got, s) \<Rightarrow>
               if got then Some (Inr (None, s))
               else Option.bind (rec ro (Select 0) s) (\<lambda>r.
                    (case andThen r (yield_dispatch ro) of
                       Inl e \<Rightarrow> Some (Inl e)
                     | Inr s \<Rightarrow> rec ro Lock_queue s)))
      | Select interrupt \<Rightarrow>
          (case yield_start interrupt s of
             Inl e \<Rightarrow> Some (Inl e)
           | Inr (disk_busy, s) \<Rightarrow>
               Option.bind (rec ro Lock_queue s) (\<lambda>r.
               (case r of
                  Inl e \<Rightarrow> Some (Inl e)
                | Inr (_, s) \<Rightarrow>
                    (let disk_queue_empty = (list_head (io_queue s) = 0) in
                     (case unlock_queue s of
                        Inl e \<Rightarrow> Some (Inl e)
                      | Inr s \<Rightarrow>
                          if disk_busy \<or> disk_queue_empty then Some (take_ready s)
                          else Option.bind (rec ro Lock_queue s) (\<lambda>r.
                               (case r of
                                  Inl e \<Rightarrow> Some (Inl e)
                                | Inr (_, s) \<Rightarrow> Some (take_io s))))))))) = Some y"
    have sub: "hw_locked s2" if "rec ro c s1 = Some (Inr (x, s2))" "respects_lock ro" "hw_locked s1" for c s1 x s2
      using IH [OF that(1)] that by auto
    show "\<forall>r. y = Inr r \<longrightarrow> respects_lock ro \<longrightarrow> hw_locked s \<longrightarrow> hw_locked (snd r)"
    proof (intro allI impI)
      fix r assume r: "y = Inr r" and ro: "respects_lock ro" and s: "hw_locked s"
      show "hw_locked (snd r)"
      proof (cases c)
        case Lock_queue
        let ?s = "s\<lparr>EFLAGS := EFLAGS s OR IF_mask, queue_locked := True\<rparr>"
        show ?thesis
        proof (cases "queue_locked s")
          case False
          then show ?thesis using eq Lock_queue r s by (auto simp: lock_attempt_queue)
        next
          case True
          obtain r1 where r1: "rec ro (Select 0) ?s = Some r1"
            "(case andThen r1 (yield_dispatch ro) of Inl e \<Rightarrow> Some (Inl e) | Inr s \<Rightarrow> rec ro Lock_queue s) = Some y"
            using eq Lock_queue True by (auto simp: lock_attempt_queue bind_eq_Some_conv)
          then obtain s2 where s2: "andThen r1 (yield_dispatch ro) = Inr s2" "rec ro Lock_queue s2 = Some y"
            using r by (auto split: sum.splits)
          then obtain ch s3 where s3: "r1 = Inr (ch, s3)" "yield_dispatch ro (ch, s3) = Inr s2"
            by (auto simp: andThen_eq_Inr)
          have "hw_locked s3" using sub [of "Select 0" ?s ch s3] r1(1) s3(1) ro s by simp
          then have "hw_locked s2" using hw_kept_dispatch [OF ro _ s3(2)] by blast
          then show ?thesis using sub [of Lock_queue s2 "fst r" "snd r"] s2(2) r ro by simp
        qed
      next
        case (Select interrupt)
        obtain b s1 where s1: "yield_start interrupt s = Inr (b, s1)"
          using eq Select r by (auto split: sum.splits)
        obtain r2 where r2: "rec ro Lock_queue s1 = Some r2"
          using eq Select s1 by (auto simp: bind_eq_Some_conv)
        obtain x s2 where s2: "rec ro Lock_queue s1 = Some (Inr (x, s2))"
          using eq Select r s1 r2 by (cases r2) auto
        have h2: "hw_locked s2" using sub [OF s2 ro] hw_kept(1) [OF s1] s by simp
        obtain s3 where s3: "unlock_queue s2 = Inr s3" by (simp add: unlock_eq)
        have h3: "hw_locked s3" using hw_kept(2) [OF s3] h2 by simp
        show ?thesis
        proof (cases "b \<or> list_head (io_queue s2) = 0")
          case True
          then have "take_ready s3 = Inr r" using eq Select s1 s2 s3 r by (auto simp: Let_def)
          then show ?thesis using hw_kept(3) [of s3 "fst r" "snd r"] h3 by simp
        next
          case False
          then obtain r4 where r4: "rec ro Lock_queue s3 = Some r4"
            "(case r4 of Inl e \<Rightarrow> Some (Inl e) | Inr (_, s) \<Rightarrow> Some (take_io s)) = Some y"
            using eq Select s1 s2 s3 by (auto simp: Let_def bind_eq_Some_conv)
          then obtain x' s4 where s4: "rec ro Lock_queue s3 = Some (Inr (x', s4))" "take_io s4 = Inr r"
            using r by (cases r4) auto
          have "hw_locked s4" using sub [OF s4(1) ro h3] .
          then show ?thesis using hw_kept(4) [of s4 "fst r" "snd r"] s4(2) by simp
        qed
      qed
    qed
  qed
  then show ?thesis using assms by (cases r) auto
qed

lemma hw_kept_yield:
  assumes "yield ro i s = Inr s'" and "respects_lock ro" and "hw_locked s"
  shows "hw_locked s'"
proof -
  obtain ch s1 where s1: "scheduler_call ro (Select i) s = Some (Inr (ch, s1))" "yield_dispatch ro (ch, s1) = Inr s'"
    using assms(1) by (auto simp: yield_def yield_select_def andThen_eq_Inr)
  have "hw_locked s1" using hw_kept_call [OF s1(1) assms(2,3)] by simp
  then show ?thesis using hw_kept_dispatch [OF assms(2) _ s1(2)] by blast
qed

text \<open>A taken lock is not given to a second thread, however often it tries.\<close>

lemma lock_hw_excludes:
  assumes "respects_lock ro" and "hw_locked s"
  shows "lock_hw ro s \<noteq> Inr s'"
proof
  assume "lock_hw ro s = Inr s'"
  then have ret: "lock_rounds ro s = Some (Inr s')" by (auto simp: lock_hw_def andThen_eq_Inr)
  have "\<forall>r. y = Inr r \<longrightarrow> respects_lock ro \<longrightarrow> \<not> hw_locked s" if ret: "lock_rounds ro s = Some y" for y
  proof (rule lock_rounds.raw_induct
      [where P = "\<lambda>ro s y. \<forall>r. y = Inr r \<longrightarrow> respects_lock ro \<longrightarrow> \<not> hw_locked s", OF _ ret])
    fix rec :: "('a sched_state_scheme \<Rightarrow> 'a sched_state_scheme outcome) \<Rightarrow> 'a sched_state_scheme
        \<Rightarrow> 'a sched_state_scheme outcome option" and ro s y
    assume IH: "\<And>ro s y. rec ro s = Some y \<Longrightarrow> \<forall>r. y = Inr r \<longrightarrow> respects_lock ro \<longrightarrow> \<not> hw_locked s"
      and eq: "(case lock_attempt hw_locked set_hw_lock s of
        Inl e \<Rightarrow> Some (Inl e)
      | Inr (got, s) \<Rightarrow>
          if got then Some (Inr s)
          else (case yield ro 0 s of Inl e \<Rightarrow> Some (Inl e) | Inr s \<Rightarrow> rec ro s)) = Some y"
    show "\<forall>r. y = Inr r \<longrightarrow> respects_lock ro \<longrightarrow> \<not> hw_locked s"
    proof (intro allI impI notI)
      fix r assume r: "y = Inr r" and ro: "respects_lock ro" and s: "hw_locked s"
      then obtain s2 where s2: "yield ro 0 (s\<lparr>EFLAGS := EFLAGS s OR IF_mask, hw_locked := True\<rparr>) = Inr s2" "rec ro s2 = Some y"
        using eq by (auto simp: lock_attempt_hw split: sum.splits)
      have "hw_locked s2" using hw_kept_yield [OF s2(1) ro] by simp
      then show False using IH [OF s2(2)] r ro by blast
    qed
  qed
  then show False using assms ret by blast
qed

end
