(* ===== verification/Timer.thy ===== *)
theory Timer
  imports Descriptors "HOL-Library.Signed_Division"
begin

text \<open>
  Class \<open>SimpleTimer\<close> (\<open>simple_timer.C\<close>): the object counts timer interrupts in \<open>ticks\<close> and full
  seconds in \<open>seconds\<close>, which wraps as an \<open>unsigned long\<close>; \<open>ticks\<close> and \<open>hz\<close> are \<open>int\<close>s that
  never overflow, because \<open>ticks\<close> stays at most \<open>hz\<close> (\<open>timer_ok\<close>).  A division by zero traps and
  is \<open>Inl Wild\<close>.

  \<open>wait\<close> spins on the two counters while interrupts change them; it takes as parameter the timer
  the loop sees at each of its tests.

  \<open>pit_run\<close> is the 8253 timer chip: what its channel 0 counts down from after the bytes it is sent.
\<close>

record simple_timer =
  timer_seconds :: u32
  timer_ticks :: int
  timer_hz :: int

definition set_frequency ::
  "int \<Rightarrow> simple_timer \<Rightarrow> 'a machine_state_scheme \<Rightarrow> (simple_timer \<times> 'a machine_state_scheme) outcome" where
  "set_frequency hz t s =
     (let t = t\<lparr>timer_hz := hz\<rparr> in
      if hz = 0 then Inl Wild
      else
        let divisor = 1193180 sdiv hz;
            s = outportb 0x43 0x34 s;
            s = outportb 0x40 (word_of_int (divisor AND 0xFF)) s;
            s = outportb 0x40 (word_of_int (drop_bit 8 divisor)) s
        in Inr (t, s))"

text \<open>The fields are set before the frequency is.\<close>

definition SimpleTimer ::
  "int \<Rightarrow> 'a machine_state_scheme \<Rightarrow> (simple_timer \<times> 'a machine_state_scheme) outcome" where
  "SimpleTimer hz s = set_frequency hz \<lparr>timer_seconds = 0, timer_ticks = 0, timer_hz = 0\<rparr> s"

definition timer_interrupt ::
  "simple_timer \<Rightarrow> 'a console_state_scheme \<Rightarrow> simple_timer \<times> 'a console_state_scheme" where
  "timer_interrupt t s =
     (let t = t\<lparr>timer_ticks := timer_ticks t + 1\<rparr> in
      if timer_ticks t \<ge> timer_hz t
      then (t\<lparr>timer_seconds := timer_seconds t + 1, timer_ticks := 0\<rparr>,
            print_line ''One second has passed'' s)
      else (t, s))"

definition current :: "simple_timer \<Rightarrow> u32 \<times> int" where
  "current t = (timer_seconds t, timer_ticks t)"

partial_function (option) wait_loop :: "(nat \<Rightarrow> simple_timer) \<Rightarrow> u32 \<Rightarrow> int \<Rightarrow> nat \<Rightarrow> nat option" where
  "wait_loop obs then_seconds now_ticks i =
     (if timer_seconds (obs i) \<le> then_seconds \<and> timer_ticks (obs i) < now_ticks
      then wait_loop obs then_seconds now_ticks (Suc i) else Some i)"

text \<open>The result is the number of times the loop spins.\<close>

definition wait :: "(nat \<Rightarrow> simple_timer) \<Rightarrow> simple_timer \<Rightarrow> u32 \<Rightarrow> nat option" where
  "wait obs t secs =
     (let (now_seconds, now_ticks) = current t;
          then_seconds = now_seconds + secs
      in wait_loop obs then_seconds now_ticks 0)"

section \<open>Counting\<close>

definition timer_ok :: "simple_timer \<Rightarrow> bool" where
  "timer_ok t \<longleftrightarrow> 0 < timer_hz t \<and> timer_hz t < 2 ^ 31 \<and> 0 \<le> timer_ticks t \<and> timer_ticks t < timer_hz t"

text \<open>The timer after \<open>n\<close> more interrupts.\<close>

definition after_ticks :: "nat \<Rightarrow> simple_timer \<Rightarrow> simple_timer" where
  "after_ticks n t = t\<lparr>timer_seconds := timer_seconds t + word_of_int ((timer_ticks t + int n) div timer_hz t),
     timer_ticks := (timer_ticks t + int n) mod timer_hz t\<rparr>"

lemma after_ticks_0: "timer_ok t \<Longrightarrow> after_ticks 0 t = t"
  by (simp add: after_ticks_def timer_ok_def)

lemma after_ticks_ok: "timer_ok t \<Longrightarrow> timer_ok (after_ticks n t)"
  by (simp add: after_ticks_def timer_ok_def)

lemma timer_interrupt_ticks:
  assumes "timer_ok t"
  shows "fst (timer_interrupt (after_ticks n t) s) = after_ticks (Suc n) t"
proof -
  let ?h = "timer_hz t" and ?c = "timer_ticks t + int n"
  have h: "0 < ?h" using assms by (simp add: timer_ok_def)
  have suc: "timer_ticks t + int (Suc n) = ?c + 1" by simp
  have e: "?c = ?h * (?c div ?h) + ?c mod ?h" and m: "0 \<le> ?c mod ?h" "?c mod ?h < ?h" using h by simp_all
  show ?thesis
  proof (cases "?c mod ?h + 1 \<ge> ?h")
    case True
    then have "?c mod ?h = ?h - 1" using m by linarith
    then have "?c + 1 = ?h * (?c div ?h) + ?h" using e by linarith
    then have "?c + 1 = ?h * (?c div ?h + 1) + 0" by (simp only: distrib_left mult_1_right add_0_right)
    from int_div_pos_eq [OF this] int_mod_pos_eq [OF this]
    have "(?c + 1) div ?h = ?c div ?h + 1" "(?c + 1) mod ?h = 0" using h by simp_all
    then show ?thesis
      using True unfolding after_ticks_def suc by (simp add: timer_interrupt_def Let_def add.assoc)
  next
    case False
    have "?c + 1 = ?h * (?c div ?h) + (?c mod ?h + 1)" using e by linarith
    from int_div_pos_eq [OF this] int_mod_pos_eq [OF this]
    have "(?c + 1) div ?h = ?c div ?h" "(?c + 1) mod ?h = ?c mod ?h + 1" using m False by simp_all
    then show ?thesis
      using False unfolding after_ticks_def suc by (simp add: timer_interrupt_def Let_def)
  qed
qed

primrec timer_interrupts ::
  "nat \<Rightarrow> simple_timer \<times> 'a console_state_scheme \<Rightarrow> simple_timer \<times> 'a console_state_scheme" where
  "timer_interrupts 0 ts = ts"
| "timer_interrupts (Suc n) ts = (case timer_interrupts n ts of (t, s) \<Rightarrow> timer_interrupt t s)"

lemma timer_interrupts_ticks:
  "timer_ok t \<Longrightarrow> fst (timer_interrupts n (t, s)) = after_ticks n t"
proof (induction n)
  case (Suc n)
  then show ?case
    using timer_interrupt_ticks [of t n "snd (timer_interrupts n (t, s))"]
    by (cases "timer_interrupts n (t, s)") simp
qed (simp add: after_ticks_0)

section \<open>The chip\<close>

record pit =
  low_next :: bool
  reload_low :: u8
  reload :: u16

text \<open>
  Command 0x34 selects channel 0, low byte then high byte, mode 2; the next two bytes on port
  0x40 are the value it counts down from.
\<close>

primrec pit_run :: "port_write list \<Rightarrow> pit \<Rightarrow> pit" where
  "pit_run [] p = p"
| "pit_run (w # ws) p = pit_run ws
     (case w of OutB port v \<Rightarrow>
        if port = 0x43 \<and> v = 0x34 then p\<lparr>low_next := True\<rparr>
        else if port = 0x40 then
          (if low_next p then p\<lparr>low_next := False, reload_low := v\<rparr>
           else p\<lparr>low_next := True, reload := ucast (reload_low p) OR push_bit 8 (ucast v)\<rparr>)
        else p
      | OutW port v \<Rightarrow> p)"

lemma pit_run_append: "pit_run (ws @ vs) p = pit_run vs (pit_run ws p)"
  by (induction ws arbitrary: p) simp_all

lemma bytes_recombine: "ucast (word_of_int (d AND 0xFF) :: u8) OR push_bit 8 (ucast (word_of_int (drop_bit 8 d) :: u8))
    = (word_of_int d :: u16)"
  by (rule bit_word_eqI) (auto simp: mask_bits)

lemma set_frequency_reload:
  assumes "0 < hz"
  shows "\<exists>s'. set_frequency hz t s = Inr (t\<lparr>timer_hz := hz\<rparr>, s')
    \<and> reload (pit_run (port_log s') p) = word_of_int (1193180 div hz)"
proof -
  have d: "1193180 sdiv hz = 1193180 div hz" using assms by (simp add: signed_divide_int_def)
  show ?thesis
    using assms by (simp add: set_frequency_def Let_def outportb_def pit_run_append d bytes_recombine)
qed

section \<open>Waiting\<close>

lemma wait_first_test: "obs 0 = t \<Longrightarrow> wait obs t secs = Some 0"
  by (simp add: wait_def current_def wait_loop.simps [of obs _ _ 0])

lemma wait_loop_stops:
  assumes "timer_seconds (obs k) > then_s \<or> timer_ticks (obs k) \<ge> now" and "i \<le> k"
  shows "\<exists>j\<le>k. i \<le> j \<and> wait_loop obs then_s now i = Some j"
  using assms(2)
proof (induction "k - i" arbitrary: i)
  case 0
  then show ?case using assms(1) by (auto simp: wait_loop.simps [of obs _ _ i])
next
  case (Suc d)
  show ?case
  proof (cases "timer_seconds (obs i) \<le> then_s \<and> timer_ticks (obs i) < now")
    case True
    have "d = k - Suc i" "Suc i \<le> k" using Suc.hyps(2) by linarith+
    then obtain j where "j \<le> k" "Suc i \<le> j" "wait_loop obs then_s now (Suc i) = Some j"
      using Suc.hyps(1) [of "Suc i"] by blast
    then show ?thesis using True by (auto simp: wait_loop.simps [of obs _ _ i])
  next
    case False
    then show ?thesis using Suc.prems by (auto simp: wait_loop.simps [of obs _ _ i])
  qed
qed

text \<open>A counter that moves in steps of one passes every value.\<close>

lemma steps_of_one:
  fixes c :: "nat \<Rightarrow> nat"
  assumes "\<And>i. c (Suc i) \<le> Suc (c i)" and "c 0 \<le> v" and "v \<le> c n"
  shows "\<exists>i\<le>n. c i = v"
  using assms(3)
proof (induction n)
  case (Suc n)
  then show ?case using assms(1) [of n] by (cases "v \<le> c n") (auto simp: le_Suc_eq)
qed (use assms(2) in auto)

text \<open>However many seconds are asked for, the wait is over at most one second after it began.\<close>

lemma wait_ends:
  assumes t: "timer_ok t" and obs: "\<And>i. obs i = after_ticks (c i) t"
    and step: "\<And>i. c (Suc i) \<le> Suc (c i)" "\<And>i. c i \<le> c (Suc i)" and start: "c 0 \<le> nat (timer_hz t)"
    and runs: "nat (timer_hz t) \<le> c n"
  shows "\<exists>j. wait obs t secs = Some j \<and> c j \<le> nat (timer_hz t)"
proof -
  obtain k where k: "c k = nat (timer_hz t)" using steps_of_one [of c, OF step(1) start runs] by blast
  have "timer_ticks (obs k) = timer_ticks t"
    using t unfolding obs k by (simp add: after_ticks_def timer_ok_def)
  then obtain j where j: "j \<le> k" "wait obs t secs = Some j"
    using wait_loop_stops [of "timer_seconds t + secs" obs k "timer_ticks t" 0] by (auto simp: wait_def current_def)
  moreover have "c j \<le> c k" using lift_Suc_mono_le [of c, OF step(2) j(1)] .
  ultimately show ?thesis using k by auto
qed

end
