(* ===== verification/Frame_Pool_Bits.thy ===== *)
theory Frame_Pool_Bits
  imports Prelude
begin

text \<open>
  The state of one frame pool and its bitmap (\<open>cont_frame_pool.H\<close>, \<open>get_state\<close> and
  \<open>set_state\<close> of \<open>cont_frame_pool.C\<close>).  Two bits per frame, four frames per byte:
  \<open>Used = 00\<close>, \<open>Free = 01\<close>, \<open>HoS = 10\<close> (the head of a sequence); \<open>get_state\<close> reads
  \<open>11\<close> as \<open>HoS\<close> too.  The bitmap lives in physical memory at the address \<open>bitmap\<close>, with no
  bound of its own: a frame number beyond \<open>nframes\<close> reads and writes the bytes behind it.

  The lemmas show that the bitmap is an array of frame states: writing one frame changes that
  frame and no other (\<open>get_set_state\<close>), which is the interpretation of the prelude's
  \<open>cell_store\<close> interface.
\<close>

section \<open>Data\<close>

datatype frame_state = Free | Used | HoS

text \<open>There are three states; a statement about all of them is decided by checking each.\<close>

instantiation frame_state :: enum
begin

definition enum_frame_state :: "frame_state list" where
  "enum_frame_state = [Free, Used, HoS]"

definition enum_all_frame_state :: "(frame_state \<Rightarrow> bool) \<Rightarrow> bool" where
  "enum_all_frame_state P \<longleftrightarrow> P Free \<and> P Used \<and> P HoS"

definition enum_ex_frame_state :: "(frame_state \<Rightarrow> bool) \<Rightarrow> bool" where
  "enum_ex_frame_state P \<longleftrightarrow> P Free \<or> P Used \<or> P HoS"

instance
proof
  have all: "P st" if "P Free" "P Used" "P HoS" for P and st :: frame_state using that by (cases st) simp_all
  show "(UNIV :: frame_state set) = set enum_class.enum" by (auto simp: enum_frame_state_def intro: frame_state.exhaust)
  show "distinct (enum_class.enum :: frame_state list)" by (simp add: enum_frame_state_def)
  show "enum_class.enum_all P \<longleftrightarrow> Ball UNIV P" for P :: "frame_state \<Rightarrow> bool"
    by (auto simp: enum_all_frame_state_def intro: all)
  show "enum_class.enum_ex P \<longleftrightarrow> Bex UNIV P" for P :: "frame_state \<Rightarrow> bool"
    using all [of "\<lambda>st. \<not> P st"] by (auto simp: enum_ex_frame_state_def)
qed

end

text \<open>
  The fields of class \<open>ContFramePool\<close>.  A pool object is named by a number (its address in
  the code); \<open>next_fp\<close> is the member \<open>next\<close>.
\<close>

record cont_frame_pool =
  bitmap :: u32
  nFreeFrames :: u32
  base_frame_no :: u32
  nframes :: u32
  info_frame_no :: u32
  info_frame_total :: u32
  next_fp :: "nat option"

abbreviation (input) FRAME_SIZE :: u32 where
  "FRAME_SIZE \<equiv> 4096"

section \<open>Reading and writing one frame's state\<close>

definition get_state :: "memory \<Rightarrow> cont_frame_pool \<Rightarrow> u32 \<Rightarrow> frame_state" where
  "get_state m p frame_no =
     (let bitmap_index = frame_no div 4;
          shift = unat (frame_no mod 4 * 2);
          mask = (push_bit shift 3 :: u8);
          state = drop_bit shift (m (bitmap p + bitmap_index) AND mask)
      in if state = 0 then Used else if state = 1 then Free else HoS)"

definition set_state :: "memory \<Rightarrow> cont_frame_pool \<Rightarrow> u32 \<Rightarrow> frame_state \<Rightarrow> memory" where
  "set_state m p frame_no st =
     (let bitmap_index = frame_no div 4;
          shift = unat (frame_no mod 4 * 2);
          mask = (push_bit shift 3 :: u8);
          m1 = m(bitmap p + bitmap_index := m (bitmap p + bitmap_index) AND NOT mask)
      in case st of
           Used \<Rightarrow> m1
         | Free \<Rightarrow> m1(bitmap p + bitmap_index := m1 (bitmap p + bitmap_index) OR push_bit shift 1)
         | HoS \<Rightarrow> m1(bitmap p + bitmap_index := m1 (bitmap p + bitmap_index) OR push_bit shift 2))"

text \<open>\<open>needed_info_frames\<close>: the bitmap's size in frames, rounded up (\<open>FRAME_SIZE * 4\<close>
  frames fit in one).\<close>

definition needed_info_frames :: "u32 \<Rightarrow> u32" where
  "needed_info_frames n = (n + FRAME_SIZE * 4 - 1) div (FRAME_SIZE * 4)"

section \<open>The bitmap as an array of states\<close>

lemma bit_three: "bit (3 :: int) n \<longleftrightarrow> n = 0 \<or> n = 1"
  by (auto simp: bit_numeral_rec bit_1_iff split: nat.splits)

text \<open>The two bits that \<open>set_state\<close> stores for each state.\<close>

definition state_bits :: "frame_state \<Rightarrow> u8" where
  "state_bits st = (case st of Used \<Rightarrow> 0 | Free \<Rightarrow> 1 | HoS \<Rightarrow> 2)"

lemma bit_state_bits:
  "bit (state_bits st) n \<longleftrightarrow> (st = Free \<and> n = 0) \<or> (st = HoS \<and> n = 1)"
  by (cases st) (auto simp: state_bits_def bit_numeral_rec bit_1_iff split: nat.splits)

definition decode_bits :: "bool \<Rightarrow> bool \<Rightarrow> frame_state" where
  "decode_bits hi lo = (if hi then HoS else if lo then Free else Used)"

lemma two_bits:
  fixes b :: u8
  assumes "s < 7"
  shows "drop_bit s (b AND push_bit s 3) = of_bool (bit b s) OR (of_bool (bit b (Suc s)) * 2)"
proof (rule bit_word_eqI)
  fix n assume "n < LENGTH(8)"
  then show "bit (drop_bit s (b AND push_bit s 3)) n
      = bit (of_bool (bit b s) OR (of_bool (bit b (Suc s)) * 2) :: u8) n"
    using assms by (auto simp: bit_simps bit_three)
qed

lemma field_decode:
  fixes b :: u8
  assumes "s < 7"
  shows "(let state = drop_bit s (b AND push_bit s 3)
          in if state = 0 then Used else if state = 1 then Free else HoS)
       = decode_bits (bit b (Suc s)) (bit b s)"
  using two_bits [OF assms, of b] by (auto simp: decode_bits_def Let_def)

lemma shift_bound: "unat ((f :: u32) mod 4 * 2) = 2 * (unat f mod 4)"
proof -
  have "unat (f mod 4) = unat f mod 4"
    by (simp add: unat_mod)
  moreover have "unat (f mod 4 * 2) = unat (f mod 4) * unat (2 :: u32) mod 2 ^ 32"
    by (simp add: unat_word_ariths)
  ultimately show ?thesis
    by simp
qed

lemma get_state_bits:
  "get_state m p f =
     (let s = 2 * (unat f mod 4); b = m (bitmap p + f div 4)
      in decode_bits (bit b (Suc s)) (bit b s))"
proof -
  have "2 * (unat f mod 4) < 7"
    by (simp add: le_imp_less_Suc)
  from field_decode [OF this] show ?thesis
    by (simp add: get_state_def shift_bound Let_def)
qed

lemma set_state_mem:
  "set_state m p f st =
     m(bitmap p + f div 4 :=
        (m (bitmap p + f div 4) AND NOT (push_bit (2 * (unat f mod 4)) 3))
        OR push_bit (2 * (unat f mod 4)) (state_bits st))"
  by (cases st) (simp_all add: set_state_def shift_bound state_bits_def Let_def)

lemma word_div_mod_eq:
  fixes f g :: u32
  assumes "f div 4 = g div 4" and "unat f mod 4 = unat g mod 4"
  shows "f = g"
proof -
  have "unat f div 4 = unat g div 4"
    using arg_cong [OF assms(1), of unat] by (simp add: unat_div)
  with assms(2) have "unat f = unat g"
    by (metis div_mult_mod_eq)
  then show ?thesis by (rule word_unat_eq_iff [THEN iffD2])
qed

lemma bit_set_field:
  fixes b :: u8
  assumes "s < 7"
  shows "bit (b AND NOT (push_bit s 3) OR push_bit s (state_bits st)) n \<longleftrightarrow>
     n < 8 \<and> (if n = s then st = Free else if n = Suc s then st = HoS else bit b n)"
  using assms by (auto simp: bit_simps bit_three bit_state_bits dest: bit_imp_le_length)

lemma get_set_state [mem_simps]:
  "get_state (set_state m p f st) p g = (if f = g then st else get_state m p g)"
proof (cases "f div 4 = g div 4")
  case False
  then show ?thesis by (auto simp: get_state_bits set_state_mem Let_def)
next
  case True
  let ?s = "2 * (unat f mod 4)" and ?t = "2 * (unat g mod 4)"
  have small: "?s < 7" "?t < 7"
    by (simp_all add: le_imp_less_Suc)
  have eq: "f = g \<longleftrightarrow> unat f mod 4 = unat g mod 4"
    using word_div_mod_eq [OF True] by blast
  have "?s \<noteq> Suc ?t" "?t \<noteq> Suc ?s" by arith+
  then show ?thesis using small True eq
    by (cases st) (auto simp: get_state_bits set_state_mem Let_def bit_set_field decode_bits_def)
qed

end
