(* ===== verification/Frame_Sections.thy ===== *)
theory Frame_Sections
  imports Frame_Pool_Bits
begin

text \<open>
  The abstract frame pool: a list of frame states, one per frame of the pool.  An allocated
  section is a \<open>HoS\<close> frame followed by \<open>Used\<close> frames; the operations take a run of free
  frames and turn it into a section, or give a section back.  This is the contract that the
  comments at the head of \<open>cont_frame_pool.C\<close> describe; \<open>Cont_Frame_Pool\<close> shows that the
  code implements it.
\<close>

section \<open>Runs and sections\<close>

text \<open>\<open>n\<close> free frames in a row, starting at frame \<open>i\<close>.\<close>

definition free_run :: "frame_state list \<Rightarrow> nat \<Rightarrow> nat \<Rightarrow> bool" where
  "free_run xs i n \<longleftrightarrow> i + n \<le> length xs \<and> (\<forall>j<n. xs ! (i + j) = Free)"

text \<open>Turn the \<open>n\<close> frames from \<open>i\<close> into a section.\<close>

definition take_run :: "nat \<Rightarrow> nat \<Rightarrow> frame_state list \<Rightarrow> frame_state list" where
  "take_run i n xs = take i xs @ HoS # replicate (n - 1) Used @ drop (i + n) xs"

text \<open>The length of the section whose head is frame \<open>i\<close>, and giving it back.\<close>

definition section_len :: "nat \<Rightarrow> frame_state list \<Rightarrow> nat" where
  "section_len i xs = Suc (length (takeWhile (\<lambda>s. s = Used) (drop (Suc i) xs)))"

definition release_run :: "nat \<Rightarrow> frame_state list \<Rightarrow> frame_state list" where
  "release_run i xs =
     take i xs @ replicate (section_len i xs) Free @ drop (i + section_len i xs) xs"

text \<open>Every \<open>Used\<close> frame belongs to a section: the frame before it is allocated too.\<close>

definition well_sectioned :: "frame_state list \<Rightarrow> bool" where
  "well_sectioned xs \<longleftrightarrow> (\<forall>i<length xs. xs ! i = Used \<longrightarrow> 0 < i \<and> xs ! (i - 1) \<noteq> Free)"

abbreviation count_free :: "frame_state list \<Rightarrow> nat" where
  "count_free xs \<equiv> count_list xs Free"

lemma count_free_replicate [simp]: "count_free (replicate n s) = (if s = Free then n else 0)"
  by (induction n) auto

lemma length_take_run [simp]:
  "0 < n \<Longrightarrow> i + n \<le> length xs \<Longrightarrow> length (take_run i n xs) = length xs"
  by (simp add: take_run_def)

lemma nth_take_run:
  assumes "0 < n" and "i + n \<le> length xs" and "j < length xs"
  shows "take_run i n xs ! j =
    (if j = i then HoS else if i < j \<and> j < i + n then Used else xs ! j)"
  using assms by (auto simp: take_run_def nth_append nth_Cons' min_def)

lemma section_bound: "i < length xs \<Longrightarrow> i + section_len i xs \<le> length xs"
  using length_takeWhile_le [of "\<lambda>s. s = Used" "drop (Suc i) xs"]
  by (auto simp: section_len_def)

lemma section_used:
  assumes "i < j" and "j < i + section_len i xs" and "i < length xs"
  shows "xs ! j = Used"
proof -
  let ?t = "takeWhile (\<lambda>s. s = Used) (drop (Suc i) xs)"
  have k: "j - Suc i < length ?t"
    using assms by (auto simp: section_len_def)
  then have "?t ! (j - Suc i) = Used"
    using nth_mem set_takeWhileD by fastforce
  then show ?thesis
    using k assms section_bound [OF assms(3)] by (simp add: takeWhile_nth)
qed

lemma section_end:
  assumes "i + section_len i xs < length xs"
  shows "xs ! (i + section_len i xs) \<noteq> Used"
proof -
  let ?t = "takeWhile (\<lambda>s. s = Used) (drop (Suc i) xs)"
  have "length ?t < length (drop (Suc i) xs)"
    using assms by (simp add: section_len_def)
  from nth_length_takeWhile [OF this] show ?thesis
    using assms by (simp add: section_len_def)
qed

lemma length_release_run [simp]: "i < length xs \<Longrightarrow> length (release_run i xs) = length xs"
  using section_bound [of i xs] by (simp add: release_run_def)

lemma nth_release_run:
  assumes "i < length xs" and "j < length xs"
  shows "release_run i xs ! j = (if i \<le> j \<and> j < i + section_len i xs then Free else xs ! j)"
  using assms section_bound [of i xs]
  by (auto simp: release_run_def nth_append min_def)

section \<open>The contract\<close>

lemma split3: "i + n \<le> length xs \<Longrightarrow> xs = take i xs @ take n (drop i xs) @ drop (i + n) xs"
  by (metis append_take_drop_id add.commute drop_drop)

lemma free_run_take: "free_run xs i n \<Longrightarrow> take n (drop i xs) = replicate n Free"
  by (auto simp: free_run_def intro!: nth_equalityI)

lemma count_free_take_run:
  assumes "free_run xs i n" and "0 < n"
  shows "count_free (take_run i n xs) + n = count_free xs"
proof -
  have "count_free xs = count_free (take i xs @ replicate n Free @ drop (i + n) xs)"
    using assms split3 [of i n xs] free_run_take [OF assms(1)] by (metis free_run_def)
  then show ?thesis using assms by (simp add: take_run_def)
qed

lemma well_sectioned_take_run:
  assumes "well_sectioned xs" and "free_run xs i n" and "0 < n"
  shows "well_sectioned (take_run i n xs)"
  using assms unfolding well_sectioned_def free_run_def
  by (auto simp: nth_take_run)

lemma section_count:
  assumes "i < length xs" and "xs ! i = HoS"
  shows "count_free (release_run i xs) = count_free xs + section_len i xs"
proof -
  let ?n = "section_len i xs"
  have b: "i + ?n \<le> length xs" using section_bound assms by blast
  have "count_free (take ?n (drop i xs)) = 0"
  proof -
    have "\<forall>s\<in>set (take ?n (drop i xs)). s \<noteq> Free"
    proof
      fix s assume "s \<in> set (take ?n (drop i xs))"
      then obtain k where k: "k < ?n" "s = xs ! (i + k)"
        using b by (auto simp: in_set_conv_nth)
      then show "s \<noteq> Free"
        using section_used [of i "i + k" xs] assms by (cases "k = 0") auto
    qed
    then show ?thesis by (metis count_list_0_iff)
  qed
  moreover have "count_free xs = count_free (take i xs @ take ?n (drop i xs) @ drop (i + ?n) xs)"
    using split3 [OF b] by simp
  ultimately show ?thesis by (simp add: release_run_def)
qed

lemma well_sectioned_release_run:
  assumes "well_sectioned xs" and "i < length xs"
  shows "well_sectioned (release_run i xs)"
  unfolding well_sectioned_def
proof (intro allI impI)
  fix j assume j: "j < length (release_run i xs)" and u: "release_run i xs ! j = Used"
  with assms(2) have j': "j < length xs" and out: "\<not> (i \<le> j \<and> j < i + section_len i xs)"
    and uj: "xs ! j = Used"
    by (auto simp: nth_release_run split: if_splits)
  then have p: "0 < j" "xs ! (j - 1) \<noteq> Free"
    using assms(1) by (auto simp: well_sectioned_def)
  moreover have "j \<noteq> i + section_len i xs"
    using section_end [of i xs] j' uj by blast
  ultimately show "0 < j \<and> release_run i xs ! (j - 1) \<noteq> Free"
    using out assms(2) j' by (auto simp: nth_release_run)
qed

text \<open>Giving back what was just taken restores the pool.\<close>

lemma section_len_take_run:
  assumes "well_sectioned xs" and "free_run xs i n" and "0 < n"
  shows "section_len i (take_run i n xs) = n"
proof -
  have len: "i + n \<le> length xs" using assms by (simp add: free_run_def)
  have "drop (Suc i) (take_run i n xs) = replicate (n - 1) Used @ drop (i + n) xs"
    using len by (simp add: take_run_def)
  moreover have "takeWhile (\<lambda>s. s = Used) (drop (i + n) xs) = []"
  proof (cases "i + n < length xs")
    case True
    have "xs ! (i + n - 1) = Free"
      using assms(2,3) unfolding free_run_def
      by (metis Nat.add_diff_assoc One_nat_def Suc_leI diff_less zero_less_one)
    with True have "xs ! (i + n) \<noteq> Used"
      using assms(1,3) by (auto simp: well_sectioned_def)
    then show ?thesis
      using True by (simp add: takeWhile_eq_Nil_iff hd_drop_conv_nth)
  qed simp
  ultimately show ?thesis
    using assms(3) by (simp add: section_len_def takeWhile_append)
qed

lemma release_take_run:
  assumes "well_sectioned xs" and "free_run xs i n" and "0 < n"
  shows "release_run i (take_run i n xs) = xs"
proof (rule nth_equalityI)
  have len: "i + n \<le> length xs" using assms by (simp add: free_run_def)
  then show "length (release_run i (take_run i n xs)) = length xs"
    using assms by simp
  fix j assume "j < length (release_run i (take_run i n xs))"
  then show "release_run i (take_run i n xs) ! j = xs ! j"
    using len assms free_run_take [OF assms(2)]
    by (auto simp: nth_release_run section_len_take_run nth_take_run free_run_def
        dest: spec [of _ "j - i"])
qed

end
