(* ===== verification/Cont_Frame_Pool.thy ===== *)
theory Cont_Frame_Pool
  imports Frame_Sections
begin

text \<open>
  Class \<open>ContFramePool\<close> (\<open>cont_frame_pool.C\<close>): the constructor, \<open>get_frames\<close>,
  \<open>mark_inaccessible\<close>, \<open>release_frames\<close> and \<open>print_frame_states\<close>.  The pool objects and the
  static list that links them are part of the state; \<open>head\<close> and \<open>next\<close> are pool names.
  The messages the code prints are left out.
\<close>

section \<open>State\<close>

record fp_state =
  mem :: memory
  frame_pools :: "nat \<Rightarrow> cont_frame_pool option"
  fp_head :: "nat option"

section \<open>The operations on one pool\<close>

subsection \<open>\<open>get_frames\<close>\<close>

text \<open>
  The inner loop of the search, \<open>while (state is Used or HoS)\<close>: it has no bound, so it runs
  past \<open>nframes\<close> into the memory behind the bitmap, and ends only where that memory happens
  to hold a \<open>Free\<close> pattern.
\<close>

partial_function (option) skip_allocated ::
  "memory \<Rightarrow> cont_frame_pool \<Rightarrow> u32 \<Rightarrow> u32 \<Rightarrow> (u32 \<times> u32) option" where
  "skip_allocated m p frame_no count =
     (if get_state m p frame_no = Used \<or> get_state m p frame_no = HoS
      then skip_allocated m p (frame_no + 1) 0
      else Some (frame_no, count))"

text \<open>The outer loop: \<open>count\<close> is the number of free frames met in a row.\<close>

partial_function (option) search_frames ::
  "memory \<Rightarrow> cont_frame_pool \<Rightarrow> u32 \<Rightarrow> u32 \<Rightarrow> u32 \<Rightarrow> (u32 \<times> u32) option" where
  "search_frames m p n frame_no count =
     (if frame_no < nframes p then
        Option.bind (skip_allocated m p frame_no count)
          (\<lambda>(f, c).
             if get_state m p f = Free then
               (if c + 1 = n then Some (f + 1, c + 1) else search_frames m p n (f + 1) (c + 1))
             else (if c = n then Some (f, c) else search_frames m p n f c))
      else Some (frame_no, count))"

text \<open>\<open>for (fno = frame_no - 1; fno > frame_no - n; fno--) set_state(fno, Used)\<close>\<close>

function mark_used_down :: "memory \<Rightarrow> cont_frame_pool \<Rightarrow> u32 \<Rightarrow> u32 \<Rightarrow> memory" where
  "mark_used_down m p fno lo =
     (if lo < fno then mark_used_down (set_state m p fno Used) p (fno - 1) lo else m)"
  by pat_completeness auto
termination
  by (relation "measure (\<lambda>(m, p, fno, lo). unat fno)")
    (auto simp: word_less_nat_alt unat_sub_if_size)

declare mark_used_down.simps [simp del]

definition pool_get_frames ::
  "memory \<Rightarrow> cont_frame_pool \<Rightarrow> u32 \<Rightarrow> (u32 \<times> memory \<times> cont_frame_pool) outcome" where
  "pool_get_frames m p n =
     andThen (assert_that (n \<le> nFreeFrames p)) (\<lambda>_.
     andThen (of_loop (search_frames m p n 0 0)) (\<lambda>(frame_no, count).
       if count \<noteq> n then Inr (0, m, p)
       else
         let m1 = mark_used_down m p (frame_no - 1) (frame_no - n);
             m2 = set_state m1 p (frame_no - n) HoS
         in Inr (frame_no - n + base_frame_no p, m2,
                 p\<lparr>nFreeFrames := nFreeFrames p - n\<rparr>)))"

subsection \<open>\<open>mark_inaccessible\<close>\<close>

function mark_rest ::
  "memory \<Rightarrow> cont_frame_pool \<Rightarrow> u32 \<Rightarrow> u32 \<Rightarrow> memory \<times> cont_frame_pool" where
  "mark_rest m p fno limit =
     (if fno < limit
      then mark_rest (set_state m p (fno - base_frame_no p) Used)
             (p\<lparr>nFreeFrames := nFreeFrames p - 1\<rparr>) (fno + 1) limit
      else (m, p))"
  by pat_completeness auto
termination
  by (relation "measure (\<lambda>(m, p, fno, limit). unat limit - unat fno)")
    (auto simp: word_less_nat_alt unat_Suc_32)

declare mark_rest.simps [simp del]

definition pool_mark_inaccessible ::
  "memory \<Rightarrow> cont_frame_pool \<Rightarrow> u32 \<Rightarrow> u32 \<Rightarrow> memory \<times> cont_frame_pool" where
  "pool_mark_inaccessible m p base n =
     mark_rest (set_state m p (base - base_frame_no p) HoS)
       (p\<lparr>nFreeFrames := nFreeFrames p - 1\<rparr>) (base + 1) (base + n)"

subsection \<open>\<open>release_frames\<close>, once the owner is known\<close>

text \<open>The loop over the \<open>Used\<close> frames behind the head, with the counter it increments.\<close>

function free_tail ::
  "memory \<Rightarrow> cont_frame_pool \<Rightarrow> u32 \<Rightarrow> memory \<times> cont_frame_pool" where
  "free_tail m p fno =
     (if fno < base_frame_no p + nframes p \<and> get_state m p (fno - base_frame_no p) = Used
      then free_tail (set_state m p (fno - base_frame_no p) Free)
             (p\<lparr>nFreeFrames := nFreeFrames p + 1\<rparr>) (fno + 1)
      else (m, p))"
  by pat_completeness auto
termination
  by (relation "measure (\<lambda>(m, p, fno). unat (base_frame_no p + nframes p) - unat fno)")
    (auto simp: word_less_nat_alt unat_Suc_32)

declare free_tail.simps [simp del]

definition pool_release ::
  "memory \<Rightarrow> cont_frame_pool \<Rightarrow> u32 \<Rightarrow> (memory \<times> cont_frame_pool) outcome" where
  "pool_release m p first_frame_no =
     (if get_state m p (first_frame_no - base_frame_no p) = HoS then
        Inr (free_tail (set_state m p (first_frame_no - base_frame_no p) Free)
               (p\<lparr>nFreeFrames := nFreeFrames p + 1\<rparr>) (first_frame_no + 1))
      else Inl Assertion)"

subsection \<open>The constructor\<close>

function set_all_free :: "memory \<Rightarrow> cont_frame_pool \<Rightarrow> u32 \<Rightarrow> u32 \<Rightarrow> memory" where
  "set_all_free m p fno n =
     (if fno < n then set_all_free (set_state m p fno Free) p (fno + 1) n else m)"
  by pat_completeness auto
termination
  by (relation "measure (\<lambda>(m, p, fno, n). unat n - unat fno)")
    (auto simp: word_less_nat_alt unat_Suc_32)

declare set_all_free.simps [simp del]

text \<open>The bitmap's own frames: the first is \<open>HoS\<close>, the rest \<open>Used\<close>.\<close>

function mark_info ::
  "memory \<Rightarrow> cont_frame_pool \<Rightarrow> u32 \<Rightarrow> u32 \<Rightarrow> memory \<times> cont_frame_pool" where
  "mark_info m p start i =
     (if i < info_frame_total p
      then mark_info (set_state m p (start - base_frame_no p + i) (if i = 0 then HoS else Used))
             (p\<lparr>nFreeFrames := nFreeFrames p - 1\<rparr>) start (i + 1)
      else (m, p))"
  by pat_completeness auto
termination
  by (relation "measure (\<lambda>(m, p, start, i). unat (info_frame_total p) - unat i)")
    (auto simp: word_less_nat_alt unat_Suc_32)

declare mark_info.simps [simp del]

definition pool_construct ::
  "memory \<Rightarrow> nat option \<Rightarrow> u32 \<Rightarrow> u32 \<Rightarrow> u32 \<Rightarrow> memory \<times> cont_frame_pool" where
  "pool_construct m next0 base n info =
     (let p = \<lparr> bitmap = (if info = 0 then base * FRAME_SIZE else info * FRAME_SIZE),
               nFreeFrames = n, base_frame_no = base, nframes = n, info_frame_no = info,
               info_frame_total = needed_info_frames n, next_fp = next0 \<rparr>;
          m1 = set_all_free m p 0 n;
          info_start = (if info \<noteq> 0 then info else base)
      in if base \<le> info_start \<and> info_start + info_frame_total p \<le> base + n
         then mark_info m1 p info_start 0
         else (m1, p))"

subsection \<open>\<open>print_frame_states\<close>\<close>

text \<open>The lines it prints, as triples: first and last frame of a section, and its length.\<close>

function count_section :: "memory \<Rightarrow> cont_frame_pool \<Rightarrow> u32 \<Rightarrow> u32 \<Rightarrow> u32 \<times> u32" where
  "count_section m p fno count =
     (if fno < nframes p \<and> get_state m p fno = Used
      then count_section m p (fno + 1) (count + 1)
      else (fno, count))"
  by pat_completeness auto
termination
  by (relation "measure (\<lambda>(m, p, fno, count). unat (nframes p) - unat fno)")
    (auto simp: word_less_nat_alt unat_Suc_32)

declare count_section.simps [simp del]

lemma count_section_ge: "fno \<le> nframes p \<Longrightarrow> fno \<le> fst (count_section m p fno c)
    \<and> fst (count_section m p fno c) \<le> nframes p"
proof (induction m p fno c rule: count_section.induct)
  case (1 m p fno c)
  show ?case
  proof (cases "fno < nframes p \<and> get_state m p fno = Used")
    case True
    then have "fno + 1 \<le> nframes p" "fno \<le> fno + 1"
      by (auto simp: word_le_nat_alt word_less_nat_alt unat_Suc_32)
    with True "1.IH" show ?thesis
      by (auto simp: count_section.simps [of m p fno c] intro: order_trans)
  next
    case False
    with "1.prems" show ?thesis by (auto simp: count_section.simps [of m p fno c])
  qed
qed

function print_sections ::
  "memory \<Rightarrow> cont_frame_pool \<Rightarrow> u32 \<Rightarrow> (u32 \<times> u32 \<times> u32) list" where
  "print_sections m p fno =
     (if fno < nframes p then
        (if get_state m p fno = HoS then
           let (fno', count) = count_section m p (fno + 1) 1
           in (fno + base_frame_no p, fno + base_frame_no p + count - 1, count)
              # print_sections m p (fno' - 1 + 1)
         else print_sections m p (fno + 1))
      else [])"
  by pat_completeness auto
termination
proof (relation "measure (\<lambda>(m, p, fno). unat (nframes p) - unat fno)", goal_cases)
  case (2 m p fno x y z)
  from 2 have y: "y = fst (count_section m p (fno + 1) 1)"
    by (metis fst_conv)
  from 2 have "fno + 1 \<le> nframes p"
    by (simp add: word_le_nat_alt word_less_nat_alt unat_Suc_32)
  with count_section_ge [of "fno + 1" p m 1] have "fno + 1 \<le> y"
    by (simp add: y)
  with 2 show ?case
    by (auto simp: word_le_nat_alt word_less_nat_alt unat_Suc_32)
qed (auto simp: word_less_nat_alt unat_Suc_32)

declare print_sections.simps [simp del]

definition print_frame_states :: "memory \<Rightarrow> cont_frame_pool \<Rightarrow> (u32 \<times> u32 \<times> u32) list" where
  "print_frame_states m p = print_sections m p 0"

section \<open>The operations on the system's pools\<close>

text \<open>The constructor links the new pool in front of the list.\<close>

definition ContFramePool ::
  "nat \<Rightarrow> u32 \<Rightarrow> u32 \<Rightarrow> u32 \<Rightarrow> 'a fp_state_scheme \<Rightarrow> 'a fp_state_scheme" where
  "ContFramePool this base n info s =
     (let (m, p) = pool_construct (mem s) (fp_head s) base n info
      in s\<lparr>mem := m, frame_pools := (frame_pools s)(this \<mapsto> p), fp_head := Some this\<rparr>)"

definition get_frames ::
  "nat \<Rightarrow> u32 \<Rightarrow> 'a fp_state_scheme \<Rightarrow> (u32 \<times> 'a fp_state_scheme) outcome" where
  "get_frames this n s =
     (case frame_pools s this of
        None \<Rightarrow> Inl Wild
      | Some p \<Rightarrow> andThen (pool_get_frames (mem s) p n) (\<lambda>(r, m, p').
          Inr (r, s\<lparr>mem := m, frame_pools := (frame_pools s)(this \<mapsto> p')\<rparr>)))"

definition mark_inaccessible ::
  "nat \<Rightarrow> u32 \<Rightarrow> u32 \<Rightarrow> 'a fp_state_scheme \<Rightarrow> 'a fp_state_scheme outcome" where
  "mark_inaccessible this base n s =
     (case frame_pools s this of
        None \<Rightarrow> Inl Wild
      | Some p \<Rightarrow>
          let (m, p') = pool_mark_inaccessible (mem s) p base n
          in Inr (s\<lparr>mem := m, frame_pools := (frame_pools s)(this \<mapsto> p')\<rparr>))"

text \<open>
  The walk along the list of pools for the one that owns a frame.  \<open>None\<close>: the list is
  cyclic and the walk never ends; \<open>Inl Assertion\<close>: no pool owns the frame; \<open>Inl Wild\<close>: a
  dangling \<open>next\<close>.
\<close>

definition owns :: "cont_frame_pool \<Rightarrow> u32 \<Rightarrow> bool" where
  "owns p f \<longleftrightarrow> base_frame_no p \<le> f \<and> f < base_frame_no p + nframes p"

partial_function (option) find_pool ::
  "(nat \<Rightarrow> cont_frame_pool option) \<Rightarrow> u32 \<Rightarrow> nat option \<Rightarrow> nat outcome option" where
  "find_pool ps f node =
     (case node of
        None \<Rightarrow> Some (Inl Assertion)
      | Some a \<Rightarrow>
          (case ps a of
             None \<Rightarrow> Some (Inl Wild)
           | Some p \<Rightarrow> if owns p f then Some (Inr a) else find_pool ps f (next_fp p)))"

definition release_frames ::
  "u32 \<Rightarrow> 'a fp_state_scheme \<Rightarrow> 'a fp_state_scheme outcome" where
  "release_frames first_frame_no s =
     andThen (of_loop (find_pool (frame_pools s) first_frame_no (fp_head s))) (\<lambda>r.
     andThen r (\<lambda>a.
       (case frame_pools s a of
          None \<Rightarrow> Inl Wild
        | Some p \<Rightarrow> andThen (pool_release (mem s) p first_frame_no) (\<lambda>(m, p').
            Inr (s\<lparr>mem := m, frame_pools := (frame_pools s)(a \<mapsto> p')\<rparr>)))))"

end
