(* ===== verification/Frame_Pool_Search.thy ===== *)
theory Frame_Pool_Search
  imports Cont_Frame_Pool
begin

text \<open>
  The loops of \<open>cont_frame_pool.C\<close>.  The bitmap of a pool is read as a list of frame states
  (\<open>fstates\<close>); every loop that sets states is a fold over the frames it visits, and the
  search of \<open>get_frames\<close> is followed to each of its ends: the first run of \<open>n\<close> free frames
  (\<open>search_finds\<close>), no run (\<open>search_fails\<close>), and no end at all (\<open>search_never_returns\<close>).
\<close>

section \<open>The bitmap as a list of frame states\<close>

interpretation bits: cell_store "\<lambda>m. get_state m p" "\<lambda>m. set_state m p" "\<lambda>_. True" for p
  by unfold_locales (rule get_set_state)

definition fstates :: "memory \<Rightarrow> cont_frame_pool \<Rightarrow> frame_state list" where
  "fstates m p = map (\<lambda>i. get_state m p (word_of_nat i)) [0..<unat (nframes p)]"

definition pool_ok :: "memory \<Rightarrow> cont_frame_pool \<Rightarrow> bool" where
  "pool_ok m p \<longleftrightarrow>
     unat (base_frame_no p) + unat (nframes p) < 2 ^ 32 \<and>
     unat (nFreeFrames p) = count_free (fstates m p) \<and>
     well_sectioned (fstates m p)"

text \<open>The bytes of memory that hold the states of the pool's own frames.\<close>

definition bitmap_bytes :: "cont_frame_pool \<Rightarrow> u32 set" where
  "bitmap_bytes p = (\<lambda>f. bitmap p + f div 4) ` {f. f < nframes p}"

lemma state_nFree [simp]:
  "get_state m (p\<lparr>nFreeFrames := x\<rparr>) f = get_state m p f"
  "set_state m (p\<lparr>nFreeFrames := x\<rparr>) f st = set_state m p f st"
  "fstates m (p\<lparr>nFreeFrames := x\<rparr>) = fstates m p"
  "bitmap_bytes (p\<lparr>nFreeFrames := x\<rparr>) = bitmap_bytes p"
  by (simp_all add: get_state_def set_state_def fstates_def bitmap_bytes_def Let_def
        cong: frame_state.case_cong)

lemma length_fstates [simp]: "length (fstates m p) = unat (nframes p)"
  by (simp add: fstates_def)

lemma nth_fstates [simp]:
  "i < unat (nframes p) \<Longrightarrow> fstates m p ! i = get_state m p (word_of_nat i)"
  by (simp add: fstates_def)

lemma fstates_eqI:
  assumes "length ys = unat (nframes p)"
    and "\<And>f. f < nframes p \<Longrightarrow> get_state m p f = ys ! unat f"
  shows "fstates m p = ys"
proof (rule nth_equalityI)
  fix i assume i: "i < length (fstates m p)"
  then have "i < 4294967296" using unat_less_32 [of "nframes p"] by simp
  then show "fstates m p ! i = ys ! i"
    using i assms(2) [of "word_of_nat i"] by (simp add: of_nat_less_32)
qed (simp add: assms(1))

lemma nth_fstates_unat: "f < nframes p \<Longrightarrow> fstates m p ! unat f = get_state m p f"
  by (simp add: word_less_nat_alt)

section \<open>Loops over frames as folds\<close>

text \<open>
  Each loop of the code that sets states is a fold of \<open>set_state\<close>, so its effect on every
  frame is \<open>bits.rd_fold\<close> and its effect on the rest of memory is \<open>fold_outside\<close>.
\<close>

lemma set_state_outside: "f < nframes p \<Longrightarrow> a \<notin> bitmap_bytes p \<Longrightarrow> set_state m p f st a = m a"
  by (auto simp: set_state_mem bitmap_bytes_def)

lemma fold_outside:
  "\<forall>f\<in>set fs. f < nframes p \<Longrightarrow> a \<notin> bitmap_bytes p \<Longrightarrow>
     fold (\<lambda>f m. set_state m p f (st f)) fs m a = m a"
  by (induction fs arbitrary: m) (auto simp: set_state_outside)

lemma mark_used_down_fold:
  "\<exists>fs. mark_used_down m p fno lo = fold (\<lambda>f m. set_state m p f Used) fs m
      \<and> set fs = {g. lo < g \<and> g \<le> fno}"
proof (induction m p fno lo rule: mark_used_down.induct)
  case (1 m p fno lo)
  show ?case
  proof (cases "lo < fno")
    case True
    with "1.IH" obtain fs where fs:
      "mark_used_down (set_state m p fno Used) p (fno - 1) lo
         = fold (\<lambda>f m. set_state m p f Used) fs (set_state m p fno Used)"
      "set fs = {g. lo < g \<and> g \<le> fno - 1}" by blast
    have "mark_used_down m p fno lo = fold (\<lambda>f m. set_state m p f Used) (fno # fs) m"
      using True fs(1) by (simp add: mark_used_down.simps [of m p fno lo])
    moreover have "set (fno # fs) = {g. lo < g \<and> g \<le> fno}"
      using range_down_step [OF True] fs(2) by simp
    ultimately show ?thesis by blast
  next
    case False
    then have "mark_used_down m p fno lo = fold (\<lambda>f m. set_state m p f Used) [] m"
      by (simp add: mark_used_down.simps [of m p fno lo])
    moreover have "set [] = {g. lo < g \<and> g \<le> fno}" using False by auto
    ultimately show ?thesis by blast
  qed
qed

lemma set_all_free_fold:
  "\<exists>fs. set_all_free m p fno n = fold (\<lambda>f m. set_state m p f Free) fs m
      \<and> set fs = {g. fno \<le> g \<and> g < n}"
proof (induction m p fno n rule: set_all_free.induct)
  case (1 m p fno n)
  show ?case
  proof (cases "fno < n")
    case True
    with "1.IH" obtain fs where fs:
      "set_all_free (set_state m p fno Free) p (fno + 1) n
         = fold (\<lambda>f m. set_state m p f Free) fs (set_state m p fno Free)"
      "set fs = {g. fno + 1 \<le> g \<and> g < n}" by blast
    have "set_all_free m p fno n = fold (\<lambda>f m. set_state m p f Free) (fno # fs) m"
      using True fs(1) by (simp add: set_all_free.simps [of m p fno n])
    moreover have "set (fno # fs) = {g. fno \<le> g \<and> g < n}"
      using range_up_step [OF True] fs(2) by simp
    ultimately show ?thesis by blast
  next
    case False
    then have "set_all_free m p fno n = fold (\<lambda>f m. set_state m p f Free) [] m"
      by (simp add: set_all_free.simps [of m p fno n])
    moreover have "set [] = {g. fno \<le> g \<and> g < n}" using False by auto
    ultimately show ?thesis by blast
  qed
qed

lemma mark_rest_fold:
  "\<exists>fs. mark_rest m p fno limit =
        (fold (\<lambda>f m. set_state m p f Used) fs m,
         p\<lparr>nFreeFrames := nFreeFrames p - (if fno < limit then limit - fno else 0)\<rparr>)
      \<and> set fs = (\<lambda>x. x - base_frame_no p) ` {x. fno \<le> x \<and> x < limit}"
proof (induction m p fno limit rule: mark_rest.induct)
  case (1 m p fno limit)
  let ?b = "base_frame_no p" and ?p = "p\<lparr>nFreeFrames := nFreeFrames p - 1\<rparr>"
  show ?case
  proof (cases "fno < limit")
    case True
    with "1.IH" obtain fs where fs:
      "mark_rest (set_state m p (fno - ?b) Used) ?p (fno + 1) limit
         = (fold (\<lambda>f m. set_state m p f Used) fs (set_state m p (fno - ?b) Used),
            p\<lparr>nFreeFrames := nFreeFrames p - 1 - (if fno + 1 < limit then limit - (fno + 1) else 0)\<rparr>)"
      "set fs = (\<lambda>x. x - ?b) ` {x. fno + 1 \<le> x \<and> x < limit}" by auto
    have "set ((fno - ?b) # fs) = (\<lambda>x. x - ?b) ` insert fno {x. fno + 1 \<le> x \<and> x < limit}"
      using fs(2) by simp
    then have "set ((fno - ?b) # fs) = (\<lambda>x. x - ?b) ` {x. fno \<le> x \<and> x < limit}"
      by (simp only: range_up_step [OF True])
    moreover have "fno + 1 < limit \<or> limit = fno + 1"
      using True word_Suc_le [OF True, of limit] by (metis order_le_less)
    then have "mark_rest m p fno limit
       = (fold (\<lambda>f m. set_state m p f Used) ((fno - ?b) # fs) m,
          p\<lparr>nFreeFrames := nFreeFrames p - (if fno < limit then limit - fno else 0)\<rparr>)"
      using True fs(1) by (auto simp: mark_rest.simps [of m p fno limit] algebra_simps)
    ultimately show ?thesis by blast
  next
    case False
    then have "mark_rest m p fno limit
       = (fold (\<lambda>f m. set_state m p f Used) [] m,
          p\<lparr>nFreeFrames := nFreeFrames p - (if fno < limit then limit - fno else 0)\<rparr>)"
      by (simp add: mark_rest.simps [of m p fno limit])
    moreover have "set [] = (\<lambda>x. x - ?b) ` {x. fno \<le> x \<and> x < limit}" using False by auto
    ultimately show ?thesis by blast
  qed
qed

lemma mark_info_fold:
  "\<exists>fs. mark_info m p start i =
        (fold (\<lambda>f m. set_state m p f (if f = start - base_frame_no p then HoS else Used)) fs m,
         p\<lparr>nFreeFrames := nFreeFrames p - (if i < info_frame_total p then info_frame_total p - i else 0)\<rparr>)
      \<and> set fs = (\<lambda>x. start - base_frame_no p + x) ` {x. i \<le> x \<and> x < info_frame_total p}"
proof (induction m p start i rule: mark_info.induct)
  case (1 m p start i)
  let ?o = "start - base_frame_no p" and ?t = "info_frame_total p"
  let ?g = "\<lambda>f m. set_state m p f (if f = ?o then HoS else Used)"
  let ?m = "set_state m p (?o + i) (if i = 0 then HoS else Used)"
  let ?p = "p\<lparr>nFreeFrames := nFreeFrames p - 1\<rparr>"
  show ?case
  proof (cases "i < ?t")
    case True
    with "1.IH" obtain fs where fs:
      "mark_info ?m ?p start (i + 1) = (fold ?g fs ?m,
          p\<lparr>nFreeFrames := nFreeFrames p - 1 - (if i + 1 < ?t then ?t - (i + 1) else 0)\<rparr>)"
      "set fs = (\<lambda>x. ?o + x) ` {x. i + 1 \<le> x \<and> x < ?t}" by auto
    have "set ((?o + i) # fs) = (\<lambda>x. ?o + x) ` insert i {x. i + 1 \<le> x \<and> x < ?t}"
      using fs(2) by simp
    then have "set ((?o + i) # fs) = (\<lambda>x. ?o + x) ` {x. i \<le> x \<and> x < ?t}"
      by (simp only: range_up_step [OF True])
    moreover have "?o + i = ?o \<longleftrightarrow> i = 0" by simp
    moreover have "i + 1 < ?t \<or> ?t = i + 1"
      using True word_Suc_le [OF True, of ?t] by (metis order_le_less)
    then have "mark_info m p start i = (fold ?g ((?o + i) # fs) m,
          p\<lparr>nFreeFrames := nFreeFrames p - (if i < ?t then ?t - i else 0)\<rparr>)"
      using True fs(1) by (auto simp: mark_info.simps [of m p start i] algebra_simps)
    ultimately show ?thesis by blast
  next
    case False
    then have "mark_info m p start i = (fold ?g [] m,
          p\<lparr>nFreeFrames := nFreeFrames p - (if i < ?t then ?t - i else 0)\<rparr>)"
      by (simp add: mark_info.simps [of m p start i])
    moreover have "set [] = (\<lambda>x. ?o + x) ` {x. i \<le> x \<and> x < ?t}" using False by auto
    ultimately show ?thesis by blast
  qed
qed

lemma fstates_set_state: "fstates (set_state m p f st) p = (fstates m p)[unat f := st]"
proof (rule fstates_eqI)
  fix g assume "g < nframes p"
  then show "get_state (set_state m p f st) p g = (fstates m p)[unat f := st] ! unat g"
    by (auto simp: get_set_state nth_list_update word_less_nat_alt nth_fstates_unat
        word_unat_eq_iff)
qed simp

lemma base_plus [simp]:
  "unat (b :: u32) + j < 2 ^ 32 \<Longrightarrow> unat (b + word_of_nat j) = unat b + j"
  by (simp add: unat_word_ariths)

lemma free_tail_fold:
  assumes "unat (base_frame_no p) + unat (nframes p) < 2 ^ 32" and "j \<le> unat (nframes p)"
    and "k = length (takeWhile (\<lambda>s. s = Used) (drop j (fstates m p)))"
  shows "\<exists>fs. free_tail m p (base_frame_no p + word_of_nat j) =
        (fold (\<lambda>f m. set_state m p f Free) fs m,
         p\<lparr>nFreeFrames := nFreeFrames p + word_of_nat k\<rparr>)
      \<and> set fs = word_of_nat ` {j..<j + k}"
  using assms
proof (induction "unat (nframes p) - j" arbitrary: m p j k)
  case 0
  then have "\<not> base_frame_no p + word_of_nat j < base_frame_no p + nframes p" "k = 0"
    by (auto simp: word_less_nat_alt unat_word_ariths)
  then show ?case
    by (intro exI [of _ "[]"]) (simp add: free_tail.simps [of m p])
next
  case (Suc d)
  let ?b = "base_frame_no p"
  from Suc have j: "j < unat (nframes p)" by simp
  then have lt: "?b + word_of_nat j < ?b + nframes p"
    using Suc.prems(1) by (simp add: word_less_nat_alt unat_word_ariths)
  have st: "fstates m p ! j = get_state m p (word_of_nat j)" using j by simp
  have dr: "drop j (fstates m p) = fstates m p ! j # drop (Suc j) (fstates m p)"
    using j Cons_nth_drop_Suc [of j "fstates m p"] by (simp del: nth_fstates)
  show ?case
  proof (cases "get_state m p (word_of_nat j) = Used")
    case False
    with dr st Suc.prems(3) have "k = 0" by simp
    with False show ?thesis
      by (intro exI [of _ "[]"]) (simp add: free_tail.simps [of m p])
  next
    case True
    let ?m = "set_state m p (word_of_nat j) Free"
    let ?p = "p\<lparr>nFreeFrames := nFreeFrames p + 1\<rparr>"
    let ?k = "length (takeWhile (\<lambda>s. s = Used) (drop (Suc j) (fstates m p)))"
    have k: "k = Suc ?k" using True dr st Suc.prems(3) by simp
    have jl: "j < 4294967296" using j unat_less_32 [of "nframes p"] by simp
    have "drop (Suc j) (fstates ?m ?p) = drop (Suc j) (fstates m p)"
      using jl by (simp add: fstates_set_state)
    then have "\<exists>fs. free_tail ?m ?p (?b + word_of_nat (Suc j)) =
        (fold (\<lambda>f m. set_state m p f Free) fs ?m,
         ?p\<lparr>nFreeFrames := nFreeFrames ?p + word_of_nat ?k\<rparr>)
      \<and> set fs = word_of_nat ` {Suc j..<Suc j + ?k}"
      using Suc.hyps(1) [of ?p "Suc j" ?k ?m] Suc.hyps(2) Suc.prems(1) j by simp
    then obtain fs where fs: "free_tail ?m ?p (?b + word_of_nat j + 1) =
        (fold (\<lambda>f m. set_state m p f Free) fs ?m,
         p\<lparr>nFreeFrames := nFreeFrames p + word_of_nat k\<rparr>)"
      "set fs = word_of_nat ` {Suc j..<Suc j + ?k}"
      by (auto simp: k algebra_simps)
    have "free_tail m p (?b + word_of_nat j) =
        (fold (\<lambda>f m. set_state m p f Free) (word_of_nat j # fs) m,
         p\<lparr>nFreeFrames := nFreeFrames p + word_of_nat k\<rparr>)"
      using True lt fs(1) by (simp add: free_tail.simps [of m p])
    moreover have "{j..<j + k} = insert j {Suc j..<Suc j + ?k}" by (auto simp: k)
    then have "set (word_of_nat j # fs) = word_of_nat ` {j..<j + k}"
      by (simp only: fs(2) image_insert list.set)
    ultimately show ?thesis by blast
  qed
qed

section \<open>The search of \<open>get_frames\<close>\<close>

lemma not_Free: "s \<noteq> Free \<longleftrightarrow> s = Used \<or> s = HoS"
  by (cases s) auto

lemma skip_stop: "get_state m p f = Free \<Longrightarrow> skip_allocated m p f c = Some (f, c)"
  by (simp add: skip_allocated.simps)

lemma skip_step: "get_state m p f \<noteq> Free \<Longrightarrow> skip_allocated m p f c = skip_allocated m p (f + 1) 0"
  by (simp add: skip_allocated.simps [of m p f c] not_Free)

text \<open>Given a free frame \<open>g\<close> ahead, the inner loop stops at the first one.\<close>

lemma skip_allocated_to:
  assumes "j \<le> g" and "get_state m p (word_of_nat g) = Free"
    and "\<forall>k. j \<le> k \<and> k < g \<longrightarrow> get_state m p (word_of_nat k) \<noteq> Free"
  shows "skip_allocated m p (word_of_nat j) c = Some (word_of_nat g, if j = g then c else 0)"
  using assms
proof (induction "g - j" arbitrary: j c)
  case 0
  then show ?case by (simp add: skip_stop)
next
  case (Suc d)
  then have lt: "j < g" and nf: "get_state m p (word_of_nat j) \<noteq> Free" by auto
  have "skip_allocated m p (word_of_nat (Suc j)) 0 = Some (word_of_nat g, 0)"
    using Suc.hyps(1) [of "Suc j" 0] Suc.hyps(2) Suc.prems lt by auto
  then show ?case using lt nf by (simp add: skip_step algebra_simps)
qed

lemma first_Free:
  assumes "get_state m p (word_of_nat g) = Free" and "j \<le> g"
  obtains g' where "j \<le> g'" "g' \<le> g" "get_state m p (word_of_nat g') = Free"
    "\<forall>k. j \<le> k \<and> k < g' \<longrightarrow> get_state m p (word_of_nat k) \<noteq> Free"
proof -
  let ?P = "\<lambda>k. j \<le> k \<and> get_state m p (word_of_nat k) = Free"
  have P: "?P g" using assms by simp
  show ?thesis
  proof (rule that [of "LEAST k. ?P k"])
    show "j \<le> (LEAST k. ?P k)" "get_state m p (word_of_nat (LEAST k. ?P k)) = Free"
      using LeastI [of ?P, OF P] by auto
    show "(LEAST k. ?P k) \<le> g" using P by (rule Least_le)
    show "\<forall>k. j \<le> k \<and> k < (LEAST k. ?P k) \<longrightarrow> get_state m p (word_of_nat k) \<noteq> Free"
      using not_less_Least [of _ ?P] by blast
  qed
qed

text \<open>One round of the outer loop, once the inner loop has found the free frame \<open>g\<close>.\<close>

lemma search_round:
  assumes "f < unat (nframes p)" and "f \<le> g" and "get_state m p (word_of_nat g) = Free"
    and "\<forall>k. f \<le> k \<and> k < g \<longrightarrow> get_state m p (word_of_nat k) \<noteq> Free"
  shows "search_frames m p n (word_of_nat f) c =
    (let c' = (if f = g then c else 0) + 1
     in if c' = n then Some (word_of_nat (Suc g), c')
        else search_frames m p n (word_of_nat (Suc g)) c')"
proof -
  have "f < 4294967296"
    using assms(1) unat_less_32 [of "nframes p"] by simp
  then have "(word_of_nat f :: u32) < nframes p"
    using assms(1) by (simp add: of_nat_less_32)
  then show ?thesis
    using skip_allocated_to [OF assms(2-4), of c] assms(3)
    by (subst search_frames.simps) (auto simp: Let_def algebra_simps)
qed

lemma free_run_states:
  "free_run (fstates m p) i n \<longleftrightarrow>
     i + n \<le> unat (nframes p) \<and> (\<forall>k. i \<le> k \<and> k < i + n \<longrightarrow> get_state m p (word_of_nat k) = Free)"
proof -
  have "(\<forall>j<n. fstates m p ! (i + j) = Free)
      \<longleftrightarrow> (\<forall>k. i \<le> k \<and> k < i + n \<longrightarrow> get_state m p (word_of_nat k) = Free)"
    if b: "i + n \<le> unat (nframes p)"
  proof
    assume L: "\<forall>j<n. fstates m p ! (i + j) = Free"
    show "\<forall>k. i \<le> k \<and> k < i + n \<longrightarrow> get_state m p (word_of_nat k) = Free"
    proof (intro allI impI)
      fix k assume k: "i \<le> k \<and> k < i + n"
      then have "k - i < n" by linarith
      with L have "fstates m p ! (i + (k - i)) = Free" by blast
      with k b show "get_state m p (word_of_nat k) = Free" by simp
    qed
  next
    assume "\<forall>k. i \<le> k \<and> k < i + n \<longrightarrow> get_state m p (word_of_nat k) = Free"
    then show "\<forall>j<n. fstates m p ! (i + j) = Free"
      using b by (auto simp del: of_nat_add)
  qed
  then show ?thesis by (auto simp: free_run_def)
qed

lemma search_finds:
  assumes run: "free_run (fstates m p) i n" and least: "\<forall>j<i. \<not> free_run (fstates m p) j n"
    and "c < n" "c \<le> f" "f - c \<le> i" "f < i + n"
    and free: "\<forall>k. f - c \<le> k \<and> k < f \<longrightarrow> get_state m p (word_of_nat k) = Free"
  shows "search_frames m p (word_of_nat n) (word_of_nat f) (word_of_nat c)
       = Some (word_of_nat (i + n), word_of_nat n)"
  using assms(3-)
proof (induction "i + n - f" arbitrary: f c rule: less_induct)
  case less
  have N: "i + n \<le> unat (nframes p)" using run by (simp add: free_run_def)
  then have nb: "n < 4294967296" using unat_less_32 [of "nframes p"] by simp
  have inrun: "get_state m p (word_of_nat k) = Free" if "i \<le> k" "k < i + n" for k
    using run that by (simp add: free_run_states)
  have "get_state m p (word_of_nat (max f i)) = Free"
    using inrun [of "max f i"] less.prems by auto
  then obtain g where g: "f \<le> g" "g \<le> max f i" "get_state m p (word_of_nat g) = Free"
    "\<forall>k. f \<le> k \<and> k < g \<longrightarrow> get_state m p (word_of_nat k) \<noteq> Free"
    using first_Free [of m p "max f i" f] by (metis max.cobounded1)
  let ?c = "Suc (if f = g then c else 0)"
  have gi: "g < i + n" using g(2) less.prems by auto
  have gc: "Suc g - ?c \<le> i" "?c \<le> n" "?c \<le> Suc g" using g(1,2) less.prems by auto
  have fr: "\<forall>k. Suc g - ?c \<le> k \<and> k < Suc g \<longrightarrow> get_state m p (word_of_nat k) = Free"
    using g(3) less.prems by (auto simp: less_Suc_eq)
  have step: "search_frames m p (word_of_nat n) (word_of_nat f) (word_of_nat c) =
      (if ?c = n then Some (word_of_nat (Suc g), word_of_nat n)
       else search_frames m p (word_of_nat n) (word_of_nat (Suc g)) (word_of_nat ?c))"
  proof -
    have "(word_of_nat ?c = (word_of_nat n :: u32)) \<longleftrightarrow> ?c = n"
      using nb gc by (intro of_nat_eq_32) auto
    moreover have "(if f = g then word_of_nat c else 0) + 1 = (word_of_nat ?c :: u32)"
      by simp
    ultimately show ?thesis
      using search_round [of f p g m "word_of_nat n" "word_of_nat c"] g less.prems N
      by (simp only: Let_def) auto
  qed
  show ?case
  proof (cases "?c = n")
    case True
    have "free_run (fstates m p) (Suc g - n) n"
      using fr gi N gc True by (auto simp: free_run_states)
    then have "\<not> Suc g - n < i" using least by blast
    then have "Suc g = i + n" using gc True gi by auto
    then show ?thesis using step True by simp
  next
    case False
    have "Suc g < i + n" using gc gi False by linarith
    moreover have "i + n - Suc g < i + n - f" using g gi by auto
    ultimately show ?thesis
      using less.hyps [of "Suc g" ?c] gc fr False step by auto
  qed
qed

text \<open>
  When the pool has no run of \<open>n\<close> free frames, the search still has to stop somewhere: at the
  end of the pool if its last frame is free, or at some free pattern in the memory behind the
  bitmap.  Then the count is not \<open>n\<close> and \<open>get_frames\<close> returns 0.
\<close>

lemma search_fails:
  assumes none: "\<forall>j. \<not> free_run (fstates m p) j n" and two: "2 \<le> n" and n: "n < 2 ^ 32"
    and fence: "unat (nframes p) \<le> g0 + 1" "g0 + 1 < 2 ^ 32" "get_state m p (word_of_nat g0) = Free"
    and "c < n" "c \<le> f" "f \<le> Suc g0" "f < unat (nframes p) \<longrightarrow> f \<le> g0"
    and "f > unat (nframes p) \<longrightarrow> c < 2"
    and free: "f \<le> unat (nframes p) \<longrightarrow>
      (\<forall>k. f - c \<le> k \<and> k < f \<longrightarrow> get_state m p (word_of_nat k) = Free)"
  shows "\<exists>f' c'. search_frames m p (word_of_nat n) (word_of_nat f) (word_of_nat c)
       = Some (f', c') \<and> c' \<noteq> word_of_nat n"
  using assms(7-)
proof (induction "Suc g0 - f" arbitrary: f c rule: less_induct)
  case less
  have ne: "(word_of_nat k :: u32) \<noteq> word_of_nat n" if "k < n" for k
    using that n by (subst of_nat_eq_32) auto
  show ?case
  proof (cases "f < unat (nframes p)")
    case False
    have "f < 4294967296" using less.prems(3) fence(2) by simp
    then have "search_frames m p (word_of_nat n) (word_of_nat f) (word_of_nat c)
        = Some (word_of_nat f, word_of_nat c)"
      using False by (subst search_frames.simps) (simp add: of_nat_less_32)
    then show ?thesis using ne less.prems(1) by blast
  next
    case True
    then obtain g where g: "f \<le> g" "g \<le> g0" "get_state m p (word_of_nat g) = Free"
      "\<forall>k. f \<le> k \<and> k < g \<longrightarrow> get_state m p (word_of_nat k) \<noteq> Free"
      using first_Free [of m p g0 f] less.prems(4) fence(3) by metis
    let ?c = "Suc (if f = g then c else 0)"
    have fr: "\<forall>k. Suc g - ?c \<le> k \<and> k < Suc g \<longrightarrow> get_state m p (word_of_nat k) = Free"
      using g(3) less.prems(2,6) True by (auto simp: less_Suc_eq)
    have cn: "?c < n"
    proof (cases "f = g")
      case True
      have "\<not> free_run (fstates m p) (Suc g - Suc c) (Suc c)" if "Suc c = n"
        using none that by blast
      then have "Suc c \<noteq> n"
        using fr True \<open>f < unat (nframes p)\<close> less.prems(2) by (auto simp: free_run_states)
      then show ?thesis using less.prems(1) True by simp
    qed (use two in simp)
    have "(if f = g then word_of_nat c else 0) + 1 = (word_of_nat ?c :: u32)" by simp
    then have step: "search_frames m p (word_of_nat n) (word_of_nat f) (word_of_nat c)
        = search_frames m p (word_of_nat n) (word_of_nat (Suc g)) (word_of_nat ?c)"
      using search_round [of f p g m "word_of_nat n" "word_of_nat c"] g True ne [OF cn]
      by (simp only: Let_def) auto
    have "\<exists>f' c'. search_frames m p (word_of_nat n) (word_of_nat (Suc g)) (word_of_nat ?c)
       = Some (f', c') \<and> c' \<noteq> word_of_nat n"
    proof (rule less.hyps)
      show "Suc g0 - Suc g < Suc g0 - f" using g by auto
      show "Suc g < unat (nframes p) \<longrightarrow> Suc g \<le> g0" using fence(1) by auto
      show "unat (nframes p) < Suc g \<longrightarrow> ?c < 2" using True by auto
    qed (use cn g less.prems(2) fr in auto)
    then show ?thesis using step by simp
  qed
qed

text \<open>
  With no such pattern anywhere behind the bitmap the search never returns: the inner loop
  runs through all of the address space, wraps, and starts again.
\<close>

lemma skip_allocated_result:
  assumes "skip_allocated m p f c = Some r"
  shows "get_state m p (fst r) = Free \<and> (r = (f, c) \<or> snd r = 0)"
proof (rule skip_allocated.raw_induct
    [where P = "\<lambda>m p f c r. get_state m p (fst r) = Free \<and> (r = (f, c) \<or> snd r = 0)", OF _ assms])
  fix rec m p f c r
  assume IH: "\<And>m p f c r. rec m p f c = Some r \<Longrightarrow>
      get_state m p (fst r) = Free \<and> (r = (f, c) \<or> snd r = 0)"
    and eq: "(if get_state m p f = Used \<or> get_state m p f = HoS then rec m p (f + 1) 0
       else Some (f, c)) = Some r"
  show "get_state m p (fst r) = Free \<and> (r = (f, c) \<or> snd r = 0)"
  proof (cases "get_state m p f = Free")
    case True
    with eq show ?thesis by auto
  next
    case False
    with eq have "rec m p (f + 1) 0 = Some r" by (simp add: not_Free)
    from IH [OF this] show ?thesis by auto
  qed
qed

definition never_found :: "memory \<Rightarrow> cont_frame_pool \<Rightarrow> u32 \<Rightarrow> bool" where
  "never_found m p n \<longleftrightarrow>
     (\<forall>j. \<not> free_run (fstates m p) j (unat n)) \<and> 0 < nframes p \<and>
     (\<forall>g. nframes p - 1 \<le> g \<longrightarrow> get_state m p g \<noteq> Free)"

definition counting :: "memory \<Rightarrow> cont_frame_pool \<Rightarrow> u32 \<Rightarrow> u32 \<Rightarrow> u32 \<Rightarrow> bool" where
  "counting m p n f c \<longleftrightarrow> f < nframes p \<and> c \<le> f \<and> c < n \<and>
     (\<forall>k. unat f - unat c \<le> k \<and> k < unat f \<longrightarrow> get_state m p (word_of_nat k) = Free)"

lemma counting_step:
  assumes nf: "never_found m p n" and cnt: "counting m p n f c"
    and skip: "skip_allocated m p f c = Some (g, d)"
  shows "d + 1 \<noteq> n \<and> counting m p n (g + 1) (d + 1)"
proof -
  have gF: "get_state m p g = Free" and gd: "(g, d) = (f, c) \<or> d = 0"
    using skip_allocated_result [OF skip] by auto
  from nf gF have "g < nframes p - 1" by (auto simp: never_found_def not_le)
  then have gl: "Suc (unat g) < unat (nframes p)"
    using nf by (auto simp: never_found_def word_less_nat_alt unat_sub_if_size split: if_splits)
  then have u: "unat (g + 1) = Suc (unat g)" "g + 1 < nframes p"
    by (simp_all add: unat_Suc_32 [of g "nframes p"] word_less_nat_alt)
  have dn: "d < n" "d \<le> g" using gd cnt by (auto simp: counting_def word_less_nat_alt word_le_nat_alt)
  then have ud: "unat (d + 1) = Suc (unat d)" by (simp add: unat_Suc_32)
  have all: "\<forall>k. unat g - unat d \<le> k \<and> k < Suc (unat g) \<longrightarrow> get_state m p (word_of_nat k) = Free"
    using gd cnt gF by (auto simp: counting_def less_Suc_eq)
  have ne: "d + 1 \<noteq> n"
  proof
    assume "d + 1 = n"
    then have "free_run (fstates m p) (unat g - unat d) (unat n)"
      using all gl dn(2) ud by (auto simp: free_run_states word_le_nat_alt)
    then show False using nf by (auto simp: never_found_def)
  qed
  moreover have "d + 1 < n" using ne dn(1) word_Suc_le [OF dn(1), of n] by (simp add: order_le_less)
  ultimately show ?thesis
    using u ud all dn(2) by (auto simp: counting_def word_le_nat_alt)
qed

lemma search_never_returns:
  assumes "never_found m p n" and "counting m p n f c"
  shows "search_frames m p n f c = None"
proof (rule ccontr)
  assume "search_frames m p n f c \<noteq> None"
  then obtain r where ret: "search_frames m p n f c = Some r" by blast
  have "never_found m p n \<longrightarrow> counting m p n f c \<longrightarrow> False"
  proof (rule search_frames.raw_induct
      [where P = "\<lambda>m p n f c r. never_found m p n \<longrightarrow> counting m p n f c \<longrightarrow> False", OF _ ret])
    fix rec m p n f c r
    assume IH: "\<And>m p n f c r. rec m p n f c = Some r \<Longrightarrow>
        never_found m p n \<longrightarrow> counting m p n f c \<longrightarrow> False"
      and eq: "(if f < nframes p then
          Option.bind (skip_allocated m p f c)
            (\<lambda>(f, c). if get_state m p f = Free
               then if c + 1 = n then Some (f + 1, c + 1) else rec m p n (f + 1) (c + 1)
               else if c = n then Some (f, c) else rec m p n f c)
         else Some (f, c)) = Some r"
    show "never_found m p n \<longrightarrow> counting m p n f c \<longrightarrow> False"
    proof (intro impI)
      assume nf: "never_found m p n" and cnt: "counting m p n f c"
      then have "f < nframes p" by (simp add: counting_def)
      with eq obtain g d where sk: "skip_allocated m p f c = Some (g, d)"
        by (auto simp: bind_eq_Some_conv)
      from skip_allocated_result [OF sk] counting_step [OF nf cnt sk] eq sk \<open>f < nframes p\<close>
      have "rec m p n (g + 1) (d + 1) = Some r" by simp
      from IH [OF this] nf counting_step [OF nf cnt sk] show False by blast
    qed
  qed
  with assms show False by blast
qed

end
