(* ===== verification/Frame_Pool_Contract.thy ===== *)
theory Frame_Pool_Contract
  imports Frame_Pool_Search
begin

text \<open>
  The operations of one pool against the contract of \<open>Frame_Sections\<close>: each is shown to do
  to the pool's frame states what the abstract operation does, to keep the free counter equal
  to the number of free frames, and to leave memory outside the bitmap alone.
\<close>

section \<open>The operations against the contract\<close>

lemma pool_okD:
  assumes "pool_ok m p"
  shows "unat (base_frame_no p) + unat (nframes p) < 4294967296"
    and "unat (nFreeFrames p) = count_free (fstates m p)"
    and "well_sectioned (fstates m p)"
  using assms by (simp_all add: pool_ok_def)

text \<open>\<open>get_frames\<close> takes the first run of \<open>n\<close> free frames.\<close>

lemma pool_get_frames_alloc:
  assumes ok: "pool_ok m p" and n: "0 < n"
    and run: "free_run (fstates m p) i (unat n)"
    and least: "\<forall>j<i. \<not> free_run (fstates m p) j (unat n)"
  shows "\<exists>m'. pool_get_frames m p n
        = Inr (base_frame_no p + word_of_nat i, m', p\<lparr>nFreeFrames := nFreeFrames p - n\<rparr>)
      \<and> fstates m' p = take_run i (unat n) (fstates m p)
      \<and> (\<forall>a. a \<notin> bitmap_bytes p \<longrightarrow> m' a = m a)
      \<and> pool_ok m' (p\<lparr>nFreeFrames := nFreeFrames p - n\<rparr>)"
proof -
  let ?xs = "fstates m p"
  have n0: "0 < unat n" using n by (simp add: word_less_nat_alt)
  have iN: "i + unat n \<le> unat (nframes p)" using run by (simp add: free_run_def)
  have i32: "i + unat n < 4294967296" using iN unat_less_32 [of "nframes p"] by linarith
  have cf: "count_free (take_run i (unat n) ?xs) + unat n = count_free ?xs"
    using count_free_take_run [OF run n0] .
  then have nle: "n \<le> nFreeFrames p"
    using pool_okD(2) [OF ok] by (simp add: word_le_nat_alt)
  have search: "search_frames m p n 0 0 = Some (word_of_nat (i + unat n), n)"
    using search_finds [OF run least, of 0 0] n0 by simp
  have sub: "word_of_nat (i + unat n) - n = (word_of_nat i :: u32)" by simp
  obtain fs where fs: "mark_used_down m p (word_of_nat (i + unat n) - 1) (word_of_nat i)
      = fold (\<lambda>f m. set_state m p f Used) fs m"
    "set fs = {g. word_of_nat i < g \<and> g \<le> word_of_nat (i + unat n) - 1}"
    using mark_used_down_fold by blast
  have "(word_of_nat i :: u32) < word_of_nat (i + unat n)"
    using i32 n0 by (simp add: of_nat_less_32 del: of_nat_add)
  from word_le_pred [OF this] have fs2: "set fs = {g. i < unat g \<and> unat g < i + unat n}"
    using fs(2) i32 by (auto simp: word_less_nat_alt simp del: of_nat_add)
  let ?m = "set_state (fold (\<lambda>f m. set_state m p f Used) fs m) p (word_of_nat i) HoS"
  have i_lt: "(word_of_nat i :: u32) < nframes p"
    using iN n0 i32 by (simp add: of_nat_less_32)
  have st: "fstates ?m p = take_run i (unat n) ?xs"
  proof (rule fstates_eqI)
    fix g assume g: "g < nframes p"
    then have "unat g < unat (nframes p)" by (simp add: word_less_nat_alt)
    then show "get_state ?m p g = take_run i (unat n) ?xs ! unat g"
      using g iN n0 i32 fs2
      by (auto simp: get_set_state bits.rd_fold nth_take_run nth_fstates_unat word_unat_eq_iff)
  qed (use iN n0 in simp)
  have out: "\<forall>a. a \<notin> bitmap_bytes p \<longrightarrow> ?m a = m a"
  proof (intro allI impI)
    fix a assume a: "a \<notin> bitmap_bytes p"
    have "\<forall>f\<in>set fs. f < nframes p" using fs2 iN by (auto simp: word_less_nat_alt)
    then show "?m a = m a" using a i_lt by (simp add: set_state_outside fold_outside)
  qed
  have "unat (nFreeFrames p - n) = unat (nFreeFrames p) - unat n"
    using nle by (simp add: unat_sub)
  then have ok': "pool_ok ?m (p\<lparr>nFreeFrames := nFreeFrames p - n\<rparr>)"
    using ok cf st well_sectioned_take_run [OF pool_okD(3) [OF ok] run n0]
    by (simp add: pool_ok_def)
  have "pool_get_frames m p n
      = Inr (base_frame_no p + word_of_nat i, ?m, p\<lparr>nFreeFrames := nFreeFrames p - n\<rparr>)"
    using nle search fs(1) sub by (simp add: pool_get_frames_def Let_def algebra_simps)
  with st out ok' show ?thesis by blast
qed

text \<open>It returns 0, and changes nothing, when there is no such run and the search is fenced.\<close>

lemma pool_get_frames_none:
  assumes "n \<le> nFreeFrames p" and "2 \<le> unat n"
    and "\<forall>j. \<not> free_run (fstates m p) j (unat n)"
    and g: "unat (nframes p) \<le> unat g + 1" "unat g + 1 < 2 ^ 32" "get_state m p g = Free"
  shows "pool_get_frames m p n = Inr (0, m, p)"
proof -
  have "\<exists>f' c'. search_frames m p (word_of_nat (unat n)) (word_of_nat 0) (word_of_nat 0)
       = Some (f', c') \<and> c' \<noteq> word_of_nat (unat n)"
    using assms unat_less_32 [of n] by (intro search_fails [where ?g0.0 = "unat g"]) auto
  then show ?thesis using assms(1) by (auto simp: pool_get_frames_def)
qed

lemma pool_get_frames_hangs:
  assumes "n \<le> nFreeFrames p" and "0 < n" and "never_found m p n"
  shows "pool_get_frames m p n = Inl Hang"
proof -
  have "counting m p n 0 0" using assms by (auto simp: counting_def never_found_def)
  then show ?thesis using assms search_never_returns by (simp add: pool_get_frames_def)
qed

lemma pool_get_frames_exhausted:
  assumes "nFreeFrames p < n"
  shows "pool_get_frames m p n = Inl Assertion"
proof -
  from assms have "\<not> n \<le> nFreeFrames p" by simp
  then show ?thesis by (simp add: pool_get_frames_def)
qed

text \<open>\<open>release_frames\<close> gives back the section headed by the frame, and only a head.\<close>

lemma pool_release_section:
  assumes ok: "pool_ok m p" and i: "i < unat (nframes p)" and head: "fstates m p ! i = HoS"
  shows "\<exists>m' p'. pool_release m p (base_frame_no p + word_of_nat i) = Inr (m', p')
      \<and> p' = p\<lparr>nFreeFrames := nFreeFrames p + word_of_nat (section_len i (fstates m p))\<rparr>
      \<and> fstates m' p = release_run i (fstates m p)
      \<and> (\<forall>a. a \<notin> bitmap_bytes p \<longrightarrow> m' a = m a) \<and> pool_ok m' p'"
proof -
  let ?xs = "fstates m p" and ?b = "base_frame_no p"
  let ?m = "set_state m p (word_of_nat i) Free"
  let ?p = "p\<lparr>nFreeFrames := nFreeFrames p + 1\<rparr>"
  let ?k = "length (takeWhile (\<lambda>s. s = Used) (drop (Suc i) ?xs))"
  let ?p' = "p\<lparr>nFreeFrames := nFreeFrames p + word_of_nat (section_len i ?xs)\<rparr>"
  have i32: "i < 4294967296" using i unat_less_32 [of "nframes p"] by linarith
  have il: "i < length ?xs" using i by simp
  have k: "section_len i ?xs = Suc ?k" by (simp add: section_len_def)
  have b: "Suc i + ?k \<le> unat (nframes p)" using section_bound [OF il] k by simp
  have "\<exists>fs. free_tail ?m ?p (?b + word_of_nat (Suc i)) =
        (fold (\<lambda>f m. set_state m ?p f Free) fs ?m,
         ?p\<lparr>nFreeFrames := nFreeFrames ?p + word_of_nat ?k\<rparr>)
      \<and> set fs = word_of_nat ` {Suc i..<Suc i + ?k}"
    using free_tail_fold [of ?p "Suc i" ?k ?m] pool_okD(1) [OF ok] i i32
    by (simp add: fstates_set_state)
  then obtain fs where fs: "free_tail ?m ?p (?b + word_of_nat i + 1) =
        (fold (\<lambda>f m. set_state m p f Free) fs ?m, ?p')"
      "set fs = word_of_nat ` {Suc i..<Suc i + ?k}"
    by (auto simp: k algebra_simps)
  let ?m' = "fold (\<lambda>f m. set_state m p f Free) fs ?m"
  have mem_fs: "g \<in> set fs \<longleftrightarrow> Suc i \<le> unat g \<and> unat g < Suc i + ?k" for g
  proof
    assume "g \<in> set fs"
    then show "Suc i \<le> unat g \<and> unat g < Suc i + ?k"
      using fs(2) b unat_less_32 [of "nframes p"] by auto
  next
    assume "Suc i \<le> unat g \<and> unat g < Suc i + ?k"
    then show "g \<in> set fs" unfolding fs(2) by (intro image_eqI [of _ _ "unat g"]) auto
  qed
  have st: "fstates ?m' p = release_run i ?xs"
  proof (rule fstates_eqI)
    fix g assume g: "g < nframes p"
    then have "unat g < unat (nframes p)" by (simp add: word_less_nat_alt)
    then show "get_state ?m' p g = release_run i ?xs ! unat g"
      using g i i32 il k
      by (auto simp: get_set_state bits.rd_fold mem_fs nth_release_run nth_fstates_unat
          word_unat_eq_iff)
  qed (use il in simp)
  have out: "\<forall>a. a \<notin> bitmap_bytes p \<longrightarrow> ?m' a = m a"
  proof (intro allI impI)
    fix a assume a: "a \<notin> bitmap_bytes p"
    have "\<forall>f\<in>set fs. f < nframes p" using mem_fs b by (auto simp: word_less_nat_alt)
    moreover have "(word_of_nat i :: u32) < nframes p" using i i32 by (simp add: of_nat_less_32)
    ultimately show "?m' a = m a" using a by (simp add: set_state_outside fold_outside)
  qed
  have cnt: "count_free (release_run i ?xs) = count_free ?xs + section_len i ?xs"
    using section_count [OF il head] .
  moreover have "count_free (release_run i ?xs) \<le> unat (nframes p)"
    using count_le_length [of "release_run i ?xs" Free] il by simp
  ultimately have "unat (nFreeFrames p + word_of_nat (section_len i ?xs))
      = count_free (release_run i ?xs)"
    using pool_okD(2) [OF ok] unat_less_32 [of "nframes p"] by simp
  then have ok': "pool_ok ?m' ?p'"
    using ok st well_sectioned_release_run [OF pool_okD(3) [OF ok] il] by (simp add: pool_ok_def)
  have "pool_release m p (?b + word_of_nat i) = Inr (?m', ?p')"
    using fs(1) head i by (simp add: pool_release_def)
  with st out ok' show ?thesis by blast
qed

lemma pool_release_not_head:
  assumes "i < unat (nframes p)" and "fstates m p ! i \<noteq> HoS"
  shows "pool_release m p (base_frame_no p + word_of_nat i) = Inl Assertion"
  using assms by (simp add: pool_release_def)

text \<open>\<open>mark_inaccessible\<close> on a range of free frames makes it one section.\<close>

lemma pool_mark_inaccessible_free:
  assumes ok: "pool_ok m p" and n: "0 < n" and run: "free_run (fstates m p) i (unat n)"
  shows "\<exists>m' p'. pool_mark_inaccessible m p (base_frame_no p + word_of_nat i) n = (m', p')
      \<and> p' = p\<lparr>nFreeFrames := nFreeFrames p - n\<rparr>
      \<and> fstates m' p = take_run i (unat n) (fstates m p)
      \<and> (\<forall>a. a \<notin> bitmap_bytes p \<longrightarrow> m' a = m a) \<and> pool_ok m' p'"
proof -
  let ?xs = "fstates m p" and ?b = "base_frame_no p"
  let ?m = "set_state m p (word_of_nat i) HoS"
  let ?p = "p\<lparr>nFreeFrames := nFreeFrames p - 1\<rparr>"
  let ?p' = "p\<lparr>nFreeFrames := nFreeFrames p - n\<rparr>"
  have n0: "0 < unat n" using n by (simp add: word_less_nat_alt)
  have iN: "i + unat n \<le> unat (nframes p)" using run by (simp add: free_run_def)
  have i32: "i + unat n < 4294967296" using iN unat_less_32 [of "nframes p"] by linarith
  have bb: "unat ?b + unat (nframes p) < 4294967296" using pool_okD(1) [OF ok] .
  have ub: "unat (?b + word_of_nat i) = unat ?b + i" using bb iN by simp
  then have ub1: "unat (?b + word_of_nat i + 1) = Suc (unat ?b + i)"
    using bb iN n0 by (simp add: unat_word_ariths)
  have ubn: "unat (?b + word_of_nat i + n) = unat ?b + i + unat n"
    using ub bb iN by (simp add: unat_word_ariths)
  obtain fs where fs: "mark_rest ?m ?p (?b + word_of_nat i + 1) (?b + word_of_nat i + n) =
        (fold (\<lambda>f m. set_state m p f Used) fs ?m,
         p\<lparr>nFreeFrames := nFreeFrames p - 1 - (if ?b + word_of_nat i + 1 < ?b + word_of_nat i + n
             then ?b + word_of_nat i + n - (?b + word_of_nat i + 1) else 0)\<rparr>)"
      "set fs = (\<lambda>x. x - ?b) ` {x. ?b + word_of_nat i + 1 \<le> x \<and> x < ?b + word_of_nat i + n}"
    using mark_rest_fold [of ?m ?p "?b + word_of_nat i + 1" "?b + word_of_nat i + n"] by auto
  have "?b + word_of_nat i + 1 < ?b + word_of_nat i + n \<longleftrightarrow> 1 < unat n"
    using ub1 ubn by (auto simp: word_less_nat_alt)
  moreover have "n = 1" if "\<not> 1 < unat n" using that n0 by (simp add: word_unat_eq_iff)
  ultimately have p': "mark_rest ?m ?p (?b + word_of_nat i + 1) (?b + word_of_nat i + n) =
        (fold (\<lambda>f m. set_state m p f Used) fs ?m, ?p')"
    using fs(1) by (auto simp: algebra_simps)
  have mem_fs: "g \<in> set fs \<longleftrightarrow> i < unat g \<and> unat g < i + unat n" if "g < nframes p" for g
  proof -
    have "unat (?b + g) = unat ?b + unat g"
      using that bb by (simp add: unat_word_ariths word_less_nat_alt)
    moreover have "g \<in> set fs \<longleftrightarrow> ?b + word_of_nat i + 1 \<le> ?b + g \<and> ?b + g < ?b + word_of_nat i + n"
      unfolding fs(2) by (auto intro: image_eqI [of _ _ "?b + g"])
    ultimately show ?thesis
      using ub1 ubn by (auto simp: word_le_nat_alt word_less_nat_alt)
  qed
  have sub: "\<forall>f\<in>set fs. f < nframes p"
  proof
    fix f assume "f \<in> set fs"
    then obtain x where x: "f = x - ?b" "?b + word_of_nat i + 1 \<le> x" "x < ?b + word_of_nat i + n"
      using fs(2) by auto
    then show "f < nframes p"
      using ub1 ubn iN by (auto simp: word_le_nat_alt word_less_nat_alt unat_sub_if_size)
  qed
  have i_lt: "(word_of_nat i :: u32) < nframes p"
    using iN n0 i32 by (simp add: of_nat_less_32)
  let ?m' = "fold (\<lambda>f m. set_state m p f Used) fs ?m"
  have st: "fstates ?m' p = take_run i (unat n) ?xs"
  proof (rule fstates_eqI)
    fix g assume g: "g < nframes p"
    then have "unat g < unat (nframes p)" by (simp add: word_less_nat_alt)
    then show "get_state ?m' p g = take_run i (unat n) ?xs ! unat g"
      using g iN n0 i32
      by (auto simp: get_set_state bits.rd_fold mem_fs nth_take_run nth_fstates_unat
          word_unat_eq_iff)
  qed (use iN n0 in simp)
  have out: "\<forall>a. a \<notin> bitmap_bytes p \<longrightarrow> ?m' a = m a"
    using sub i_lt by (simp add: set_state_outside fold_outside)
  have cf: "count_free (take_run i (unat n) ?xs) + unat n = count_free ?xs"
    using count_free_take_run [OF run n0] .
  then have "n \<le> nFreeFrames p" using pool_okD(2) [OF ok] by (simp add: word_le_nat_alt)
  then have ok': "pool_ok ?m' ?p'"
    using ok cf st well_sectioned_take_run [OF pool_okD(3) [OF ok] run n0]
    by (simp add: pool_ok_def unat_sub)
  have "pool_mark_inaccessible m p (?b + word_of_nat i) n = (?m', ?p')"
    using p' by (simp add: pool_mark_inaccessible_def algebra_simps)
  with st out ok' show ?thesis by blast
qed

text \<open>The constructor.\<close>

lemma unat_needed_info_frames:
  assumes "unat n + 16383 < 2 ^ 32"
  shows "unat (needed_info_frames n) = (unat n + 16383) div 16384"
  using assms by (simp add: needed_info_frames_def unat_div unat_word_ariths unat_sub_if_size)

definition fresh_pool :: "nat option \<Rightarrow> u32 \<Rightarrow> u32 \<Rightarrow> u32 \<Rightarrow> cont_frame_pool" where
  "fresh_pool next0 base n info =
     \<lparr> bitmap = (if info = 0 then base * FRAME_SIZE else info * FRAME_SIZE),
       nFreeFrames = n, base_frame_no = base, nframes = n, info_frame_no = info,
       info_frame_total = needed_info_frames n, next_fp = next0 \<rparr>"

lemma fresh_pool_simps [simp]:
  "nFreeFrames (fresh_pool nx b n i) = n" "base_frame_no (fresh_pool nx b n i) = b"
  "nframes (fresh_pool nx b n i) = n" "next_fp (fresh_pool nx b n i) = nx"
  "info_frame_no (fresh_pool nx b n i) = i"
  "info_frame_total (fresh_pool nx b n i) = needed_info_frames n"
  "bitmap (fresh_pool nx b n i) = (if i = 0 then b * FRAME_SIZE else i * FRAME_SIZE)"
  by (simp_all add: fresh_pool_def)

lemma all_free:
  assumes "p = fresh_pool nx b n i"
  shows "fstates (set_all_free m p 0 n) p = replicate (unat n) Free"
    and "a \<notin> bitmap_bytes p \<Longrightarrow> set_all_free m p 0 n a = m a"
proof -
  obtain fs where fs: "set_all_free m p 0 n = fold (\<lambda>f m. set_state m p f Free) fs m"
      "set fs = {g. 0 \<le> g \<and> g < n}"
    using set_all_free_fold by blast
  show "fstates (set_all_free m p 0 n) p = replicate (unat n) Free"
    using fs assms by (intro fstates_eqI) (auto simp: bits.rd_fold word_less_nat_alt)
  show "a \<notin> bitmap_bytes p \<Longrightarrow> set_all_free m p 0 n a = m a"
    using fs assms by (simp add: fold_outside)
qed

lemma well_sectioned_free [simp]: "well_sectioned (replicate n Free)"
  by (simp add: well_sectioned_def)

lemma pool_construct_marked:
  assumes n: "0 < n" "unat n + 16383 < 2 ^ 32" and base: "unat base + unat n < 2 ^ 32"
    and start: "(if info \<noteq> 0 then info else base) = base + word_of_nat k"
    and fits: "k + unat (needed_info_frames n) \<le> unat n"
  shows "\<exists>m'. pool_construct m nx base n info
        = (m', (fresh_pool nx base n info)\<lparr>nFreeFrames := n - needed_info_frames n\<rparr>)
      \<and> fstates m' (fresh_pool nx base n info)
        = take_run k (unat (needed_info_frames n)) (replicate (unat n) Free)
      \<and> (\<forall>a. a \<notin> bitmap_bytes (fresh_pool nx base n info) \<longrightarrow> m' a = m a)
      \<and> pool_ok m' ((fresh_pool nx base n info)\<lparr>nFreeFrames := n - needed_info_frames n\<rparr>)"
proof -
  let ?p = "fresh_pool nx base n info" and ?t = "needed_info_frames n"
  let ?m = "set_all_free m ?p 0 n" and ?start = "base + word_of_nat k :: u32"
  have N: "0 < unat n" using n(1) by (simp add: word_less_nat_alt)
  then have t0: "0 < unat ?t" using unat_needed_info_frames [OF n(2)] by simp
  have k32: "k + unat ?t < 4294967296" using fits unat_less_32 [of n] by linarith
  have inside: "base \<le> ?start" "?start + ?t \<le> base + n"
    using base fits by (auto simp: word_le_nat_alt unat_word_ariths)
  obtain fs where fs: "mark_info ?m ?p ?start 0 =
        (fold (\<lambda>f m. set_state m ?p f (if f = word_of_nat k then HoS else Used)) fs ?m,
         ?p\<lparr>nFreeFrames := n - (if 0 < ?t then ?t - 0 else 0)\<rparr>)"
      "set fs = (\<lambda>x. word_of_nat k + x) ` {x. 0 \<le> x \<and> x < ?t}"
    using mark_info_fold [of ?m ?p ?start 0] by auto
  let ?m' = "fold (\<lambda>f m. set_state m ?p f (if f = word_of_nat k then HoS else Used)) fs ?m"
  have mem_fs: "g \<in> set fs \<longleftrightarrow> k \<le> unat g \<and> unat g < k + unat ?t" for g
  proof
    assume "g \<in> set fs"
    then obtain x where "g = word_of_nat k + x" "x < ?t" using fs(2) by auto
    then show "k \<le> unat g \<and> unat g < k + unat ?t"
      using k32 by (auto simp: unat_word_ariths word_less_nat_alt)
  next
    assume g: "k \<le> unat g \<and> unat g < k + unat ?t"
    then have "g - word_of_nat k < ?t"
      using k32 by (auto simp: word_less_nat_alt unat_sub_if_size)
    then show "g \<in> set fs" unfolding fs(2) by (intro image_eqI [of _ _ "g - word_of_nat k"]) auto
  qed
  have free: "free_run (replicate (unat n) Free) k (unat ?t)"
    using fits by (auto simp: free_run_def)
  have st: "fstates ?m' ?p = take_run k (unat ?t) (replicate (unat n) Free)"
  proof (rule fstates_eqI)
    fix g assume g: "g < nframes ?p"
    then have gn: "unat g < unat n" by (simp add: word_less_nat_alt)
    have "get_state ?m ?p g = Free"
      using all_free(1) [of ?p nx base n info m] nth_fstates_unat [OF g, of ?m] gn by simp
    then show "get_state ?m' ?p g = take_run k (unat ?t) (replicate (unat n) Free) ! unat g"
      using gn fits t0 k32
      by (auto simp: bits.rd_fold mem_fs nth_take_run word_unat_eq_iff)
  qed (use fits t0 in simp)
  have out: "\<forall>a. a \<notin> bitmap_bytes ?p \<longrightarrow> ?m' a = m a"
  proof (intro allI impI)
    fix a assume a: "a \<notin> bitmap_bytes ?p"
    have "\<forall>f\<in>set fs. f < nframes ?p" using mem_fs fits by (auto simp: word_less_nat_alt)
    from fold_outside [OF this a] show "?m' a = m a"
      using a all_free(2) [of ?p nx base n info a m] by simp
  qed
  have "count_free (take_run k (unat ?t) (replicate (unat n) Free)) + unat ?t = unat n"
    using count_free_take_run [OF free t0] by simp
  then have ok: "pool_ok ?m' (?p\<lparr>nFreeFrames := n - ?t\<rparr>)"
    using base st well_sectioned_take_run [OF well_sectioned_free free t0] fits
    by (simp add: pool_ok_def unat_sub word_le_nat_alt)
  have "0 < ?t" using t0 by (simp add: word_less_nat_alt)
  then have "pool_construct m nx base n info = (?m', ?p\<lparr>nFreeFrames := n - ?t\<rparr>)"
    using fs(1) start inside unfolding pool_construct_def fresh_pool_def [symmetric]
    by (simp add: Let_def)
  with st out ok show ?thesis by blast
qed

lemma pool_construct_outside:
  assumes base: "unat base + unat n < 2 ^ 32"
    and "info \<noteq> 0" "\<not> (base \<le> info \<and> info + needed_info_frames n \<le> base + n)"
  shows "\<exists>m'. pool_construct m nx base n info = (m', fresh_pool nx base n info)
      \<and> fstates m' (fresh_pool nx base n info) = replicate (unat n) Free
      \<and> (\<forall>a. a \<notin> bitmap_bytes (fresh_pool nx base n info) \<longrightarrow> m' a = m a)
      \<and> pool_ok m' (fresh_pool nx base n info)"
proof -
  let ?p = "fresh_pool nx base n info"
  have "pool_construct m nx base n info = (set_all_free m ?p 0 n, ?p)"
    using assms unfolding pool_construct_def fresh_pool_def [symmetric]
    by (auto simp: Let_def)
  then show ?thesis
    using all_free [of ?p nx base n info] base by (simp add: pool_ok_def)
qed

end
