(* ===== verification/Frame_Pool_System.thy ===== *)
theory Frame_Pool_System
  imports Frame_Pool_Contract
begin

text \<open>
  The frame pools of the system together: the static list through \<open>head\<close> and \<open>next\<close>, the
  invariant that every pool is in order and that no two pools share frames or bitmap bytes,
  and its preservation by the constructor, \<open>get_frames\<close>, \<open>mark_inaccessible\<close> and
  \<open>release_frames\<close>.
\<close>

section \<open>The list of pools\<close>

primrec pool_chain ::
  "(nat \<Rightarrow> cont_frame_pool option) \<Rightarrow> nat option \<Rightarrow> nat list \<Rightarrow> bool" where
  "pool_chain ps nd [] \<longleftrightarrow> nd = None"
| "pool_chain ps nd (a # as) \<longleftrightarrow>
     nd = Some a \<and> (case ps a of None \<Rightarrow> False | Some p \<Rightarrow> pool_chain ps (next_fp p) as)"

lemma find_pool_chain:
  "pool_chain ps nd as \<Longrightarrow> find_pool ps f nd =
     Some (case find (\<lambda>a. owns (the (ps a)) f) as of None \<Rightarrow> Inl Assertion | Some a \<Rightarrow> Inr a)"
proof (induction "as" arbitrary: nd)
  case Nil
  then show ?case by (simp add: find_pool.simps)
next
  case (Cons a "as")
  then show ?case by (auto simp: find_pool.simps [of ps f "Some a"] split: option.splits)
qed

lemma pool_chain_update:
  assumes "ps a = Some p" and "next_fp p' = next_fp p"
  shows "pool_chain (ps(a \<mapsto> p')) nd as = pool_chain ps nd as"
  using assms by (induction "as" arbitrary: nd) (auto split: option.splits)

lemma pool_chain_fresh:
  "a \<notin> set as \<Longrightarrow> pool_chain (ps(a \<mapsto> p)) nd as = pool_chain ps nd as"
  by (induction "as" arbitrary: nd) (auto split: option.splits)

section \<open>The invariant\<close>

definition frames_apart :: "cont_frame_pool \<Rightarrow> cont_frame_pool \<Rightarrow> bool" where
  "frames_apart p q \<longleftrightarrow>
     unat (base_frame_no p) + unat (nframes p) \<le> unat (base_frame_no q) \<or>
     unat (base_frame_no q) + unat (nframes q) \<le> unat (base_frame_no p)"

definition pools_apart :: "cont_frame_pool \<Rightarrow> cont_frame_pool \<Rightarrow> bool" where
  "pools_apart p q \<longleftrightarrow> frames_apart p q \<and> bitmap_bytes p \<inter> bitmap_bytes q = {}"

definition pools_ok :: "'a fp_state_scheme \<Rightarrow> bool" where
  "pools_ok s \<longleftrightarrow>
     (\<exists>as. pool_chain (frame_pools s) (fp_head s) as \<and> set as = dom (frame_pools s)) \<and>
     (\<forall>a p. frame_pools s a = Some p \<longrightarrow> pool_ok (mem s) p) \<and>
     (\<forall>a b p q. frame_pools s a = Some p \<longrightarrow> frame_pools s b = Some q \<longrightarrow> a \<noteq> b \<longrightarrow> pools_apart p q)"

lemma pools_apart_nFree [simp]:
  "pools_apart (p\<lparr>nFreeFrames := x\<rparr>) q = pools_apart p q"
  "pools_apart q (p\<lparr>nFreeFrames := x\<rparr>) = pools_apart q p"
  by (simp_all add: pools_apart_def frames_apart_def)

lemma pools_apart_sym: "pools_apart p q = pools_apart q p"
  by (auto simp: pools_apart_def frames_apart_def)

lemma pools_okD:
  assumes "pools_ok s"
  shows "frame_pools s a = Some p \<Longrightarrow> pool_ok (mem s) p"
    and "frame_pools s a = Some p \<Longrightarrow> frame_pools s b = Some q \<Longrightarrow> a \<noteq> b \<Longrightarrow> pools_apart p q"
  using assms by (auto simp: pools_ok_def)

text \<open>The frame states of pool \<open>a\<close>.\<close>

definition states :: "'a fp_state_scheme \<Rightarrow> nat \<Rightarrow> frame_state list" where
  "states s a = fstates (mem s) (the (frame_pools s a))"

text \<open>Everything but pool \<open>a\<close>, whose fields are \<open>p\<close>, is as before.\<close>

definition only_pool :: "nat \<Rightarrow> cont_frame_pool \<Rightarrow> 'a fp_state_scheme \<Rightarrow> 'a fp_state_scheme \<Rightarrow> bool" where
  "only_pool a p s s' \<longleftrightarrow>
     (\<forall>b. b \<noteq> a \<longrightarrow> frame_pools s' b = frame_pools s b) \<and>
     (\<forall>b. b \<noteq> a \<longrightarrow> frame_pools s b \<noteq> None \<longrightarrow> states s' b = states s b) \<and>
     (\<forall>x. x \<notin> bitmap_bytes p \<longrightarrow> mem s' x = mem s x) \<and> fp_head s' = fp_head s"

lemma get_state_outside:
  assumes "\<forall>x. x \<notin> bitmap_bytes p \<longrightarrow> m' x = m x" and "bitmap_bytes p \<inter> bitmap_bytes q = {}"
  shows "fstates m' q = fstates m q"
proof (rule fstates_eqI)
  fix f assume f: "f < nframes q"
  then have "bitmap q + f div 4 \<in> bitmap_bytes q" by (auto simp: bitmap_bytes_def)
  with assms have "m' (bitmap q + f div 4) = m (bitmap q + f div 4)" by blast
  then have "get_state m' q f = get_state m q f" by (simp add: get_state_def)
  then show "get_state m' q f = fstates m q ! unat f" using f by (simp add: nth_fstates_unat)
qed simp

text \<open>A step that changes one pool's bitmap and its free counter.\<close>

lemma pools_ok_step:
  assumes ok: "pools_ok s" and a: "frame_pools s a = Some p"
    and p': "p' = p\<lparr>nFreeFrames := x\<rparr>" and ok': "pool_ok m' p'"
    and out: "\<forall>x. x \<notin> bitmap_bytes p \<longrightarrow> m' x = mem s x"
    and s': "s' = s\<lparr>mem := m', frame_pools := (frame_pools s)(a \<mapsto> p')\<rparr>"
  shows "pools_ok s'" and "only_pool a p s s'"
proof -
  have other: "fstates m' q = fstates (mem s) q" if "frame_pools s b = Some q" "b \<noteq> a" for b q
  proof (rule get_state_outside [OF out])
    show "bitmap_bytes p \<inter> bitmap_bytes q = {}"
      using ok a that by (auto simp: pools_ok_def pools_apart_def)
  qed
  show "only_pool a p s s'"
    using out other s' by (auto simp: only_pool_def states_def)
  obtain "as" where chain: "pool_chain (frame_pools s) (fp_head s) as" "set as = dom (frame_pools s)"
    using ok by (auto simp: pools_ok_def)
  have "pool_chain (frame_pools s') (fp_head s') as"
    using chain(1) a s' p' by (simp add: pool_chain_update [of _ _ p])
  moreover have "set as = dom (frame_pools s')" using chain(2) a s' by auto
  moreover have "pool_ok (mem s') q" if "frame_pools s' b = Some q" for b q
  proof (cases "b = a")
    case True
    then show ?thesis using that ok' s' by simp
  next
    case False
    then have "frame_pools s b = Some q" using that s' by simp
    then show ?thesis using other [OF _ False] ok s' by (auto simp: pools_ok_def pool_ok_def)
  qed
  moreover have "pools_apart q r"
    if "frame_pools s' b = Some q" "frame_pools s' c = Some r" "b \<noteq> c" for b c q r
    using that a s' p' pools_okD(2) [OF ok] by (auto split: if_splits)
  ultimately show "pools_ok s'" by (auto simp: pools_ok_def)
qed

section \<open>The operations\<close>

lemma get_frames_alloc:
  assumes ok: "pools_ok s" and a: "frame_pools s a = Some p" and n: "0 < n"
    and run: "free_run (states s a) i (unat n)"
    and least: "\<forall>j<i. \<not> free_run (states s a) j (unat n)"
  shows "\<exists>s'. get_frames a n s = Inr (base_frame_no p + word_of_nat i, s')
    \<and> frame_pools s' a = Some (p\<lparr>nFreeFrames := nFreeFrames p - n\<rparr>)
    \<and> states s' a = take_run i (unat n) (states s a) \<and> pools_ok s' \<and> only_pool a p s s'"
proof -
  have pok: "pool_ok (mem s) p" using ok a by (auto simp: pools_ok_def)
  obtain m' where m': "pool_get_frames (mem s) p n
        = Inr (base_frame_no p + word_of_nat i, m', p\<lparr>nFreeFrames := nFreeFrames p - n\<rparr>)"
      "fstates m' p = take_run i (unat n) (fstates (mem s) p)"
      "\<forall>a. a \<notin> bitmap_bytes p \<longrightarrow> m' a = mem s a"
      "pool_ok m' (p\<lparr>nFreeFrames := nFreeFrames p - n\<rparr>)"
    using pool_get_frames_alloc [OF pok n, of i] run least a by (auto simp: states_def)
  let ?s' = "s\<lparr>mem := m', frame_pools := (frame_pools s)(a \<mapsto> p\<lparr>nFreeFrames := nFreeFrames p - n\<rparr>)\<rparr>"
  have "get_frames a n s = Inr (base_frame_no p + word_of_nat i, ?s')"
    using a m'(1) by (simp add: get_frames_def)
  then show ?thesis
    using pools_ok_step [OF ok a refl m'(4,3) refl] m'(2) a by (auto simp: states_def)
qed

lemma find_owner:
  assumes ok: "pools_ok s" and a: "frame_pools s a = Some p" and f: "owns p f"
  shows "find_pool (frame_pools s) f (fp_head s) = Some (Inr a)"
proof -
  obtain "as" where chain: "pool_chain (frame_pools s) (fp_head s) as" "set as = dom (frame_pools s)"
    using ok by (auto simp: pools_ok_def)
  have uniq: "b = a" if "frame_pools s b = Some q" "owns q f" for b q
  proof (rule ccontr)
    assume "b \<noteq> a"
    then have "frames_apart q p" and bnd: "unat (base_frame_no p) + unat (nframes p) < 2 ^ 32"
        "unat (base_frame_no q) + unat (nframes q) < 2 ^ 32"
      using ok a that by (auto simp: pools_ok_def pools_apart_def pool_ok_def)
    then show False
      using that(2) f by (auto simp: owns_def frames_apart_def word_le_nat_alt word_less_nat_alt
          unat_word_ariths)
  qed
  have "find (\<lambda>b. owns (the (frame_pools s b)) f) as = Some a"
  proof (cases "find (\<lambda>b. owns (the (frame_pools s b)) f) as")
    case None
    then show ?thesis using chain(2) a f by (force simp: find_None_iff)
  next
    case (Some b)
    then have "b \<in> set as" "owns (the (frame_pools s b)) f" by (auto simp: find_Some_iff)
    then show ?thesis using Some uniq chain(2) by force
  qed
  then show ?thesis using find_pool_chain [OF chain(1)] by simp
qed

lemma owns_index:
  "unat (base_frame_no p) + unat (nframes p) < 2 ^ 32 \<Longrightarrow> i < unat (nframes p) \<Longrightarrow>
     owns p (base_frame_no p + word_of_nat i)"
  by (auto simp: owns_def word_le_nat_alt word_less_nat_alt unat_word_ariths)

lemma release_frames_section:
  assumes ok: "pools_ok s" and a: "frame_pools s a = Some p"
    and i: "i < unat (nframes p)" and head: "states s a ! i = HoS"
  shows "\<exists>s'. release_frames (base_frame_no p + word_of_nat i) s = Inr s'
    \<and> frame_pools s' a = Some (p\<lparr>nFreeFrames := nFreeFrames p + word_of_nat (section_len i (states s a))\<rparr>)
    \<and> states s' a = release_run i (states s a) \<and> pools_ok s' \<and> only_pool a p s s'"
proof -
  have pok: "pool_ok (mem s) p" using ok a by (auto simp: pools_ok_def)
  let ?p' = "p\<lparr>nFreeFrames := nFreeFrames p + word_of_nat (section_len i (states s a))\<rparr>"
  obtain m' where m': "pool_release (mem s) p (base_frame_no p + word_of_nat i) = Inr (m', ?p')"
      "fstates m' p = release_run i (fstates (mem s) p)"
      "\<forall>a. a \<notin> bitmap_bytes p \<longrightarrow> m' a = mem s a" "pool_ok m' ?p'"
    using pool_release_section [OF pok i] head a by (auto simp: states_def)
  have "owns p (base_frame_no p + word_of_nat i)"
    using pok i by (intro owns_index) (auto simp: pool_ok_def)
  from find_owner [OF ok a this]
  have "release_frames (base_frame_no p + word_of_nat i) s
      = Inr (s\<lparr>mem := m', frame_pools := (frame_pools s)(a \<mapsto> ?p')\<rparr>)"
    using a m'(1) by (simp add: release_frames_def)
  then show ?thesis
    using pools_ok_step [OF ok a refl m'(4,3) refl] m'(2) a by (auto simp: states_def)
qed

lemma release_frames_not_head:
  assumes ok: "pools_ok s" and a: "frame_pools s a = Some p"
    and i: "i < unat (nframes p)" and head: "states s a ! i \<noteq> HoS"
  shows "release_frames (base_frame_no p + word_of_nat i) s = Inl Assertion"
proof -
  have pok: "pool_ok (mem s) p" using ok a by (auto simp: pools_ok_def)
  then have "owns p (base_frame_no p + word_of_nat i)"
    using i by (intro owns_index) (auto simp: pool_ok_def)
  from find_owner [OF ok a this] show ?thesis
    using a head pool_release_not_head [OF i, of "mem s"] by (simp add: release_frames_def states_def)
qed

lemma release_frames_unowned:
  assumes ok: "pools_ok s" and f: "\<forall>a p. frame_pools s a = Some p \<longrightarrow> \<not> owns p f"
  shows "release_frames f s = Inl Assertion"
proof -
  obtain "as" where chain: "pool_chain (frame_pools s) (fp_head s) as" "set as = dom (frame_pools s)"
    using ok by (auto simp: pools_ok_def)
  have "find (\<lambda>b. owns (the (frame_pools s b)) f) as = None"
    using chain(2) f by (force simp: find_None_iff)
  then show ?thesis using find_pool_chain [OF chain(1)] by (simp add: release_frames_def)
qed

lemma mark_inaccessible_free:
  assumes ok: "pools_ok s" and a: "frame_pools s a = Some p" and n: "0 < n"
    and run: "free_run (states s a) i (unat n)"
  shows "\<exists>s'. mark_inaccessible a (base_frame_no p + word_of_nat i) n s = Inr s'
    \<and> frame_pools s' a = Some (p\<lparr>nFreeFrames := nFreeFrames p - n\<rparr>)
    \<and> states s' a = take_run i (unat n) (states s a) \<and> pools_ok s' \<and> only_pool a p s s'"
proof -
  have pok: "pool_ok (mem s) p" using ok a by (auto simp: pools_ok_def)
  obtain m' where m': "pool_mark_inaccessible (mem s) p (base_frame_no p + word_of_nat i) n
        = (m', p\<lparr>nFreeFrames := nFreeFrames p - n\<rparr>)"
      "fstates m' p = take_run i (unat n) (fstates (mem s) p)"
      "\<forall>a. a \<notin> bitmap_bytes p \<longrightarrow> m' a = mem s a"
      "pool_ok m' (p\<lparr>nFreeFrames := nFreeFrames p - n\<rparr>)"
    using pool_mark_inaccessible_free [OF pok n] run a by (auto simp: states_def)
  have "mark_inaccessible a (base_frame_no p + word_of_nat i) n s
      = Inr (s\<lparr>mem := m', frame_pools := (frame_pools s)(a \<mapsto> p\<lparr>nFreeFrames := nFreeFrames p - n\<rparr>)\<rparr>)"
    using a m'(1) by (simp add: mark_inaccessible_def)
  then show ?thesis
    using pools_ok_step [OF ok a refl m'(4,3) refl] m'(2) a by (auto simp: states_def)
qed

text \<open>What \<open>get_frames\<close> took, \<open>release_frames\<close> gives back.\<close>

lemma get_release_roundtrip:
  assumes ok: "pools_ok s" and a: "frame_pools s a = Some p" and n: "0 < n"
    and run: "free_run (states s a) i (unat n)"
    and least: "\<forall>j<i. \<not> free_run (states s a) j (unat n)"
  shows "\<exists>r s' s''. get_frames a n s = Inr (r, s') \<and> release_frames r s' = Inr s''
    \<and> frame_pools s'' = frame_pools s \<and> (\<forall>b. frame_pools s b \<noteq> None \<longrightarrow> states s'' b = states s b)"
proof -
  let ?p' = "p\<lparr>nFreeFrames := nFreeFrames p - n\<rparr>"
  obtain s' where s': "get_frames a n s = Inr (base_frame_no p + word_of_nat i, s')"
      "frame_pools s' a = Some ?p'" "states s' a = take_run i (unat n) (states s a)" "pools_ok s'"
      "only_pool a p s s'"
    using get_frames_alloc [OF assms] by blast
  have n0: "0 < unat n" using n by (simp add: word_less_nat_alt)
  have xs: "length (states s a) = unat (nframes p)" "well_sectioned (states s a)"
    using ok a by (auto simp: states_def pools_ok_def pool_ok_def)
  have i: "i + unat n \<le> unat (nframes p)" using run xs by (simp add: free_run_def)
  have head: "states s' a ! i = HoS" using s'(3) n0 i xs by (simp add: nth_take_run)
  have len: "section_len i (states s' a) = unat n"
    using section_len_take_run [OF xs(2) run n0] s'(3) by simp
  have "i < unat (nframes ?p')" using i n0 by simp
  from release_frames_section [OF s'(4,2) this head]
  obtain s'' where s'': "release_frames (base_frame_no p + word_of_nat i) s' = Inr s''"
      "frame_pools s'' a = Some p" "states s'' a = states s a" "only_pool a ?p' s' s''"
    using len s'(3) release_take_run [OF xs(2) run n0] by auto
  have "frame_pools s'' = frame_pools s"
  proof
    fix b show "frame_pools s'' b = frame_pools s b"
      using s''(2,4) s'(5) a by (cases "b = a") (auto simp: only_pool_def)
  qed
  moreover have "states s'' b = states s b" if "frame_pools s b \<noteq> None" for b
    using s''(3,4) s'(5) that by (cases "b = a") (auto simp: only_pool_def)
  ultimately show ?thesis using s'(1) s''(1) by blast
qed

section \<open>Constructing pools\<close>

lemma pools_ok_empty:
  "frame_pools s = Map.empty \<Longrightarrow> fp_head s = None \<Longrightarrow> pools_ok s"
  unfolding pools_ok_def by (auto intro!: exI [of _ "[]"])

text \<open>A new pool whose frames and bitmap are apart from those of the pools there are.\<close>

lemma ContFramePool_ok:
  assumes ok: "pools_ok s" and new: "frame_pools s this = None"
    and built: "pool_construct (mem s) (fp_head s) base n info = (m', p)"
    and pok: "pool_ok m' p" and nx: "next_fp p = fp_head s"
    and out: "\<forall>x. x \<notin> bitmap_bytes p \<longrightarrow> m' x = mem s x"
    and apart: "\<And>a q. frame_pools s a = Some q \<Longrightarrow> pools_apart p q"
  shows "pools_ok (ContFramePool this base n info s)"
    and "\<forall>a. frame_pools s a \<noteq> None \<longrightarrow> states (ContFramePool this base n info s) a = states s a"
proof -
  let ?s = "ContFramePool this base n info s"
  have s': "mem ?s = m'" "frame_pools ?s = (frame_pools s)(this \<mapsto> p)" "fp_head ?s = Some this"
    using built by (simp_all add: ContFramePool_def)
  have other: "fstates m' q = fstates (mem s) q" if "frame_pools s b = Some q" for b q
    using apart [OF that] by (intro get_state_outside [OF out]) (simp add: pools_apart_def)
  have "b \<noteq> this" if "frame_pools s b = Some q" for b q
    using that new by auto
  then show "\<forall>a. frame_pools s a \<noteq> None \<longrightarrow> states ?s a = states s a"
    using s' other by (auto simp: states_def)
  obtain "as" where chain: "pool_chain (frame_pools s) (fp_head s) as" "set as = dom (frame_pools s)"
    using ok by (auto simp: pools_ok_def)
  have "this \<notin> set as" using chain(2) new by auto
  then have "pool_chain (frame_pools ?s) (fp_head ?s) (this # as)"
    using chain(1) nx s' by (simp add: pool_chain_fresh)
  moreover have "set (this # as) = dom (frame_pools ?s)" using chain(2) s' by auto
  moreover have "pool_ok (mem ?s) q" if "frame_pools ?s b = Some q" for b q
    using that s' pok pools_okD(1) [OF ok, of b q] other [of b q]
    by (auto simp: pool_ok_def split: if_splits)
  moreover have "pools_apart q r" if "frame_pools ?s b = Some q" "frame_pools ?s c = Some r" "b \<noteq> c"
    for b c q r
    using that s' apart [of b q] apart [of c r] pools_okD(2) [OF ok, of b q c r]
      pools_apart_sym [of p q] by (simp split: if_splits)
  ultimately show "pools_ok ?s" unfolding pools_ok_def by blast
qed

end
