(* ===== verification/Paging_Hardware.thy ===== *)
theory Paging_Hardware
  imports Memory
begin

text \<open>
  What the page table code relies on of the x86 processor: the two-level walk from the
  directory in CR3, and the pieces of a virtual address.  The comments of \<open>handle_fault\<close>
  (\<open>page_table.C\<close>) describe the same walk when they build addresses of the shape
  \<open>1023 | X | Y | 00\<close>.  Write protection and the user bit play no part: every entry the code
  makes is writable, and all of it runs in ring 0.  The translation buffer is not modelled;
  the code reloads CR3 after the one place where it takes a mapping away.

  The lemmas say which physical word each of the three addresses of the recursive mapping
  denotes.
\<close>

section \<open>The walk\<close>

definition present :: "u32 \<Rightarrow> bool" where
  "present e \<longleftrightarrow> bit e 0"

definition walk :: "memory \<Rightarrow> u32 \<Rightarrow> u32 \<Rightarrow> u32 option" where
  "walk m cr3 va =
     (let pde = load32 m ((cr3 AND 0xFFFFF000) + push_bit 2 (drop_bit 22 va)) in
      if \<not> present pde then None
      else let pte = load32 m ((pde AND 0xFFFFF000) + push_bit 2 (drop_bit 12 va AND 0x3FF)) in
        if \<not> present pte then None
        else Some ((pte AND 0xFFFFF000) + (va AND 0xFFF)))"

lemma present_and_1: "e AND 1 = 0 \<longleftrightarrow> \<not> present e" "e AND 1 = 1 \<longleftrightarrow> present e"
  unfolding present_def by (simp_all add: and_one_eq bit_0 odd_iff_mod_2_eq_one even_iff_mod_2_eq_zero)

text \<open>An entry's frame number, and the directory index, table index and offset of an address.\<close>

definition frame_of :: "u32 \<Rightarrow> nat" where
  "frame_of e = unat e div 4096"

definition dir_ix :: "u32 \<Rightarrow> nat" where
  "dir_ix va = unat va div 4194304"

definition tbl_ix :: "u32 \<Rightarrow> nat" where
  "tbl_ix va = unat va div 4096 mod 1024"

definition offset :: "u32 \<Rightarrow> nat" where
  "offset va = unat va mod 4096"

definition phys :: "nat \<Rightarrow> nat \<Rightarrow> u32" where
  "phys f k = word_of_nat (4096 * f + k)"

lemma frame_of_bound [simp]: "frame_of e < frame_bound"
  using unat_less_32 [of e] unfolding frame_of_def by linarith

lemma dir_ix_bound [simp]: "dir_ix va < 1024"
  using unat_less_32 [of va] unfolding dir_ix_def by linarith

lemma tbl_ix_bound [simp]: "tbl_ix va < 1024"
  by (simp add: tbl_ix_def)

lemma offset_bound [simp]: "offset va < 4096"
  by (simp add: offset_def)

lemma page_mask: "(0xFFFFF000 :: u32) = NOT (mask 12)" "(0xFFC00000 :: u32) = NOT (mask 22)"
  by (simp_all add: mask_eq_exp_minus_1)

lemma and_not_mask: "e AND NOT (mask n) = e - take_bit n e" for e :: u32
proof -
  have "e AND NOT (mask n) = push_bit n (drop_bit n e)"
    by (rule bit_eqI) (auto simp: bit_simps)
  then show ?thesis using bits_ident [of n e] by (simp add: eq_diff_eq)
qed

lemma unat_take_bit_32: "unat (take_bit n e) = unat e mod 2 ^ n" for e :: u32
  by (simp only: unsigned_take_bit_eq) (simp only: take_bit_eq_mod)

lemma unat_drop_bit_32: "unat (drop_bit n e) = unat e div 2 ^ n" for e :: u32
  using unat_less_32 [of e]
  by (simp only: unsigned_drop_bit_eq) (simp add: take_bit_nat_eq_self drop_bit_eq_div)

lemma unat_page_base: "unat (e AND (0xFFFFF000 :: u32)) = 4096 * frame_of e"
proof -
  have "unat (e - take_bit 12 e) = unat e - unat e mod 4096"
    by (simp add: unat_sub_if_size unat_take_bit_32)
  then show ?thesis
    by (simp add: page_mask and_not_mask frame_of_def minus_mod_eq_mult_div)
qed

lemma unat_push_bit_32: "unat w * 2 ^ n < 4294967296 \<Longrightarrow> unat (push_bit n w) = unat w * 2 ^ n"
  for w :: u32
  by (simp only: unsigned_push_bit_eq) (simp add: push_bit_eq_mult take_bit_nat_eq_self)

lemma unat_push_bit_2: "unat w < 1024 \<Longrightarrow> unat (push_bit 2 w) = 4 * unat w" for w :: u32
  by (simp add: push_bit_eq_mult unat_word_ariths)

lemma entry_of_page:
  assumes "unat w < 1024"
  shows "(e AND (0xFFFFF000 :: u32)) + push_bit 2 w = entry_addr (frame_of e) (unat w)"
proof -
  have "4096 * frame_of e + 4 * unat w < 4294967296"
    using assms frame_of_bound [of e] by linarith
  then show ?thesis
    using assms by (simp add: word_unat_eq_iff unat_word_ariths unat_page_base unat_push_bit_2
        unat_entry_addr)
qed

lemma index_words:
  "unat (drop_bit 22 va :: u32) = dir_ix va"
  "unat (drop_bit 12 va AND 0x3FF :: u32) = tbl_ix va"
  "unat (va AND 0xFFF :: u32) = offset va"
proof -
  show "unat (drop_bit 22 va :: u32) = dir_ix va" by (simp add: unat_drop_bit_32 dir_ix_def)
  have "drop_bit 12 va AND 0x3FF = take_bit 10 (drop_bit 12 va)"
    by (simp add: take_bit_eq_mask mask_eq_exp_minus_1)
  then show "unat (drop_bit 12 va AND 0x3FF :: u32) = tbl_ix va"
    by (simp add: unat_take_bit_32 unat_drop_bit_32 tbl_ix_def)
  have "va AND 0xFFF = take_bit 12 va" by (simp add: take_bit_eq_mask mask_eq_exp_minus_1)
  then show "unat (va AND 0xFFF :: u32) = offset va" by (simp add: unat_take_bit_32 offset_def)
qed

lemma unat_phys: "f < frame_bound \<Longrightarrow> k < 4096 \<Longrightarrow> unat (phys f k) = 4096 * f + k"
  unfolding phys_def by (subst unat_of_nat_32) auto

lemma phys_eq:
  assumes "f < frame_bound" "k < 4096" "g < frame_bound" "l < 4096"
  shows "phys f k = phys g l \<longleftrightarrow> f = g \<and> k = l"
proof -
  have "(4096 * f + k) div 4096 = f" "(4096 * g + l) div 4096 = g" using assms by simp_all
  then have "f = g" if "4096 * f + k = 4096 * g + l" using that by metis
  then have "4096 * f + k = 4096 * g + l \<longleftrightarrow> f = g \<and> k = l" by auto
  then show ?thesis using assms by (simp add: word_unat_eq_iff unat_phys)
qed

lemma page_plus_offset: "(e AND (0xFFFFF000 :: u32)) + (va AND 0xFFF) = phys (frame_of e) (offset va)"
proof -
  have "4096 * frame_of e + offset va < 4294967296"
    using frame_of_bound [of e] offset_bound [of va] by linarith
  then show ?thesis
    by (simp add: word_unat_eq_iff unat_word_ariths unat_page_base index_words unat_phys)
qed

text \<open>The walk over entries.\<close>

lemma walk_entries:
  "walk m cr3 va =
     (let pde = entry m (frame_of cr3) (dir_ix va) in
      if \<not> present pde then None
      else let pte = entry m (frame_of pde) (tbl_ix va) in
        if \<not> present pte then None else Some (phys (frame_of pte) (offset va)))"
proof -
  have "unat (drop_bit 22 va) < 1024" "unat (drop_bit 12 va AND 0x3FF :: u32) < 1024"
    by (simp_all add: index_words)
  then show ?thesis
    by (simp only: walk_def entry_of_page index_words entry_def page_plus_offset)
qed

text \<open>An address is its three pieces.\<close>

lemma page_number: "unat va div 4096 = 1024 * dir_ix va + tbl_ix va"
proof -
  have "unat va div 4194304 = unat va div 4096 div 1024" by (simp add: div_mult2_eq [symmetric])
  then show ?thesis using mult_div_mod_eq [of 1024 "unat va div 4096"]
    by (simp add: dir_ix_def tbl_ix_def)
qed

lemma address_pieces: "unat va = 4194304 * dir_ix va + 4096 * tbl_ix va + offset va"
  using mult_div_mod_eq [of 4096 "unat va"] by (simp add: page_number offset_def)

lemma piecesI:
  assumes "unat va = 4194304 * d + 4096 * t + k" "t < 1024" "k < 4096"
  shows "dir_ix va = d" "tbl_ix va = t" "offset va = k"
proof -
  have "unat va div 4194304 = d" using assms by simp
  moreover have q: "unat va div 4096 = 1024 * d + t" using assms by simp
  then have "unat va div 4096 mod 1024 = t" using assms(2) by simp
  moreover have "unat va = 4096 * (1024 * d + t) + k" using assms(1) by simp
  then have "unat va mod 4096 = k" using assms(3) by (simp only: mod_mult_self4) simp
  ultimately show "dir_ix va = d" "tbl_ix va = t" "offset va = k"
    by (simp_all add: dir_ix_def tbl_ix_def offset_def)
qed

section \<open>The recursive mapping\<close>

text \<open>The three addresses \<open>handle_fault\<close> and \<open>free_page\<close> build, as the code writes them.\<close>

lemma or_high:
  fixes w :: u32
  shows "unat w < 4096 \<Longrightarrow> unat (w OR 0xFFFFF000) = 0xFFFFF000 + unat w"
    and "unat w < 4194304 \<Longrightarrow> unat (w OR 0xFFC00000) = 0xFFC00000 + unat w"
proof -
  have or: "w OR NOT (mask n) = w + NOT (mask n)" if "unat w < 2 ^ n" for n
  proof -
    have "take_bit n w = w" using that by (simp only: word_unat_eq_iff unat_take_bit_32) simp
    then have "w AND NOT (mask n) = 0" by (simp add: and_not_mask)
    from disjunctive_add_eq_or [OF this] show ?thesis by simp
  qed
  show "unat (w OR 0xFFFFF000) = 0xFFFFF000 + unat w" if "unat w < 4096"
    using or [of 12] that by (simp add: page_mask [symmetric] unat_word_ariths)
  show "unat (w OR 0xFFC00000) = 0xFFC00000 + unat w" if "unat w < 4194304"
    using or [of 22] that by (simp add: page_mask [symmetric] unat_word_ariths)
qed

definition pde_window :: "u32 \<Rightarrow> u32" where
  "pde_window cr2 = push_bit 2 (drop_bit 22 cr2) OR 0xFFFFF000"

definition table_window :: "u32 \<Rightarrow> u32" where
  "table_window cr2 = push_bit 12 (drop_bit 22 cr2) OR 0xFFC00000"

definition pte_window :: "u32 \<Rightarrow> u32" where
  "pte_window va = push_bit 2 (drop_bit 12 va) OR 0xFFC00000"

lemma unat_pde_window: "unat (pde_window va) = 0xFFFFF000 + 4 * dir_ix va"
proof -
  have d: "dir_ix va < 1024" by simp
  then have "unat (push_bit 2 (drop_bit 22 va)) = 4 * dir_ix va"
    by (subst unat_push_bit_2) (simp_all add: index_words)
  with d show ?thesis unfolding pde_window_def by (subst or_high) simp_all
qed

lemma unat_pte_window: "unat (pte_window va) = 0xFFC00000 + 4096 * dir_ix va + 4 * tbl_ix va"
proof -
  have d: "dir_ix va < 1024" "tbl_ix va < 1024" by simp_all
  then have "4096 * dir_ix va + 4 * tbl_ix va < 4194304" by linarith
  then have "unat (push_bit 2 (drop_bit 12 va)) = 4096 * dir_ix va + 4 * tbl_ix va"
    by (subst unat_push_bit_32) (simp_all add: unat_drop_bit_32 page_number)
  with \<open>4096 * dir_ix va + 4 * tbl_ix va < 4194304\<close> show ?thesis
    unfolding pte_window_def by (subst or_high) simp_all
qed

lemma unat_table_window:
  assumes "i < 1024"
  shows "unat (table_window va + 4 * word_of_nat i) = 0xFFC00000 + 4096 * dir_ix va + 4 * i"
proof -
  have d: "dir_ix va < 1024" by simp
  then have "dir_ix va * 4096 < 4294967296" by linarith
  then have "unat (push_bit 12 (drop_bit 22 va)) = 4096 * dir_ix va"
    by (simp add: push_bit_eq_mult unat_word_ariths index_words mult.commute mod_less)
  with d have "unat (table_window va) = 0xFFC00000 + 4096 * dir_ix va"
    unfolding table_window_def by (subst or_high) simp_all
  moreover have "4290772992 + 4096 * dir_ix va + 4 * i < 4294967296" using assms d by linarith
  ultimately show ?thesis using assms by (simp add: unat_word_ariths)
qed

lemma window_pieces:
  "dir_ix (pde_window va) = 1023" "tbl_ix (pde_window va) = 1023"
  "offset (pde_window va) = 4 * dir_ix va"
  "dir_ix (pte_window va) = 1023" "tbl_ix (pte_window va) = dir_ix va"
  "offset (pte_window va) = 4 * tbl_ix va"
  using dir_ix_bound [of va] tbl_ix_bound [of va]
    piecesI [of "pde_window va" 1023 1023 "4 * dir_ix va"]
    piecesI [of "pte_window va" 1023 "dir_ix va" "4 * tbl_ix va"]
  by (simp_all add: unat_pde_window unat_pte_window)

lemma table_window_pieces:
  assumes "i < 1024"
  shows "dir_ix (table_window va + 4 * word_of_nat i) = 1023"
    and "tbl_ix (table_window va + 4 * word_of_nat i) = dir_ix va"
    and "offset (table_window va + 4 * word_of_nat i) = 4 * i"
  using assms dir_ix_bound [of va]
    piecesI [of "table_window va + 4 * word_of_nat i" 1023 "dir_ix va" "4 * i"]
  by (simp_all add: unat_table_window)

lemma phys_entry [simp]: "phys f (4 * i) = entry_addr f i"
  by (simp add: phys_def entry_addr_def)

definition self_mapped :: "memory \<Rightarrow> u32 \<Rightarrow> bool" where
  "self_mapped m cr3 \<longleftrightarrow>
     present (entry m (frame_of cr3) 1023) \<and> frame_of (entry m (frame_of cr3) 1023) = frame_of cr3"

text \<open>Through the self-map of the directory the windows are the entries themselves.\<close>

lemma walk_pde_window:
  "self_mapped m cr3 \<Longrightarrow> walk m cr3 (pde_window va) = Some (entry_addr (frame_of cr3) (dir_ix va))"
  by (simp add: walk_entries window_pieces self_mapped_def)

lemma walk_pte_window:
  "self_mapped m cr3 \<Longrightarrow> walk m cr3 (pte_window va) =
     (if present (entry m (frame_of cr3) (dir_ix va))
      then Some (entry_addr (frame_of (entry m (frame_of cr3) (dir_ix va))) (tbl_ix va)) else None)"
  by (simp add: walk_entries window_pieces self_mapped_def)

lemma walk_table_window:
  "self_mapped m cr3 \<Longrightarrow> i < 1024 \<Longrightarrow> walk m cr3 (table_window va + 4 * word_of_nat i) =
     (if present (entry m (frame_of cr3) (dir_ix va))
      then Some (entry_addr (frame_of (entry m (frame_of cr3) (dir_ix va))) i) else None)"
  by (simp add: walk_entries table_window_pieces self_mapped_def)

text \<open>The entries the code writes: a frame's address with flag bits.\<close>

lemma or_flags:
  fixes w k :: u32
  assumes "take_bit 12 w = 0" and "take_bit 12 k = k"
  shows "w OR k = w + k"
proof -
  have "w AND k = 0"
  proof (rule bit_eqI)
    fix n
    have "\<not> (bit w n \<and> n < 12)" using bit_take_bit_iff [of 12 w n] assms(1) by auto
    moreover have "bit k n \<Longrightarrow> n < 12" using bit_take_bit_iff [of 12 k n] assms(2) by simp
    ultimately show "bit (w AND k) n = bit 0 n" by (auto simp: bit_and_iff)
  qed
  from disjunctive_add_eq_or [OF this] show ?thesis by simp
qed

lemma unat_page_entry:
  assumes "f < frame_bound" and "k = 3 \<or> k = 7"
  shows "unat ((word_of_nat f * 4096) OR k :: u32) = 4096 * f + unat k"
proof -
  have a: "unat (word_of_nat f * 4096 :: u32) = 4096 * f"
    using assms(1) by (simp add: unat_word_ariths)
  have k: "unat k = 3 \<or> unat k = 7" "take_bit 12 k = k" using assms(2) by (elim disjE; simp)+
  have "take_bit 12 (word_of_nat f * 4096 :: u32) = 0"
    by (simp only: word_unat_eq_iff unat_take_bit_32 a) simp
  from or_flags [OF this k(2)]
  have "(word_of_nat f * 4096 :: u32) OR k = word_of_nat f * 4096 + k" .
  moreover have "4096 * f + unat k < 2 ^ LENGTH(32)"
    using k(1) assms(1) by (elim disjE) simp_all
  ultimately show ?thesis by (simp only: unat_word_ariths(1) a mod_less)
qed

lemma page_entry:
  assumes "f < frame_bound" and "k = 3 \<or> k = 7"
  shows "frame_of ((word_of_nat f * 4096) OR k) = f" and "present ((word_of_nat f * 4096) OR k)"
proof -
  have k: "unat k = 3 \<or> unat k = 7" using assms(2) by (elim disjE) simp_all
  then show "frame_of ((word_of_nat f * 4096) OR k) = f"
    unfolding frame_of_def unat_page_entry [OF assms] by (elim disjE) simp_all
  have "bit k 0" using assms(2) by (elim disjE) simp_all
  then show "present ((word_of_nat f * 4096) OR k)"
    by (simp only: present_def bit_or_iff simp_thms)
qed

end
