(* ===== verification/VM_Pool.thy ===== *)
theory VM_Pool
  imports Prelude
begin

text \<open>
  Class \<open>VMPool\<close> (\<open>vm_pool.C\<close>).  A pool keeps two lists of regions in the first two pages of its
  own address range: 512 pairs (start, length) each, in consecutive words.  The operations
  read and write those pages through virtual addresses, so they take the two accesses
  \<open>rd a s\<close> and \<open>wr a v s\<close> as arguments; \<open>Page_Table\<close> instantiates them with the demand-paged
  accesses of the processor.  \<open>release\<close> also takes the page table's \<open>free_page\<close>.

  The indices into a list run below 1024 and are natural numbers; sizes and addresses are
  32-bit words and wrap.
\<close>

type_synonym 's rd = "u32 \<Rightarrow> 's \<Rightarrow> (u32 \<times> 's) outcome"
type_synonym 's wr = "u32 \<Rightarrow> u32 \<Rightarrow> 's \<Rightarrow> 's outcome"

text \<open>The members of the class; objects are named by numbers.  \<open>vm_size\<close> is the member \<open>size\<close>.\<close>

record vm_pool =
  base_address :: u32
  vm_size :: u32
  frame_pool :: nat
  page_table :: nat
  alloc_list :: u32
  free_list :: u32
  next_pool :: "nat option"

abbreviation (input) PAGE_SIZE :: u32 where
  "PAGE_SIZE \<equiv> 4096"

abbreviation (input) ENTRIES_PER_PAGE :: nat where
  "ENTRIES_PER_PAGE \<equiv> 1024"

text \<open>\<open>l[i]\<close> for a pointer \<open>l\<close> to \<open>unsigned long\<close>.\<close>

definition cell :: "u32 \<Rightarrow> nat \<Rightarrow> u32" where
  "cell l i = l + word_of_nat (4 * i)"

text \<open>Sizes are rounded up to whole pages.\<close>

definition round_up :: "u32 \<Rightarrow> u32" where
  "round_up sz = (if sz mod PAGE_SIZE \<noteq> 0 then (sz div PAGE_SIZE + 1) * PAGE_SIZE else sz)"

section \<open>The constructor\<close>

text \<open>\<open>for (i = i0; i < ENTRIES_PER_PAGE - 1; i += 2) { l[i] = 0; l[i + 1] = 0; }\<close>\<close>

function clear_from :: "'s wr \<Rightarrow> u32 \<Rightarrow> nat \<Rightarrow> 's \<Rightarrow> 's outcome" where
  "clear_from wr l i s =
     (if i < ENTRIES_PER_PAGE - 1 then
        andThen (wr (cell l i) 0 s) (\<lambda>s.
        andThen (wr (cell l (i + 1)) 0 s) (\<lambda>s.
        clear_from wr l (i + 2) s))
      else Inr s)"
  by pat_completeness auto
termination by (relation "measure (\<lambda>(wr, l, i, s). 1024 - i)") auto

declare clear_from.simps [simp del]

definition new_vm_pool :: "u32 \<Rightarrow> u32 \<Rightarrow> nat \<Rightarrow> nat \<Rightarrow> vm_pool" where
  "new_vm_pool base sz fp pt =
     \<lparr> base_address = base, vm_size = round_up sz, frame_pool = fp, page_table = pt,
       alloc_list = base, free_list = base + PAGE_SIZE, next_pool = None \<rparr>"

definition init_alloc_list :: "'s wr \<Rightarrow> vm_pool \<Rightarrow> 's \<Rightarrow> 's outcome" where
  "init_alloc_list wr p s =
     (let al = alloc_list p; base = base_address p in
      andThen (wr (cell al 0) base s) (\<lambda>s.
      andThen (wr (cell al 1) PAGE_SIZE s) (\<lambda>s.
      andThen (wr (cell al 2) (base + PAGE_SIZE) s) (\<lambda>s.
      andThen (wr (cell al 3) PAGE_SIZE s) (\<lambda>s.
      clear_from wr al 4 s)))))"

definition init_free_list :: "'s wr \<Rightarrow> vm_pool \<Rightarrow> 's \<Rightarrow> 's outcome" where
  "init_free_list wr p s =
     (let fl = free_list p; base = base_address p in
      andThen (wr (cell fl 0) (base + 2 * PAGE_SIZE) s) (\<lambda>s.
      andThen (wr (cell fl 1) (vm_size p - 2 * PAGE_SIZE) s) (\<lambda>s.
      clear_from wr fl 2 s)))"

section \<open>\<open>allocate\<close>\<close>

text \<open>The first chunk of the free list that is large enough.\<close>

function find_chunk :: "'s rd \<Rightarrow> u32 \<Rightarrow> u32 \<Rightarrow> nat \<Rightarrow> 's \<Rightarrow> (nat \<times> 's) outcome" where
  "find_chunk rd fl sz iter s =
     andThen (rd (cell fl (iter + 1)) s) (\<lambda>(len, s).
       if len < sz then
         andThen (assert_that (iter + 2 < ENTRIES_PER_PAGE - 1)) (\<lambda>_.
         find_chunk rd fl sz (iter + 2) s)
       else Inr (iter, s))"
  by pat_completeness auto
termination by (relation "measure (\<lambda>(rd, fl, sz, iter, s). 1024 - iter)") auto

declare find_chunk.simps [simp del]

text \<open>Move the entries behind the one at \<open>i - 2\<close> up by one, and clear the last.\<close>

function shift_up :: "'s rd \<Rightarrow> 's wr \<Rightarrow> u32 \<Rightarrow> nat \<Rightarrow> 's \<Rightarrow> 's outcome" where
  "shift_up rd wr l i s =
     (if i < ENTRIES_PER_PAGE - 1 then
        andThen (rd (cell l i) s) (\<lambda>(v, s).
        andThen (wr (cell l (i - 2)) v s) (\<lambda>s.
        andThen (rd (cell l (i + 1)) s) (\<lambda>(v, s).
        andThen (wr (cell l (i - 1)) v s) (\<lambda>s.
        andThen
          (if i + 2 \<ge> ENTRIES_PER_PAGE - 1
           then andThen (wr (cell l i) 0 s) (\<lambda>s. wr (cell l (i + 1)) 0 s)
           else Inr s) (\<lambda>s.
        shift_up rd wr l (i + 2) s)))))
      else Inr s)"
  by pat_completeness auto
termination by (relation "measure (\<lambda>(rd, wr, l, i, s). 1024 - i)") auto

declare shift_up.simps [simp del]

text \<open>The first pair of a list whose length is 0.\<close>

function find_end :: "'s rd \<Rightarrow> u32 \<Rightarrow> nat \<Rightarrow> 's \<Rightarrow> (nat \<times> 's) outcome" where
  "find_end rd l iter s =
     andThen (rd (cell l (iter + 1)) s) (\<lambda>(len, s).
       if len \<noteq> 0 then
         andThen (assert_that (iter + 2 < ENTRIES_PER_PAGE - 3)) (\<lambda>_.
         find_end rd l (iter + 2) s)
       else Inr (iter, s))"
  by pat_completeness auto
termination by (relation "measure (\<lambda>(rd, l, iter, s). 1024 - iter)") auto

declare find_end.simps [simp del]

definition take_chunk :: "'s rd \<Rightarrow> 's wr \<Rightarrow> u32 \<Rightarrow> u32 \<Rightarrow> nat \<Rightarrow> 's \<Rightarrow> 's outcome" where
  "take_chunk rd wr fl sz iter s =
     andThen (rd (cell fl (iter + 1)) s) (\<lambda>(len, s).
       if len > sz then
         andThen (rd (cell fl iter) s) (\<lambda>(v, s).
         andThen (wr (cell fl iter) (v + sz) s) (\<lambda>s.
         andThen (rd (cell fl (iter + 1)) s) (\<lambda>(v, s).
         wr (cell fl (iter + 1)) (v - sz) s)))
       else shift_up rd wr fl (iter + 2) s)"

definition append_region :: "'s rd \<Rightarrow> 's wr \<Rightarrow> u32 \<Rightarrow> u32 \<Rightarrow> u32 \<Rightarrow> 's \<Rightarrow> 's outcome" where
  "append_region rd wr l start len s =
     andThen (find_end rd l 0 s) (\<lambda>(iter, s).
     andThen (wr (cell l iter) start s) (\<lambda>s.
     wr (cell l (iter + 1)) len s))"

definition allocate :: "'s rd \<Rightarrow> 's wr \<Rightarrow> vm_pool \<Rightarrow> u32 \<Rightarrow> 's \<Rightarrow> (u32 \<times> 's) outcome" where
  "allocate rd wr p size0 s =
     (let sz = round_up size0 in
      andThen (find_chunk rd (free_list p) sz 0 s) (\<lambda>(iter, s).
      andThen (rd (cell (free_list p) iter) s) (\<lambda>(start, s).
      andThen (take_chunk rd wr (free_list p) sz iter s) (\<lambda>s.
      andThen (append_region rd wr (alloc_list p) start sz s) (\<lambda>s.
      Inr (start, s))))))"

section \<open>\<open>release\<close>\<close>

function find_region :: "'s rd \<Rightarrow> u32 \<Rightarrow> u32 \<Rightarrow> nat \<Rightarrow> 's \<Rightarrow> (nat \<times> 's) outcome" where
  "find_region rd al start iter s =
     andThen (rd (cell al iter) s) (\<lambda>(v, s).
       if v \<noteq> start then
         andThen (assert_that (iter + 2 < ENTRIES_PER_PAGE - 1)) (\<lambda>_.
         find_region rd al start (iter + 2) s)
       else Inr (iter, s))"
  by pat_completeness auto
termination by (relation "measure (\<lambda>(rd, al, start, iter, s). 1024 - iter)") auto

declare find_region.simps [simp del]

text \<open>\<open>for (i = start; i < limit; i += PAGE_SIZE) free_page(i / PAGE_SIZE)\<close>\<close>

partial_function (option) free_pages ::
  "(u32 \<Rightarrow> 's \<Rightarrow> 's outcome) \<Rightarrow> u32 \<Rightarrow> u32 \<Rightarrow> 's \<Rightarrow> 's outcome option" where
  "free_pages fp i limit s =
     (if i < limit then
        (case fp (i div PAGE_SIZE) s of
           Inl e \<Rightarrow> Some (Inl e)
         | Inr s' \<Rightarrow> free_pages fp (i + PAGE_SIZE) limit s')
      else Some (Inr s))"

definition drop_region :: "'s rd \<Rightarrow> 's wr \<Rightarrow> u32 \<Rightarrow> nat \<Rightarrow> 's \<Rightarrow> 's outcome" where
  "drop_region rd wr al iter s =
     andThen (wr (cell al iter) 0 s) (\<lambda>s.
     andThen (wr (cell al (iter + 1)) 0 s) (\<lambda>s.
     shift_up rd wr al (iter + 2) s))"

definition release ::
  "'s rd \<Rightarrow> 's wr \<Rightarrow> (u32 \<Rightarrow> 's \<Rightarrow> 's outcome) \<Rightarrow> vm_pool \<Rightarrow> u32 \<Rightarrow> 's \<Rightarrow> 's outcome" where
  "release rd wr fp p start_address s =
     andThen (find_region rd (alloc_list p) start_address 0 s) (\<lambda>(iter, s).
     andThen (rd (cell (alloc_list p) iter) s) (\<lambda>(start, s).
     andThen (rd (cell (alloc_list p) (iter + 1)) s) (\<lambda>(len, s).
     andThen (assert_that (start mod PAGE_SIZE = 0)) (\<lambda>_.
     andThen (assert_that (len mod PAGE_SIZE = 0)) (\<lambda>_.
     andThen (of_loop (free_pages fp start (start + len) s)) (\<lambda>r.
     andThen r (\<lambda>s.
     andThen (drop_region rd wr (alloc_list p) iter s) (\<lambda>s.
     append_region rd wr (free_list p) start len s))))))))"

section \<open>\<open>is_legitimate\<close>\<close>

function in_alloc_list :: "'s rd \<Rightarrow> u32 \<Rightarrow> u32 \<Rightarrow> nat \<Rightarrow> 's \<Rightarrow> (bool \<times> 's) outcome" where
  "in_alloc_list rd al a i s =
     (if i < ENTRIES_PER_PAGE - 1 then
        andThen (rd (cell al i) s) (\<lambda>(start, s).
        andThen
          (if start \<le> a then
             andThen (rd (cell al i) s) (\<lambda>(start, s).
             andThen (rd (cell al (i + 1)) s) (\<lambda>(len, s).
             Inr (a < start + len, s)))
           else Inr (False, s)) (\<lambda>(hit, s).
        if hit then Inr (True, s) else in_alloc_list rd al a (i + 2) s))
      else Inr (False, s))"
  by pat_completeness auto
termination by (relation "measure (\<lambda>(rd, al, a, i, s). 1024 - i)") auto

declare in_alloc_list.simps [simp del]

definition is_legitimate :: "'s rd \<Rightarrow> vm_pool \<Rightarrow> u32 \<Rightarrow> 's \<Rightarrow> (bool \<times> 's) outcome" where
  "is_legitimate rd p a s =
     (if alloc_list p \<le> a \<and> a < alloc_list p + PAGE_SIZE then Inr (True, s)
      else if free_list p \<le> a \<and> a < free_list p + PAGE_SIZE then Inr (True, s)
      else in_alloc_list rd (alloc_list p) a 0 s)"

end
