(* ===== verification/Page_Table.thy ===== *)
theory Page_Table
  imports Frame_Pool_System Paging_Hardware VM_Pool
begin

text \<open>
  Class \<open>PageTable\<close> (\<open>page_table.C\<close>), the low-level register accesses of \<open>paging_low.H\<close>, and
  the operations of \<open>VMPool\<close> on the demand-paged memory.

  Inside the fault handler memory is reached with \<open>vload\<close> and \<open>vstore\<close>: the processor
  translates the address, and an unmapped one would be a fault within the fault handler, which
  is the value \<open>Inl (Fault a)\<close>.  Everywhere else an unmapped address raises the page fault
  exception, which is dispatched to \<open>handle_fault\<close>, and then the instruction is executed again:
  that is \<open>demand_load\<close> and \<open>demand_store\<close>.
\<close>

section \<open>State\<close>

text \<open>One \<open>PageTable\<close> object; objects are named by numbers.\<close>

record page_table_obj =
  page_directory :: u32
  head_pool :: "nat option"

text \<open>
  The static members of \<open>PageTable\<close>, the control registers, and the objects of the classes
  \<open>PageTable\<close> and \<open>VMPool\<close>, on top of physical memory and the frame pools.
\<close>

record paging_state = fp_state +
  cr0 :: u32
  cr2 :: u32
  cr3 :: u32
  current_page_table :: "nat option"
  paging_enabled :: u32
  kernel_mem_pool :: "nat option"
  process_mem_pool :: "nat option"
  shared_size :: u32
  page_tables :: "nat \<Rightarrow> page_table_obj option"
  vm_pools :: "nat \<Rightarrow> vm_pool option"

section \<open>Memory access\<close>

definition translate :: "'a paging_state_scheme \<Rightarrow> u32 \<Rightarrow> u32 option" where
  "translate s a = (if bit (cr0 s) 31 then walk (mem s) (cr3 s) a else Some a)"

definition vload :: "u32 \<Rightarrow> 'a paging_state_scheme \<Rightarrow> u32 outcome" where
  "vload a s = (case translate s a of None \<Rightarrow> Inl (Fault a) | Some pa \<Rightarrow> Inr (load32 (mem s) pa))"

definition vstore :: "u32 \<Rightarrow> u32 \<Rightarrow> 'a paging_state_scheme \<Rightarrow> 'a paging_state_scheme outcome" where
  "vstore a v s = (case translate s a of
     None \<Rightarrow> Inl (Fault a) | Some pa \<Rightarrow> Inr (s\<lparr>mem := store32 pa v (mem s)\<rparr>))"

section \<open>Setting up\<close>

definition init_paging ::
  "nat \<Rightarrow> nat \<Rightarrow> u32 \<Rightarrow> 'a paging_state_scheme \<Rightarrow> 'a paging_state_scheme" where
  "init_paging kp pp size0 s =
     s\<lparr>kernel_mem_pool := Some kp, process_mem_pool := Some pp, shared_size := size0\<rparr>"

text \<open>\<open>process_mem_pool->get_frames(1)\<close> and the assertion that it is not 0.\<close>

definition get_process_frame ::
  "'a paging_state_scheme \<Rightarrow> (u32 \<times> 'a paging_state_scheme) outcome" where
  "get_process_frame s =
     (case process_mem_pool s of
        None \<Rightarrow> Inl Wild
      | Some a \<Rightarrow>
          andThen (get_frames a 1 s) (\<lambda>(frame, s).
          andThen (assert_that (frame \<noteq> 0)) (\<lambda>_. Inr (frame, s))))"

text \<open>The constructor: the first page table maps the first 4 MB one to one.\<close>

definition PageTable ::
  "nat \<Rightarrow> 'a paging_state_scheme \<Rightarrow> 'a paging_state_scheme outcome" where
  "PageTable this s =
     andThen (get_process_frame s) (\<lambda>(pd_frame_no, s).
     let page_directory0 = pd_frame_no * PAGE_SIZE in
     andThen (get_process_frame s) (\<lambda>(pt_frame_no, s).
     let first_page_table = pt_frame_no * PAGE_SIZE in
     andThen (vstore (cell page_directory0 0) (first_page_table OR 3) s) (\<lambda>s.
     andThen (for_each (\<lambda>pno. vstore (cell first_page_table pno) (word_of_nat pno * PAGE_SIZE OR 3))
        [0..<ENTRIES_PER_PAGE] s) (\<lambda>s.
     andThen (for_each (\<lambda>pdno s.
          andThen (vstore (cell page_directory0 pdno) (0 OR 2) s) (\<lambda>s.
          if pdno = ENTRIES_PER_PAGE - 1
          then vstore (cell page_directory0 pdno) (pd_frame_no * PAGE_SIZE OR 3) s
          else Inr s))
        [1..<ENTRIES_PER_PAGE] s) (\<lambda>s.
     Inr (s\<lparr>page_tables := (page_tables s)(this \<mapsto>
            \<lparr>page_directory = page_directory0, head_pool = None\<rparr>)\<rparr>))))))"

definition load :: "nat \<Rightarrow> 'a paging_state_scheme \<Rightarrow> 'a paging_state_scheme outcome" where
  "load this s =
     (case page_tables s this of
        None \<Rightarrow> Inl Wild
      | Some t \<Rightarrow> Inr (s\<lparr>cr3 := page_directory t, current_page_table := Some this\<rparr>))"

definition enable_paging :: "'a paging_state_scheme \<Rightarrow> 'a paging_state_scheme" where
  "enable_paging s = s\<lparr>cr0 := cr0 s OR 0x80000001, paging_enabled := 1\<rparr>"

section \<open>The fault handler\<close>

text \<open>The loop that fills a new page table through its window.\<close>

definition fill_table ::
  "u32 \<Rightarrow> u32 \<Rightarrow> 'a paging_state_scheme \<Rightarrow> 'a paging_state_scheme outcome" where
  "fill_table table frame s =
     for_each (\<lambda>i s.
       andThen (vstore (cell table i) (2 OR 4) s) (\<lambda>s.
       if i = ENTRIES_PER_PAGE - 1 then vstore (cell table i) (frame * PAGE_SIZE OR 7) s else Inr s))
     [0..<ENTRIES_PER_PAGE] s"

definition handle_fault ::
  "u32 \<Rightarrow> 'a paging_state_scheme \<Rightarrow> 'a paging_state_scheme outcome" where
  "handle_fault err_code s =
     andThen (assert_that (err_code AND 1 = 0)) (\<lambda>_.
     let pde = pde_window (cr2 s); table = table_window (cr2 s); pte = pte_window (cr2 s) in
     andThen (vload pde s) (\<lambda>v.
     andThen
       (if v AND 1 = 0 then
          andThen (get_process_frame s) (\<lambda>(new_pt_frame, s).
          andThen (vstore pde (new_pt_frame * PAGE_SIZE OR 7) s) (\<lambda>s.
          fill_table table new_pt_frame s))
        else Inr s) (\<lambda>s.
     andThen (get_process_frame s) (\<lambda>(new_page_frame, s).
     vstore pte (new_page_frame * PAGE_SIZE OR 7) s))))"

text \<open>
  An access that may fault: the handler runs, then the access is tried again.  \<open>None\<close> would be
  an access that faults for ever.
\<close>

partial_function (option) touch ::
  "u32 \<Rightarrow> u32 \<Rightarrow> 'a paging_state_scheme \<Rightarrow> (u32 \<times> 'a paging_state_scheme) outcome option" where
  "touch err a s =
     (case translate s a of
        Some pa \<Rightarrow> Some (Inr (pa, s))
      | None \<Rightarrow>
          (case handle_fault err (s\<lparr>cr2 := a\<rparr>) of
             Inl e \<Rightarrow> Some (Inl e)
           | Inr s' \<Rightarrow> touch err a s'))"

definition demand_load ::
  "u32 \<Rightarrow> 'a paging_state_scheme \<Rightarrow> (u32 \<times> 'a paging_state_scheme) outcome" where
  "demand_load a s =
     andThen (of_loop (touch 0 a s)) (\<lambda>r.
     andThen r (\<lambda>(pa, s). Inr (load32 (mem s) pa, s)))"

definition demand_store ::
  "u32 \<Rightarrow> u32 \<Rightarrow> 'a paging_state_scheme \<Rightarrow> 'a paging_state_scheme outcome" where
  "demand_store a v s =
     andThen (of_loop (touch 2 a s)) (\<lambda>r.
     andThen r (\<lambda>(pa, s). Inr (s\<lparr>mem := store32 pa v (mem s)\<rparr>)))"

section \<open>Virtual memory pools of a page table\<close>

definition register_pool ::
  "nat \<Rightarrow> nat \<Rightarrow> 'a paging_state_scheme \<Rightarrow> 'a paging_state_scheme outcome" where
  "register_pool this vp s =
     (case (page_tables s this, vm_pools s vp) of
        (Some t, Some p) \<Rightarrow>
          Inr (s\<lparr>vm_pools := (vm_pools s)(vp \<mapsto> p\<lparr>next_pool := head_pool t\<rparr>),
                page_tables := (page_tables s)(this \<mapsto> t\<lparr>head_pool := Some vp\<rparr>)\<rparr>)
      | _ \<Rightarrow> Inl Wild)"

text \<open>\<open>while (node != nullptr && !check) { check = node->is_legitimate(a); node = node->next_pool; }\<close>\<close>

partial_function (option) some_legitimate ::
  "u32 \<Rightarrow> nat option \<Rightarrow> 'a paging_state_scheme \<Rightarrow> (bool \<times> 'a paging_state_scheme) outcome option" where
  "some_legitimate a node s =
     (case node of
        None \<Rightarrow> Some (Inr (False, s))
      | Some n \<Rightarrow>
          (case vm_pools s n of
             None \<Rightarrow> Some (Inl Wild)
           | Some p \<Rightarrow>
               (case is_legitimate demand_load p a s of
                  Inl e \<Rightarrow> Some (Inl e)
                | Inr (check, s') \<Rightarrow>
                    if check then Some (Inr (True, s')) else some_legitimate a (next_pool p) s')))"

definition free_page ::
  "nat \<Rightarrow> u32 \<Rightarrow> 'a paging_state_scheme \<Rightarrow> 'a paging_state_scheme outcome" where
  "free_page this page_no s =
     (case page_tables s this of
        None \<Rightarrow> Inl Wild
      | Some t \<Rightarrow>
          andThen (of_loop (some_legitimate (page_no * PAGE_SIZE) (head_pool t) s)) (\<lambda>r.
          andThen r (\<lambda>(check, s).
          andThen (assert_that check) (\<lambda>_.
          let pte = pte_window (page_no * PAGE_SIZE) in
          andThen (demand_load pte s) (\<lambda>(v, s).
          let frame_number = v div PAGE_SIZE in
          andThen (demand_load pte s) (\<lambda>(v, s).
          if v AND 1 = 1 then
            andThen (release_frames frame_number s) (\<lambda>s.
            andThen (demand_load pte s) (\<lambda>(v, s).
            andThen (demand_store pte (v AND NOT 1) s) (\<lambda>s.
            load this s)))
          else Inr s))))))"

text \<open>The constructor and the operations of \<open>VMPool\<close> on demand-paged memory.\<close>

definition VMPool ::
  "nat \<Rightarrow> u32 \<Rightarrow> u32 \<Rightarrow> nat \<Rightarrow> nat \<Rightarrow> 'a paging_state_scheme \<Rightarrow> 'a paging_state_scheme outcome" where
  "VMPool this base size0 fp pt s =
     andThen (register_pool pt this
        (s\<lparr>vm_pools := (vm_pools s)(this \<mapsto> new_vm_pool base size0 fp pt)\<rparr>)) (\<lambda>s.
     let p = the (vm_pools s this) in
     andThen (init_alloc_list demand_store p s) (\<lambda>s.
     init_free_list demand_store p s))"

definition vm_allocate ::
  "nat \<Rightarrow> u32 \<Rightarrow> 'a paging_state_scheme \<Rightarrow> (u32 \<times> 'a paging_state_scheme) outcome" where
  "vm_allocate this size0 s =
     (case vm_pools s this of
        None \<Rightarrow> Inl Wild
      | Some p \<Rightarrow> allocate demand_load demand_store p size0 s)"

definition vm_release ::
  "nat \<Rightarrow> u32 \<Rightarrow> 'a paging_state_scheme \<Rightarrow> 'a paging_state_scheme outcome" where
  "vm_release this start_address s =
     (case vm_pools s this of
        None \<Rightarrow> Inl Wild
      | Some p \<Rightarrow> release demand_load demand_store (free_page (page_table p)) p start_address s)"

end
