(* ===== verification/Page_Map.thy ===== *)
theory Page_Map
  imports Paging_Hardware
begin

text \<open>
  A page directory and its tables as a map.  \<open>E f i\<close> is entry \<open>i\<close> of the frame \<open>f\<close>, \<open>P\<close> the
  frame of the directory.  A slot is a place that holds a frame: the directory, a page table,
  or a mapped page.  \<open>holder\<close> gives the frame of each slot; the last page of a region does not
  count as a slot while its entry still maps the table itself, as \<open>handle_fault\<close> sets it up.

  The invariant \<open>map_ok\<close> says that the directory maps itself, that the first table is the
  identity, and that no two slots share a frame.  The two updates of the fault handler, a new
  page and a new table, are shown to keep it and to change one slot.
\<close>

datatype slot = Dir | Table nat | Page nat nat

definition table_frame :: "(nat \<Rightarrow> nat \<Rightarrow> u32) \<Rightarrow> nat \<Rightarrow> nat \<Rightarrow> nat option" where
  "table_frame E P d = (if d < 1023 \<and> present (E P d) then Some (frame_of (E P d)) else None)"

definition page_frame :: "(nat \<Rightarrow> nat \<Rightarrow> u32) \<Rightarrow> nat \<Rightarrow> nat \<Rightarrow> nat option" where
  "page_frame E F t =
     (if t < 1024 \<and> present (E F t) \<and> \<not> (t = 1023 \<and> frame_of (E F t) = F)
      then Some (frame_of (E F t)) else None)"

fun holder :: "(nat \<Rightarrow> nat \<Rightarrow> u32) \<Rightarrow> nat \<Rightarrow> slot \<Rightarrow> nat option" where
  "holder E P Dir = Some P"
| "holder E P (Table d) = table_frame E P d"
| "holder E P (Page d t) =
     (if d = 0 then None else Option.bind (table_frame E P d) (\<lambda>F. page_frame E F t))"

lemma page_frame_cong: "(t < 1024 \<Longrightarrow> E' F t = E F t) \<Longrightarrow> page_frame E' F t = page_frame E F t"
  by (cases "t < 1024") (simp_all add: page_frame_def)

text \<open>What the processor finds: the frame behind a directory and a table index.\<close>

definition lookup_frame :: "(nat \<Rightarrow> nat \<Rightarrow> u32) \<Rightarrow> nat \<Rightarrow> nat \<Rightarrow> nat \<Rightarrow> nat option" where
  "lookup_frame E P d t =
     (if present (E P d) \<and> present (E (frame_of (E P d)) t)
      then Some (frame_of (E (frame_of (E P d)) t)) else None)"

lemma walk_lookup:
  "walk m c va = map_option (\<lambda>f. phys f (offset va))
     (lookup_frame (entry m) (frame_of c) (dir_ix va) (tbl_ix va))"
  by (simp add: walk_entries lookup_frame_def Let_def)

definition distinct_slots :: "(slot \<Rightarrow> nat option) \<Rightarrow> bool" where
  "distinct_slots h \<longleftrightarrow> (\<forall>a b f. h a = Some f \<longrightarrow> h b = Some f \<longrightarrow> a = b)"

definition map_ok :: "(nat \<Rightarrow> nat \<Rightarrow> u32) \<Rightarrow> nat \<Rightarrow> bool" where
  "map_ok E P \<longleftrightarrow>
     present (E P 1023) \<and> frame_of (E P 1023) = P \<and>
     (\<exists>F. table_frame E P 0 = Some F \<and> (\<forall>t<1024. present (E F t) \<and> frame_of (E F t) = t)) \<and>
     distinct_slots (holder E P)"

lemma map_okD:
  assumes "map_ok E P"
  shows "present (E P 1023)" and "frame_of (E P 1023) = P" and "distinct_slots (holder E P)"
  using assms by (auto simp: map_ok_def)

lemma distinct_slotsD: "distinct_slots h \<Longrightarrow> h a = Some f \<Longrightarrow> h b = Some f \<Longrightarrow> a = b"
  by (auto simp: distinct_slots_def)

lemma distinct_slots_new:
  "distinct_slots h \<Longrightarrow> (\<And>a. h a \<noteq> Some f) \<Longrightarrow> distinct_slots (h(a := Some f))"
  unfolding distinct_slots_def by (auto split: if_splits)

lemma distinct_slots_drop: "distinct_slots h \<Longrightarrow> distinct_slots (h(a := None))"
  unfolding distinct_slots_def by (auto split: if_splits)

text \<open>The tables and the directory are in different frames.\<close>

lemma table_not_dir: "map_ok E P \<Longrightarrow> table_frame E P d = Some F \<Longrightarrow> F \<noteq> P"
  using distinct_slotsD [of "holder E P" Dir P "Table d"] by (auto simp: map_ok_def)

lemma tables_apart:
  "map_ok E P \<Longrightarrow> table_frame E P d = Some F \<Longrightarrow> table_frame E P e = Some F \<Longrightarrow> d = e"
  using distinct_slotsD [of "holder E P" "Table d" F "Table e"] by (auto simp: map_ok_def)

lemma lookup_table:
  "d < 1023 \<Longrightarrow> lookup_frame E P d t =
     Option.bind (table_frame E P d) (\<lambda>F. if present (E F t) then Some (frame_of (E F t)) else None)"
  by (simp add: lookup_frame_def table_frame_def)

section \<open>Entries that agree\<close>

text \<open>The map depends on the entries of the directory and of its tables only.\<close>

definition agree :: "(nat \<Rightarrow> nat \<Rightarrow> u32) \<Rightarrow> nat \<Rightarrow> (nat \<Rightarrow> nat \<Rightarrow> u32) \<Rightarrow> bool" where
  "agree E P E' \<longleftrightarrow> (\<forall>i<1024. E' P i = E P i) \<and>
     (\<forall>d F i. table_frame E P d = Some F \<longrightarrow> i < 1024 \<longrightarrow> E' F i = E F i)"

lemma agreeD:
  assumes "agree E P E'"
  shows "i < 1024 \<Longrightarrow> E' P i = E P i"
    and "table_frame E P d = Some F \<Longrightarrow> i < 1024 \<Longrightarrow> E' F i = E F i"
  using assms by (auto simp: agree_def)

lemma agree_table_frame: "agree E P E' \<Longrightarrow> table_frame E' P d = table_frame E P d"
  using agreeD(1) [of E P E' d] by (simp add: table_frame_def cong: conj_cong)

lemma agree_holder: "agree E P E' \<Longrightarrow> holder E' P = holder E P"
proof
  fix sl assume a: "agree E P E'"
  have "page_frame E' F t = page_frame E F t" if "table_frame E P d = Some F" for d F t
    using agreeD(2) [OF a that] by (rule page_frame_cong)
  then show "holder E' P sl = holder E P sl"
  proof (cases sl)
    case (Page d t)
    then show ?thesis
      using \<open>\<And>d F t. table_frame E P d = Some F \<Longrightarrow> page_frame E' F t = page_frame E F t\<close> [of d]
      by (cases "table_frame E P d") (simp_all add: agree_table_frame [OF a])
  qed (simp_all add: agree_table_frame [OF a])
qed

lemma agree_map_ok: "agree E P E' \<Longrightarrow> map_ok E P \<Longrightarrow> map_ok E' P"
  unfolding map_ok_def
  by (auto simp: agree_table_frame agree_holder agreeD)

lemma agree_lookup:
  assumes "agree E P E'" and "d < 1023" and "t < 1024"
  shows "lookup_frame E' P d t = lookup_frame E P d t"
  using assms agreeD(2) [OF assms(1), of d _ t]
  by (cases "table_frame E P d") (simp_all add: lookup_table agree_table_frame)

section \<open>A new page\<close>

text \<open>Entry \<open>t\<close> of the table of region \<open>d\<close> is written.\<close>

definition put_entry ::
  "(nat \<Rightarrow> nat \<Rightarrow> u32) \<Rightarrow> nat \<Rightarrow> nat \<Rightarrow> u32 \<Rightarrow> nat \<Rightarrow> nat \<Rightarrow> u32" where
  "put_entry E F t v g i = (if g = F \<and> i = t then v else E g i)"

lemma put_entry_tables:
  "F \<noteq> P \<Longrightarrow> table_frame (put_entry E F t v) P d = table_frame E P d"
  by (simp add: table_frame_def put_entry_def)

lemma put_entry_page:
  assumes ok: "map_ok E P" and F: "table_frame E P d = Some F" and G: "table_frame E P e = Some G"
  shows "e \<noteq> d \<Longrightarrow> put_entry E F t v G u = E G u"
    and "u \<noteq> t \<Longrightarrow> put_entry E F t v G u = E G u"
  using tables_apart [OF ok F, of e] G by (auto simp: put_entry_def)

lemma put_entry_holder:
  assumes ok: "map_ok E P" and F: "table_frame E P d = Some F" and d: "0 < d" and t: "t < 1024"
    and v: "\<not> (t = 1023 \<and> frame_of v = F)"
  shows "holder (put_entry E F t v) P
    = (holder E P)(Page d t := if present v then Some (frame_of v) else None)"
proof
  fix sl
  have FP: "F \<noteq> P" using table_not_dir [OF ok F] .
  show "holder (put_entry E F t v) P sl
      = ((holder E P)(Page d t := if present v then Some (frame_of v) else None)) sl"
  proof (cases sl)
    case (Page e u)
    show ?thesis
    proof (cases "table_frame E P e")
      case (Some G)
      show ?thesis
      proof (cases "e = d \<and> u = t")
        case True
        then show ?thesis
          using F d t v Page by (simp add: put_entry_tables [OF FP] page_frame_def put_entry_def)
      next
        case False
        then have "put_entry E F t v G u = E G u" using put_entry_page [OF ok F Some] by blast
        then show ?thesis
          using False Page Some by (auto simp: put_entry_tables [OF FP] page_frame_def)
      qed
    qed (use F Page in \<open>auto simp: put_entry_tables [OF FP]\<close>)
  qed (simp_all add: put_entry_tables [OF FP])
qed

lemma put_entry_map_ok:
  assumes ok: "map_ok E P" and F: "table_frame E P d = Some F" and d: "0 < d" and t: "t < 1024"
    and v: "\<not> (t = 1023 \<and> frame_of v = F)"
    and fresh: "present v \<Longrightarrow> \<forall>sl. holder E P sl \<noteq> Some (frame_of v)"
  shows "map_ok (put_entry E F t v) P"
proof -
  have FP: "F \<noteq> P" using table_not_dir [OF ok F] .
  obtain F0 where F0: "table_frame E P 0 = Some F0" "\<forall>t<1024. present (E F0 t) \<and> frame_of (E F0 t) = t"
    using ok by (auto simp: map_ok_def)
  have "F0 \<noteq> F" using tables_apart [OF ok F0(1), of d] F d by auto
  moreover have "distinct_slots (holder (put_entry E F t v) P)"
    unfolding put_entry_holder [OF ok F d t v] using map_okD(3) [OF ok] fresh
    by (cases "present v") (auto intro: distinct_slots_new distinct_slots_drop)
  ultimately show ?thesis
    using map_okD(1,2) [OF ok] F0 FP by (auto simp: map_ok_def put_entry_tables put_entry_def)
qed

lemma put_entry_lookup:
  assumes ok: "map_ok E P" and F: "table_frame E P d = Some F" and "e < 1023"
  shows "lookup_frame (put_entry E F t v) P e u =
    (if e = d \<and> u = t then (if present v then Some (frame_of v) else None) else lookup_frame E P e u)"
proof -
  have FP: "F \<noteq> P" using table_not_dir [OF ok F] .
  show ?thesis
  proof (cases "table_frame E P e")
    case (Some G)
    show ?thesis
    proof (cases "e = d \<and> u = t")
      case True
      then show ?thesis
        using assms(3) F by (simp add: lookup_table put_entry_tables [OF FP]) (simp add: put_entry_def)
    next
      case False
      then have "put_entry E F t v G u = E G u" using put_entry_page [OF ok F Some] by blast
      then show ?thesis
        using False assms(3) Some by (auto simp: lookup_table put_entry_tables [OF FP])
    qed
  qed (use F assms(3) in \<open>auto simp: lookup_table put_entry_tables [OF FP]\<close>)
qed

section \<open>A new table\<close>

text \<open>Region \<open>d\<close> gets the table in frame \<open>F\<close>: no page but the last, which is the table itself.\<close>

definition fresh_table :: "(nat \<Rightarrow> nat \<Rightarrow> u32) \<Rightarrow> nat \<Rightarrow> bool" where
  "fresh_table E F \<longleftrightarrow>
     (\<forall>i<1023. \<not> present (E F i)) \<and> present (E F 1023) \<and> frame_of (E F 1023) = F"

definition adds_table ::
  "(nat \<Rightarrow> nat \<Rightarrow> u32) \<Rightarrow> nat \<Rightarrow> nat \<Rightarrow> nat \<Rightarrow> (nat \<Rightarrow> nat \<Rightarrow> u32) \<Rightarrow> bool" where
  "adds_table E P d F E' \<longleftrightarrow>
     present (E' P d) \<and> frame_of (E' P d) = F \<and> fresh_table E' F \<and>
     (\<forall>i<1024. i \<noteq> d \<longrightarrow> E' P i = E P i) \<and>
     (\<forall>e G i. table_frame E P e = Some G \<longrightarrow> i < 1024 \<longrightarrow> E' G i = E G i)"

lemma adds_table_tables:
  "adds_table E P d F E' \<Longrightarrow> d < 1023 \<Longrightarrow> e < 1024 \<Longrightarrow>
     table_frame E' P e = (if e = d then Some F else table_frame E P e)"
  by (simp add: adds_table_def table_frame_def)

lemma adds_table_holder:
  assumes a: "adds_table E P d F E'" and d: "0 < d" "d < 1023" and none: "table_frame E P d = None"
  shows "holder E' P = (holder E P)(Table d \<mapsto> F)"
proof
  fix sl
  have t: "table_frame E' P e = (if e = d then Some F else table_frame E P e)" for e
    using adds_table_tables [OF a d(2), of e] d by (cases "e < 1024") (auto simp: table_frame_def)
  have same: "page_frame E' G u = page_frame E G u" if "table_frame E P e = Some G" for e G u
    using a that by (intro page_frame_cong) (simp add: adds_table_def)
  have new: "page_frame E' F u = None" for u
    using a by (cases "u = 1023")
      (auto simp: adds_table_def fresh_table_def page_frame_def less_Suc_eq)
  show "holder E' P sl = ((holder E P)(Table d \<mapsto> F)) sl"
  proof (cases sl)
    case (Page e u)
    then show ?thesis
      using none new same [of e] by (cases "table_frame E P e") (auto simp: t)
  qed (use none in \<open>auto simp: t\<close>)
qed

lemma adds_table_map_ok:
  assumes ok: "map_ok E P" and a: "adds_table E P d F E'" and d: "0 < d" "d < 1023"
    and none: "table_frame E P d = None" and fresh: "\<forall>sl. holder E P sl \<noteq> Some F"
  shows "map_ok E' P"
proof -
  obtain F0 where F0: "table_frame E P 0 = Some F0" "\<forall>t<1024. present (E F0 t) \<and> frame_of (E F0 t) = t"
    using ok by (auto simp: map_ok_def)
  have "distinct_slots (holder E' P)"
    unfolding adds_table_holder [OF a d none] using map_okD(3) [OF ok] fresh
    by (auto intro: distinct_slots_new)
  moreover have "table_frame E' P 0 = Some F0" using adds_table_tables [OF a d(2), of 0] d F0 by simp
  moreover have "\<forall>t<1024. present (E' F0 t) \<and> frame_of (E' F0 t) = t"
    using a F0 by (simp add: adds_table_def)
  ultimately show ?thesis
    using map_okD(1,2) [OF ok] a d by (auto simp: map_ok_def adds_table_def)
qed

lemma adds_table_lookup:
  assumes a: "adds_table E P d F E'" and d: "d < 1023" and e: "e < 1023" and t: "t < 1024"
  shows "lookup_frame E' P e t =
    (if e = d then (if t = 1023 then Some F else None) else lookup_frame E P e t)"
proof -
  have "lookup_frame E' P d t = (if t = 1023 then Some F else None)"
    using a d t adds_table_tables [OF a d, of d]
    by (auto simp: lookup_table adds_table_def fresh_table_def)
  moreover have "lookup_frame E' P e t = lookup_frame E P e t" if "e \<noteq> d"
    using a e t that adds_table_tables [OF a d, of e]
    by (cases "table_frame E P e") (auto simp: lookup_table adds_table_def)
  ultimately show ?thesis by simp
qed

end
