(* ===== verification/Fault_Handler.thy ===== *)
theory Fault_Handler
  imports Paging_Invariant
begin

text \<open>
  The fault handler of \<open>Page_Table\<close> against the invariant: the two updates of the map it makes,
  its loop over a new table, and the whole handler.
\<close>

section \<open>Writing one entry of a page's table\<close>

text \<open>The invariant, except that the frame of slot \<open>a\<close> need not be owned.\<close>

definition paging_ok_but :: "slot \<Rightarrow> 'a paging_state_scheme \<Rightarrow> bool" where
  "paging_ok_but a s \<longleftrightarrow> arena s \<and> bit (cr0 s) 31 \<and> map_ok (entry (mem s)) (frame_of (cr3 s)) \<and>
     (\<forall>sl f. sl \<noteq> a \<longrightarrow> slots s sl = Some f \<longrightarrow> owned s f)"

lemma paging_ok_but: "paging_ok s \<Longrightarrow> paging_ok_but a s"
  by (simp add: paging_ok_def paging_ok_but_def slots_def)

text \<open>Where a word written at an entry shows.\<close>

lemma write_entry_ok:
  assumes ok: "paging_ok_but (Page d t) s" and F: "slots s (Table d) = Some F" and d: "0 < d"
    and t: "t < 1024" and v: "\<not> (t = 1023 \<and> frame_of v = F)"
    and fresh: "present v \<longrightarrow> owned s (frame_of v) \<and> (\<forall>sl. slots s sl \<noteq> Some (frame_of v))"
    and s': "s' = s\<lparr>mem := store32 (entry_addr F t) v (mem s)\<rparr>"
  shows "paging_ok s'"
    and "slots s' = (slots s)(Page d t := if present v then Some (frame_of v) else None)"
    and "e < 1023 \<Longrightarrow> u < 1024 \<Longrightarrow> mapped s' e u =
      (if e = d \<and> u = t then (if present v then Some (frame_of v) else None) else mapped s e u)"
    and "owned s' = owned s" and "free_count s' = free_count s"
    and "x \<notin> frame_bytes F \<Longrightarrow> mem s' x = mem s x"
proof -
  let ?E = "entry (mem s)" and ?P = "frame_of (cr3 s)"
  let ?E' = "put_entry ?E F t v"
  have map: "map_ok ?E ?P" and ar: "arena s" using ok by (simp_all add: paging_ok_but_def)
  have own: "owned s g" if "slots s sl = Some g" "sl \<noteq> Page d t" for sl g
    using ok that by (simp add: paging_ok_but_def)
  have TF: "table_frame ?E ?P d = Some F" using F by simp
  have Fb: "1024 \<le> F" "F < frame_bound" using owned_bounds [OF ar own [OF F]] by simp_all
  have low: "store32 (entry_addr F t) v (mem s) x = mem s x" if "unat x < kernel_top" for x
    using store_high [OF Fb t that] .
  have s'_eq: "mem s' = store32 (entry_addr F t) v (mem s)" "cr3 s' = cr3 s" "cr0 s' = cr0 s"
    using s' by simp_all
  have ar': "arena s'" "owned s' = owned s" "free_count s' = free_count s"
    using arena_mem [OF ar low] s' by simp_all
  have fresh': "\<forall>sl. holder ?E ?P sl \<noteq> Some (frame_of v)" if "present v"
    using fresh that by (simp add: slots_def)
  have E'_ok: "map_ok ?E' ?P" using put_entry_map_ok [OF map TF d t v fresh'] .
  have "agree ?E' ?P (entry (mem s'))"
  proof -
    have "entry (mem s') g i = ?E' g i" if "slots s sl = Some g" "sl = Dir \<or> sl = Table e" "i < 1024" for sl g i e
    proof -
      have "g < frame_bound" using that(1,2) owned_bounds(2) [OF ar own] by auto
      then show ?thesis using entry_put [OF Fb(2) t, of g i v "mem s"] that(3) s'_eq by simp
    qed
    then show ?thesis
      using put_entry_tables [of F ?P ?E t v] table_not_dir [OF map TF]
      unfolding agree_def by (metis slots_simps)
  qed
  note a = this
  show slots: "slots s' = (slots s)(Page d t := if present v then Some (frame_of v) else None)"
    using agree_holder [OF a] put_entry_holder [OF map TF d t v] s'_eq by (simp add: slots_def)
  show "mapped s' e u = (if e = d \<and> u = t then (if present v then Some (frame_of v) else None)
      else mapped s e u)" if "e < 1023" "u < 1024"
    using agree_lookup [OF a that] put_entry_lookup [OF map TF that(1)] s'_eq by (simp add: mapped_def)
  have "owned s' g" if "slots s' sl = Some g" for sl g
    using that fresh own ar'(2) unfolding slots by (auto split: if_splits)
  then show "paging_ok s'"
    using ar' agree_map_ok [OF a E'_ok] ok s'_eq by (simp add: paging_ok_def paging_ok_but_def slots_def)
  show "owned s' = owned s" "free_count s' = free_count s" by (fact ar')+
  show "x \<notin> frame_bytes F \<Longrightarrow> mem s' x = mem s x"
    using store_outside_frame [OF Fb(2) t] s'_eq by simp
qed

section \<open>A new table\<close>

lemma cell_table_window: "cell (table_window va) i = table_window va + 4 * word_of_nat i"
  by (simp add: cell_def)

lemma fill_table_ok:
  assumes on: "bit (cr0 s) 31" and self: "self_mapped (mem s) (cr3 s)"
    and P: "frame_of (cr3 s) = P" and pde: "present (entry (mem s) P (dir_ix va))"
      "frame_of (entry (mem s) P (dir_ix va)) = f"
    and f: "f < frame_bound" "f \<noteq> P"
  shows "\<exists>m. fill_table (table_window va) (word_of_nat f) s = Inr (s\<lparr>mem := m\<rparr>)
    \<and> (\<forall>x. x \<notin> frame_bytes f \<longrightarrow> m x = mem s x)
    \<and> (\<forall>j<1024. entry m f j = (if j = 1023 then word_of_nat f * 4096 OR 7 else 6))"
proof -
  have P20: "P < frame_bound" using P by auto
  let ?J = "\<lambda>i s'. \<exists>m. s' = s\<lparr>mem := m\<rparr> \<and> (\<forall>x. x \<notin> frame_bytes f \<longrightarrow> m x = mem s x)
    \<and> (\<forall>j<i. entry m f j = (if j = 1023 then word_of_nat f * 4096 OR 7 else 6))"
  have st: "vstore (cell (table_window va) i) v (s\<lparr>mem := m\<rparr>)
      = Inr (s\<lparr>mem := store32 (entry_addr f i) v m\<rparr>)"
    if "i < 1024" "\<forall>x. x \<notin> frame_bytes f \<longrightarrow> m x = mem s x" for i v m
  proof -
    have "entry m P j = entry (mem s) P j" if "j < 1024" for j
      using \<open>\<forall>x. x \<notin> frame_bytes f \<longrightarrow> m x = mem s x\<close> frame_bytes_disjoint [OF f(2)]
      by (intro entry_cong [OF P20 that]) auto
    then have "self_mapped m (cr3 s)" "entry m P (dir_ix va) = entry (mem s) P (dir_ix va)"
      using self P by (simp_all add: self_mapped_def)
    then show ?thesis
      using walk_table_window [of m "cr3 s" i va] that(1) on P pde
      by (simp add: vstore_def translate_def cell_table_window)
  qed
  have step: "\<exists>s''. andThen (vstore (cell (table_window va) i) (2 OR 4) s') (\<lambda>s.
       if i = 1024 - 1 then vstore (cell (table_window va) i) (word_of_nat f * 4096 OR 7) s else Inr s)
       = Inr s'' \<and> ?J (Suc i) s''" if i: "i < 1024" and J: "?J i s'" for i s'
  proof -
    obtain m where m: "s' = s\<lparr>mem := m\<rparr>" "\<forall>x. x \<notin> frame_bytes f \<longrightarrow> m x = mem s x"
        "\<forall>j<i. entry m f j = (if j = 1023 then word_of_nat f * 4096 OR 7 else 6)"
      using J by blast
    let ?m1 = "store32 (entry_addr f i) 6 m"
    let ?m2 = "if i = 1023 then store32 (entry_addr f i) (word_of_nat f * 4096 OR 7) ?m1 else ?m1"
    have m1: "\<forall>x. x \<notin> frame_bytes f \<longrightarrow> ?m1 x = mem s x"
      using m(2) store_outside_frame [OF f(1) i] by simp
    have m2: "\<forall>x. x \<notin> frame_bytes f \<longrightarrow> ?m2 x = mem s x"
      using m1 store_outside_frame [OF f(1) i] by (cases "i = 1023") simp_all
    have "entry ?m2 f j = (if j = 1023 then word_of_nat f * 4096 OR 7 else 6)" if "j < Suc i" for j
      using m(3) that i f(1) by (auto simp: entry_store32 less_Suc_eq)
    moreover have "andThen (vstore (cell (table_window va) i) (2 OR 4) s') (\<lambda>s.
       if i = 1024 - 1 then vstore (cell (table_window va) i) (word_of_nat f * 4096 OR 7) s else Inr s)
       = Inr (s\<lparr>mem := ?m2\<rparr>)"
      using m(1) st [OF i m(2)] st [OF i m1] by (cases "i = 1023") simp_all
    ultimately show ?thesis using m2 by blast
  qed
  let ?body = "\<lambda>i s. andThen (vstore (cell (table_window va) i) (2 OR 4) s) (\<lambda>s.
       if i = 1024 - 1 then vstore (cell (table_window va) i) (word_of_nat f * 4096 OR 7) s else Inr s)"
  have "?J 0 s" by (intro exI [of _ "mem s"]) simp
  then have "\<exists>s'. for_each ?body [0..<1024] s = Inr s' \<and> ?J 1024 s'"
    by (intro for_each_invariant) (simp, assumption, rule step)
  then obtain s' where s': "for_each ?body [0..<1024] s = Inr s'" "?J 1024 s'" by blast
  from s'(2) obtain m where m: "s' = s\<lparr>mem := m\<rparr>" "\<forall>x. x \<notin> frame_bytes f \<longrightarrow> m x = mem s x"
      "\<forall>j<1024. entry m f j = (if j = 1023 then word_of_nat f * 4096 OR 7 else 6)"
    by (elim exE conjE)
  have "fill_table (table_window va) (word_of_nat f) s = for_each ?body [0..<1024] s"
    by (simp only: fill_table_def)
  then have "fill_table (table_window va) (word_of_nat f) s = Inr (s\<lparr>mem := m\<rparr>)"
    using s'(1) m(1) by (simp only:)
  with m(2,3) show ?thesis by (intro exI conjI)
qed

text \<open>
  The directory entry of an empty region is written and its table filled: one more slot, and no
  page yet.
\<close>

lemma new_table_ok:
  assumes ok: "paging_ok s" and none: "slots s (Table d) = None" and d: "0 < d" "d < 1023" "d = dir_ix va"
    and taken: "takes_frame s f s1"
    and s2: "s2 = s1\<lparr>mem := store32 (entry_addr (frame_of (cr3 s)) d) (word_of_nat f * 4096 OR 7) (mem s1)\<rparr>"
  shows "\<exists>s3. fill_table (table_window va) (word_of_nat f) s2 = Inr s3
    \<and> paging_ok s3 \<and> slots s3 = (slots s)(Table d \<mapsto> f)
    \<and> (\<forall>e u. e < 1023 \<longrightarrow> u < 1024 \<longrightarrow> mapped s3 e u =
         (if e = d then (if u = 1023 then Some f else None) else mapped s e u))
    \<and> (\<forall>g. owned s3 g \<longleftrightarrow> g = f \<or> owned s g) \<and> Suc (free_count s3) = free_count s
    \<and> (\<forall>x. kernel_top \<le> unat x \<longrightarrow> x \<notin> frame_bytes f \<longrightarrow> x \<notin> frame_bytes (frame_of (cr3 s))
         \<longrightarrow> mem s3 x = mem s x)
    \<and> frames_only s s3"
proof -
  let ?P = "frame_of (cr3 s)" and ?v = "word_of_nat f * 4096 OR 7 :: u32"
  let ?E = "entry (mem s)"
  have f: "1024 \<le> f" "f < frame_bound" and fields: "frames_only s s1"
    using taken by (simp_all add: takes_frame_def)
  have v: "frame_of ?v = f" "present ?v" using page_entry [OF f(2), of 7] by simp_all
  have Pb: "1024 \<le> ?P" "?P < frame_bound" using paging_okD(5,6) [OF ok, of Dir] by simp_all
  have fP: "f \<noteq> ?P" using takes_frame_ok(3) [OF ok taken, of Dir] by auto
  have map: "map_ok ?E ?P" using paging_okD(3) [OF ok] .
  have none': "table_frame ?E ?P d = None" using none by simp
  have dd: "d < 1024" using d by simp
  have s2_fields: "cr0 s2 = cr0 s" "cr3 s2 = cr3 s" "mem s2 = store32 (entry_addr ?P d) ?v (mem s1)"
    using s2 takes_frame_fields [OF taken] by simp_all
  have e2: "entry (mem s2) g i = (if g = ?P \<and> i = d then ?v else ?E g i)"
    if "1024 \<le> g" "g < frame_bound" "i < 1024" for g i
    using that takes_frame_entry [OF taken, of g i] entry_put [OF Pb(2) dd, of g i] s2_fields(3)
    by (simp add: put_entry_def)
  have self2: "self_mapped (mem s2) (cr3 s2)"
    using e2 [OF Pb, of 1023] map_okD(1,2) [OF map] d s2_fields by (simp add: self_mapped_def)
  have on: "bit (cr0 s2) 31" using ok s2_fields by (simp add: paging_ok_def)
  have pde: "present (entry (mem s2) ?P (dir_ix va))" "frame_of (entry (mem s2) ?P (dir_ix va)) = f"
    using e2 [OF Pb dd] v d(3) by simp_all
  obtain m where m: "fill_table (table_window va) (word_of_nat f) s2 = Inr (s2\<lparr>mem := m\<rparr>)"
      "\<forall>x. x \<notin> frame_bytes f \<longrightarrow> m x = mem s2 x"
      "\<forall>j<1024. entry m f j = (if j = 1023 then ?v else 6)"
    using fill_table_ok [OF on self2 _ pde f(2) fP] s2_fields by auto
  let ?s3 = "s2\<lparr>mem := m\<rparr>"
  have e3: "entry m g i = (if g = ?P \<and> i = d then ?v else ?E g i)"
    if "g \<noteq> f" "1024 \<le> g" "g < frame_bound" "i < 1024" for g i
  proof -
    have "entry m g i = entry (mem s2) g i"
      using m(2) frame_bytes_disjoint [OF that(1)] by (intro entry_cong [OF that(3,4)]) auto
    then show ?thesis using e2 that by simp
  qed
  have not6: "\<not> present 6" by (simp add: present_def)
  have adds: "adds_table ?E ?P d f (entry m)"
    unfolding adds_table_def
  proof (intro conjI allI impI)
    show "present (entry m ?P d)" "frame_of (entry m ?P d) = f"
      using e3 [OF fP [symmetric] Pb dd] v by simp_all
    show "fresh_table (entry m) f" using m(3) v not6 by (simp add: fresh_table_def)
    show "entry m ?P i = ?E ?P i" if "i < 1024" "i \<noteq> d" for i
      using e3 [OF fP [symmetric] Pb that(1)] that(2) by simp
    show "entry m G i = ?E G i" if "table_frame ?E ?P e = Some G" "i < 1024" for e G i
    proof -
      have "slots s (Table e) = Some G" using that(1) by simp
      then have "G \<noteq> f" "1024 \<le> G" "G < frame_bound"
        using takes_frame_ok(3) [OF ok taken, of "Table e"] paging_okD(5,6) [OF ok, of "Table e" G]
        by auto
      then show ?thesis using e3 that(2) table_not_dir [OF map that(1)] by simp
    qed
  qed
  have fresh: "\<forall>sl. holder ?E ?P sl \<noteq> Some f"
    using takes_frame_ok(3) [OF ok taken] by (simp add: slots_def)
  have sl: "slots ?s3 = (slots s)(Table d \<mapsto> f)"
    using adds_table_holder [OF adds d(1,2) none'] s2_fields by (simp add: slots_def)
  have mp: "mapped ?s3 e u = (if e = d then (if u = 1023 then Some f else None) else mapped s e u)"
    if "e < 1023" "u < 1024" for e u
    using adds_table_lookup [OF adds d(2) that] s2_fields by (simp add: mapped_def)
  have low: "m x = mem s1 x" if "unat x < kernel_top" for x
  proof -
    have "x \<notin> frame_bytes f" using that f(1) by (auto simp: frame_bytes_def kernel_top_def)
    then show ?thesis using m(2) store_high [OF Pb dd that] s2_fields(3) by simp
  qed
  have s3: "?s3 = s1\<lparr>mem := m\<rparr>" using s2 by simp
  have ar: "arena s1" using taken by (simp add: takes_frame_def)
  note am = arena_mem [OF ar low]
  have own: "owned ?s3 g \<longleftrightarrow> g = f \<or> owned s g" for g
    using taken am(2) s3 by (simp add: takes_frame_def)
  have "paging_ok ?s3"
    using adds_table_map_ok [OF map adds d(1,2) none' fresh] am(1) ok sl own paging_okD(4) [OF ok]
      s3 s2_fields takes_frame_fields [OF taken] unfolding paging_ok_def slots_def by (auto split: if_splits)
  moreover have "Suc (free_count ?s3) = free_count s" using taken am(3) s3 by (simp add: takes_frame_def)
  moreover have "mem ?s3 x = mem s x"
    if "kernel_top \<le> unat x" "x \<notin> frame_bytes f" "x \<notin> frame_bytes ?P" for x
    using m(2) that store_outside_frame [OF Pb(2) dd that(3)] taken s2_fields(3)
    by (simp add: takes_frame_def)
  moreover have "frames_only s ?s3" using s3 fields by simp
  ultimately show ?thesis using m(1) sl mp own by blast
qed

section \<open>The handler\<close>

text \<open>The state in which the processor enters the handler for a fault at \<open>va\<close>.\<close>

text \<open>The part of \<open>handle_fault\<close> that makes sure there is a page table.\<close>

lemma pde_access:
  assumes ok: "paging_ok s"
  shows "vload (pde_window va) s = Inr (entry (mem s) (frame_of (cr3 s)) (dir_ix va))"
    and "frames_only s s1 \<Longrightarrow> self_mapped (mem s1) (cr3 s) \<Longrightarrow>
      vstore (pde_window va) v s1
        = Inr (s1\<lparr>mem := store32 (entry_addr (frame_of (cr3 s)) (dir_ix va)) v (mem s1)\<rparr>)"
proof -
  have "self_mapped (mem s) (cr3 s)" using self_mapped_ok paging_okD(3) [OF ok] .
  then show "vload (pde_window va) s = Inr (entry (mem s) (frame_of (cr3 s)) (dir_ix va))"
    using walk_pde_window paging_okD(2) [OF ok] by (simp add: vload_def translate_def entry_def)
  assume e: "frames_only s s1" and self: "self_mapped (mem s1) (cr3 s)"
  have "cr0 s1 = cr0 s" "cr3 s1 = cr3 s" using frames_only_fields [OF e] by simp_all
  then show "vstore (pde_window va) v s1
        = Inr (s1\<lparr>mem := store32 (entry_addr (frame_of (cr3 s)) (dir_ix va)) v (mem s1)\<rparr>)"
    using walk_pde_window [OF self] paging_okD(2) [OF ok] by (simp add: vstore_def translate_def)
qed

lemma pte_access:
  assumes ok: "paging_ok s" and F: "slots s (Table (dir_ix va)) = Some F"
  shows "translate s (pte_window va) = Some (entry_addr F (tbl_ix va))"
proof -
  have "self_mapped (mem s) (cr3 s)" using self_mapped_ok paging_okD(3) [OF ok] .
  then show ?thesis
    using walk_pte_window paging_okD(2) [OF ok] F
    by (auto simp: translate_def table_frame_def split: if_splits)
qed

text \<open>
  What one fault at \<open>va\<close> does.  \<open>f\<close> is the new frame of the page; \<open>grown\<close> says whether region
  \<open>dir_ix va\<close> had no table yet.
\<close>

definition page_added ::
  "'a paging_state_scheme \<Rightarrow> u32 \<Rightarrow> nat \<Rightarrow> 'a paging_state_scheme \<Rightarrow> bool" where
  "page_added s va f s' \<longleftrightarrow>
     paging_ok s' \<and> \<not> owned s f \<and> slots s' (Page (dir_ix va) (tbl_ix va)) = Some f \<and>
     (\<forall>sl g. slots s sl = Some g \<longrightarrow> slots s' sl = Some g) \<and>
     (\<forall>e. e \<noteq> dir_ix va \<longrightarrow> slots s' (Table e) = slots s (Table e)) \<and>
     (\<forall>g. owned s g \<longrightarrow> owned s' g) \<and>
     mapped s' (dir_ix va) (tbl_ix va) = Some f \<and>
     (\<forall>e u. e < 1023 \<longrightarrow> u < 1024 \<longrightarrow> mapped s e u \<noteq> None \<longrightarrow> mapped s' e u = mapped s e u) \<and>
     (\<forall>e u. e < 1023 \<longrightarrow> u < 1023 \<longrightarrow> (e, u) \<noteq> (dir_ix va, tbl_ix va) \<longrightarrow> mapped s' e u = mapped s e u) \<and>
     free_count s = free_count s' + (if slots s (Table (dir_ix va)) = None then 2 else 1) \<and>
     (\<forall>sl g x. slots s sl = Some g \<longrightarrow> (\<forall>d. sl \<noteq> Table d) \<longrightarrow> sl \<noteq> Dir \<longrightarrow> x \<in> frame_bytes g
        \<longrightarrow> mem s' x = mem s x) \<and>
     (slots s (Table (dir_ix va)) = None \<longrightarrow> tbl_ix va \<noteq> 1023 \<longrightarrow>
        (\<exists>F. slots s' (Table (dir_ix va)) = Some F \<and> mapped s' (dir_ix va) 1023 = Some F)) \<and>
     frames_only s s'"

text \<open>The last step: a frame for the page, written into the table.\<close>

lemma add_page:
  assumes ok: "paging_ok s" and F: "slots s (Table (dir_ix va)) = Some F" and d: "0 < dir_ix va"
    and none: "slots s (Page (dir_ix va) (tbl_ix va)) = None" and free: "0 < free_count s"
  shows "\<exists>f s1 s2. get_process_frame s = Inr (word_of_nat f, s1)
    \<and> vstore (pte_window va) (word_of_nat f * PAGE_SIZE OR 7) s1 = Inr s2
    \<and> paging_ok s2 \<and> slots s2 = (slots s)(Page (dir_ix va) (tbl_ix va) \<mapsto> f) \<and> \<not> owned s f
    \<and> (\<forall>g. owned s2 g \<longleftrightarrow> g = f \<or> owned s g)
    \<and> (\<forall>e u. e < 1023 \<longrightarrow> u < 1024 \<longrightarrow> mapped s2 e u =
         (if e = dir_ix va \<and> u = tbl_ix va then Some f else mapped s e u))
    \<and> Suc (free_count s2) = free_count s
    \<and> (\<forall>x. kernel_top \<le> unat x \<longrightarrow> x \<notin> frame_bytes F \<longrightarrow> mem s2 x = mem s x)
    \<and> frames_only s s2"
proof -
  obtain f s1 where f: "get_process_frame s = Inr (word_of_nat f, s1)" and t: "takes_frame s f s1"
    using get_process_frame_ok [OF paging_okD(1) [OF ok] free] by blast
  have fb: "f < frame_bound" and own1: "owned s1 g \<longleftrightarrow> g = f \<or> owned s g"
    and fields: "frames_only s s1" for g
    using t by (simp_all add: takes_frame_def)
  note ok1 = takes_frame_ok [OF ok t]
  let ?v = "word_of_nat f * PAGE_SIZE OR 7 :: u32"
  have v: "frame_of ?v = f" "present ?v" using page_entry [OF fb, of 7] by simp_all
  have F1: "slots s1 (Table (dir_ix va)) = Some F" using F ok1(2) by metis
  define s2 where s2: "s2 = s1\<lparr>mem := store32 (entry_addr F (tbl_ix va)) ?v (mem s1)\<rparr>"
  have fF: "frame_of ?v \<noteq> F" using v(1) F ok1(3) by metis
  have fresh: "present ?v \<longrightarrow> owned s1 (frame_of ?v) \<and> (\<forall>sl. slots s1 sl \<noteq> Some (frame_of ?v))"
    using v(1) own1 ok1(2,3) by simp
  note w = write_entry_ok [where v = ?v and s' = s2 and t = "tbl_ix va",
      OF paging_ok_but [OF ok1(1)] F1 d tbl_ix_bound]
  have fF': "\<not> (tbl_ix va = 1023 \<and> frame_of ?v = F)" using fF by simp
  have st: "vstore (pte_window va) ?v s1 = Inr s2"
    using pte_access [OF ok1(1) F1] by (simp add: vstore_def s2)
  have "slots s2 = (slots s)(Page (dir_ix va) (tbl_ix va) \<mapsto> f)"
    using w(2) [OF fF' fresh s2] v ok1(2) by simp
  moreover have "mapped s2 e u = (if e = dir_ix va \<and> u = tbl_ix va then Some f else mapped s e u)"
    if "e < 1023" "u < 1024" for e u
    using w(3) [OF fF' fresh s2 that] ok1(4) [OF that] v by simp
  moreover have "Suc (free_count s2) = free_count s"
    using w(5) [OF fF' fresh s2] t by (simp add: takes_frame_def)
  moreover have "mem s2 x = mem s x" if "kernel_top \<le> unat x" "x \<notin> frame_bytes F" for x
    using w(6) [OF fF' fresh s2 that(2)] t that(1) by (simp add: takes_frame_def)
  moreover have "frames_only s s2" using fields s2 by simp
  moreover have "\<not> owned s f" using t by (simp add: takes_frame_def)
  moreover have "owned s2 g \<longleftrightarrow> g = f \<or> owned s g" for g
    using w(4) [OF fF' fresh s2] own1 by simp
  ultimately show ?thesis
    using f st w(1) [OF fF' fresh s2] by blast
qed

text \<open>
  The handler for a fault at \<open>va\<close>, in a region other than the kernel's and the last: it returns,
  the page has a frame that nothing held, and everything that was mapped is as it was.
\<close>

lemma slots_page_unmapped:
  "mapped s d t = None \<Longrightarrow> d < 1023 \<Longrightarrow> slots s (Page d t) = None"
  by (auto simp: slots_def mapped_def lookup_table page_frame_def split: if_splits bind_splits)

lemma handle_fault_cr2: "handle_fault e s = handle_fault e (s\<lparr>cr2 := cr2 s\<rparr>)"
  by simp

lemma paging_ok_cr2 [simp]:
  "paging_ok (s\<lparr>cr2 := a\<rparr>) = paging_ok s" "slots (s\<lparr>cr2 := a\<rparr>) = slots s"
  "mapped (s\<lparr>cr2 := a\<rparr>) = mapped s" "owned (s\<lparr>cr2 := a\<rparr>) = owned s"
  "free_count (s\<lparr>cr2 := a\<rparr>) = free_count s"
proof -
  have st: "process_states (s\<lparr>cr2 := a\<rparr>) = process_states s" "process_base (s\<lparr>cr2 := a\<rparr>) = process_base s"
    by (simp_all add: process_states_def process_base_def states_def)
  then show o: "owned (s\<lparr>cr2 := a\<rparr>) = owned s" by (simp add: fun_eq_iff owned_def)
  show "free_count (s\<lparr>cr2 := a\<rparr>) = free_count s" using st by (simp add: free_count_def)
  have "arena (s\<lparr>cr2 := a\<rparr>) = arena s" by (simp add: arena_def pools_ok_def)
  then show "paging_ok (s\<lparr>cr2 := a\<rparr>) = paging_ok s" using o by (simp add: paging_ok_def)
  show "slots (s\<lparr>cr2 := a\<rparr>) = slots s" "mapped (s\<lparr>cr2 := a\<rparr>) = mapped s"
    by (simp_all add: slots_def mapped_def)
qed

definition fault_cost :: "'a paging_state_scheme \<Rightarrow> u32 \<Rightarrow> nat" where
  "fault_cost s va = (if slots s (Table (dir_ix va)) = None then 2 else 1)"

lemma handle_fault_ok:
  assumes ok: "paging_ok s" and va: "cr2 s = va" and d: "0 < dir_ix va" "dir_ix va < 1023"
    and unmapped: "mapped s (dir_ix va) (tbl_ix va) = None"
    and free: "fault_cost s va \<le> free_count s" and err: "err AND 1 = 0"
  shows "\<exists>f s'. handle_fault err s = Inr s' \<and> page_added s va f s'"
proof -
  let ?d = "dir_ix va" and ?t = "tbl_ix va" and ?P = "frame_of (cr3 s)"
  let ?E = "entry (mem s)"
  have table: "slots s (Table ?d) = (if present (?E ?P ?d) then Some (frame_of (?E ?P ?d)) else None)"
    using d(2) by (simp add: table_frame_def)
  have none: "slots s (Page ?d ?t) = None" using slots_page_unmapped [OF unmapped d(2)] .
  note pde = pde_access [OF ok]
  show ?thesis
  proof (cases "slots s (Table ?d)")
    case (Some F)
    then have pres: "present (?E ?P ?d)" using table by (simp split: if_splits)
    have fr: "0 < free_count s" using free Some by (simp add: fault_cost_def)
    obtain f s1 s2 where f: "get_process_frame s = Inr (word_of_nat f, s1)"
        "vstore (pte_window va) (word_of_nat f * PAGE_SIZE OR 7) s1 = Inr s2"
      and s2: "paging_ok s2" "slots s2 = (slots s)(Page ?d ?t \<mapsto> f)" "\<not> owned s f"
        "\<forall>g. owned s2 g \<longleftrightarrow> g = f \<or> owned s g"
        "\<forall>e u. e < 1023 \<longrightarrow> u < 1024 \<longrightarrow> mapped s2 e u =
           (if e = ?d \<and> u = ?t then Some f else mapped s e u)"
        "Suc (free_count s2) = free_count s"
        "\<forall>x. kernel_top \<le> unat x \<longrightarrow> x \<notin> frame_bytes F \<longrightarrow> mem s2 x = mem s x" "frames_only s s2"
      using add_page [OF ok Some d(1) none fr] by blast
    have "handle_fault err s = Inr s2"
      using pde(1) [of va] pres f va err by (simp add: handle_fault_def present_and_1)
    moreover have "mem s2 x = mem s x"
      if "slots s sl = Some g" "\<forall>d. sl \<noteq> Table d" "x \<in> frame_bytes g" for sl g x
    proof -
      have "1024 \<le> g" using paging_okD(5) [OF ok that(1)] .
      moreover have "g \<noteq> F"
        using distinct_slotsD [OF map_okD(3) [OF paging_okD(3) [OF ok]], of sl g "Table ?d"] that Some
        by (auto simp: slots_def)
      ultimately show ?thesis
        using s2(7) that(3) by (auto simp: frame_bytes_def kernel_top_def)
    qed
    moreover have "table_frame (entry (mem s2)) (frame_of (cr3 s2)) e = table_frame (entry (mem s)) ?P e" for e
    proof -
      have "slots s2 (Table e) = slots s (Table e)" unfolding s2(2) by (simp del: slots_simps)
      then show ?thesis by simp
    qed
    ultimately show ?thesis
      using s2 Some none unmapped d(2) unfolding page_added_def by auto
  next
    case None
    then have pres: "\<not> present (?E ?P ?d)" using table by (simp split: if_splits)
    have fr: "0 < free_count s" "2 \<le> free_count s" using free None by (simp_all add: fault_cost_def)
    obtain f1 s1 where f1: "get_process_frame s = Inr (word_of_nat f1, s1)" and t1: "takes_frame s f1 s1"
      using get_process_frame_ok [OF paging_okD(1) [OF ok] fr(1)] by blast
    have fo1: "frames_only s s1" using t1 by (simp add: takes_frame_def)
    have self1: "self_mapped (mem s1) (cr3 s)"
      using self_mapped_ok [OF paging_okD(3) [OF takes_frame_ok(1) [OF ok t1]]]
        frames_only_fields [OF fo1] by simp
    define s2 where s2: "s2 = s1\<lparr>mem := store32 (entry_addr ?P ?d) (word_of_nat f1 * 4096 OR 7) (mem s1)\<rparr>"
    have st: "vstore (pde_window va) (word_of_nat f1 * PAGE_SIZE OR 7) s1 = Inr s2"
      using pde(2) [OF fo1 self1] s2 by simp
    obtain s3 where s3: "fill_table (table_window va) (word_of_nat f1) s2 = Inr s3" "paging_ok s3"
        "slots s3 = (slots s)(Table ?d \<mapsto> f1)"
        "\<forall>e u. e < 1023 \<longrightarrow> u < 1024 \<longrightarrow> mapped s3 e u =
           (if e = ?d then (if u = 1023 then Some f1 else None) else mapped s e u)"
        "\<forall>g. owned s3 g \<longleftrightarrow> g = f1 \<or> owned s g" "Suc (free_count s3) = free_count s"
        "\<forall>x. kernel_top \<le> unat x \<longrightarrow> x \<notin> frame_bytes f1 \<longrightarrow> x \<notin> frame_bytes ?P
           \<longrightarrow> mem s3 x = mem s x" "frames_only s s3"
      using new_table_ok [OF ok None d refl t1 s2] by blast
    have F3: "slots s3 (Table ?d) = Some f1" using s3(3) by simp
    have none3: "slots s3 (Page ?d ?t) = None" using none s3(3) by simp
    have fr3: "0 < free_count s3" using s3(6) fr(2) by simp
    obtain f s4 s5 where f: "get_process_frame s3 = Inr (word_of_nat f, s4)"
        "vstore (pte_window va) (word_of_nat f * PAGE_SIZE OR 7) s4 = Inr s5"
      and s5: "paging_ok s5" "slots s5 = (slots s3)(Page ?d ?t \<mapsto> f)" "\<not> owned s3 f"
        "\<forall>g. owned s5 g \<longleftrightarrow> g = f \<or> owned s3 g"
        "\<forall>e u. e < 1023 \<longrightarrow> u < 1024 \<longrightarrow> mapped s5 e u =
           (if e = ?d \<and> u = ?t then Some f else mapped s3 e u)"
        "Suc (free_count s5) = free_count s3"
        "\<forall>x. kernel_top \<le> unat x \<longrightarrow> x \<notin> frame_bytes f1 \<longrightarrow> mem s5 x = mem s3 x" "frames_only s3 s5"
      using add_page [OF s3(2) F3 d(1) none3 fr3] by blast
    have "handle_fault err s = Inr s5"
      using pde(1) [of va] pres f1 st s3(1) f va err by (simp add: handle_fault_def present_and_1)
    moreover have "mem s5 x = mem s x"
      if "slots s sl = Some g" "sl \<noteq> Dir" "x \<in> frame_bytes g" for sl g x
    proof -
      have "1024 \<le> g" using paging_okD(5) [OF ok that(1)] .
      moreover have "g \<noteq> f1" using takes_frame_ok(3) [OF ok t1, of sl] that(1) by auto
      moreover have "g \<noteq> ?P"
        using distinct_slotsD [OF map_okD(3) [OF paging_okD(3) [OF ok]], of sl g Dir] that
        by (auto simp: slots_def)
      ultimately show ?thesis
        using s5(7) s3(7) that(3) by (auto simp: frame_bytes_def kernel_top_def)
    qed
    moreover have "mapped s ?d u = None" for u
      using None d(2) by (simp add: mapped_def lookup_table)
    moreover have "slots s5 sl = Some g" if "slots s sl = Some g" for sl g
      using that s5(2) s3(3) None none by auto
    moreover have "table_frame (entry (mem s5)) (frame_of (cr3 s5)) ?d = Some f1"
    proof -
      have "slots s5 (Table ?d) = Some f1" using F3 unfolding s5(2) by simp
      then show ?thesis by simp
    qed
    moreover have "table_frame (entry (mem s5)) (frame_of (cr3 s5)) e = table_frame (entry (mem s)) ?P e" if "e \<noteq> ?d" for e
    proof -
      have "slots s5 (Table e) = slots s (Table e)" unfolding s5(2) s3(3) using that by (simp del: slots_simps)
      then show ?thesis by simp
    qed
    moreover have "frames_only s s5" using frames_only_trans [OF s3(8) s5(8)] .
    ultimately show ?thesis
      using s5(1-6) s3(4,5,6) None d(2) unfolding page_added_def by auto
  qed
qed

text \<open>Without a free frame the assertion in the handler fails.\<close>

lemma handle_fault_exhausted:
  assumes ok: "paging_ok s" and free: "free_count s = 0" and err: "err AND 1 = 0"
  shows "handle_fault err s = Inl Assertion"
  using get_process_frame_exhausted [OF paging_okD(1) [OF ok] free] pde_access(1) [OF ok] err
  by (simp add: handle_fault_def)

section \<open>Accesses that may fault\<close>

lemma touch_resident: "translate s a = Some pa \<Longrightarrow> touch err a s = Some (Inr (pa, s))"
  by (simp add: touch.simps)

lemma demand_resident:
  assumes "translate s a = Some pa"
  shows "demand_load a s = Inr (load32 (mem s) pa, s)"
    and "demand_store a v s = Inr (s\<lparr>mem := store32 pa v (mem s)\<rparr>)"
  using touch_resident [OF assms] by (simp_all add: demand_load_def demand_store_def)

lemma touch_unmapped:
  assumes ok: "paging_ok s" and d: "0 < dir_ix a" "dir_ix a < 1023"
    and un: "translate s a = None" and free: "fault_cost s a \<le> free_count s" and err: "err AND 1 = 0"
  shows "\<exists>f s'. touch err a s = Some (Inr (phys f (offset a), s')) \<and> page_added (s\<lparr>cr2 := a\<rparr>) a f s'"
proof -
  let ?s = "s\<lparr>cr2 := a\<rparr>"
  have ok': "paging_ok ?s" using ok by simp
  have "mapped ?s (dir_ix a) (tbl_ix a) = None"
    using un translate_mapped [OF paging_okD(2) [OF ok]] by simp
  moreover have "fault_cost ?s a \<le> free_count ?s" using free by (simp add: fault_cost_def)
  ultimately obtain f s' where s': "handle_fault err ?s = Inr s'" "page_added ?s a f s'"
    using handle_fault_ok [OF ok' _ d _ _ err] by auto
  then have "translate s' a = Some (phys f (offset a))"
    using translate_mapped [of s' a] by (simp add: page_added_def paging_ok_def)
  then have "touch err a s = Some (Inr (phys f (offset a), s'))"
    using un s'(1) by (simp add: touch.simps [of err a s] touch_resident)
  then show ?thesis using s'(2) by blast
qed

end
