(* ===== verification/Regions.thy ===== *)
theory Regions
  imports Prelude
begin

text \<open>
  What a \<open>VMPool\<close> promises, without its lists in memory: the allocated and the free regions are
  two lists of pairs (start, length), \<open>alloc_regions\<close> takes the first free region that is large
  enough and cuts the request off its front, \<open>release_regions\<close> puts a region back behind the
  free ones.  The invariant \<open>partitions\<close> says that every address of the pool lies in exactly one
  region, so regions never overlap and no address is lost.
\<close>

type_synonym region = "u32 \<times> u32"

definition region_set :: "region \<Rightarrow> nat set" where
  "region_set r = {unat (fst r)..<unat (fst r) + unat (snd r)}"

text \<open>How many regions of a list an address lies in.\<close>

definition cover :: "region list \<Rightarrow> nat \<Rightarrow> nat" where
  "cover rs x = (\<Sum>r\<leftarrow>rs. if x \<in> region_set r then 1 else 0)"

definition page_region :: "region \<Rightarrow> bool" where
  "page_region r \<longleftrightarrow> snd r \<noteq> 0 \<and> fst r mod 4096 = 0 \<and> snd r mod 4096 = 0"

definition partitions :: "nat \<Rightarrow> nat \<Rightarrow> region list \<Rightarrow> region list \<Rightarrow> bool" where
  "partitions lo hi as fs \<longleftrightarrow>
     hi \<le> 2 ^ 32 \<and> (\<forall>r\<in>set (as @ fs). page_region r) \<and>
     (\<forall>x. cover (as @ fs) x = (if lo \<le> x \<and> x < hi then 1 else 0))"

definition drop_nth :: "nat \<Rightarrow> 'a list \<Rightarrow> 'a list" where
  "drop_nth k xs = take k xs @ drop (Suc k) xs"

definition first_fit :: "u32 \<Rightarrow> region list \<Rightarrow> nat" where
  "first_fit sz fs = length (takeWhile (\<lambda>r. snd r < sz) fs)"

definition alloc_regions ::
  "u32 \<Rightarrow> region list \<Rightarrow> region list \<Rightarrow> (u32 \<times> region list \<times> region list) option" where
  "alloc_regions sz as fs =
     (let k = first_fit sz fs in
      if k < length fs \<and> length as < 511
      then let (start, len) = fs ! k in
        Some (start, as @ [(start, sz)],
          if sz < len then fs[k := (start + sz, len - sz)] else drop_nth k fs)
      else None)"

definition region_ix :: "u32 \<Rightarrow> region list \<Rightarrow> nat" where
  "region_ix start as = length (takeWhile (\<lambda>r. fst r \<noteq> start) as)"

definition release_regions ::
  "u32 \<Rightarrow> region list \<Rightarrow> region list \<Rightarrow> (region list \<times> region list) option" where
  "release_regions start as fs =
     (let k = region_ix start as in
      if k < length as \<and> length fs < 511 then Some (drop_nth k as, fs @ [as ! k]) else None)"

section \<open>Coverage\<close>

lemma cover_simps [simp]:
  "cover [] x = 0"
  "cover (r # rs) x = (if x \<in> region_set r then 1 else 0) + cover rs x"
  "cover (rs @ qs) x = cover rs x + cover qs x"
  by (simp_all add: cover_def)

lemma drop_nth_split: "k < length xs \<Longrightarrow> xs = take k xs @ xs ! k # drop (Suc k) xs"
  by (simp add: Cons_nth_drop_Suc)

lemma length_drop_nth [simp]: "k < length xs \<Longrightarrow> length (drop_nth k xs) = length xs - 1"
  by (simp add: drop_nth_def)

lemma nth_drop_nth: "k < length xs \<Longrightarrow> j < length xs - 1 \<Longrightarrow>
    drop_nth k xs ! j = (if j < k then xs ! j else xs ! Suc j)"
  by (auto simp: drop_nth_def nth_append min_def)

lemma set_drop_nth: "set (drop_nth k xs) \<subseteq> set xs"
  using set_take_subset [of k xs] set_drop_subset [of "Suc k" xs] by (auto simp: drop_nth_def)

lemma cover_drop_nth:
  assumes "k < length xs"
  shows "cover xs x = cover (drop_nth k xs) x + (if x \<in> region_set (xs ! k) then 1 else 0)"
  by (subst drop_nth_split [OF assms]) (simp add: drop_nth_def)

lemma cover_update:
  assumes "k < length xs"
  shows "cover (xs[k := r]) x + (if x \<in> region_set (xs ! k) then 1 else 0)
    = cover xs x + (if x \<in> region_set r then 1 else 0)"
proof -
  have "cover (xs[k := r]) x = cover (take k xs @ r # drop (Suc k) xs) x"
    using assms by (simp add: upd_conv_take_nth_drop)
  moreover have "cover xs x = cover (take k xs @ xs ! k # drop (Suc k) xs) x"
    using drop_nth_split [OF assms] by simp
  ultimately show ?thesis by simp
qed

lemma cover_pos: "k < length xs \<Longrightarrow> x \<in> region_set (xs ! k) \<Longrightarrow> 0 < cover xs x"
  by (simp add: cover_drop_nth)

lemma partitions_bound:
  assumes p: "partitions lo hi as fs" and r: "r \<in> set (as @ fs)"
  shows "lo \<le> unat (fst r)" and "unat (fst r) + unat (snd r) \<le> hi"
proof -
  obtain k where k: "k < length (as @ fs)" "(as @ fs) ! k = r"
    using r by (meson in_set_conv_nth)
  have c: "lo \<le> x \<and> x < hi" if "x \<in> region_set r" for x
  proof -
    have "cover (as @ fs) x = (if lo \<le> x \<and> x < hi then 1 else 0)"
      using p unfolding partitions_def by blast
    moreover have "0 < cover (as @ fs) x" using cover_pos [OF k(1)] k(2) that by simp
    ultimately show ?thesis by (simp split: if_splits)
  qed
  have l: "0 < unat (snd r)"
    using p r by (auto simp: partitions_def page_region_def word_neq_0_conv unat_gt_0)
  then have "unat (fst r) \<in> region_set r" "unat (fst r) + unat (snd r) - 1 \<in> region_set r"
    by (auto simp: region_set_def)
  from c [OF this(1)] c [OF this(2)] l
  show "lo \<le> unat (fst r)" "unat (fst r) + unat (snd r) \<le> hi" by auto
qed

text \<open>Distinct regions share no address.\<close>

lemma partitions_disjoint:
  assumes p: "partitions lo hi as fs"
    and "i < length (as @ fs)" "j < length (as @ fs)" "i \<noteq> j"
  shows "region_set ((as @ fs) ! i) \<inter> region_set ((as @ fs) ! j) = {}"
proof -
  have aux: "\<not> (x \<in> region_set ((as @ fs) ! i) \<and> x \<in> region_set ((as @ fs) ! j))"
    if ij: "i < j" "j < length (as @ fs)" for i j x
  proof
    assume x: "x \<in> region_set ((as @ fs) ! i) \<and> x \<in> region_set ((as @ fs) ! j)"
    let ?ys = "drop_nth j (as @ fs)"
    have "?ys ! i = (as @ fs) ! i" using ij by (simp add: nth_drop_nth)
    then have "0 < cover ?ys x" using cover_pos [of i ?ys x] x ij by simp
    then have "1 < cover (as @ fs) x" using x cover_drop_nth [OF ij(2), of x] by simp
    moreover have "cover (as @ fs) x \<le> 1" using p by (simp add: partitions_def)
    ultimately show False by simp
  qed
  show ?thesis using aux [of i j] aux [of j i] assms(2-4) by (cases i j rule: linorder_cases) auto
qed

section \<open>The operations keep the partition\<close>

lemma first_fit_fits:
  assumes "first_fit sz fs < length fs"
  shows "sz \<le> snd (fs ! first_fit sz fs)"
  using nth_length_takeWhile [of "\<lambda>r. snd r < sz" fs] assms by (simp add: first_fit_def not_less)

lemma before_first_fit: "k < first_fit sz fs \<Longrightarrow> snd (fs ! k) < sz"
  using nth_mem [of k "takeWhile (\<lambda>r. snd r < sz) fs"] takeWhile_nth [of k "\<lambda>r. snd r < sz" fs]
  by (auto simp: first_fit_def dest: set_takeWhileD)

lemma region_ix_found: "region_ix start as < length as \<Longrightarrow> fst (as ! region_ix start as) = start"
  using nth_length_takeWhile [of "\<lambda>r. fst r \<noteq> start" as] by (simp add: region_ix_def)

lemma before_region_ix: "k < region_ix start as \<Longrightarrow> fst (as ! k) \<noteq> start"
  using nth_mem [of k "takeWhile (\<lambda>r. fst r \<noteq> start) as"] takeWhile_nth [of k "\<lambda>r. fst r \<noteq> start" as]
  by (auto simp: region_ix_def dest: set_takeWhileD)

lemma unat_mod_4096: "w mod 4096 = 0 \<longleftrightarrow> unat w mod 4096 = 0" for w :: u32
  by (simp add: word_unat_eq_iff unat_mod)

lemma partitions_recut:
  assumes "partitions lo hi as fs" and "\<And>x. cover (as' @ fs') x = cover (as @ fs) x"
    and "\<And>r. r \<in> set (as' @ fs') \<Longrightarrow> r \<in> set (as @ fs) \<or> page_region r"
  shows "partitions lo hi as' fs'"
  using assms unfolding partitions_def by metis

lemma alloc_partitions:
  assumes p: "partitions lo hi as fs" and sz: "sz \<noteq> 0" "sz mod 4096 = 0"
    and a: "alloc_regions sz as fs = Some (start, as', fs')"
  shows "partitions lo hi as' fs'"
proof -
  let ?k = "first_fit sz fs"
  obtain len where k: "?k < length fs" "fs ! ?k = (start, len)" and as': "as' = as @ [(start, sz)]"
    and fs': "fs' = (if sz < len then fs[?k := (start + sz, len - sz)] else drop_nth ?k fs)"
    using a by (auto simp: alloc_regions_def Let_def split: if_splits prod.splits)
  have le: "sz \<le> len" using first_fit_fits [OF k(1)] k(2) by simp
  have r: "(start, len) \<in> set (as @ fs)" using k by (metis Un_iff nth_mem set_append)
  have "page_region (start, len)" using p r unfolding partitions_def by blast
  then have pr: "start mod 4096 = 0" "len mod 4096 = 0" by (simp_all add: page_region_def)
  have new0: "page_region (start, sz)"
    unfolding page_region_def fst_conv snd_conv using sz pr by blast
  have hi: "unat start + unat len \<le> 4294967296"
    using partitions_bound(2) [OF p r] p by (simp add: partitions_def)
  show ?thesis
  proof (cases "sz < len")
    case False
    then have "len = sz" using le by simp
    then have fs'': "fs' = drop_nth ?k fs" "fs ! ?k = (start, sz)" using fs' k(2) by simp_all
    show ?thesis
    proof (rule partitions_recut [OF p])
      show "cover (as' @ fs') x = cover (as @ fs) x" for x
        using cover_drop_nth [OF k(1), of x] as' fs'' by simp
      show "r \<in> set (as @ fs) \<or> page_region r" if "r \<in> set (as' @ fs')" for r
        using that as' fs''(1) set_drop_nth [of ?k fs] new0 by auto
    qed
  next
    case True
    have u: "unat (len - sz) = unat len - unat sz" "unat (start + sz) = unat start + unat sz"
      "unat sz < unat len"
      using True hi le by (simp_all add: unat_sub word_less_nat_alt unat_word_ariths)
    have "4096 dvd unat start" "4096 dvd unat sz" "4096 dvd unat len"
      using pr sz(2) by (simp_all add: unat_mod_4096 dvd_eq_mod_eq_0)
    then have "4096 dvd unat (start + sz)" "4096 dvd unat (len - sz)"
      by (simp_all only: u dvd_add dvd_diff_nat)
    moreover have "len - sz \<noteq> 0" using True by simp
    ultimately have new: "page_region (start + sz, len - sz)"
      by (simp add: page_region_def unat_mod_4096 dvd_eq_mod_eq_0)
    have "region_set (start, len) = region_set (start, sz) \<union> region_set (start + sz, len - sz)"
      "region_set (start, sz) \<inter> region_set (start + sz, len - sz) = {}"
      using u by (auto simp: region_set_def)
    then have "cover (as' @ fs') x = cover (as @ fs) x" for x
      using cover_update [OF k(1), of "(start + sz, len - sz)" x] as' fs' True k(2)
      by (auto split: if_splits)
    moreover have "set fs' \<subseteq> insert (start + sz, len - sz) (set fs)"
      using fs' True by (simp add: set_update_subset_insert)
    ultimately show ?thesis
      using as' new0 new by (intro partitions_recut [OF p]) auto
  qed
qed

lemma release_partitions:
  assumes p: "partitions lo hi as fs" and r: "release_regions start as fs = Some (as', fs')"
  shows "partitions lo hi as' fs'"
proof -
  let ?k = "region_ix start as"
  have k: "?k < length as" "as' = drop_nth ?k as" "fs' = fs @ [as ! ?k]"
    using r by (auto simp: release_regions_def Let_def split: if_splits)
  then have "set (as' @ fs') \<subseteq> set (as @ fs)"
    using set_drop_nth [of ?k as] by auto
  moreover have "cover (as' @ fs') x = cover (as @ fs) x" for x
    using k cover_drop_nth [OF k(1), of x] by simp
  ultimately show ?thesis by (intro partitions_recut [OF p]) auto
qed

end
