(* ===== verification/VM_Lists.thy ===== *)
theory VM_Lists
  imports VM_Pool Regions
begin

text \<open>
  The operations of \<open>VMPool\<close> refine those of \<open>Regions\<close>.  The interface \<open>resident_cells\<close> states
  what the code relies on of its two accesses: a set \<open>A\<close> of addresses is mapped, a read returns
  the value last written there and changes nothing, and a write changes that value only.
  \<open>same\<close> relates the states before and after and records what else is kept.
\<close>

section \<open>Lists of regions in cells\<close>

text \<open>The cells \<open>c\<close> of a page hold the regions \<open>rs\<close> and zeros behind them.\<close>

definition holds_list :: "(nat \<Rightarrow> u32) \<Rightarrow> region list \<Rightarrow> bool" where
  "holds_list c rs \<longleftrightarrow>
     length rs \<le> 511 \<and> (\<forall>r\<in>set rs. snd r \<noteq> 0) \<and>
     (\<forall>k<512. c (2 * k) = (if k < length rs then fst (rs ! k) else 0) \<and>
        c (2 * k + 1) = (if k < length rs then snd (rs ! k) else 0))"

definition cells :: "u32 \<Rightarrow> u32 set" where
  "cells l = cell l ` {..<1024}"

lemma cell_inj: "i < 1024 \<Longrightarrow> j < 1024 \<Longrightarrow> cell l i = cell l j \<longleftrightarrow> i = j"
  by (simp add: cell_def of_nat_eq_32 del: of_nat_mult)

lemma cell_in_cells [simp]: "i < 1024 \<Longrightarrow> cell l i \<in> cells l"
  by (simp add: cells_def)

text \<open>What \<open>shift_up\<close> from index \<open>i\<close> makes of the cells.\<close>

definition shifted :: "nat \<Rightarrow> (nat \<Rightarrow> u32) \<Rightarrow> nat \<Rightarrow> u32" where
  "shifted i c j = (if j + 2 < i then c j else if j < 1022 then c (j + 2)
     else if i < 1023 then 0 else c j)"

lemma holds_list_nth:
  assumes "holds_list c rs" and "k < 512"
  shows "c (2 * k) = (if k < length rs then fst (rs ! k) else 0)"
    and "c (Suc (2 * k)) = (if k < length rs then snd (rs ! k) else 0)"
  using assms by (simp_all add: holds_list_def)

lemma holds_list_cong:
  "(\<And>j. j < 1024 \<Longrightarrow> c' j = c j) \<Longrightarrow> holds_list c' rs = holds_list c rs"
  by (simp add: holds_list_def)

lemma holds_list_append:
  assumes "holds_list c rs" and "length rs < 511" and "len \<noteq> 0"
  shows "holds_list (c(2 * length rs := start, 2 * length rs + 1 := len)) (rs @ [(start, len)])"
proof -
  have "2 * k \<noteq> 2 * length rs + 1" "2 * k + 1 \<noteq> 2 * length rs" for k by presburger+
  then show ?thesis
    using assms by (auto simp: holds_list_def nth_append)
qed

lemma holds_list_update:
  assumes "holds_list c rs" and "k < length rs" and "len \<noteq> 0"
  shows "holds_list (c(2 * k := start, 2 * k + 1 := len)) (rs[k := (start, len)])"
proof -
  have "2 * j \<noteq> 2 * k + 1" "2 * j + 1 \<noteq> 2 * k" for j by presburger+
  moreover have "set (rs[k := (start, len)]) \<subseteq> insert (start, len) (set rs)"
    by (rule set_update_subset_insert)
  ultimately show ?thesis
    using assms by (auto simp: holds_list_def nth_list_update)
qed

lemma holds_list_shifted:
  assumes "holds_list c rs" and k: "k < length rs"
    and c': "\<forall>j<1024. j \<noteq> 2 * k \<longrightarrow> j \<noteq> 2 * k + 1 \<longrightarrow> c' j = c j"
  shows "holds_list (shifted (2 * k + 2) c') (drop_nth k rs)"
proof -
  have len: "length rs \<le> 511" using assms(1) by (simp add: holds_list_def)
  have "shifted (2 * k + 2) c' (2 * m) = (if m < length rs - 1 then fst (drop_nth k rs ! m) else 0)
      \<and> shifted (2 * k + 2) c' (2 * m + 1) = (if m < length rs - 1 then snd (drop_nth k rs ! m) else 0)"
    if m: "m < 512" for m
  proof -
    consider "m < k" | "k \<le> m" "m < 511" | "k \<le> m" "m = 511" using m by linarith
    then show ?thesis
    proof cases
      case 1
      then have lt: "m < length rs - 1" using k by linarith
      from 1 have "c' (2 * m) = c (2 * m)" "c' (2 * m + 1) = c (2 * m + 1)" using m c' by simp_all
      then show ?thesis
        using 1 k len m holds_list_nth [OF assms(1), of m] lt by (simp add: shifted_def nth_drop_nth)
    next
      case 2
      then have "c' (2 * Suc m) = c (2 * Suc m)" "c' (2 * Suc m + 1) = c (2 * Suc m + 1)"
        using c' by simp_all
      then show ?thesis
        using 2 k len holds_list_nth [OF assms(1), of "Suc m"] by (auto simp: shifted_def nth_drop_nth)
    next
      case 3
      have "\<not> 511 < length rs - 1" using len by linarith
      moreover have "k \<le> 510" using len k by linarith
      ultimately show ?thesis using 3 k by (simp add: shifted_def)
    qed
  qed
  then show ?thesis
    using assms(1) k set_drop_nth [of k rs] len by (auto simp: holds_list_def)
qed

text \<open>
  The pool's two lists, in a state whose word at an address is \<open>val s\<close> and that satisfies
  \<open>good\<close>, hold the allocated and the free regions.
\<close>

definition pool_holds ::
  "('s \<Rightarrow> bool) \<Rightarrow> ('s \<Rightarrow> u32 \<Rightarrow> u32) \<Rightarrow> u32 set \<Rightarrow> vm_pool \<Rightarrow> 's \<Rightarrow> region list \<Rightarrow> region list \<Rightarrow> bool"
where
  "pool_holds good val A p s as fs \<longleftrightarrow> good s
     \<and> cells (alloc_list p) \<subseteq> A \<and> cells (free_list p) \<subseteq> A
     \<and> cells (alloc_list p) \<inter> cells (free_list p) = {}
     \<and> holds_list (\<lambda>j. val s (cell (alloc_list p) j)) as
     \<and> holds_list (\<lambda>j. val s (cell (free_list p) j)) fs"

text \<open>The regions of a pool that has just been constructed.\<close>

definition first_regions :: "vm_pool \<Rightarrow> region list \<times> region list" where
  "first_regions p =
     ([(base_address p, PAGE_SIZE), (base_address p + PAGE_SIZE, PAGE_SIZE)],
      [(base_address p + 2 * PAGE_SIZE, vm_size p - 2 * PAGE_SIZE)])"

section \<open>The interface to paged memory\<close>

locale resident_cells =
  fixes rd :: "'s rd" and wr :: "'s wr"
    and val :: "'s \<Rightarrow> u32 \<Rightarrow> u32" and inv :: "'s \<Rightarrow> bool" and same :: "'s \<Rightarrow> 's \<Rightarrow> bool"
    and A :: "u32 set"
  assumes rd: "inv s \<Longrightarrow> a \<in> A \<Longrightarrow> rd a s = Inr (val s a, s)"
    and wr: "inv s \<Longrightarrow> a \<in> A \<Longrightarrow> \<exists>s'. wr a v s = Inr s' \<and> inv s' \<and> same s s'
      \<and> (\<forall>b\<in>A. val s' b = (if b = a then v else val s b))"
    and same_refl: "same s s"
    and same_trans: "same s s' \<Longrightarrow> same s' s'' \<Longrightarrow> same s s''"
begin

text \<open>From \<open>s\<close> to \<open>s'\<close> only the list at \<open>l\<close> changed, and its cells are \<open>c\<close> now.\<close>

definition updates :: "u32 \<Rightarrow> 's \<Rightarrow> 's \<Rightarrow> (nat \<Rightarrow> u32) \<Rightarrow> bool" where
  "updates l s s' c \<longleftrightarrow> inv s' \<and> same s s' \<and> (\<forall>j<1024. val s' (cell l j) = c j)
     \<and> (\<forall>b\<in>A. b \<notin> cells l \<longrightarrow> val s' b = val s b)"

lemma updates_trans: "updates l s s1 c1 \<Longrightarrow> updates l s1 s2 c2 \<Longrightarrow> updates l s s2 c2"
  by (auto simp: updates_def intro: same_trans)

lemma updates_refl: "inv s \<Longrightarrow> \<forall>j<1024. val s (cell l j) = c j \<Longrightarrow> updates l s s c"
  by (simp add: updates_def same_refl)

lemma updates_cong: "updates l s s' c \<Longrightarrow> (\<And>j. j < 1024 \<Longrightarrow> c j = c' j) \<Longrightarrow> updates l s s' c'"
  by (simp add: updates_def)

lemma wr_cell:
  assumes "updates l s0 s c" and "cells l \<subseteq> A" and "i < 1024"
  shows "\<exists>s'. wr (cell l i) v s = Inr s' \<and> updates l s0 s' (c(i := v))"
proof -
  have inv: "inv s" and A: "cell l i \<in> A" using assms by (auto simp: updates_def)
  from wr [OF this, of v] obtain s' where s': "wr (cell l i) v s = Inr s'" "inv s'" "same s s'"
      "\<forall>b\<in>A. val s' b = (if b = cell l i then v else val s b)"
    by blast
  have "val s' (cell l j) = (c(i := v)) j" if "j < 1024" for j
    using that s'(4) assms by (auto simp: cell_inj updates_def cells_def)
  moreover have "\<forall>b\<in>A. b \<notin> cells l \<longrightarrow> val s' b = val s0 b"
    using s'(4) assms by (auto simp: updates_def)
  ultimately show ?thesis
    using s' assms(1) same_trans [OF _ s'(3)] by (auto simp: updates_def)
qed

lemma rd_cell:
  assumes "updates l s0 s c" and "cells l \<subseteq> A" and "i < 1024"
  shows "rd (cell l i) s = Inr (c i, s)"
  using assms by (subst rd) (auto simp: updates_def)

section \<open>The loops\<close>

lemma find_chunk_fits:
  assumes "updates l s0 s c" and "cells l \<subseteq> A" and "holds_list c rs"
    and "k \<le> first_fit sz rs" and "first_fit sz rs < length rs"
  shows "find_chunk rd l sz (2 * k) s = Inr (2 * first_fit sz rs, s)"
  using assms(4)
proof (induction "first_fit sz rs - k" arbitrary: k)
  case 0
  then have k: "k = first_fit sz rs" by simp
  have "k < 511" using k assms(3,5) by (simp add: holds_list_def)
  then show ?case
    using rd_cell [OF assms(1,2), of "Suc (2 * k)"] holds_list_nth(2) [OF assms(3), of k]
      leD [OF first_fit_fits [OF assms(5)]] assms(5) k
    by (subst find_chunk.simps) simp
next
  case (Suc d)
  then have k: "k < first_fit sz rs" "first_fit sz rs < 511"
    using assms(3,5) by (simp_all add: holds_list_def)
  have "snd (rs ! k) < sz" using before_first_fit [OF k(1)] .
  then have "find_chunk rd l sz (2 * k) s = find_chunk rd l sz (2 * Suc k) s"
    using rd_cell [OF assms(1,2), of "Suc (2 * k)"] holds_list_nth(2) [OF assms(3), of k] k assms(5)
    by (subst find_chunk.simps) simp
  then show ?case using Suc.hyps(1) [of "Suc k"] Suc.hyps(2) k by simp
qed

lemma find_chunk_none:
  assumes "updates l s0 s c" and "cells l \<subseteq> A" and "holds_list c rs" and "sz \<noteq> 0"
    and "\<not> first_fit sz rs < length rs" and "k < 512"
  shows "find_chunk rd l sz (2 * k) s = Inl Assertion"
  using assms(6)
proof (induction "511 - k" arbitrary: k)
  case 0
  then have k: "k = 511" by simp
  have "length rs \<le> 511" using assms(3) by (simp add: holds_list_def)
  then show ?case
    using rd_cell [OF assms(1,2), of 1023] holds_list_nth(2) [OF assms(3), of 511] k assms(4)
    by (subst find_chunk.simps) (simp add: word_neq_0_conv)
next
  case (Suc d)
  then have k: "k < 511" by simp
  have "(if k < length rs then snd (rs ! k) else 0) < sz"
    using before_first_fit [of k sz rs] assms(4,5) by (auto simp: word_neq_0_conv)
  then have "find_chunk rd l sz (2 * k) s = find_chunk rd l sz (2 * Suc k) s"
    using rd_cell [OF assms(1,2), of "Suc (2 * k)"] holds_list_nth(2) [OF assms(3), of k] k
    by (subst find_chunk.simps) simp
  then show ?case using Suc.hyps(1) [of "Suc k"] Suc.hyps(2) k by simp
qed

lemma find_end_found:
  assumes "updates l s0 s c" and "cells l \<subseteq> A" and "holds_list c rs"
    and "k \<le> length rs" and "length rs < 511"
  shows "find_end rd l (2 * k) s = Inr (2 * length rs, s)"
  using assms(4)
proof (induction "length rs - k" arbitrary: k)
  case 0
  then show ?case
    using rd_cell [OF assms(1,2), of "Suc (2 * k)"] holds_list_nth(2) [OF assms(3), of k] assms(5)
    by (subst find_end.simps) simp
next
  case (Suc d)
  then have k: "k < length rs" by simp
  then have "snd (rs ! k) \<noteq> 0" using assms(3) by (simp add: holds_list_def)
  then have "find_end rd l (2 * k) s = find_end rd l (2 * Suc k) s"
    using rd_cell [OF assms(1,2), of "Suc (2 * k)"] holds_list_nth(2) [OF assms(3), of k] k assms(5)
    by (subst find_end.simps) simp
  then show ?case using Suc.hyps(1) [of "Suc k"] Suc.hyps(2) k by simp
qed

lemma find_end_full:
  assumes "updates l s0 s c" and "cells l \<subseteq> A" and "holds_list c rs"
    and "length rs = 511" and "k < 511"
  shows "find_end rd l (2 * k) s = Inl Assertion"
  using assms(5)
proof (induction "510 - k" arbitrary: k)
  case 0
  then have k: "k = 510" by simp
  have "snd (rs ! 510) \<noteq> 0" using assms(3,4) by (simp add: holds_list_def)
  then show ?case
    using rd_cell [OF assms(1,2), of 1021] holds_list_nth(2) [OF assms(3), of 510] k assms(4)
    by (subst find_end.simps) simp
next
  case (Suc d)
  then have k: "k < 510" by simp
  then have "snd (rs ! k) \<noteq> 0" using assms(3,4) by (simp add: holds_list_def)
  then have "find_end rd l (2 * k) s = find_end rd l (2 * Suc k) s"
    using rd_cell [OF assms(1,2), of "Suc (2 * k)"] holds_list_nth(2) [OF assms(3), of k] k assms(4)
    by (subst find_end.simps) simp
  then show ?case using Suc.hyps(1) [of "Suc k"] Suc.hyps(2) k by simp
qed

lemma find_region_found:
  assumes "updates l s0 s c" and "cells l \<subseteq> A" and "holds_list c rs"
    and "k \<le> region_ix start rs" and "region_ix start rs < length rs"
  shows "find_region rd l start (2 * k) s = Inr (2 * region_ix start rs, s)"
  using assms(4)
proof (induction "region_ix start rs - k" arbitrary: k)
  case 0
  then have k: "k = region_ix start rs" by simp
  have "k < 511" using k assms(3,5) by (simp add: holds_list_def)
  then show ?case
    using rd_cell [OF assms(1,2), of "2 * k"] holds_list_nth(1) [OF assms(3), of k]
      region_ix_found [OF assms(5)] assms(5) k
    by (subst find_region.simps) simp
next
  case (Suc d)
  then have k: "k < region_ix start rs" "region_ix start rs < 511"
    using assms(3,5) by (simp_all add: holds_list_def)
  have "fst (rs ! k) \<noteq> start" using before_region_ix [OF k(1)] .
  then have "find_region rd l start (2 * k) s = find_region rd l start (2 * Suc k) s"
    using rd_cell [OF assms(1,2), of "2 * k"] holds_list_nth(1) [OF assms(3), of k] k assms(5)
    by (subst find_region.simps) simp
  then show ?case using Suc.hyps(1) [of "Suc k"] Suc.hyps(2) k by simp
qed

lemma find_region_none:
  assumes "updates l s0 s c" and "cells l \<subseteq> A" and "holds_list c rs" and "start \<noteq> 0"
    and "\<not> region_ix start rs < length rs" and "k < 512"
  shows "find_region rd l start (2 * k) s = Inl Assertion"
  using assms(6)
proof (induction "511 - k" arbitrary: k)
  case 0
  then have k: "k = 511" by simp
  have "length rs \<le> 511" using assms(3) by (simp add: holds_list_def)
  then show ?case
    using rd_cell [OF assms(1,2), of 1022] holds_list_nth(1) [OF assms(3), of 511] k assms(4)
    by (subst find_region.simps) simp
next
  case (Suc d)
  then have k: "k < 511" by simp
  have "(if k < length rs then fst (rs ! k) else 0) \<noteq> start"
    using before_region_ix [of k start rs] assms(4,5) by auto
  then have "find_region rd l start (2 * k) s = find_region rd l start (2 * Suc k) s"
    using rd_cell [OF assms(1,2), of "2 * k"] holds_list_nth(1) [OF assms(3), of k] k
    by (subst find_region.simps) simp
  then show ?case using Suc.hyps(1) [of "Suc k"] Suc.hyps(2) k by simp
qed

lemma shift_up_shifts:
  assumes "updates l s0 s c" and A: "cells l \<subseteq> A" and m: "1 \<le> m" "m \<le> 512"
  shows "\<exists>s'. shift_up rd wr l (2 * m) s = Inr s' \<and> updates l s0 s' (shifted (2 * m) c)"
  using assms(1,3,4)
proof (induction "512 - m" arbitrary: m s c)
  case 0
  then have "m = 512" by simp
  then show ?case
    using 0 by (auto simp: shift_up.simps [of rd wr l "1024"] shifted_def elim: updates_cong)
next
  case (Suc d)
  then have m: "1 \<le> m" "m < 512" by simp_all
  then have i: "2 * m - 2 < 1024" "2 * m - 1 < 1024" "Suc (2 * m) \<noteq> 2 * m - 2" by linarith+
  let ?i = "2 * m"
  let ?c1 = "c(?i - 2 := c ?i)"
  let ?c2 = "?c1(?i - 1 := c (?i + 1))"
  let ?c3 = "if m = 511 then ?c2(?i := 0, ?i + 1 := 0) else ?c2"
  obtain s1 where s1: "wr (cell l (?i - 2)) (c ?i) s = Inr s1" "updates l s0 s1 ?c1"
    using wr_cell [OF Suc.prems(1) A i(1), of "c ?i"] by blast
  obtain s2 where s2: "wr (cell l (?i - 1)) (c (?i + 1)) s1 = Inr s2" "updates l s0 s2 ?c2"
    using wr_cell [OF s1(2) A i(2), of "c (?i + 1)"] by blast
  have "\<exists>s3. (if ?i + 2 \<ge> 1024 - 1
           then andThen (wr (cell l ?i) 0 s2) (\<lambda>s. wr (cell l (?i + 1)) 0 s)
           else Inr s2) = Inr s3 \<and> updates l s0 s3 ?c3"
  proof (cases "m = 511")
    case True
    obtain s3 where "wr (cell l ?i) 0 s2 = Inr s3" "updates l s0 s3 (?c2(?i := 0))"
      using wr_cell [OF s2(2) A, of ?i 0] m by auto
    then show ?thesis using wr_cell [of l s0 s3 "?c2(?i := 0)" "?i + 1" 0] A True by auto
  qed (use m s2 in auto)
  then obtain s3 where s3: "(if ?i + 2 \<ge> 1024 - 1
           then andThen (wr (cell l ?i) 0 s2) (\<lambda>s. wr (cell l (?i + 1)) 0 s)
           else Inr s2) = Inr s3" "updates l s0 s3 ?c3"
    by blast
  have step: "shift_up rd wr l ?i s = shift_up rd wr l (2 * Suc m) s3"
    using rd_cell [OF Suc.prems(1) A, of ?i] rd_cell [OF s1(2) A, of "?i + 1"] s1(1) s2(1) s3(1) m i(3)
    by (subst shift_up.simps) simp
  have d: "d = 512 - Suc m" "1 \<le> Suc m" "Suc m \<le> 512" using Suc.hyps(2) m by linarith+
  obtain s' where s': "shift_up rd wr l (2 * Suc m) s3 = Inr s'"
      "updates l s0 s' (shifted (2 * Suc m) ?c3)"
    using Suc.hyps(1) [OF d(1) s3(2) d(2,3)] by blast
  have "shifted (2 * Suc m) ?c3 j = shifted ?i c j" if "j < 1024" for j
  proof -
    obtain q where q: "m = Suc q" using m by (cases m) simp_all
    have "2 * q < 1019" if "2 * q + 3 < j"
    proof -
      have "q < 510" using that \<open>j < 1024\<close> by linarith
      then show ?thesis by simp
    qed
    then consider "j < 2 * q" | "j = 2 * q" | "j = 2 * q + 1" | "j = 2 * q + 2" | "j = 2 * q + 3"
      | "2 * q + 3 < j" "2 * q < 1019" by linarith
    then show ?thesis using m that unfolding q by cases (auto simp: shifted_def)
  qed
  then show ?case using step s'(1) updates_cong [OF s'(2)] by auto
qed

lemma append_region_updates:
  assumes "updates l s0 s c" and A: "cells l \<subseteq> A" and h: "holds_list c rs" and "length rs < 511"
  shows "\<exists>s'. append_region rd wr l start len s = Inr s'
    \<and> updates l s0 s' (c(2 * length rs := start, 2 * length rs + 1 := len))"
proof -
  have f: "find_end rd l 0 s = Inr (2 * length rs, s)"
    using find_end_found [OF assms(1,2,3), of 0] assms(4) by simp
  obtain s1 where s1: "wr (cell l (2 * length rs)) start s = Inr s1"
      "updates l s0 s1 (c(2 * length rs := start))"
    using wr_cell [OF assms(1,2), of "2 * length rs" start] assms(4) by auto
  from wr_cell [OF s1(2) A, of "2 * length rs + 1" len] assms(4) f s1(1)
  show ?thesis by (auto simp: append_region_def)
qed

lemma take_chunk_updates:
  assumes "updates l s0 s c" and A: "cells l \<subseteq> A" and h: "holds_list c rs"
    and k: "k < length rs" and r: "rs ! k = (start, len)" and "sz \<le> len"
  shows "\<exists>s' c'. take_chunk rd wr l sz (2 * k) s = Inr s' \<and> updates l s0 s' c'
    \<and> holds_list c' (if sz < len then rs[k := (start + sz, len - sz)] else drop_nth k rs)"
proof -
  have k511: "k < 511" using h k by (simp add: holds_list_def)
  have c: "c (2 * k) = start" "c (2 * k + 1) = len"
    using holds_list_nth [OF h, of k] k k511 r by simp_all
  show ?thesis
  proof (cases "sz < len")
    case True
    obtain s1 where s1: "wr (cell l (2 * k)) (start + sz) s = Inr s1"
        "updates l s0 s1 (c(2 * k := start + sz))"
      using wr_cell [OF assms(1,2), of "2 * k" "start + sz"] k511 by auto
    obtain s2 where s2: "wr (cell l (2 * k + 1)) (len - sz) s1 = Inr s2"
        "updates l s0 s2 (c(2 * k := start + sz, 2 * k + 1 := len - sz))"
      using wr_cell [OF s1(2) A, of "2 * k + 1" "len - sz"] k511 by auto
    have "take_chunk rd wr l sz (2 * k) s = Inr s2"
      using rd_cell [OF assms(1,2), of "2 * k"] rd_cell [OF assms(1,2), of "2 * k + 1"]
        rd_cell [OF s1(2) A, of "2 * k + 1"] s1(1) s2(1) True c k511
      by (simp add: take_chunk_def)
    moreover have "len - sz \<noteq> 0" using True by simp
    ultimately show ?thesis using True s2(2) holds_list_update [OF h k] by auto
  next
    case False
    obtain s' where "shift_up rd wr l (2 * Suc k) s = Inr s'" "updates l s0 s' (shifted (2 * Suc k) c)"
      using shift_up_shifts [OF assms(1,2), of "Suc k"] k511 by auto
    moreover have "take_chunk rd wr l sz (2 * k) s = shift_up rd wr l (2 * Suc k) s"
      using rd_cell [OF assms(1,2), of "2 * k + 1"] False c k511 by (simp add: take_chunk_def)
    ultimately show ?thesis using holds_list_shifted [OF h k, of c] False by auto
  qed
qed

lemma drop_region_updates:
  assumes "updates l s0 s c" and A: "cells l \<subseteq> A" and h: "holds_list c rs" and k: "k < length rs"
  shows "\<exists>s' c'. drop_region rd wr l (2 * k) s = Inr s' \<and> updates l s0 s' c'
    \<and> holds_list c' (drop_nth k rs)"
proof -
  have k511: "k < 511" using h k by (simp add: holds_list_def)
  obtain s1 where s1: "wr (cell l (2 * k)) 0 s = Inr s1" "updates l s0 s1 (c(2 * k := 0))"
    using wr_cell [OF assms(1,2), of "2 * k" 0] k511 by auto
  let ?c = "c(2 * k := 0, 2 * k + 1 := 0)"
  obtain s2 where s2: "wr (cell l (2 * k + 1)) 0 s1 = Inr s2" "updates l s0 s2 ?c"
    using wr_cell [OF s1(2) A, of "2 * k + 1" 0] k511 by auto
  obtain s' where "shift_up rd wr l (2 * Suc k) s2 = Inr s'" "updates l s0 s' (shifted (2 * Suc k) ?c)"
    using shift_up_shifts [OF s2(2) A, of "Suc k"] k511 by auto
  moreover have "holds_list (shifted (2 * Suc k) ?c) (drop_nth k rs)"
    using holds_list_shifted [OF h k, of ?c] by simp
  ultimately show ?thesis using s1(1) s2(1) by (auto simp: drop_region_def)
qed

section \<open>The operations refine those on regions\<close>

text \<open>The pool's two lists hold the allocated and the free regions.\<close>

abbreviation holds where
  "holds \<equiv> pool_holds inv val A"

lemmas holds_def = pool_holds_def

text \<open>A change of one of the two lists.\<close>

lemma holds_updates:
  assumes "holds p s as fs"
  shows "updates (free_list p) s s' c \<Longrightarrow> holds_list c fs' \<Longrightarrow> holds p s' as fs'"
    and "updates (alloc_list p) s s' c \<Longrightarrow> holds_list c as' \<Longrightarrow> holds p s' as' fs"
proof -
  assume u: "updates (free_list p) s s' c" "holds_list c fs'"
  have "val s' (cell (alloc_list p) j) = val s (cell (alloc_list p) j)" if "j < 1024" for j
    using assms that u(1) unfolding holds_def updates_def by (meson cell_in_cells disjoint_iff subsetD)
  moreover have "val s' (cell (free_list p) j) = c j" if "j < 1024" for j
    using u(1) that by (simp add: updates_def)
  ultimately show "holds p s' as fs'"
    using assms u holds_list_cong [of "\<lambda>j. val s' (cell (alloc_list p) j)"]
      holds_list_cong [of "\<lambda>j. val s' (cell (free_list p) j)" c]
    by (simp add: holds_def updates_def)
next
  assume u: "updates (alloc_list p) s s' c" "holds_list c as'"
  have "val s' (cell (free_list p) j) = val s (cell (free_list p) j)" if "j < 1024" for j
    using assms that u(1) unfolding holds_def updates_def by (meson cell_in_cells disjoint_iff subsetD)
  moreover have "val s' (cell (alloc_list p) j) = c j" if "j < 1024" for j
    using u(1) that by (simp add: updates_def)
  ultimately show "holds p s' as' fs"
    using assms u holds_list_cong [of "\<lambda>j. val s' (cell (free_list p) j)"]
      holds_list_cong [of "\<lambda>j. val s' (cell (alloc_list p) j)" c]
    by (simp add: holds_def updates_def)
qed

lemma holds_self:
  assumes "holds p s as fs"
  shows "updates (free_list p) s s (\<lambda>j. val s (cell (free_list p) j))"
    and "updates (alloc_list p) s s (\<lambda>j. val s (cell (alloc_list p) j))"
  using assms by (auto intro!: updates_refl simp: holds_def)

lemma allocate_refines:
  assumes h: "holds p s as fs" and sz: "round_up sz0 \<noteq> 0"
    and a: "alloc_regions (round_up sz0) as fs = Some (start, as', fs')"
  shows "\<exists>s'. allocate rd wr p sz0 s = Inr (start, s') \<and> holds p s' as' fs' \<and> same s s'
    \<and> (\<forall>b\<in>A. b \<notin> cells (alloc_list p) \<longrightarrow> b \<notin> cells (free_list p) \<longrightarrow> val s' b = val s b)"
proof -
  let ?sz = "round_up sz0" and ?k = "first_fit (round_up sz0) fs"
  let ?c = "\<lambda>j. val s (cell (free_list p) j)"
  obtain len where k: "?k < length fs" "fs ! ?k = (start, len)" "length as < 511"
      and as': "as' = as @ [(start, ?sz)]"
      and fs': "fs' = (if ?sz < len then fs[?k := (start + ?sz, len - ?sz)] else drop_nth ?k fs)"
    using a by (auto simp: alloc_regions_def Let_def split: if_splits prod.splits)
  have A: "cells (free_list p) \<subseteq> A" "cells (alloc_list p) \<subseteq> A"
      and fl: "holds_list ?c fs" using h by (auto simp: holds_def)
  have k511: "?k < 511" using k(1) fl by (simp add: holds_list_def)
  note self = holds_self(1) [OF h]
  have f: "find_chunk rd (free_list p) ?sz 0 s = Inr (2 * ?k, s)"
    using find_chunk_fits [OF self A(1) fl, of 0] k(1) by simp
  have r: "rd (cell (free_list p) (2 * ?k)) s = Inr (start, s)"
    using rd_cell [OF self A(1), of "2 * ?k"] holds_list_nth(1) [OF fl, of ?k] k k511 by simp
  have "?sz \<le> len" using first_fit_fits [OF k(1)] k(2) by simp
  from take_chunk_updates [OF self A(1) fl k(1,2) this]
  obtain s1 c1 where s1: "take_chunk rd wr (free_list p) ?sz (2 * ?k) s = Inr s1"
      "updates (free_list p) s s1 c1" "holds_list c1 fs'"
    using fs' by blast
  have h1: "holds p s1 as fs'" using holds_updates(1) [OF h s1(2,3)] .
  let ?c' = "\<lambda>j. val s1 (cell (alloc_list p) j)"
  have al: "holds_list ?c' as" using h1 by (simp add: holds_def)
  obtain s' where s': "append_region rd wr (alloc_list p) start ?sz s1 = Inr s'"
      "updates (alloc_list p) s1 s' (?c'(2 * length as := start, 2 * length as + 1 := ?sz))"
    using append_region_updates [OF holds_self(2) [OF h1] A(2) al k(3)] by blast
  have "holds p s' as' fs'"
    using holds_updates(2) [OF h1 s'(2)] holds_list_append [OF al k(3) sz, of start] as' by simp
  moreover have "same s s'" using s1(2) s'(2) same_trans by (auto simp: updates_def)
  moreover have "allocate rd wr p sz0 s = Inr (start, s')"
    using f r s1(1) s'(1) by (simp add: allocate_def Let_def)
  ultimately show ?thesis using s1(2) s'(2) by (auto simp: updates_def)
qed

text \<open>No chunk fits, or the list of allocated regions is full: the code stops.\<close>

lemma allocate_fails:
  assumes h: "holds p s as fs" and sz: "round_up sz0 \<noteq> 0"
    and a: "alloc_regions (round_up sz0) as fs = None"
  shows "allocate rd wr p sz0 s = Inl Assertion"
proof -
  let ?sz = "round_up sz0" and ?k = "first_fit (round_up sz0) fs"
  let ?c = "\<lambda>j. val s (cell (free_list p) j)"
  have A: "cells (free_list p) \<subseteq> A" "cells (alloc_list p) \<subseteq> A"
      and fl: "holds_list ?c fs" using h by (auto simp: holds_def)
  note self = holds_self(1) [OF h]
  show ?thesis
  proof (cases "?k < length fs")
    case False
    then show ?thesis
      using find_chunk_none [OF self A(1) fl sz, of 0] by (simp add: allocate_def Let_def)
  next
    case True
    obtain start len where k: "fs ! ?k = (start, len)" by (cases "fs ! ?k")
    have k511: "?k < 511" using True fl by (simp add: holds_list_def)
    have f: "find_chunk rd (free_list p) ?sz 0 s = Inr (2 * ?k, s)"
      using find_chunk_fits [OF self A(1) fl, of 0] True by simp
    have r: "rd (cell (free_list p) (2 * ?k)) s = Inr (start, s)"
      using rd_cell [OF self A(1), of "2 * ?k"] holds_list_nth(1) [OF fl, of ?k] k k511 True by simp
    have "?sz \<le> len" using first_fit_fits [OF True] k by simp
    from take_chunk_updates [OF self A(1) fl True k this]
    obtain s1 c1 fs' where s1: "take_chunk rd wr (free_list p) ?sz (2 * ?k) s = Inr s1"
        "updates (free_list p) s s1 c1" "holds_list c1 fs'"
      by blast
    have h1: "holds p s1 as fs'" using holds_updates(1) [OF h s1(2,3)] .
    then have al: "holds_list (\<lambda>j. val s1 (cell (alloc_list p) j)) as" by (simp add: holds_def)
    have "length as = 511"
      using a True k al by (auto simp: alloc_regions_def Let_def holds_list_def split: if_splits)
    from find_end_full [OF holds_self(2) [OF h1] A(2) al this, of 0] show ?thesis
      using f r s1(1) by (simp add: allocate_def append_region_def Let_def)
  qed
qed

text \<open>
  The loop over the pages of a region: any invariant \<open>J i\<close> of the position that \<open>free_page\<close>
  carries from one page to the next holds at the end.
\<close>

lemma free_pages_loop:
  assumes n: "unat start + 4096 * n \<le> 4294967295"
    and J: "J 0 s"
    and step: "\<And>i s. i < n \<Longrightarrow> J i s \<Longrightarrow>
       \<exists>s'. fp ((start + word_of_nat (4096 * i)) div 4096) s = Inr s' \<and> J (Suc i) s'"
  shows "\<exists>s'. free_pages fp start (start + word_of_nat (4096 * n)) s = Some (Inr s') \<and> J n s'"
proof -
  have u: "unat (start + word_of_nat (4096 * i)) = unat start + 4096 * i" if "i \<le> n" for i
    using that n by (simp add: unat_word_ariths del: of_nat_mult)
  have "\<exists>s'. free_pages fp (start + word_of_nat (4096 * i)) (start + word_of_nat (4096 * n)) s
      = Some (Inr s') \<and> J n s'" if "i \<le> n" "J i s" for i s
    using that
  proof (induction "n - i" arbitrary: i s)
    case 0
    then show ?case by (subst free_pages.simps) simp
  next
    case (Suc d)
    then have i: "i < n" by simp
    then have lt: "start + word_of_nat (4096 * i) < start + word_of_nat (4096 * n)"
      using u [of i] u [of n] by (simp add: word_less_nat_alt del: of_nat_mult)
    obtain s1 where s1: "fp ((start + word_of_nat (4096 * i)) div 4096) s = Inr s1" "J (Suc i) s1"
      using step [OF i Suc.prems(2)] by blast
    have nxt: "start + word_of_nat (4096 * i) + 4096 = (start + word_of_nat (4096 * Suc i) :: u32)"
      by simp
    show ?case
      using Suc.hyps(1) [OF _ _ s1(2)] Suc.hyps(2) i s1(1) lt unfolding nxt [symmetric]
      by (subst free_pages.simps) (simp del: of_nat_mult mult_Suc_right)
  qed
  from this [of 0 s] J show ?thesis by simp
qed

text \<open>\<open>release\<close> up to the append to the free list.\<close>

lemma release_drops:
  assumes h: "holds p s as fs" and ix: "region_ix start as < length as"
    and region: "as ! region_ix start as = (start, len)" "start mod 4096 = 0" "len mod 4096 = 0"
    and s1: "free_pages fp start (start + len) s = Some (Inr s1)" "holds p s1 as fs"
  shows "\<exists>s2 c. release rd wr fp p start s = append_region rd wr (free_list p) start len s2
    \<and> updates (alloc_list p) s1 s2 c \<and> holds p s2 (drop_nth (region_ix start as) as) fs"
proof -
  let ?k = "region_ix start as"
  have A: "cells (alloc_list p) \<subseteq> A" and al: "holds_list (\<lambda>j. val s (cell (alloc_list p) j)) as"
    using h by (auto simp: holds_def)
  have k511: "?k < 511" using ix al by (simp add: holds_list_def)
  note self = holds_self(2) [OF h]
  have f: "find_region rd (alloc_list p) start 0 s = Inr (2 * ?k, s)"
    using find_region_found [OF self A al, of 0] ix by simp
  have r1: "rd (cell (alloc_list p) (2 * ?k)) s = Inr (start, s)"
    using rd_cell [OF self A, of "2 * ?k"] holds_list_nth(1) [OF al, of ?k] ix k511 region by simp
  have r2: "rd (cell (alloc_list p) (2 * ?k + 1)) s = Inr (len, s)"
    using rd_cell [OF self A, of "2 * ?k + 1"] holds_list_nth(2) [OF al, of ?k] ix k511 region
    by simp
  have al1: "holds_list (\<lambda>j. val s1 (cell (alloc_list p) j)) as" using s1(2) by (simp add: holds_def)
  obtain s2 c where s2: "drop_region rd wr (alloc_list p) (2 * ?k) s1 = Inr s2"
      "updates (alloc_list p) s1 s2 c" "holds_list c (drop_nth ?k as)"
    using drop_region_updates [OF holds_self(2) [OF s1(2)] A al1 ix] by blast
  have "release rd wr fp p start s = append_region rd wr (free_list p) start len s2"
    using f r1 r2 s1(1) s2(1) region by (simp add: release_def)
  then show ?thesis using holds_updates(2) [OF s1(2) s2(2,3)] s2(2) by blast
qed

lemma release_refines:
  assumes h: "holds p s as fs" and r: "release_regions start as fs = Some (as', fs')"
    and region: "as ! region_ix start as = (start, len)" "start mod 4096 = 0" "len mod 4096 = 0"
    and s1: "free_pages fp start (start + len) s = Some (Inr s1)" "holds p s1 as fs"
  shows "\<exists>s'. release rd wr fp p start s = Inr s' \<and> holds p s' as' fs' \<and> same s1 s'
    \<and> (\<forall>b\<in>A. b \<notin> cells (alloc_list p) \<longrightarrow> b \<notin> cells (free_list p) \<longrightarrow> val s' b = val s1 b)"
proof -
  let ?k = "region_ix start as"
  have k: "?k < length as" "length fs < 511" "as' = drop_nth ?k as" "fs' = fs @ [as ! ?k]"
    using r by (auto simp: release_regions_def Let_def split: if_splits)
  obtain s2 c where s2: "release rd wr fp p start s = append_region rd wr (free_list p) start len s2"
      "updates (alloc_list p) s1 s2 c" "holds p s2 as' fs"
    using release_drops [OF h k(1) region s1] k(3) by blast
  let ?c = "\<lambda>j. val s2 (cell (free_list p) j)"
  have A: "cells (free_list p) \<subseteq> A" and fl: "holds_list ?c fs" using s2(3) by (auto simp: holds_def)
  obtain s' where s': "append_region rd wr (free_list p) start len s2 = Inr s'"
      "updates (free_list p) s2 s' (?c(2 * length fs := start, 2 * length fs + 1 := len))"
    using append_region_updates [OF holds_self(1) [OF s2(3)] A fl k(2)] by blast
  have "(start, len) \<in> set as" using region(1) k(1) by (metis nth_mem)
  then have "len \<noteq> 0" using h by (auto simp: holds_def holds_list_def)
  then have "holds p s' as' fs'"
    using holds_updates(1) [OF s2(3) s'(2)] holds_list_append [OF fl k(2), of len start] k(4) region(1)
    by simp
  moreover have "same s1 s'" using s2(2) s'(2) same_trans by (auto simp: updates_def)
  ultimately show ?thesis using s2(1,2) s' by (auto simp: updates_def)
qed

text \<open>A full free list stops \<open>release\<close>, after the pages are gone.\<close>

lemma release_full:
  assumes h: "holds p s as fs" and ix: "region_ix start as < length as" and full: "length fs = 511"
    and region: "as ! region_ix start as = (start, len)" "start mod 4096 = 0" "len mod 4096 = 0"
    and s1: "free_pages fp start (start + len) s = Some (Inr s1)" "holds p s1 as fs"
  shows "release rd wr fp p start s = Inl Assertion"
proof -
  obtain s2 c where s2: "release rd wr fp p start s = append_region rd wr (free_list p) start len s2"
      "holds p s2 (drop_nth (region_ix start as) as) fs"
    using release_drops [OF h ix region s1] by blast
  have "find_end rd (free_list p) 0 s2 = Inl Assertion"
    using find_end_full [OF holds_self(1) [OF s2(2)] _ _ full, of 0] s2(2) by (simp add: holds_def)
  then show ?thesis using s2(1) by (simp add: append_region_def)
qed

lemma release_unknown:
  assumes h: "holds p s as fs" and "start \<noteq> 0" and "\<not> region_ix start as < length as"
  shows "release rd wr fp p start s = Inl Assertion"
proof -
  have "find_region rd (alloc_list p) start 0 s = Inl Assertion"
    using h find_region_none [OF holds_self(2) [OF h] _ _ assms(2,3), of 0]
    by (simp add: holds_def)
  then show ?thesis by (simp add: release_def)
qed

section \<open>\<open>is_legitimate\<close> and the constructor's lists\<close>

lemma in_alloc_list_spec:
  assumes "updates l s0 s c" and A: "cells l \<subseteq> A" and h: "holds_list c rs" and "k \<le> 512"
  shows "in_alloc_list rd l a (2 * k) s
    = Inr (\<exists>m. k \<le> m \<and> m < length rs \<and> fst (rs ! m) \<le> a \<and> a < fst (rs ! m) + snd (rs ! m), s)"
  using assms(4)
proof (induction "512 - k" arbitrary: k)
  case 0
  then have "k = 512" by simp
  moreover have "length rs \<le> 511" using h by (simp add: holds_list_def)
  ultimately show ?case by (subst in_alloc_list.simps) auto
next
  case (Suc d)
  then have k: "k < 512" and d: "d = 512 - Suc k" "Suc k \<le> 512" by linarith+
  let ?hit = "\<lambda>m. fst (rs ! m) \<le> a \<and> a < fst (rs ! m) + snd (rs ! m)"
  have IH: "in_alloc_list rd l a (Suc (Suc (2 * k))) s
      = Inr (\<exists>m. Suc k \<le> m \<and> m < length rs \<and> ?hit m, s)"
    using Suc.hyps(1) [OF d] by simp
  have "(\<exists>m. k \<le> m \<and> m < length rs \<and> ?hit m)
      \<longleftrightarrow> k < length rs \<and> ?hit k \<or> (\<exists>m. Suc k \<le> m \<and> m < length rs \<and> ?hit m)"
    by (metis Suc_leD Suc_leI le_neq_implies_less order_refl)
  then show ?case
    using rd_cell [OF assms(1) A, of "2 * k"] rd_cell [OF assms(1) A, of "Suc (2 * k)"]
      holds_list_nth [OF h k] IH k
    by (subst in_alloc_list.simps) auto
qed

lemma is_legitimate_spec:
  assumes "holds p s as fs"
  shows "is_legitimate rd p a s = Inr
    (alloc_list p \<le> a \<and> a < alloc_list p + PAGE_SIZE \<or> free_list p \<le> a \<and> a < free_list p + PAGE_SIZE
      \<or> (\<exists>r\<in>set as. fst r \<le> a \<and> a < fst r + snd r), s)"
proof -
  have ex: "(\<exists>m<length as. P (as ! m)) \<longleftrightarrow> (\<exists>r\<in>set as. P r)" for P
    by (metis in_set_conv_nth)
  have "in_alloc_list rd (alloc_list p) a 0 s
      = Inr (\<exists>r\<in>set as. fst r \<le> a \<and> a < fst r + snd r, s)"
    using assms in_alloc_list_spec [OF holds_self(2) [OF assms], of as 0 a]
      ex [of "\<lambda>r. fst r \<le> a \<and> a < fst r + snd r"]
    by (simp add: holds_def)
  then show ?thesis by (auto simp: is_legitimate_def)
qed

lemma clear_from_clears:
  assumes "updates l s0 s c" and A: "cells l \<subseteq> A" and k: "k \<le> 512"
  shows "\<exists>s'. clear_from wr l (2 * k) s = Inr s' \<and> updates l s0 s' (\<lambda>j. if 2 * k \<le> j then 0 else c j)"
  using assms(1,3)
proof (induction "512 - k" arbitrary: k s c)
  case 0
  then have "k = 512" by simp
  then show ?case
    using 0 by (auto simp: clear_from.simps [of wr l "1024"] elim!: updates_cong)
next
  case (Suc d)
  then have k: "k < 512" and d: "d = 512 - Suc k" "Suc k \<le> 512" by linarith+
  obtain s1 where s1: "wr (cell l (2 * k)) 0 s = Inr s1" "updates l s0 s1 (c(2 * k := 0))"
    using wr_cell [OF Suc.prems(1) A, of "2 * k" 0] k by auto
  let ?c = "c(2 * k := 0, 2 * k + 1 := 0)"
  obtain s2 where s2: "wr (cell l (2 * k + 1)) 0 s1 = Inr s2" "updates l s0 s2 ?c"
    using wr_cell [OF s1(2) A, of "2 * k + 1" 0] k by auto
  obtain s' where s': "clear_from wr l (2 * Suc k) s2 = Inr s'"
      "updates l s0 s' (\<lambda>j. if 2 * Suc k \<le> j then 0 else ?c j)"
    using Suc.hyps(1) [OF d(1) s2(2) d(2)] by blast
  have "clear_from wr l (2 * k) s = Inr s'"
    using s1(1) s2(1) s'(1) k by (subst clear_from.simps) simp
  moreover have "updates l s0 s' (\<lambda>j. if 2 * k \<le> j then 0 else c j)"
    by (rule updates_cong [OF s'(2)]) auto
  ultimately show ?case by blast
qed

text \<open>After the constructor the first two pages are allocated, the rest is one free chunk.\<close>

lemma init_alloc_list_spec:
  assumes u0: "updates (alloc_list p) s0 s c0" and A: "cells (alloc_list p) \<subseteq> A"
  shows "\<exists>s' c. init_alloc_list wr p s = Inr s' \<and> updates (alloc_list p) s0 s' c
    \<and> holds_list c (fst (first_regions p))"
proof -
  let ?al = "alloc_list p" and ?b = "base_address p"
  obtain s1 where s1: "wr (cell ?al 0) ?b s = Inr s1" "updates ?al s0 s1 (c0(0 := ?b))"
    using wr_cell [OF u0 A, of 0 ?b] by auto
  obtain s2 where s2: "wr (cell ?al 1) PAGE_SIZE s1 = Inr s2"
      "updates ?al s0 s2 (c0(0 := ?b, 1 := PAGE_SIZE))"
    using wr_cell [OF s1(2) A, of 1 PAGE_SIZE] by auto
  obtain s3 where s3: "wr (cell ?al 2) (?b + PAGE_SIZE) s2 = Inr s3"
      "updates ?al s0 s3 (c0(0 := ?b, 1 := PAGE_SIZE, 2 := ?b + PAGE_SIZE))"
    using wr_cell [OF s2(2) A, of 2 "?b + PAGE_SIZE"] by auto
  let ?c4 = "c0(0 := ?b, 1 := PAGE_SIZE, 2 := ?b + PAGE_SIZE, 3 := PAGE_SIZE)"
  obtain s4 where s4: "wr (cell ?al 3) PAGE_SIZE s3 = Inr s4" "updates ?al s0 s4 ?c4"
    using wr_cell [OF s3(2) A, of 3 PAGE_SIZE] by auto
  let ?c = "\<lambda>j. if 4 \<le> j then 0 else ?c4 j"
  obtain s5 where s5: "clear_from wr ?al 4 s4 = Inr s5" "updates ?al s0 s5 ?c"
    using clear_from_clears [OF s4(2) A, of 2] by auto
  have "init_alloc_list wr p s = Inr s5"
    using s1(1) s2(1) s3(1) s4(1) s5(1) by (simp add: init_alloc_list_def Let_def)
  moreover have "holds_list ?c (fst (first_regions p))"
    unfolding holds_list_def first_regions_def by (auto simp: nth_Cons')
  ultimately show ?thesis using s5(2) by blast
qed

lemma init_free_list_spec:
  assumes v0: "updates (free_list p) s0 s d0" and A: "cells (free_list p) \<subseteq> A"
    and size: "vm_size p \<noteq> 2 * PAGE_SIZE"
  shows "\<exists>s' c. init_free_list wr p s = Inr s' \<and> updates (free_list p) s0 s' c
    \<and> holds_list c (snd (first_regions p))"
proof -
  let ?fl = "free_list p" and ?b = "base_address p"
  obtain s6 where s6: "wr (cell ?fl 0) (?b + 2 * PAGE_SIZE) s = Inr s6"
      "updates ?fl s0 s6 (d0(0 := ?b + 2 * PAGE_SIZE))"
    using wr_cell [OF v0 A, of 0 "?b + 2 * PAGE_SIZE"] by auto
  let ?d1 = "d0(0 := ?b + 2 * PAGE_SIZE, 1 := vm_size p - 2 * PAGE_SIZE)"
  obtain s7 where s7: "wr (cell ?fl 1) (vm_size p - 2 * PAGE_SIZE) s6 = Inr s7"
      "updates ?fl s0 s7 ?d1"
    using wr_cell [OF s6(2) A, of 1 "vm_size p - 2 * PAGE_SIZE"] by auto
  let ?c = "\<lambda>j. if 2 \<le> j then 0 else ?d1 j"
  obtain s8 where s8: "clear_from wr ?fl 2 s7 = Inr s8" "updates ?fl s0 s8 ?c"
    using clear_from_clears [OF s7(2) A, of 1] by auto
  have "init_free_list wr p s = Inr s8"
    using s6(1) s7(1) s8(1) by (simp add: init_free_list_def Let_def)
  moreover have "holds_list ?c (snd (first_regions p))"
    using size unfolding holds_list_def first_regions_def by (auto simp: nth_Cons')
  ultimately show ?thesis using s8(2) by blast
qed

end

section \<open>Sizes\<close>

lemma unat_round_up:
  assumes "unat sz + 4095 < 4294967296"
  shows "unat (round_up sz) = (unat sz + 4095) div 4096 * 4096"
proof -
  define q where "q = unat sz div 4096"
  define r where "r = unat sz mod 4096"
  have sz: "unat sz = 4096 * q + r" "r < 4096" by (simp_all add: q_def r_def)
  have m: "sz mod 4096 = 0 \<longleftrightarrow> r = 0" by (simp only: unat_mod_4096 r_def)
  show ?thesis
  proof (cases "r = 0")
    case True
    then show ?thesis using sz m by (simp add: round_up_def)
  next
    case False
    have "(4096 * q + (r + 4095)) div 4096 = q + (r + 4095) div 4096" by simp
    moreover have "(r + 4095) div 4096 = 1"
      using False sz(2) by (intro div_nat_eqI) simp_all
    ultimately have d: "(unat sz + 4095) div 4096 = Suc q" using sz(1) by simp
    have "unat (sz div 4096) = q" by (simp add: unat_div q_def)
    then have "unat ((sz div 4096 + 1) * 4096) = Suc q * 4096"
      using sz assms False by (simp add: unat_word_ariths)
    then show ?thesis using False m d by (simp add: round_up_def)
  qed
qed

lemma round_up_page:
  assumes "0 < sz" and "unat sz + 4095 < 4294967296"
  shows "round_up sz \<noteq> 0" and "round_up sz mod 4096 = 0" and "sz \<le> round_up sz"
proof -
  note u = unat_round_up [OF assms(2)]
  have "0 < unat sz" using assms(1) by (simp add: word_less_nat_alt)
  then have le: "unat sz \<le> (unat sz + 4095) div 4096 * 4096"
    using mult_div_mod_eq [of 4096 "unat sz + 4095"] mod_less_divisor [of 4096 "unat sz + 4095"]
    by linarith
  then show "sz \<le> round_up sz" by (simp add: word_le_nat_alt u)
  then show "round_up sz \<noteq> 0" using assms(1) by auto
  show "round_up sz mod 4096 = 0" by (simp only: unat_mod_4096 u mod_mult_self2_is_0)
qed

lemma first_regions_partition:
  assumes base: "base mod 4096 = 0" "unat base + unat (round_up sz) \<le> 4294967295"
    and sz: "0 < sz" "unat sz + 4095 < 4294967296" "8192 < round_up sz"
    and p: "base_address p = base" "vm_size p = round_up sz"
  shows "partitions (unat base) (unat base + unat (round_up sz))
    (fst (first_regions p)) (snd (first_regions p))"
proof -
  let ?n = "unat (round_up sz)"
  have n: "8192 < ?n" using sz(3) by (simp add: word_less_nat_alt)
  have u: "unat (base + 4096) = unat base + 4096" "unat (base + 8192) = unat base + 8192"
      "unat (round_up sz - 8192) = ?n - 8192"
    using base(2) n by (simp_all add: unat_word_ariths unat_sub word_less_nat_alt less_imp_le sz(3))
  have b: "4096 dvd unat base" "4096 dvd ?n"
    using base(1) round_up_page(2) [OF sz(1,2)] by (simp_all only: unat_mod_4096 dvd_eq_mod_eq_0)
  have "4096 dvd unat (base + 4096)" "4096 dvd unat (base + 8192)" "4096 dvd unat (round_up sz - 8192)"
    unfolding u using b by (simp_all add: dvd_diff_nat)
  moreover have "round_up sz - 8192 \<noteq> 0" using sz(3) by auto
  ultimately have "\<forall>r\<in>set (fst (first_regions p) @ snd (first_regions p)). page_region r"
    using b(1) by (simp add: first_regions_def p page_region_def unat_mod_4096 dvd_eq_mod_eq_0)
  moreover have "cover (fst (first_regions p) @ snd (first_regions p)) x
      = (if unat base \<le> x \<and> x < unat base + ?n then 1 else 0)" for x
    using n by (auto simp: first_regions_def p region_set_def u)
  ultimately show ?thesis using base(2) by (simp add: partitions_def)
qed

end
