(* ===== verification/Page_Release.thy ===== *)
theory Page_Release
  imports Fault_Handler VM_Lists
begin

text \<open>
  \<open>free_page\<close> against the invariant, and the instance of \<open>VM_Lists\<close>'s interface on demand-paged
  memory: on pages that are mapped, the processor's accesses are reads and writes of words that
  do not disturb one another or the page tables.
\<close>

section \<open>Giving one frame back\<close>

lemma section_len_free_1:
  assumes "i < length xs" "xs ! i = HoS" "j < length xs" "j \<noteq> i"
  shows "section_len j (xs[i := Free]) = section_len j xs"
proof -
  have *: "takeWhile (\<lambda>s. s = Used) (ys[k := Free]) = takeWhile (\<lambda>s. s = Used) ys"
    if "k < length ys" "ys ! k = HoS" for ys k
    using that by (induction ys arbitrary: k) (auto split: nat.splits)
  have "takeWhile (\<lambda>s. s = Used) (drop (Suc j) (xs[i := Free])) = takeWhile (\<lambda>s. s = Used) (drop (Suc j) xs)"
  proof (cases "Suc j \<le> i")
    case True
    then have "drop (Suc j) (xs[i := Free]) = (drop (Suc j) xs)[i - Suc j := Free]"
      by (simp add: drop_update_swap)
    moreover have "drop (Suc j) xs ! (i - Suc j) = HoS" "i - Suc j < length (drop (Suc j) xs)"
      using True assms by auto
    ultimately show ?thesis using * by metis
  next
    case False
    then show ?thesis using assms(4) by (simp add: drop_update_cancel)
  qed
  then show ?thesis by (simp add: section_len_def)
qed

definition returns_frame ::
  "'a paging_state_scheme \<Rightarrow> nat \<Rightarrow> 'a paging_state_scheme \<Rightarrow> bool" where
  "returns_frame s f s' \<longleftrightarrow> arena s' \<and> (\<forall>g. owned s' g \<longleftrightarrow> g \<noteq> f \<and> owned s g) \<and>
     free_count s' = Suc (free_count s) \<and>
     (\<forall>x. kernel_top \<le> unat x \<longrightarrow> mem s' x = mem s x) \<and> frames_only s s'"

lemma release_frames_fields: "release_frames f s = Inr s' \<Longrightarrow> frames_only s s'"
  by (auto simp: release_frames_def frames_only_def outcome_simps split: option.splits)

lemma release_frame_ok:
  assumes ar: "arena s" and own: "owned s f"
  shows "\<exists>s'. release_frames (word_of_nat f) s = Inr s' \<and> returns_frame s f s'"
proof -
  obtain a p where a: "process_mem_pool s = Some a" "frame_pools s a = Some p" and ok: "pools_ok s"
    and base: "1024 \<le> process_base s" "process_base s + length (process_states s) \<le> frame_bound"
      "process_base s = unat (base_frame_no p)"
    and xs: "process_states s = states s a" "length (process_states s) = unat (nframes p)"
    using ar by (elim arenaE) blast
  let ?xs = "process_states s" and ?b = "process_base s"
  let ?i = "f - ?b"
  have f: "?b \<le> f" "?i < length ?xs" "?xs ! ?i = HoS" "section_len ?i ?xs = 1"
    using own by (auto simp: owned_def)
  have "base_frame_no p + word_of_nat ?i = word_of_nat (?b + ?i)" using base(3) by simp
  then have "base_frame_no p + word_of_nat ?i = word_of_nat f" using f(1) by simp
  then obtain s' where s': "release_frames (word_of_nat f) s = Inr s'"
      "frame_pools s' a = Some (p\<lparr>nFreeFrames := nFreeFrames p + word_of_nat (section_len ?i ?xs)\<rparr>)"
      "states s' a = release_run ?i ?xs" "pools_ok s'" "only_pool a p s s'"
    using release_frames_section [OF ok a(2), of ?i] f xs by auto
  have run: "release_run ?i ?xs = ?xs[?i := Free]"
    using f(2,4) by (simp add: release_run_def upd_conv_take_nth_drop)
  note fields = release_frames_fields [OF s'(1)]
  have pm: "process_mem_pool s' = process_mem_pool s" using frames_only_fields [OF fields] by simp
  have ps: "process_states s' = ?xs[?i := Free]" "process_base s' = ?b"
    using s'(2,3) a pm run by (simp_all add: process_states_def process_base_def)
  have "arena s'"
  proof -
    have "\<forall>x\<in>bitmap_bytes q. unat x < kernel_top" if "frame_pools s' b = Some q" for b q
      using ar that s'(2,5) a(2) by (cases "b = a") (auto simp: arena_def only_pool_def)
    then show ?thesis using s'(2,4) a pm base xs(2) by (simp add: arena_def)
  qed
  moreover have "owned s' g \<longleftrightarrow> g \<noteq> f \<and> owned s g" for g
  proof (cases "?b \<le> g \<and> g < ?b + length ?xs \<and> g \<noteq> f")
    case True
    then have "g - ?b < length ?xs" "g - ?b \<noteq> ?i" using f(1) by auto
    then show ?thesis
      using True section_len_free_1 [OF f(2,3), of "g - ?b"] unfolding owned_def ps by simp
  next
    case False
    then show ?thesis using f(1,2) unfolding owned_def ps by (cases "g = f") auto
  qed
  moreover have "free_count s' = Suc (free_count s)"
    using section_count [OF f(2,3)] f(4) run by (simp add: free_count_def ps)
  moreover have "mem s' x = mem s x" if "kernel_top \<le> unat x" for x
  proof -
    have "x \<notin> bitmap_bytes p" using ar a(2) that unfolding arena_def by (metis not_le)
    then show ?thesis using s'(5) by (simp add: only_pool_def)
  qed
  ultimately show ?thesis using s'(1) fields unfolding returns_frame_def by blast
qed

section \<open>Words of mapped pages\<close>

text \<open>The page of an address is mapped, to a frame of its own.\<close>

definition resident :: "'a paging_state_scheme \<Rightarrow> u32 \<Rightarrow> bool" where
  "resident s a \<longleftrightarrow> aligned a \<and> slots s (Page (dir_ix a) (tbl_ix a)) \<noteq> None"

definition page_of :: "'a paging_state_scheme \<Rightarrow> u32 \<Rightarrow> nat" where
  "page_of s a = the (slots s (Page (dir_ix a) (tbl_ix a)))"

definition vword :: "'a paging_state_scheme \<Rightarrow> u32 \<Rightarrow> u32" where
  "vword s a = load32 (mem s) (phys (page_of s a) (offset a))"

lemma slot_page_mapped:
  assumes "slots s (Page d t) = Some f"
  shows "0 < d" "d < 1023" "t < 1024" "mapped s d t = Some f"
proof -
  have "0 < d" using assms by (cases d) (simp_all add: slots_def)
  moreover obtain F where F: "table_frame (entry (mem s)) (frame_of (cr3 s)) d = Some F"
      "page_frame (entry (mem s)) F t = Some f"
    using assms \<open>0 < d\<close> by (auto simp: slots_def bind_eq_Some_conv)
  moreover have "d < 1023" using F(1) by (simp add: table_frame_def split: if_splits)
  moreover have "t < 1024" "present (entry (mem s) F t)" "f = frame_of (entry (mem s) F t)"
    using F(2) by (simp_all add: page_frame_def split: if_splits)
  ultimately show "0 < d" "d < 1023" "t < 1024" "mapped s d t = Some f"
    by (simp_all add: mapped_def lookup_table)
qed

lemma resident_translate:
  assumes "paging_ok s" and "resident s a"
  shows "translate s a = Some (phys (page_of s a) (offset a))"
    and "slots s (Page (dir_ix a) (tbl_ix a)) = Some (page_of s a)"
    and "1024 \<le> page_of s a" and "page_of s a < frame_bound"
proof -
  show sl: "slots s (Page (dir_ix a) (tbl_ix a)) = Some (page_of s a)"
    using assms(2) by (auto simp: resident_def page_of_def)
  show "translate s a = Some (phys (page_of s a) (offset a))"
    using translate_mapped [OF paging_okD(2) [OF assms(1)]] slot_page_mapped(4) [OF sl] by simp
  show "1024 \<le> page_of s a" "page_of s a < frame_bound"
    using paging_okD(5,6) [OF assms(1) sl] by simp_all
qed

lemma aligned_offset_4: "aligned a \<Longrightarrow> offset a = 4 * (offset a div 4)" "offset a div 4 < 1024"
proof -
  assume "aligned a"
  then have "4 dvd unat a" by (simp add: aligned_def dvd_eq_mod_eq_0)
  then have "4 dvd unat a mod 4096" by (simp add: dvd_mod)
  then show "offset a = 4 * (offset a div 4)" by (simp add: offset_def)
next
  show "offset a div 4 < 1024" using offset_bound [of a] by linarith
qed

lemma resident_entry:
  assumes "aligned a"
  shows "phys f (offset a) = entry_addr f (offset a div 4)"
  using aligned_offset_4(1) [OF assms] phys_entry by metis

lemma slots_inject:
  assumes "paging_ok s" and "slots s a = Some f" and "slots s b = Some f"
  shows "a = b"
  using distinct_slotsD [OF map_okD(3) [OF paging_okD(3) [OF assms(1)]]] assms(2,3)
  unfolding slots_def by blast

text \<open>Two resident addresses denote different words.\<close>

lemma resident_inj:
  assumes ok: "paging_ok s" and a: "resident s a" and b: "resident s b"
    and eq: "phys (page_of s a) (offset a) = phys (page_of s b) (offset b)"
  shows "a = b"
proof -
  have "page_of s a = page_of s b" "offset a = offset b"
    using eq phys_eq resident_translate(4) [OF ok a] resident_translate(4) [OF ok b] by auto
  moreover from this(1) have "Page (dir_ix a) (tbl_ix a) = Page (dir_ix b) (tbl_ix b)"
    using slots_inject [OF ok resident_translate(2) [OF ok a]] resident_translate(2) [OF ok b] by metis
  ultimately have "unat a = unat b" using address_pieces [of a] address_pieces [of b] by simp
  then show ?thesis by (simp add: word_unat_eq_iff)
qed

section \<open>Writing a word of a mapped page\<close>

definition same_map :: "u32 set \<Rightarrow> 'a paging_state_scheme \<Rightarrow> 'a paging_state_scheme \<Rightarrow> bool" where
  "same_map A s s' \<longleftrightarrow> s' = s\<lparr>mem := mem s'\<rparr> \<and> slots s' = slots s \<and> owned s' = owned s \<and>
     free_count s' = free_count s \<and>
     (\<forall>e u. e < 1023 \<longrightarrow> u < 1024 \<longrightarrow> mapped s' e u = mapped s e u) \<and>
     (\<forall>x. (\<forall>a\<in>A. x \<notin> frame_bytes (page_of s a)) \<longrightarrow> mem s' x = mem s x)"

lemma same_map_refl: "same_map A s s"
  by (simp add: same_map_def)

lemma same_map_trans:
  assumes "same_map A s s'" and "same_map A s' s''"
  shows "same_map A s s''"
proof -
  have "s'' = s\<lparr>mem := mem s''\<rparr>"
    using assms by (cases s; cases s'; cases s'') (simp add: same_map_def)
  moreover have "page_of s' = page_of s"
    using assms(1) by (simp add: same_map_def page_of_def fun_eq_iff)
  ultimately show ?thesis using assms by (simp add: same_map_def)
qed

lemma write_word_ok:
  assumes ok: "paging_ok s" and a: "resident s a" and aA: "a \<in> A"
    and s': "s' = s\<lparr>mem := store32 (phys (page_of s a) (offset a)) v (mem s)\<rparr>"
  shows "paging_ok s'" and "same_map A s s'"
    and "resident s b \<Longrightarrow> vword s' b = (if b = a then v else vword s b)"
proof -
  let ?f = "page_of s a" and ?P = "frame_of (cr3 s)" and ?i = "offset a div 4"
  note r = resident_translate [OF ok a]
  have al: "aligned a" using a by (simp add: resident_def)
  have addr: "phys ?f (offset a) = entry_addr ?f ?i" using resident_entry [OF al] .
  have i: "?i < 1024" using aligned_offset_4(2) .
  have low: "store32 (entry_addr ?f ?i) v (mem s) x = mem s x" if "unat x < kernel_top" for x
    using store_high [OF r(3,4) i that] .
  have ar: "arena s'" "owned s' = owned s" "free_count s' = free_count s"
    using arena_mem [OF paging_okD(1) [OF ok] low] s' addr by simp_all
  have same: "entry (mem s') g j = entry (mem s) g j"
    if "slots s sl = Some g" "\<And>d t. sl \<noteq> Page d t" "j < 1024" for sl g j
  proof -
    have "g \<noteq> ?f"
      using slots_inject [OF ok r(2)] that(1,2) by metis
    moreover have "g < frame_bound" using paging_okD(6) [OF ok that(1)] .
    ultimately show ?thesis using s' addr entry_store32 [OF r(4) i _ that(3)] by simp
  qed
  have agr: "agree (entry (mem s)) ?P (entry (mem s'))"
    using same [of Dir] same [of "Table _"] by (auto simp: agree_def)
  have cr: "cr3 s' = cr3 s" "cr0 s' = cr0 s" using s' by simp_all
  have sl: "slots s' = slots s" using agree_holder [OF agr] cr by (simp add: slots_def)
  show "paging_ok s'"
    using ok ar agree_map_ok [OF agr] sl cr by (simp add: paging_ok_def slots_def)
  have "mapped s' e u = mapped s e u" if "e < 1023" "u < 1024" for e u
    using agree_lookup [OF agr that] cr by (simp add: mapped_def)
  moreover have "mem s' x = mem s x" if "\<forall>a\<in>A. x \<notin> frame_bytes (page_of s a)" for x
    using store_outside_frame [OF r(4) i] that aA s' addr by simp
  ultimately show "same_map A s s'" using sl ar s' by (simp add: same_map_def)
  assume b: "resident s b"
  have p: "page_of s' b = page_of s b" using sl by (simp add: page_of_def)
  have bal: "aligned b" using b by (simp add: resident_def)
  have "load32 (mem s') (entry_addr (page_of s b) (offset b div 4))
      = (if entry_addr ?f ?i = entry_addr (page_of s b) (offset b div 4) then v
         else load32 (mem s) (entry_addr (page_of s b) (offset b div 4)))"
    using s' addr load32_store32 r(4) i resident_translate(4) [OF ok b] aligned_offset_4(2) by simp
  moreover have "entry_addr ?f ?i = entry_addr (page_of s b) (offset b div 4) \<longleftrightarrow> b = a"
    using resident_inj [OF ok a b] addr resident_entry [OF bal, of "page_of s b"] by auto
  ultimately show "vword s' b = (if b = a then v else vword s b)"
    using resident_entry [OF bal, of "page_of s b"] p addr by (auto simp: vword_def)
qed

text \<open>The interface of \<open>VM_Lists\<close> on pages that stay mapped.\<close>

definition lists_ready :: "u32 set \<Rightarrow> 'a paging_state_scheme \<Rightarrow> bool" where
  "lists_ready A s \<longleftrightarrow> paging_ok s \<and> (\<forall>a\<in>A. resident s a)"

interpretation paged: resident_cells demand_load demand_store vword "lists_ready A" "same_map A" A
  for A
proof
  fix s :: "'a paging_state_scheme" and a v
  assume r: "lists_ready A s" "a \<in> A"
  then have ok: "paging_ok s" and res: "resident s a" by (simp_all add: lists_ready_def)
  note d = demand_resident [OF resident_translate(1) [OF ok res]]
  show "demand_load a s = Inr (vword s a, s)" using d(1) by (simp add: vword_def)
  let ?s' = "s\<lparr>mem := store32 (phys (page_of s a) (offset a)) v (mem s)\<rparr>"
  note w = write_word_ok [where v = v, OF ok res r(2) refl]
  have "lists_ready A ?s'"
    using w(1,2) r(1) by (simp add: lists_ready_def resident_def same_map_def)
  then show "\<exists>s'. demand_store a v s = Inr s' \<and> lists_ready A s' \<and> same_map A s s'
      \<and> (\<forall>b\<in>A. vword s' b = (if b = a then v else vword s b))"
    using d(2) w(2,3) r(1) by (intro exI [of _ ?s']) (simp add: lists_ready_def)
qed (auto intro: same_map_refl same_map_trans)

section \<open>\<open>free_page\<close>\<close>

lemma high_agree:
  assumes ok: "paging_ok s" and "\<And>x. kernel_top \<le> unat x \<Longrightarrow> m x = mem s x"
  shows "agree (entry (mem s)) (frame_of (cr3 s)) (entry m)"
proof -
  have "entry m g i = entry (mem s) g i" if "slots s sl = Some g" "i < 1024" for sl g i
    using paging_okD(5,6) [OF ok that(1)] that(2) assms(2)
    by (intro entry_cong) (auto simp: frame_bytes_def kernel_top_def)
  from this [of Dir] this [of "Table _"] show ?thesis by (auto simp: agree_def)
qed

lemma frame_number: "v div 4096 = word_of_nat (frame_of v)" for v :: u32
proof -
  have "unat v div 4096 < 4294967296" using unat_less_32 [of v] by linarith
  then show ?thesis by (simp add: word_unat_eq_iff unat_div frame_of_def)
qed

lemma drop_bit_clear:
  fixes v m :: u32
  assumes "take_bit n m = m" shows "drop_bit n (v AND NOT m) = drop_bit n v"
proof (rule bit_eqI)
  fix i
  have "\<not> bit m (n + i)" using bit_take_bit_iff [of n m "n + i"] assms by simp
  then show "bit (drop_bit n (v AND NOT m)) i = bit (drop_bit n v) i"
    using bit_imp_le_length [of v "n + i"] by (auto simp: bit_drop_bit_eq bit_and_iff bit_not_iff)
qed

lemma clear_present:
  "\<not> present (v AND NOT 1)" "frame_of (v AND NOT 1) = frame_of v"
proof -
  show "\<not> present (v AND NOT 1)" by (simp add: present_def bit_and_iff bit_not_iff)
  have "drop_bit 12 (v AND NOT 1) = drop_bit 12 v"
    by (rule drop_bit_clear) simp
  moreover have "frame_of e = unat (drop_bit 12 e)" for e by (simp add: frame_of_def unat_drop_bit_32)
  ultimately show "frame_of (v AND NOT 1) = frame_of v" by simp
qed

text \<open>The page of \<open>va\<close> loses its frame; nothing else changes.\<close>

definition page_removed ::
  "'a paging_state_scheme \<Rightarrow> u32 \<Rightarrow> 'a paging_state_scheme \<Rightarrow> bool" where
  "page_removed s va s' \<longleftrightarrow>
     paging_ok s' \<and> slots s' = (slots s)(Page (dir_ix va) (tbl_ix va) := None) \<and>
     (\<forall>e u. e < 1023 \<longrightarrow> u < 1024 \<longrightarrow> mapped s' e u =
        (if e = dir_ix va \<and> u = tbl_ix va then None else mapped s e u)) \<and>
     (\<forall>g. owned s' g \<longleftrightarrow> owned s g \<and> slots s (Page (dir_ix va) (tbl_ix va)) \<noteq> Some g) \<and>
     free_count s' = free_count s + (if slots s (Page (dir_ix va) (tbl_ix va)) = None then 0 else 1) \<and>
     (\<forall>x. kernel_top \<le> unat x \<longrightarrow> (\<forall>F. slots s (Table (dir_ix va)) = Some F \<longrightarrow> x \<notin> frame_bytes F)
        \<longrightarrow> mem s' x = mem s x) \<and>
     cr3 s' = cr3 s \<and> vm_pools s' = vm_pools s \<and> page_tables s' = page_tables s \<and>
     process_mem_pool s' = process_mem_pool s"

lemma free_page_ok:
  assumes ok: "paging_ok s" and tab: "page_tables s this = Some t" "cr3 s = page_directory t"
    and legit: "some_legitimate (pg * PAGE_SIZE) (head_pool t) s = Some (Inr (True, s))"
    and va: "va = pg * PAGE_SIZE" and d: "0 < dir_ix va"
    and F: "slots s (Table (dir_ix va)) = Some F"
    and page: "mapped s (dir_ix va) (tbl_ix va) = slots s (Page (dir_ix va) (tbl_ix va))"
  shows "\<exists>s'. free_page this pg s = Inr s' \<and> page_removed s va s'"
proof -
  let ?d = "dir_ix va" and ?t = "tbl_ix va" and ?P = "frame_of (cr3 s)"
  let ?v = "entry (mem s) F (tbl_ix va)"
  have TF: "table_frame (entry (mem s)) ?P ?d = Some F" using F by simp
  then have d1023: "?d < 1023" by (simp add: table_frame_def split: if_splits)
  have mp: "mapped s ?d ?t = (if present ?v then Some (frame_of ?v) else None)"
    using TF d1023 by (simp add: mapped_def lookup_table)
  have ld: "demand_load (pte_window va) s = Inr (?v, s)"
    using demand_resident(1) [OF pte_access [OF ok F]] by (simp add: entry_def)
  have dv: "?v div 4096 = word_of_nat (frame_of ?v)" by (rule frame_number)
  show ?thesis
  proof (cases "present ?v")
    case False
    then have none: "slots s (Page ?d ?t) = None" "mapped s ?d ?t = None" using mp page by simp_all
    have "free_page this pg s = Inr s"
      using tab(1) legit ld False va by (simp add: free_page_def present_and_1 Let_def)
    moreover have "page_removed s va s"
      using ok none d1023 by (auto simp: page_removed_def fun_eq_iff)
    ultimately show ?thesis by blast
  next
    case True
    let ?f = "frame_of ?v"
    have slot: "slots s (Page ?d ?t) = Some ?f" using True mp page by simp
    obtain s1 where s1: "release_frames (word_of_nat ?f) s = Inr s1" and ret: "returns_frame s ?f s1"
      using release_frame_ok [OF paging_okD(1) [OF ok] paging_okD(4) [OF ok slot]] by blast
    have high: "kernel_top \<le> unat x \<Longrightarrow> mem s1 x = mem s x" and fo: "frames_only s s1"
      and own1: "owned s1 g \<longleftrightarrow> g \<noteq> ?f \<and> owned s g" for x g
      using ret by (simp_all add: returns_frame_def)
    note fields = frames_only_fields [OF fo]
    have agr: "agree (entry (mem s)) ?P (entry (mem s1))" using high by (rule high_agree [OF ok])
    have sl1: "slots s1 = slots s" using agree_holder [OF agr] fields by (simp add: slots_def)
    have v1: "entry (mem s1) F ?t = ?v" using agreeD(2) [OF agr TF] by simp
    have but1: "paging_ok_but (Page ?d ?t) s1"
      unfolding paging_ok_but_def
    proof (intro conjI allI impI)
      show "arena s1" "bit (cr0 s1) 31" "map_ok (entry (mem s1)) (frame_of (cr3 s1))"
        using ret ok agree_map_ok [OF agr] fields by (simp_all add: returns_frame_def paging_ok_def)
      show "owned s1 g" if "sl \<noteq> Page ?d ?t" "slots s1 sl = Some g" for sl g
        using that own1 sl1 slots_inject [OF ok _ slot, of sl] paging_okD(4) [OF ok] by auto
    qed
    have F1: "slots s1 (Table ?d) = Some F" using F sl1 by metis
    have tr1: "translate s1 (pte_window va) = Some (entry_addr F ?t)"
    proof -
      have "self_mapped (mem s1) (cr3 s1)" "bit (cr0 s1) 31"
        using but1 self_mapped_ok by (simp_all add: paging_ok_but_def)
      then show ?thesis
        using walk_pte_window F1 by (auto simp: translate_def table_frame_def split: if_splits)
    qed
    let ?w = "?v AND NOT 1"
    define s2 where s2: "s2 = s1\<lparr>mem := store32 (entry_addr F ?t) ?w (mem s1)\<rparr>"
    have fF: "?f \<noteq> F" using slots_inject [OF ok slot, of "Table ?d"] F by auto
    have w: "\<not> (?t = 1023 \<and> frame_of ?w = F)" "present ?w \<longrightarrow> owned s1 (frame_of ?w) \<and> (\<forall>sl. slots s1 sl \<noteq> Some (frame_of ?w))"
      using clear_present [of ?v] fF by simp_all
    note wr = write_entry_ok [where s' = s2 and v = ?w and t = "tbl_ix va", OF but1 F1 d tbl_ix_bound w s2]
    have st: "demand_load (pte_window va) s1 = Inr (?v, s1)" "demand_store (pte_window va) ?w s1 = Inr s2"
      using demand_resident [OF tr1] v1 s2 by (simp_all add: entry_def)
    let ?s3 = "s2\<lparr>cr3 := page_directory t, current_page_table := Some this\<rparr>"
    have s2_fields: "page_tables s2 = page_tables s" "cr3 s2 = cr3 s" "vm_pools s2 = vm_pools s"
        "process_mem_pool s2 = process_mem_pool s" "frame_pools s2 = frame_pools s1"
      using s2 fields by simp_all
    have "free_page this pg s = Inr ?s3"
      using tab legit ld True va s1 dv st s2_fields
      by (simp add: free_page_def present_and_1 Let_def load_def)
    moreover have eq3: "slots ?s3 = slots s2" "mapped ?s3 = mapped s2" "owned ?s3 = owned s2"
        "free_count ?s3 = free_count s2" "arena ?s3 = arena s2" "cr0 ?s3 = cr0 s2" "mem ?s3 = mem s2"
      using s2_fields tab
      by (simp_all add: slots_def mapped_def fun_eq_iff owned_def free_count_def process_states_def
          process_base_def states_def arena_def pools_ok_def)
    moreover have "mem s2 x = mem s x"
      if "kernel_top \<le> unat x" "\<forall>F. slots s (Table ?d) = Some F \<longrightarrow> x \<notin> frame_bytes F" for x
      using wr(6) [of x] high [of x] that F by simp
    moreover have "paging_ok ?s3"
      using wr(1) eq3 s2_fields tab by (simp add: paging_ok_def)
    moreover have "mapped s2 e u = (if e = ?d \<and> u = ?t then None else mapped s e u)"
      if "e < 1023" "u < 1024" for e u
      using wr(3) [OF that] clear_present(1) [of ?v] agree_lookup [OF agr that] fields
      by (simp add: mapped_def)
    moreover have "slots s2 = (slots s)(Page ?d ?t := None)"
      using wr(2) clear_present(1) [of ?v] sl1 by simp
    moreover have "free_count s2 = Suc (free_count s)" using wr(5) ret by (simp add: returns_frame_def)
    ultimately have "page_removed s va ?s3"
      using wr(4) own1 slot s2_fields tab unfolding page_removed_def by auto
    then show ?thesis using \<open>free_page this pg s = Inr ?s3\<close> by blast
  qed
qed

end
