(* ===== verification/Kept_Pages.thy ===== *)
theory Kept_Pages
  imports Page_Release
begin

text \<open>
  The frame rule of the paged memory.  \<open>keeps B s s'\<close> says that from \<open>s\<close> to \<open>s'\<close> only the pages of
  \<open>B\<close> may have been mapped, unmapped or written: every word that was resident outside \<open>B\<close> still is,
  with its value, and the registered objects are the same.  Each operation on pages is an instance.
\<close>

abbreviation page_slot :: "u32 \<Rightarrow> slot" where
  "page_slot a \<equiv> Page (dir_ix a) (tbl_ix a)"

definition keeps :: "slot set \<Rightarrow> 'a paging_state_scheme \<Rightarrow> 'a paging_state_scheme \<Rightarrow> bool" where
  "keeps B s s' \<longleftrightarrow> paging_ok s' \<and>
     (\<forall>a. resident s a \<longrightarrow> page_slot a \<notin> B \<longrightarrow> resident s' a \<and> vword s' a = vword s a) \<and>
     (\<forall>e u. 0 < e \<longrightarrow> e < 1023 \<longrightarrow> u < 1023 \<longrightarrow> Page e u \<notin> B \<longrightarrow> slots s' (Page e u) = slots s (Page e u)) \<and>
     (\<forall>d F. slots s (Table d) = Some F \<longrightarrow> slots s' (Table d) = Some F) \<and>
     (\<forall>e. (\<forall>u. Page e u \<notin> B) \<longrightarrow> slots s' (Table e) = slots s (Table e)) \<and>
     cr3 s' = cr3 s \<and> vm_pools s' = vm_pools s \<and> page_tables s' = page_tables s"

lemma keepsD:
  assumes "keeps B s s'"
  shows "paging_ok s'"
    and "resident s a \<Longrightarrow> page_slot a \<notin> B \<Longrightarrow> resident s' a"
    and "resident s a \<Longrightarrow> page_slot a \<notin> B \<Longrightarrow> vword s' a = vword s a"
    and "0 < e \<Longrightarrow> e < 1023 \<Longrightarrow> u < 1023 \<Longrightarrow> Page e u \<notin> B \<Longrightarrow> slots s' (Page e u) = slots s (Page e u)"
    and "slots s (Table d) = Some F \<Longrightarrow> slots s' (Table d) = Some F"
    and "cr3 s' = cr3 s" "vm_pools s' = vm_pools s" "page_tables s' = page_tables s"
    and "(\<And>u. Page e u \<notin> B) \<Longrightarrow> slots s' (Table e) = slots s (Table e)"
  using assms unfolding keeps_def by blast+

lemma keeps_refl: "paging_ok s \<Longrightarrow> keeps B s s"
  by (simp add: keeps_def)

lemma keeps_trans: "keeps B s s' \<Longrightarrow> keeps B s' s'' \<Longrightarrow> keeps B s s''"
  unfolding keeps_def by (simp del: slots_simps)

lemma keeps_mono: "keeps B s s' \<Longrightarrow> B \<subseteq> C \<Longrightarrow> keeps C s s'"
  unfolding keeps_def by blast

lemma kept_word:
  assumes ok: "paging_ok s" and a: "resident s a" and sl: "slots s' (page_slot a) = slots s (page_slot a)"
    and same: "\<And>x. x \<in> frame_bytes (page_of s a) \<Longrightarrow> mem s' x = mem s x"
  shows "resident s' a" and "vword s' a = vword s a"
proof -
  show "resident s' a" using a sl by (simp add: resident_def)
  have p: "page_of s' a = page_of s a" using sl by (simp add: page_of_def)
  have al: "aligned a" using a by (simp add: resident_def)
  have "entry (mem s') (page_of s a) (offset a div 4) = entry (mem s) (page_of s a) (offset a div 4)"
    using same by (intro entry_cong [OF resident_translate(4) [OF ok a] aligned_offset_4(2)]) blast
  then show "vword s' a = vword s a"
    using p resident_entry [OF al] by (simp add: vword_def entry_def)
qed

lemma same_map_fields:
  assumes "same_map A s s'"
  shows "vm_pools s' = vm_pools s" "page_tables s' = page_tables s" "cr3 s' = cr3 s"
proof -
  have e: "s' = s\<lparr>mem := mem s'\<rparr>" using assms by (simp add: same_map_def)
  show "vm_pools s' = vm_pools s" "page_tables s' = page_tables s" "cr3 s' = cr3 s"
    using arg_cong [OF e, of vm_pools] arg_cong [OF e, of page_tables] arg_cong [OF e, of cr3] by simp_all
qed

lemma mapped_slots:
  assumes "0 < d" "d < 1023" "t < 1023"
  shows "mapped s d t = slots s (Page d t)"
  using assms unfolding mapped_def slots_def
  by (auto simp: lookup_table page_frame_def split: bind_splits option.splits)

section \<open>The operations on pages\<close>

text \<open>Writing resident words.\<close>

lemma same_map_keeps:
  assumes m: "same_map A s s'" and ok: "paging_ok s" "paging_ok s'" and A: "\<forall>a\<in>A. resident s a"
  shows "keeps (page_slot ` A) s s'"
proof -
  have sl: "slots s' = slots s" using m by (simp add: same_map_def)
  have "resident s' b \<and> vword s' b = vword s b" if b: "resident s b" "page_slot b \<notin> page_slot ` A" for b
  proof -
    have "mem s' x = mem s x" if x: "x \<in> frame_bytes (page_of s b)" for x
    proof -
      have "x \<notin> frame_bytes (page_of s a)" if a: "a \<in> A" for a
      proof -
        have "page_of s a \<noteq> page_of s b"
        proof
          assume eq: "page_of s a = page_of s b"
          have ra: "resident s a" using A a by blast
          have "slots s (page_slot b) = Some (page_of s a)" unfolding eq by (rule resident_translate(2) [OF ok(1) b(1)])
          from slots_inject [OF ok(1) resident_translate(2) [OF ok(1) ra] this]
          show False using a b(2) by (auto intro: image_eqI [of _ _ a])
        qed
        then show ?thesis using frame_bytes_disjoint x by blast
      qed
      then show ?thesis using m by (simp add: same_map_def)
    qed
    then show ?thesis using kept_word [OF ok(1) b(1), of s'] sl by simp
  qed
  then show ?thesis
    using ok(2) sl same_map_fields [OF m] by (simp add: keeps_def)
qed

text \<open>A page fault.\<close>

lemma page_added_keeps:
  assumes r: "page_added s va f s'" and ok: "paging_ok s" and a: "resident s a"
  shows "resident s' a" and "vword s' a = vword s a"
proof -
  note t = resident_translate [OF ok a]
  have sl: "slots s' (page_slot a) = slots s (page_slot a)" using r t(2) unfolding page_added_def by simp
  have "mem s' x = mem s x" if "x \<in> frame_bytes (page_of s a)" for x
    using r t(2) that unfolding page_added_def by blast
  then show "resident s' a" "vword s' a = vword s a" using kept_word [OF ok a sl] by simp_all
qed

lemma page_added_slots:
  assumes r: "page_added s va f s'" and "0 < e" "e < 1023" "u < 1023" "Page e u \<noteq> page_slot va"
  shows "slots s' (Page e u) = slots s (Page e u)"
proof -
  have "mapped s' e u = mapped s e u" using assms unfolding page_added_def by simp
  then show ?thesis by (simp add: mapped_slots [OF assms(2-4)])
qed

lemma fault_keeps:
  assumes r: "page_added (s\<lparr>cr2 := va\<rparr>) va f s'" and ok: "paging_ok s"
  shows "keeps {page_slot va} s s'"
proof -
  have same: "resident (s\<lparr>cr2 := va\<rparr>) = resident s" "vword (s\<lparr>cr2 := va\<rparr>) = vword s"
    by (simp_all add: resident_def vword_def page_of_def fun_eq_iff)
  have "frames_only (s\<lparr>cr2 := va\<rparr>) s'" using r by (simp add: page_added_def)
  then have "cr3 s' = cr3 s \<and> vm_pools s' = vm_pools s \<and> page_tables s' = page_tables s"
    using frames_only_fields by fastforce
  then show ?thesis
    using page_added_keeps [OF r] page_added_slots [OF r] r ok
    unfolding keeps_def page_added_def same by (simp del: slots_simps)
qed

text \<open>Removing a page.\<close>

lemma page_removed_keeps:
  assumes r: "page_removed s va s'" and ok: "paging_ok s"
  shows "keeps {page_slot va} s s'"
proof -
  have sl: "slots s' = (slots s)(page_slot va := None)" using r by (simp add: page_removed_def)
  have "resident s' a \<and> vword s' a = vword s a" if a: "resident s a" "page_slot a \<notin> {page_slot va}" for a
  proof -
    note t = resident_translate [OF ok a(1)]
    have "mem s' x = mem s x" if x: "x \<in> frame_bytes (page_of s a)" for x
    proof -
      have "kernel_top \<le> unat x" using x t(3) by (auto simp: frame_bytes_def kernel_top_def)
      moreover have "x \<notin> frame_bytes F" if "slots s (Table d) = Some F" for d F
        using slots_inject [OF ok t(2), of "Table d"] that x by (auto simp: frame_bytes_def)
      ultimately show ?thesis using r unfolding page_removed_def by blast
    qed
    moreover have "slots s' (page_slot a) = slots s (page_slot a)" unfolding sl using a(2) by auto
    ultimately show ?thesis using kept_word [OF ok a(1), of s'] by simp
  qed
  then show ?thesis using r sl unfolding keeps_def page_removed_def by (simp del: slots_simps)
qed

end
