(* ===== verification/VM_System.thy ===== *)
theory VM_System
  imports Kept_Pages
begin

text \<open>
  The virtual memory pools on demand-paged memory: \<open>vm_allocate\<close>, \<open>vm_release\<close> and the
  constructor \<open>VMPool\<close>, as operations on the regions of a pool and on the page tables at once.
\<close>

section \<open>Pools whose lists are in mapped pages\<close>

definition list_cells :: "vm_pool \<Rightarrow> u32 set" where
  "list_cells p = cells (alloc_list p) \<union> cells (free_list p)"

definition vm_holds ::
  "vm_pool \<Rightarrow> 'a paging_state_scheme \<Rightarrow> region list \<Rightarrow> region list \<Rightarrow> bool" where
  "vm_holds p = pool_holds (lists_ready (list_cells p)) vword (list_cells p) p"

lemma vm_allocate_refines:
  assumes p: "vm_pools s this = Some p" and h: "vm_holds p s as fs" and sz: "round_up sz0 \<noteq> 0"
    and a: "alloc_regions (round_up sz0) as fs = Some (start, as', fs')"
  shows "\<exists>s'. vm_allocate this sz0 s = Inr (start, s') \<and> vm_holds p s' as' fs'
    \<and> same_map (list_cells p) s s'"
  using paged.allocate_refines [OF h [unfolded vm_holds_def] sz a] p
  by (auto simp: vm_allocate_def vm_holds_def)

lemma vm_allocate_fails:
  assumes p: "vm_pools s this = Some p" and h: "vm_holds p s as fs" and sz: "round_up sz0 \<noteq> 0"
    and a: "alloc_regions (round_up sz0) as fs = None"
  shows "vm_allocate this sz0 s = Inl Assertion"
  using paged.allocate_fails [OF h [unfolded vm_holds_def] sz a] p by (simp add: vm_allocate_def)

section \<open>The pools registered with a page table\<close>

primrec node_chain :: "(nat \<Rightarrow> vm_pool option) \<Rightarrow> nat option \<Rightarrow> nat list \<Rightarrow> bool" where
  "node_chain vps node [] \<longleftrightarrow> node = None"
| "node_chain vps node (n # ns) \<longleftrightarrow>
     node = Some n \<and> (case vps n of None \<Rightarrow> False | Some p \<Rightarrow> node_chain vps (next_pool p) ns)"

definition in_regions :: "u32 \<Rightarrow> region list \<Rightarrow> bool" where
  "in_regions a as \<longleftrightarrow> (\<exists>r\<in>set as. fst r \<le> a \<and> a < fst r + snd r)"

definition legit :: "vm_pool \<Rightarrow> region list \<Rightarrow> u32 \<Rightarrow> bool" where
  "legit p as a \<longleftrightarrow> alloc_list p \<le> a \<and> a < alloc_list p + PAGE_SIZE
     \<or> free_list p \<le> a \<and> a < free_list p + PAGE_SIZE \<or> in_regions a as"

lemma vm_is_legitimate:
  "vm_holds p s as fs \<Longrightarrow> is_legitimate demand_load p a s = Inr (legit p as a, s)"
  using paged.is_legitimate_spec [where p = p and s = s and a = a] by (simp add: vm_holds_def legit_def in_regions_def)

lemma some_legitimate_spec:
  assumes "node_chain (vm_pools s) node ns"
    and "\<And>n. n \<in> set ns \<Longrightarrow> \<exists>fs. vm_holds (the (vm_pools s n)) s (AL n) fs"
  shows "some_legitimate a node s =
    Some (Inr (\<exists>n\<in>set ns. legit (the (vm_pools s n)) (AL n) a, s))"
  using assms
proof (induction ns arbitrary: node)
  case Nil
  then show ?case by (simp add: some_legitimate.simps)
next
  case (Cons n ns)
  obtain p where p: "node = Some n" "vm_pools s n = Some p" "node_chain (vm_pools s) (next_pool p) ns"
    using Cons.prems(1) by (auto split: option.splits)
  obtain fs where "vm_holds p s (AL n) fs" using Cons.prems(2) [of n] p(2) by auto
  note v = vm_is_legitimate [OF this, of a]
  have "some_legitimate a (next_pool p) s =
      Some (Inr (\<exists>n\<in>set ns. legit (the (vm_pools s n)) (AL n) a, s))"
    using Cons.IH [OF p(3)] Cons.prems(2) by simp
  then show ?case
    using p(1,2) v by (simp add: some_legitimate.simps [of a "Some n" s])
qed

section \<open>\<open>release\<close>\<close>

definition page_addr :: "u32 \<Rightarrow> nat \<Rightarrow> u32" where
  "page_addr start k = start + word_of_nat (4096 * k)"

text \<open>
  What \<open>free_page\<close> needs of the pages of a region: each lies in a 4 MB region that has a page
  table (some page of it has been touched), and is not the last page of one whose table still
  maps itself there.
\<close>

definition region_ready :: "'a paging_state_scheme \<Rightarrow> u32 \<Rightarrow> nat \<Rightarrow> bool" where
  "region_ready s start n \<longleftrightarrow> (\<forall>k<n. let a = page_addr start k in
     0 < dir_ix a \<and> slots s (Table (dir_ix a)) \<noteq> None \<and>
     mapped s (dir_ix a) (tbl_ix a) = slots s (page_slot a))"

text \<open>The frames that a region holds.\<close>

definition pages_held :: "'a paging_state_scheme \<Rightarrow> u32 \<Rightarrow> nat \<Rightarrow> nat" where
  "pages_held s start n = card {k. k < n \<and> slots s (page_slot (page_addr start k)) \<noteq> None}"

lemma pages_held_0 [simp]: "pages_held s start 0 = 0"
  by (simp add: pages_held_def)

lemma pages_held_Suc:
  "pages_held s start (Suc n) = pages_held s start n + (if slots s (page_slot (page_addr start n)) = None then 0 else 1)"
proof -
  have "{k. k < Suc n \<and> slots s (page_slot (page_addr start k)) \<noteq> None}
      = {k. k < n \<and> slots s (page_slot (page_addr start k)) \<noteq> None}
        \<union> (if slots s (page_slot (page_addr start n)) = None then {} else {n})"
    by (auto simp: less_Suc_eq)
  then show ?thesis by (simp add: pages_held_def card_Un_disjoint)
qed

text \<open>The pages of a region are unmapped and everything else is as before.\<close>

definition region_unmapped ::
  "'a paging_state_scheme \<Rightarrow> u32 \<Rightarrow> nat \<Rightarrow> 'a paging_state_scheme \<Rightarrow> bool" where
  "region_unmapped s start n s' \<longleftrightarrow> paging_ok s' \<and>
     keeps {page_slot (page_addr start k) |k. k < n} s s' \<and>
     free_count s' = free_count s + pages_held s start n \<and>
     (\<forall>sl. slots s' sl = (if \<exists>k<n. sl = page_slot (page_addr start k) then None else slots s sl)) \<and>
     (\<forall>e u. e < 1023 \<longrightarrow> u < 1024 \<longrightarrow> mapped s' e u =
        (if \<exists>k<n. Page e u = page_slot (page_addr start k) then None else mapped s e u)) \<and>
     (\<forall>x. kernel_top \<le> unat x \<longrightarrow> (\<forall>d F. slots s (Table d) = Some F \<longrightarrow> x \<notin> frame_bytes F)
        \<longrightarrow> mem s' x = mem s x) \<and>
     (\<forall>g. owned s' g \<longleftrightarrow> owned s g \<and> (\<forall>k<n. slots s (page_slot (page_addr start k)) \<noteq> Some g)) \<and>
     process_mem_pool s' = process_mem_pool s"

lemma unat_page_addr:
  assumes "unat start + 4096 * n \<le> 4294967295" and "k \<le> n"
  shows "unat (page_addr start k) = unat start + 4096 * k"
  using assms by (simp add: page_addr_def unat_word_ariths del: of_nat_mult)

lemma page_slot_inj:
  assumes "unat a mod 4096 = unat b mod 4096" and "page_slot a = page_slot b"
  shows "a = b"
proof -
  have "offset a = offset b" using assms(1) by (simp only: offset_def)
  moreover have "dir_ix a = dir_ix b" "tbl_ix a = tbl_ix b" using assms(2) by simp_all
  ultimately show ?thesis
    unfolding word_unat_eq_iff address_pieces [of a] address_pieces [of b] by (simp only:)
qed

lemma page_addr_slots:
  assumes n: "unat start + 4096 * n \<le> 4294967295" and "j < n" "k < n"
  shows "page_slot (page_addr start j) = page_slot (page_addr start k) \<longleftrightarrow> j = k"
proof
  assume eq: "page_slot (page_addr start j) = page_slot (page_addr start k)"
  have u: "unat (page_addr start j) = unat start + 4096 * j" "unat (page_addr start k) = unat start + 4096 * k"
    using unat_page_addr [OF n] assms(2,3) by simp_all
  then have "unat (page_addr start j) mod 4096 = unat (page_addr start k) mod 4096"
    unfolding u by simp
  then have "page_addr start j = page_addr start k" by (rule page_slot_inj [OF _ eq])
  then have "unat (page_addr start j) = unat (page_addr start k)" by (rule arg_cong)
  then show "j = k" unfolding u by linarith
qed simp

lemma page_addr_page:
  assumes n: "unat start + 4096 * n \<le> 4294967295" and "k \<le> n" and "start mod 4096 = 0"
  shows "page_addr start k div 4096 * 4096 = page_addr start k"
proof -
  have "unat start mod 4096 = 0" using assms(3) by (simp only: unat_mod_4096)
  then have "unat (page_addr start k) mod 4096 = 0" using unat_page_addr [OF assms(1,2)] by simp
  then have "page_addr start k mod 4096 = 0" by (simp only: unat_mod_4096)
  then show ?thesis using div_mult_mod_eq [of "page_addr start k" 4096] by simp
qed

text \<open>Pages that change elsewhere leave the lists as they are.\<close>

lemma keeps_holds:
  assumes h: "vm_holds p s as fs" and k: "keeps B s s'" and out: "\<forall>a\<in>list_cells p. page_slot a \<notin> B"
  shows "vm_holds p s' as fs"
proof -
  have ready: "\<forall>a\<in>list_cells p. resident s a" using h by (simp add: vm_holds_def pool_holds_def lists_ready_def)
  then have "lists_ready (list_cells p) s'"
    using keepsD(1,2) [OF k] out by (simp add: lists_ready_def)
  moreover have "vword s' a = vword s a" if "a \<in> list_cells p" for a
    using keepsD(3) [OF k] ready out that by blast
  then have "vword s' (cell (alloc_list p) j) = vword s (cell (alloc_list p) j)"
      "vword s' (cell (free_list p) j) = vword s (cell (free_list p) j)" if "j < 1024" for j
    using that by (simp_all add: list_cells_def)
  ultimately show ?thesis
    using h holds_list_cong [of "\<lambda>j. vword s' (cell (alloc_list p) j)" "\<lambda>j. vword s (cell (alloc_list p) j)"]
      holds_list_cong [of "\<lambda>j. vword s' (cell (free_list p) j)" "\<lambda>j. vword s (cell (free_list p) j)"]
    by (simp add: vm_holds_def pool_holds_def)
qed

text \<open>The loop of \<open>release\<close> over the pages of the region \<open>(start, 4096 * n)\<close>.\<close>

lemma free_region:
  assumes ok: "paging_ok s" and tab: "page_tables s pt = Some t" "cr3 s = page_directory t"
    and chain: "node_chain (vm_pools s) (head_pool t) ns"
    and lists: "\<forall>m\<in>set ns. \<exists>fs. vm_holds (the (vm_pools s m)) s (AL m) fs"
    and legit: "\<forall>k<n. \<exists>m\<in>set ns. legit (the (vm_pools s m)) (AL m) (page_addr start k)"
    and apart: "\<forall>m\<in>set ns. \<forall>a\<in>list_cells (the (vm_pools s m)). \<forall>k<n.
       page_slot a \<noteq> page_slot (page_addr start k)"
    and n: "unat start + 4096 * n \<le> 4294967295" and al: "start mod 4096 = 0"
    and ready: "region_ready s start n"
  shows "\<exists>s'. free_pages (free_page pt) start (start + word_of_nat (4096 * n)) s = Some (Inr s')
    \<and> region_unmapped s start n s'
    \<and> (\<forall>m\<in>set ns. \<forall>as fs. vm_holds (the (vm_pools s m)) s as fs \<longrightarrow> vm_holds (the (vm_pools s m)) s' as fs)"
proof -
  let ?J = "region_unmapped s start"
  have keep: "vm_holds (the (vm_pools s m)) s1 as fs"
    if "?J i s1" "i \<le> n" "m \<in> set ns" "vm_holds (the (vm_pools s m)) s as fs" for i s1 m as fs
  proof (rule keeps_holds [OF that(4)])
    show "keeps {page_slot (page_addr start k) |k. k < i} s s1" using that(1) by (simp add: region_unmapped_def)
    show "\<forall>a\<in>list_cells (the (vm_pools s m)). page_slot a \<notin> {page_slot (page_addr start k) |k. k < i}"
      using apart that(2,3) by fastforce
  qed
  have "?J 0 s" using ok by (simp add: region_unmapped_def keeps_refl)
  moreover have "\<exists>s2. free_page pt ((start + word_of_nat (4096 * i)) div 4096) s1 = Inr s2 \<and> ?J (Suc i) s2"
    if i: "i < n" and ru: "?J i s1" for i s1
  proof -
    let ?a = "page_addr start i"
    let ?sl = "page_slot ?a"
    have k1: "keeps {page_slot (page_addr start k) |k. k < i} s s1" using ru by (simp add: region_unmapped_def)
    have sl1: "slots s1 sl = (if \<exists>k<i. sl = page_slot (page_addr start k) then None else slots s sl)" for sl
      using ru by (simp add: region_unmapped_def)
    have mp1: "mapped s1 e u = (if \<exists>k<i. Page e u = page_slot (page_addr start k) then None else mapped s e u)"
      if "e < 1023" "u < 1024" for e u
      using ru that by (simp add: region_unmapped_def)
    have same: "vm_pools s1 = vm_pools s" "page_tables s1 = page_tables s" "cr3 s1 = cr3 s"
        "process_mem_pool s1 = process_mem_pool s"
      using ru keepsD(6-8) [OF k1] by (simp_all add: region_unmapped_def)
    have pg: "?a div 4096 * 4096 = ?a" using page_addr_page [OF n _ al] i by simp
    have not_yet: "?sl \<noteq> page_slot (page_addr start k)" if "k < i" for k
      using page_addr_slots [OF n, of i k] i that by auto
    have rdy: "0 < dir_ix ?a" "slots s (Table (dir_ix ?a)) \<noteq> None"
        "mapped s (dir_ix ?a) (tbl_ix ?a) = slots s ?sl"
      using ready i by (auto simp: region_ready_def Let_def)
    then have d1023: "dir_ix ?a < 1023" by (simp add: table_frame_def split: if_splits)
    obtain F where F: "slots s1 (Table (dir_ix ?a)) = Some F"
      using rdy(2) sl1 [of "Table (dir_ix ?a)"] by (auto simp del: slots_simps)
    have slk: "slots s1 ?sl = slots s ?sl" using sl1 [of ?sl] not_yet by auto
    moreover have "mapped s1 (dir_ix ?a) (tbl_ix ?a) = mapped s (dir_ix ?a) (tbl_ix ?a)"
      using mp1 [OF d1023 tbl_ix_bound] not_yet by auto
    ultimately have pgs: "mapped s1 (dir_ix ?a) (tbl_ix ?a) = slots s1 ?sl" using rdy(3) by simp
    have ok1: "paging_ok s1" using ru by (simp add: region_unmapped_def)
    have leg: "some_legitimate (?a div 4096 * PAGE_SIZE) (head_pool t) s1 = Some (Inr (True, s1))"
    proof -
      have "node_chain (vm_pools s1) (head_pool t) ns" using chain same by simp
      moreover have "\<exists>fs. vm_holds (the (vm_pools s1 m)) s1 (AL m) fs" if m: "m \<in> set ns" for m
      proof -
        obtain fs where "vm_holds (the (vm_pools s m)) s (AL m) fs" using lists m by blast
        then have "vm_holds (the (vm_pools s m)) s1 (AL m) fs" using keep [OF ru _ m] i by simp
        then show ?thesis unfolding same(1) by blast
      qed
      ultimately show ?thesis
        unfolding pg using some_legitimate_spec [of s1 "head_pool t" ns AL ?a] legit i same(1)
        by simp
    qed
    obtain s2 where s2: "free_page pt (?a div 4096) s1 = Inr s2" "page_removed s1 ?a s2"
      using free_page_ok [OF ok1 _ _ leg pg [symmetric] rdy(1) F pgs] tab same by auto
    have "region_unmapped s start (Suc i) s2"
      unfolding region_unmapped_def
    proof (intro conjI allI impI)
      have sl2: "slots s2 = (slots s1)(?sl := None)" using s2(2) by (simp add: page_removed_def)
      show "paging_ok s2" using s2(2) by (simp add: page_removed_def)
      show "slots s2 sl = (if \<exists>k<Suc i. sl = page_slot (page_addr start k) then None else slots s sl)" for sl
        unfolding sl2 fun_upd_apply sl1 less_Suc_eq by auto
      show "mapped s2 e u = (if \<exists>k<Suc i. Page e u = page_slot (page_addr start k) then None else mapped s e u)"
        if "e < 1023" "u < 1024" for e u
      proof -
        have "mapped s2 e u = (if e = dir_ix ?a \<and> u = tbl_ix ?a then None else mapped s1 e u)"
          using s2(2) that by (simp add: page_removed_def)
        then show ?thesis unfolding mp1 [OF that] by (auto simp: less_Suc_eq)
      qed
      show "mem s2 x = mem s x"
        if "kernel_top \<le> unat x" "\<forall>d F. slots s (Table d) = Some F \<longrightarrow> x \<notin> frame_bytes F" for x
      proof -
        have "mem s1 x = mem s x" using ru that unfolding region_unmapped_def by blast
        moreover have "x \<notin> frame_bytes F" if "slots s1 (Table (dir_ix ?a)) = Some F" for F
          using that sl1 [of "Table (dir_ix ?a)"]
            \<open>\<forall>d F. slots s (Table d) = Some F \<longrightarrow> x \<notin> frame_bytes F\<close> by (simp del: slots_simps)
        then have "mem s2 x = mem s1 x" using s2(2) that(1) unfolding page_removed_def by blast
        ultimately show ?thesis by simp
      qed
      show "owned s2 g \<longleftrightarrow> owned s g \<and> (\<forall>k<Suc i. slots s (page_slot (page_addr start k)) \<noteq> Some g)" for g
      proof -
        have "owned s2 g \<longleftrightarrow> owned s1 g \<and> slots s1 ?sl \<noteq> Some g" using s2(2) by (simp add: page_removed_def)
        moreover have "owned s1 g \<longleftrightarrow> owned s g \<and> (\<forall>k<i. slots s (page_slot (page_addr start k)) \<noteq> Some g)"
          using ru unfolding region_unmapped_def by blast
        ultimately show ?thesis unfolding slk by (auto simp: less_Suc_eq)
      qed
      show "process_mem_pool s2 = process_mem_pool s" using s2(2) same by (simp add: page_removed_def)
      let ?B = "\<lambda>i. {page_slot (page_addr start k) |k. k < i}"
      show "keeps (?B (Suc i)) s s2"
        by (rule keeps_trans [OF keeps_mono [OF k1] keeps_mono [OF page_removed_keeps [OF s2(2) ok1]]])
          (auto intro: less_SucI)
      have "free_count s2 = free_count s1 + (if slots s ?sl = None then 0 else 1)"
        using s2(2) slk by (simp add: page_removed_def)
      then show "free_count s2 = free_count s + pages_held s start (Suc i)"
        using ru by (simp add: region_unmapped_def pages_held_Suc)
    qed
    then show ?thesis using s2(1) by (auto simp: page_addr_def)
  qed
  ultimately obtain s' where "free_pages (free_page pt) start (start + word_of_nat (4096 * n)) s = Some (Inr s')"
      "?J n s'"
    using paged.free_pages_loop [where J = ?J and fp = "free_page pt", OF n] by blast
  then show ?thesis using keep [of n s'] by blast
qed

text \<open>The pages of an allocated region are freed, whatever becomes of the lists.\<close>

lemma vm_release_pages:
  assumes p: "vm_pools s this = Some p" and h: "vm_holds p s as fs"
    and ix: "region_ix start as < length as"
    and region: "as ! region_ix start as = (start, word_of_nat (4096 * n))" "start mod 4096 = 0"
    and tab: "page_tables s (page_table p) = Some t" "cr3 s = page_directory t"
    and chain: "node_chain (vm_pools s) (head_pool t) ns" "this \<in> set ns"
    and lists: "\<forall>m\<in>set ns. \<exists>fs. vm_holds (the (vm_pools s m)) s (AL m) fs" "AL this = as"
    and apart: "\<forall>m\<in>set ns. \<forall>a\<in>list_cells (the (vm_pools s m)). \<forall>k<n.
       page_slot a \<noteq> page_slot (page_addr start k)"
    and n: "unat start + 4096 * n \<le> 4294967295"
    and ready: "region_ready s start n"
  shows "(word_of_nat (4096 * n) :: u32) mod 4096 = 0"
    and "\<exists>s1. free_pages (free_page (page_table p)) start (start + word_of_nat (4096 * n)) s = Some (Inr s1)
    \<and> vm_holds p s1 as fs \<and> region_unmapped s start n s1"
proof -
  let ?len = "word_of_nat (4096 * n) :: u32"
  have ok: "paging_ok s" using h by (simp add: vm_holds_def pool_holds_def lists_ready_def)
  have reg: "(start, ?len) \<in> set as" using region(1) ix by (metis nth_mem)
  have ul: "unat ?len = 4096 * n" using n by (subst unat_of_nat_32) linarith+
  then show "?len mod 4096 = 0" by (simp add: unat_mod_4096 del: of_nat_mult)
  have "in_regions (page_addr start k) as" if "k < n" for k
  proof -
    have "unat (page_addr start k) = unat start + 4096 * k" using unat_page_addr [OF n] that by simp
    moreover have "unat (start + ?len) = unat start + 4096 * n"
      using n ul by (simp add: unat_word_ariths del: of_nat_mult)
    ultimately have "start \<le> page_addr start k" "page_addr start k < start + ?len"
      using that by (simp_all add: word_le_nat_alt word_less_nat_alt del: of_nat_mult)
    then show ?thesis unfolding in_regions_def using reg by (metis fst_conv snd_conv)
  qed
  then have legit: "\<forall>k<n. \<exists>m\<in>set ns. legit (the (vm_pools s m)) (AL m) (page_addr start k)"
    using chain(2) lists(2) unfolding legit_def by blast
  obtain s1 where s1: "free_pages (free_page (page_table p)) start (start + ?len) s = Some (Inr s1)"
      "region_unmapped s start n s1"
      "\<forall>m\<in>set ns. \<forall>as fs. vm_holds (the (vm_pools s m)) s as fs \<longrightarrow> vm_holds (the (vm_pools s m)) s1 as fs"
    using free_region [OF ok tab chain(1) lists(1) legit apart n region(2) ready] by blast
  have "vm_holds p s1 as fs" using s1(3) chain(2) h p by fastforce
  then show "\<exists>s1. free_pages (free_page (page_table p)) start (start + ?len) s = Some (Inr s1)
    \<and> vm_holds p s1 as fs \<and> region_unmapped s start n s1" using s1(1,2) by blast
qed

lemma vm_release_ok:
  assumes p: "vm_pools s this = Some p" and h: "vm_holds p s as fs"
    and r: "release_regions start as fs = Some (as', fs')"
    and region: "as ! region_ix start as = (start, word_of_nat (4096 * n))" "start mod 4096 = 0"
    and tab: "page_tables s (page_table p) = Some t" "cr3 s = page_directory t"
    and chain: "node_chain (vm_pools s) (head_pool t) ns" "this \<in> set ns"
    and lists: "\<forall>m\<in>set ns. \<exists>fs. vm_holds (the (vm_pools s m)) s (AL m) fs" "AL this = as"
    and apart: "\<forall>m\<in>set ns. \<forall>a\<in>list_cells (the (vm_pools s m)). \<forall>k<n.
       page_slot a \<noteq> page_slot (page_addr start k)"
    and n: "unat start + 4096 * n \<le> 4294967295"
    and ready: "region_ready s start n"
  shows "\<exists>s1 s'. vm_release this start s = Inr s' \<and> vm_holds p s1 as fs \<and> vm_holds p s' as' fs'
    \<and> region_unmapped s start n s1 \<and> same_map (list_cells p) s1 s'"
proof -
  have "region_ix start as < length as"
    using r by (auto simp: release_regions_def Let_def split: if_splits)
  note pages = vm_release_pages [OF p h this region tab chain lists apart n ready]
  obtain s1 where s1: "free_pages (free_page (page_table p)) start (start + word_of_nat (4096 * n)) s = Some (Inr s1)"
      "vm_holds p s1 as fs" "region_unmapped s start n s1"
    using pages(2) by blast
  then obtain s' where "release demand_load demand_store (free_page (page_table p)) p start s = Inr s'"
      "vm_holds p s' as' fs'" "same_map (list_cells p) s1 s'"
    using paged.release_refines [OF h [unfolded vm_holds_def] r region pages(1) s1(1)]
    by (auto simp: vm_holds_def)
  then show ?thesis using p s1 by (auto simp: vm_release_def)
qed

lemma vm_release_full:
  assumes p: "vm_pools s this = Some p" and h: "vm_holds p s as fs"
    and ix: "region_ix start as < length as" and full: "length fs = 511"
    and region: "as ! region_ix start as = (start, word_of_nat (4096 * n))" "start mod 4096 = 0"
    and tab: "page_tables s (page_table p) = Some t" "cr3 s = page_directory t"
    and chain: "node_chain (vm_pools s) (head_pool t) ns" "this \<in> set ns"
    and lists: "\<forall>m\<in>set ns. \<exists>fs. vm_holds (the (vm_pools s m)) s (AL m) fs" "AL this = as"
    and apart: "\<forall>m\<in>set ns. \<forall>a\<in>list_cells (the (vm_pools s m)). \<forall>k<n.
       page_slot a \<noteq> page_slot (page_addr start k)"
    and n: "unat start + 4096 * n \<le> 4294967295"
    and ready: "region_ready s start n"
  shows "vm_release this start s = Inl Assertion"
proof -
  note pages = vm_release_pages [OF p h ix region tab chain lists apart n ready]
  then obtain s1 where "free_pages (free_page (page_table p)) start (start + word_of_nat (4096 * n)) s = Some (Inr s1)"
      "vm_holds p s1 as fs" by blast
  then show ?thesis
    using paged.release_full [OF h [unfolded vm_holds_def] ix full region pages(1)] p
    by (simp add: vm_release_def vm_holds_def)
qed

lemma vm_release_unknown:
  assumes p: "vm_pools s this = Some p" and h: "vm_holds p s as fs"
    and "start \<noteq> 0" "\<not> region_ix start as < length as"
  shows "vm_release this start s = Inl Assertion"
  using paged.release_unknown [OF h [unfolded vm_holds_def] assms(3,4)] p by (simp add: vm_release_def)

end
