(* ===== verification/Paging_Boot.thy ===== *)
theory Paging_Boot
  imports VM_System
begin

text \<open>
  How the invariant comes about: the constructor \<open>PageTable\<close> builds a directory and the identity
  table for the first 4 MB while paging is off, and after \<open>load\<close> and \<open>enable_paging\<close> the state
  satisfies \<open>paging_ok\<close>.  The constructor \<open>VMPool\<close> then keeps it: the two list pages of the new
  pool are faulted in and hold the regions the constructor writes.
\<close>

section \<open>The constructor of the page table\<close>

lemma cell_frame: "cell (word_of_nat f * 4096) i = entry_addr f i"
  by (simp add: cell_def entry_addr_def mult.commute)

lemma vstore_physical: "\<not> bit (cr0 s) 31 \<Longrightarrow> vstore a v s = Inr (s\<lparr>mem := store32 a v (mem s)\<rparr>)"
  by (simp add: vstore_def translate_def)

text \<open>A loop that writes entries of frame \<open>f\<close> and nothing else.\<close>

definition writes_frame ::
  "nat \<Rightarrow> 'a paging_state_scheme \<Rightarrow> (nat \<Rightarrow> bool) \<Rightarrow> (nat \<Rightarrow> u32) \<Rightarrow> 'a paging_state_scheme \<Rightarrow> bool" where
  "writes_frame f s I c s' \<longleftrightarrow> s' = s\<lparr>mem := mem s'\<rparr> \<and>
     (\<forall>x. x \<notin> frame_bytes f \<longrightarrow> mem s' x = mem s x) \<and>
     (\<forall>j<1024. entry (mem s') f j = (if I j then c j else entry (mem s) f j))"

lemma writes_frame_refl: "writes_frame f s (\<lambda>_. False) c s"
  by (simp add: writes_frame_def)

lemma writes_frame_store:
  assumes w: "writes_frame f s I c s'" and f: "f < frame_bound" "i < 1024" and off: "\<not> bit (cr0 s) 31"
  shows "\<exists>s''. vstore (entry_addr f i) v s' = Inr s'' \<and> writes_frame f s (\<lambda>j. j = i \<or> I j) (c(i := v)) s''"
proof -
  have e: "s' = s\<lparr>mem := mem s'\<rparr>" using w by (simp add: writes_frame_def)
  have "\<not> bit (cr0 s') 31" using off arg_cong [OF e, of cr0] by simp
  then have "vstore (entry_addr f i) v s' = Inr (s'\<lparr>mem := store32 (entry_addr f i) v (mem s')\<rparr>)"
    by (rule vstore_physical)
  moreover have "writes_frame f s (\<lambda>j. j = i \<or> I j) (c(i := v))
      (s'\<lparr>mem := store32 (entry_addr f i) v (mem s')\<rparr>)"
    unfolding writes_frame_def
  proof (intro conjI allI impI)
    show "s'\<lparr>mem := store32 (entry_addr f i) v (mem s')\<rparr>
        = s\<lparr>mem := mem (s'\<lparr>mem := store32 (entry_addr f i) v (mem s')\<rparr>)\<rparr>"
      using e by (cases s; cases s') simp
    show "mem (s'\<lparr>mem := store32 (entry_addr f i) v (mem s')\<rparr>) x = mem s x" if "x \<notin> frame_bytes f" for x
      using store_outside_frame [OF f that] w that by (simp add: writes_frame_def)
    show "entry (mem (s'\<lparr>mem := store32 (entry_addr f i) v (mem s')\<rparr>)) f j =
        (if j = i \<or> I j then (c(i := v)) j else entry (mem s) f j)" if "j < 1024" for j
      using entry_store32 [OF f f(1) that] w that by (auto simp: writes_frame_def)
  qed
  ultimately show ?thesis by blast
qed

lemma writes_frame_cong:
  assumes "writes_frame f s I c s'" and "\<And>j. j < 1024 \<Longrightarrow> I j = I' j" and "\<And>j. j < 1024 \<Longrightarrow> I' j \<Longrightarrow> c j = c' j"
  shows "writes_frame f s I' c' s'"
  using assms by (simp add: writes_frame_def)

lemma identity_table:
  assumes f: "f < frame_bound" and off: "\<not> bit (cr0 s) 31"
  shows "\<exists>s'. for_each (\<lambda>pno. vstore (cell (word_of_nat f * PAGE_SIZE) pno) (word_of_nat pno * PAGE_SIZE OR 3))
      [0..<ENTRIES_PER_PAGE] s = Inr s'
    \<and> writes_frame f s (\<lambda>_. True) (\<lambda>j. word_of_nat j * 4096 OR 3) s'"
proof -
  let ?c = "\<lambda>j. word_of_nat j * 4096 OR 3 :: u32"
  let ?J = "\<lambda>i s'. writes_frame f s (\<lambda>j. j < i) ?c s'"
  have "\<exists>s'. for_each (\<lambda>pno. vstore (cell (word_of_nat f * PAGE_SIZE) pno) (?c pno)) [0..<1024] s = Inr s'
      \<and> ?J 1024 s'"
  proof (rule for_each_invariant)
    show "?J 0 s" using writes_frame_refl by simp
    fix i s' assume i: "i < 1024" "?J i s'"
    obtain s'' where s'': "vstore (entry_addr f i) (?c i) s' = Inr s''"
        "writes_frame f s (\<lambda>j. j = i \<or> j < i) (?c(i := ?c i)) s''"
      using writes_frame_store [OF i(2) f i(1) off] by blast
    have "?J (Suc i) s''" by (rule writes_frame_cong [OF s''(2)]) auto
    with s''(1) show "\<exists>s''. vstore (cell (word_of_nat f * PAGE_SIZE) i) (?c i) s' = Inr s'' \<and> ?J (Suc i) s''"
      by (simp add: cell_frame)
  qed simp
  then show ?thesis
    by (auto intro: writes_frame_cong)
qed

text \<open>The loop over the directory: the last entry is the directory itself.\<close>

lemma empty_directory:
  assumes f: "f < frame_bound" and off: "\<not> bit (cr0 s) 31"
  shows "\<exists>s'. for_each (\<lambda>pdno s.
          andThen (vstore (cell (word_of_nat f * PAGE_SIZE) pdno) (0 OR 2) s) (\<lambda>s.
          if pdno = ENTRIES_PER_PAGE - 1
          then vstore (cell (word_of_nat f * PAGE_SIZE) pdno) (word_of_nat f * PAGE_SIZE OR 3) s
          else Inr s)) [1..<ENTRIES_PER_PAGE] s = Inr s'
    \<and> writes_frame f s (\<lambda>j. 1 \<le> j) (\<lambda>j. if j = 1023 then word_of_nat f * 4096 OR 3 else 2) s'"
proof -
  let ?c = "\<lambda>j. if j = 1023 then word_of_nat f * 4096 OR 3 else 2 :: u32"
  let ?J = "\<lambda>i s'. writes_frame f s (\<lambda>j. 1 \<le> j \<and> j < i) ?c s'"
  let ?body = "\<lambda>pdno s.
          andThen (vstore (cell (word_of_nat f * PAGE_SIZE) pdno) (0 OR 2) s) (\<lambda>s.
          if pdno = ENTRIES_PER_PAGE - 1
          then vstore (cell (word_of_nat f * PAGE_SIZE) pdno) (word_of_nat f * PAGE_SIZE OR 3) s
          else Inr s)"
  have "\<exists>s'. for_each ?body [1..<1024] s = Inr s' \<and> ?J 1024 s'"
  proof (rule for_each_invariant)
    have "(\<lambda>j. 1 \<le> j \<and> j < (1::nat)) = (\<lambda>_. False)" by auto
    then show "?J 1 s" using writes_frame_refl [of f s ?c] by (simp only:)
    fix i s' assume i: "1 \<le> i" "i < 1024" "?J i s'"
    obtain s1 where s1: "vstore (entry_addr f i) 2 s' = Inr s1"
        "writes_frame f s (\<lambda>j. j = i \<or> 1 \<le> j \<and> j < i) (?c(i := 2)) s1"
      using writes_frame_store [OF i(3) f i(2) off] by blast
    obtain s2 where s2: "vstore (entry_addr f i) (?c i) s1 = Inr s2"
        "writes_frame f s (\<lambda>j. j = i \<or> j = i \<or> 1 \<le> j \<and> j < i) (?c(i := 2, i := ?c i)) s2"
      using writes_frame_store [OF s1(2) f i(2) off] by blast
    show "\<exists>s''. ?body i s' = Inr s'' \<and> ?J (Suc i) s''"
    proof (cases "i = 1023")
      case True
      then have "?body i s' = Inr s2" using s1(1) s2(1) by (simp add: cell_frame)
      moreover have "?J (Suc i) s2"
        using i(1) by (intro writes_frame_cong [OF s2(2)]) auto
      ultimately show ?thesis by blast
    next
      case False
      then have "?body i s' = Inr s1" using s1(1) by (simp add: cell_frame)
      moreover have "?J (Suc i) s1"
        using i(1) False by (intro writes_frame_cong [OF s1(2)]) auto
      ultimately show ?thesis by blast
    qed
  qed simp
  then show ?thesis by (auto intro: writes_frame_cong)
qed

text \<open>Paging is off and the process pool has two free frames; then \<open>boot_paging\<close> sets it up.\<close>

definition boot_paging ::
  "nat \<Rightarrow> 'a paging_state_scheme \<Rightarrow> 'a paging_state_scheme outcome" where
  "boot_paging this s =
     andThen (PageTable this s) (\<lambda>s.
     andThen (load this s) (\<lambda>s.
     Inr (enable_paging s)))"

lemma not_present_2: "\<not> present 2"
  by (simp add: present_def)

text \<open>The map that the constructor's entries make: the directory and one table.\<close>

lemma fresh_map:
  assumes E0: "E P 0 = word_of_nat F * 4096 OR 3"
    and E1: "\<And>j. 1 \<le> j \<Longrightarrow> j < 1023 \<Longrightarrow> E P j = 2"
    and EP: "E P 1023 = word_of_nat P * 4096 OR 3"
    and EF: "\<And>t. t < 1024 \<Longrightarrow> E F t = word_of_nat t * 4096 OR 3"
    and b: "P < frame_bound" "F < frame_bound" "P \<noteq> F"
  shows "map_ok E P" and "holder E P = (\<lambda>_. None)(Dir \<mapsto> P, Table 0 \<mapsto> F)"
    and "lookup_frame E P 0 t = (if t < 1024 then Some t else lookup_frame E P 0 t)"
proof -
  have pe: "frame_of (word_of_nat f * 4096 OR 3) = f" "present (word_of_nat f * 4096 OR 3)"
    if "f < frame_bound" for f
    using page_entry [OF that, of 3] by simp_all
  have tf: "table_frame E P d = (if d = 0 then Some F else None)" for d
  proof -
    consider "d = 0" | "1 \<le> d" "d < 1023" | "1023 \<le> d" by linarith
    then show ?thesis by cases (auto simp: table_frame_def E0 E1 pe [OF b(2)] not_present_2)
  qed
  show h: "holder E P = (\<lambda>_. None)(Dir \<mapsto> P, Table 0 \<mapsto> F)"
  proof
    fix sl show "holder E P sl = ((\<lambda>_. None)(Dir \<mapsto> P, Table 0 \<mapsto> F)) sl"
      by (cases sl) (simp_all add: tf)
  qed
  have id: "present (E F t)" "frame_of (E F t) = t" if "t < 1024" for t
  proof -
    have "t < frame_bound" using that by simp
    then show "present (E F t)" "frame_of (E F t) = t" using pe EF [OF that] by simp_all
  qed
  have "distinct_slots (holder E P)" using b(3) unfolding h distinct_slots_def by (auto split: if_splits)
  then show "map_ok E P" using id pe [OF b(1)] by (simp add: map_ok_def tf EP)
  show "lookup_frame E P 0 t = (if t < 1024 then Some t else lookup_frame E P 0 t)"
    using id by (simp add: lookup_table tf)
qed

lemma get_process_frame_twice:
  assumes "arena s" and "2 \<le> free_count s"
  shows "\<exists>f1 s1 f2 s2. get_process_frame s = Inr (word_of_nat f1, s1) \<and> takes_frame s f1 s1
    \<and> get_process_frame s1 = Inr (word_of_nat f2, s2) \<and> takes_frame s1 f2 s2 \<and> f1 \<noteq> f2"
proof -
  obtain f1 s1 where f1: "get_process_frame s = Inr (word_of_nat f1, s1)" "takes_frame s f1 s1"
    using get_process_frame_ok [OF assms(1)] assms(2) by auto
  then have "arena s1" "0 < free_count s1" "owned s1 f1" using assms(2) by (auto simp: takes_frame_def)
  then obtain f2 s2 where "get_process_frame s1 = Inr (word_of_nat f2, s2)" "takes_frame s1 f2 s2"
    using get_process_frame_ok by blast
  moreover from this(2) have "f1 \<noteq> f2" using \<open>owned s1 f1\<close> by (auto simp: takes_frame_def)
  ultimately show ?thesis using f1 by blast
qed

lemma boot_paging_ok:
  assumes ar: "arena s" and free: "2 \<le> free_count s" and off: "\<not> bit (cr0 s) 31"
  shows "\<exists>P F s'. boot_paging this s = Inr s' \<and> paging_ok s'
    \<and> slots s' = (\<lambda>_. None)(Dir \<mapsto> P, Table 0 \<mapsto> F)
    \<and> (\<forall>t<1024. mapped s' 0 t = Some t)
    \<and> free_count s = free_count s' + 2
    \<and> page_tables s' = (page_tables s)(this \<mapsto>
         \<lparr>page_directory = word_of_nat P * PAGE_SIZE, head_pool = None\<rparr>)
    \<and> cr3 s' = word_of_nat P * PAGE_SIZE \<and> current_page_table s' = Some this
    \<and> vm_pools s' = vm_pools s"
proof -
  obtain P s1 F s2 where t1: "get_process_frame s = Inr (word_of_nat P, s1)" "takes_frame s P s1"
    and t2: "get_process_frame s1 = Inr (word_of_nat F, s2)" "takes_frame s1 F s2" and PF: "P \<noteq> F"
    using get_process_frame_twice [OF ar free] by blast
  have b: "1024 \<le> P" "P < frame_bound" "1024 \<le> F" "F < frame_bound"
    using t1(2) t2(2) by (simp_all add: takes_frame_def)
  note fields = takes_frame_fields [OF t1(2)] takes_frame_fields [OF t2(2)]
  have off2: "\<not> bit (cr0 s2) 31" using off fields by simp
  let ?eP = "word_of_nat P * 4096 OR 3 :: u32" and ?eF = "word_of_nat F * 4096 OR 3 :: u32"
  obtain s3 where s3: "vstore (entry_addr P 0) ?eF s2 = Inr s3"
      "writes_frame P s2 (\<lambda>j. j = 0 \<or> False) ((\<lambda>_. 0)(0 := ?eF)) s3"
    using writes_frame_store [OF writes_frame_refl b(2) _ off2, of 0] by auto
  have e3: "s3 = s2\<lparr>mem := mem s3\<rparr>" using s3(2) by (simp add: writes_frame_def)
  have off3: "\<not> bit (cr0 s3) 31" using off2 arg_cong [OF e3, of cr0] by simp
  obtain s4 where s4: "for_each (\<lambda>pno. vstore (cell (word_of_nat F * PAGE_SIZE) pno) (word_of_nat pno * PAGE_SIZE OR 3))
      [0..<ENTRIES_PER_PAGE] s3 = Inr s4"
      "writes_frame F s3 (\<lambda>_. True) (\<lambda>j. word_of_nat j * 4096 OR 3) s4"
    using identity_table [OF b(4) off3] by blast
  have e4: "s4 = s3\<lparr>mem := mem s4\<rparr>" using s4(2) by (simp add: writes_frame_def)
  have off4: "\<not> bit (cr0 s4) 31" using off3 arg_cong [OF e4, of cr0] by simp
  obtain s5 where s5: "for_each (\<lambda>pdno s.
          andThen (vstore (cell (word_of_nat P * PAGE_SIZE) pdno) (0 OR 2) s) (\<lambda>s.
          if pdno = ENTRIES_PER_PAGE - 1
          then vstore (cell (word_of_nat P * PAGE_SIZE) pdno) (word_of_nat P * PAGE_SIZE OR 3) s
          else Inr s)) [1..<ENTRIES_PER_PAGE] s4 = Inr s5"
      "writes_frame P s4 (\<lambda>j. 1 \<le> j) (\<lambda>j. if j = 1023 then ?eP else 2) s5"
    using empty_directory [OF b(2) off4] by blast
  have e5: "s5 = s2\<lparr>mem := mem s5\<rparr>"
    using e3 e4 s5(2) unfolding writes_frame_def by (cases s2; cases s3; cases s4; cases s5) simp
  define t where "t = \<lparr>page_directory = word_of_nat P * PAGE_SIZE, head_pool = None\<rparr>"
  define s' where s': "s' = s2\<lparr>mem := mem s5, page_tables := (page_tables s2)(this \<mapsto> t),
      cr3 := word_of_nat P * PAGE_SIZE, current_page_table := Some this,
      cr0 := cr0 s2 OR 0x80000001, paging_enabled := 1\<rparr>"
  have PT: "PageTable this s = Inr (s5\<lparr>page_tables := (page_tables s5)(this \<mapsto> t)\<rparr>)"
    using t1(1) t2(1) s3(1) s4(1) s5(1) by (simp add: PageTable_def Let_def cell_frame t_def)
  have eqs': "enable_paging (s5\<lparr>page_tables := (page_tables s5)(this \<mapsto> t),
      cr3 := page_directory t, current_page_table := Some this\<rparr>) = s'"
    using e5 unfolding s' t_def enable_paging_def by (cases s2; cases s5) simp
  have run: "boot_paging this s = Inr s'"
    using PT eqs' by (simp add: boot_paging_def load_def)
  have same5: "entry (mem s5) F t = entry (mem s4) F t" if "t < 1024" for t
    using s5(2) that frame_bytes_disjoint [OF PF] unfolding writes_frame_def
    by (intro entry_cong [OF b(4) that]) blast
  have EF: "entry (mem s5) F t = word_of_nat t * 4096 OR 3" if "t < 1024" for t
    using s4(2) same5 that by (simp add: writes_frame_def)
  have E0: "entry (mem s5) P 0 = ?eF"
  proof -
    have "entry (mem s5) P 0 = entry (mem s4) P 0" using s5(2) by (simp add: writes_frame_def)
    also have "\<dots> = entry (mem s3) P 0"
      using s4(2) frame_bytes_disjoint [OF PF] unfolding writes_frame_def
      by (intro entry_cong [OF b(2)]) auto
    also have "\<dots> = ?eF" using s3(2) by (simp add: writes_frame_def)
    finally show ?thesis .
  qed
  have E1: "entry (mem s5) P j = 2" if "1 \<le> j" "j < 1023" for j
    using s5(2) that by (simp add: writes_frame_def)
  have EP: "entry (mem s5) P 1023 = ?eP" using s5(2) by (simp add: writes_frame_def)
  note fm = fresh_map [of "entry (mem s5)", OF E0 E1 EP EF b(2,4) PF]
  have cr3P: "frame_of (word_of_nat P * 4096) = P"
    using b(2) by (simp add: frame_of_def unat_word_ariths)
  have low: "mem s5 x = mem s2 x" if "unat x < kernel_top" for x
  proof -
    have "x \<notin> frame_bytes P" "x \<notin> frame_bytes F"
      using that b by (auto simp: frame_bytes_def kernel_top_def)
    then show ?thesis using s3(2) s4(2) s5(2) by (simp add: writes_frame_def)
  qed
  have ar2: "arena s2" using t2(2) by (simp add: takes_frame_def)
  note am = arena_mem [OF ar2 low]
  have eq: "arena s' = arena (s2\<lparr>mem := mem s5\<rparr>)" "owned s' = owned (s2\<lparr>mem := mem s5\<rparr>)"
      "free_count s' = free_count (s2\<lparr>mem := mem s5\<rparr>)"
    by (simp_all add: s' arena_def pools_ok_def owned_def fun_eq_iff process_states_def process_base_def
        states_def free_count_def)
  have sl: "slots s' = (\<lambda>_. None)(Dir \<mapsto> P, Table 0 \<mapsto> F)"
    using fm(2) cr3P by (simp add: slots_def s')
  have "owned s' P" "owned s' F" using eq am t1(2) t2(2) by (simp_all add: takes_frame_def)
  then have "\<forall>sl f. slots s' sl = Some f \<longrightarrow> owned s' f" unfolding sl by simp
  moreover have "bit (cr0 s2 OR 0x80000001) 31" by (simp add: bit_or_iff)
  ultimately have "paging_ok s'"
    using eq(1) am(1) fm(1) cr3P unfolding paging_ok_def by (simp add: slots_def s')
  moreover have "mapped s' 0 t = Some t" if "t < 1024" for t
    using fm(3) [of t] that cr3P by (simp add: mapped_def s')
  moreover have "free_count s = free_count s' + 2"
    using eq am t1(2) t2(2) by (simp add: takes_frame_def)
  ultimately show ?thesis
    using run sl fields by (intro exI [of _ P] exI [of _ F] exI [of _ s']) (simp add: s' t_def)
qed

section \<open>The constructor of a virtual memory pool\<close>

lemma page_cells:
  assumes base: "base mod 4096 = 0" and i: "i < 1024"
  shows "aligned (cell base i)" and "page_slot (cell base i) = page_slot base"
proof -
  define q where "q = unat base div 4096"
  have b: "unat base = 4096 * q"
    using base unfolding unat_mod_4096 q_def by (metis add_0_right mult_div_mod_eq)
  then have "q < 1048576" using unat_less_32 [of base] by simp
  then have u: "unat (cell base i) = 4096 * q + 4 * i"
    using i b by (simp add: cell_def unat_word_ariths)
  have "4096 * q + 4 * i = 4 * (1024 * q + i)" by simp
  then show "aligned (cell base i)" by (simp only: aligned_def u mod_mult_self1_is_0)
  have "(4096 * q + 4 * i) div 4096 = q" using i by simp
  moreover have "unat (cell base i) div 4194304 = unat (cell base i) div 4096 div 1024"
      "unat base div 4194304 = unat base div 4096 div 1024"
    by (simp_all add: div_mult2_eq [symmetric])
  ultimately show "page_slot (cell base i) = page_slot base"
    by (simp add: dir_ix_def tbl_ix_def u b)
qed

text \<open>Faulting in the page of an address makes every word of it resident.\<close>

lemma page_added_resident:
  assumes "page_added s va f s'" and "page_slot a = page_slot va" and "aligned a"
  shows "resident s' a"
  using assms by (simp add: page_added_def resident_def)

text \<open>An access to an unmapped page is the same access after the fault.\<close>

lemma demand_store_fault:
  assumes ok: "paging_ok s" and d: "0 < dir_ix a" "dir_ix a < 1023"
    and un: "mapped s (dir_ix a) (tbl_ix a) = None" and free: "2 \<le> free_count s"
  shows "\<exists>f s'. (\<forall>v. demand_store a v s = demand_store a v s') \<and> page_added (s\<lparr>cr2 := a\<rparr>) a f s'"
proof -
  have tr: "translate s a = None" using un translate_mapped [OF paging_okD(2) [OF ok]] by simp
  have "fault_cost s a \<le> free_count s" using free by (simp add: fault_cost_def)
  from touch_unmapped [OF ok d tr this, of 2]
  obtain f s' where s': "touch 2 a s = Some (Inr (phys f (offset a), s'))" "page_added (s\<lparr>cr2 := a\<rparr>) a f s'"
    by auto
  then have "translate s' a = Some (phys f (offset a))"
    using translate_mapped [of s' a] by (simp add: page_added_def paging_ok_def)
  then have "demand_store a v s = demand_store a v s'" for v
    using s'(1) touch_resident [of s' a] by (simp add: demand_store_def)
  then show ?thesis using s'(2) by blast
qed

lemma init_alloc_list_first:
  "(\<And>v. wr (cell (alloc_list p) 0) v s = wr (cell (alloc_list p) 0) v s') \<Longrightarrow>
     init_alloc_list wr p s = init_alloc_list wr p s'"
  by (simp add: init_alloc_list_def Let_def)

lemma init_free_list_first:
  "(\<And>v. wr (cell (free_list p) 0) v s = wr (cell (free_list p) 0) v s') \<Longrightarrow>
     init_free_list wr p s = init_free_list wr p s'"
  by (simp add: init_free_list_def Let_def)

lemma paging_ok_objects [simp]:
  "paging_ok (s\<lparr>vm_pools := vps, page_tables := pts\<rparr>) = paging_ok s"
  "slots (s\<lparr>vm_pools := vps, page_tables := pts\<rparr>) = slots s"
  "mapped (s\<lparr>vm_pools := vps, page_tables := pts\<rparr>) = mapped s"
  "owned (s\<lparr>vm_pools := vps, page_tables := pts\<rparr>) = owned s"
  "free_count (s\<lparr>vm_pools := vps, page_tables := pts\<rparr>) = free_count s"
  by (simp_all add: paging_ok_def slots_def mapped_def owned_def free_count_def arena_def pools_ok_def
      process_states_def process_base_def states_def fun_eq_iff)

text \<open>The pool object after its constructor, with \<open>t\<close> the page table before it.\<close>

definition built_pool :: "u32 \<Rightarrow> u32 \<Rightarrow> nat \<Rightarrow> nat \<Rightarrow> page_table_obj \<Rightarrow> vm_pool" where
  "built_pool base size0 fp pt t = (new_vm_pool base size0 fp pt)\<lparr>next_pool := head_pool t\<rparr>"

lemma cells_apart:
  assumes "base mod 4096 = 0" and "(base + 4096) mod 4096 = 0" and "page_slot base \<noteq> page_slot (base + 4096)"
  shows "cells base \<inter> cells (base + 4096) = {}"
  using page_cells(2) [OF assms(1)] page_cells(2) [OF assms(2)] assms(3)
  unfolding cells_def by fastforce


text \<open>
  One of the two initialisations: its first write faults the page in, the others find it.  The code
  \<open>f\<close> starts with a write to the page, and on a resident page it leaves the list \<open>rs\<close> there.
\<close>

lemma build_list:
  assumes ok: "paging_ok s" and l: "l mod 4096 = 0" and d: "0 < dir_ix l" "dir_ix l < 1023"
    and un: "mapped s (dir_ix l) (tbl_ix l) = None" and free: "2 \<le> free_count s"
    and first: "\<And>s'. (\<And>v. demand_store (cell l 0) v s = demand_store (cell l 0) v s') \<Longrightarrow> f s = f s'"
    and spec: "\<And>s0. lists_ready (cells l) s0 \<Longrightarrow>
      \<exists>s' c. f s0 = Inr s' \<and> paged.updates (cells l) l s0 s' c \<and> holds_list c rs"
  shows "\<exists>s'. f s = Inr s' \<and> keeps {page_slot l} s s' \<and> (\<forall>a\<in>cells l. resident s' a)
    \<and> holds_list (\<lambda>j. vword s' (cell l j)) rs
    \<and> (\<forall>sl g. slots s sl = Some g \<longrightarrow> slots s' sl = Some g) \<and> free_count s = free_count s' + fault_cost s l"
proof -
  obtain f1 s1 where f1: "\<forall>v. demand_store l v s = demand_store l v s1"
      "page_added (s\<lparr>cr2 := l\<rparr>) l f1 s1"
    using demand_store_fault [OF ok d un free] by blast
  have k1: "keeps {page_slot l} s s1" by (rule fault_keeps [OF f1(2) ok])
  have c0: "cell l 0 = l" by (simp add: cell_def)
  have res: "resident s1 a" if "a \<in> cells l" for a
    using that page_cells [OF l] page_added_resident [OF f1(2)] by (auto simp: cells_def)
  then have rd1: "lists_ready (cells l) s1" using keepsD(1) [OF k1] by (simp add: lists_ready_def)
  obtain s' c where s': "f s1 = Inr s'" "paged.updates (cells l) l s1 s' c" "holds_list c rs"
    using spec [OF rd1] by blast
  have rd': "lists_ready (cells l) s'" and sm: "same_map (cells l) s1 s'" and v: "\<forall>j<1024. vword s' (cell l j) = c j"
    using s'(2) by (simp_all add: paged.updates_def)
  have "page_slot ` cells l \<subseteq> {page_slot l}" using page_cells(2) [OF l] by (auto simp: cells_def)
  moreover have "keeps (page_slot ` cells l) s1 s'"
    using same_map_keeps [OF sm] rd1 rd' by (simp add: lists_ready_def)
  ultimately have k2: "keeps {page_slot l} s1 s'" by (rule keeps_mono [rotated])
  have "f s = f s1" using first f1(1) c0 by simp
  moreover have "slots s' sl = Some g" if "slots s sl = Some g" for sl g
    using f1(2) that sm unfolding page_added_def same_map_def by simp
  moreover have "free_count s = free_count s' + fault_cost s l"
    using f1(2) sm unfolding page_added_def same_map_def fault_cost_def by simp
  ultimately show ?thesis
    using s'(1,3) keeps_trans [OF k1 k2] rd' v holds_list_cong [of "\<lambda>j. vword s' (cell l j)" c]
    by (simp add: lists_ready_def)
qed

lemma init_alloc_list_ready:
  assumes "lists_ready (cells (alloc_list p)) s"
  shows "\<exists>s' c. init_alloc_list demand_store p s = Inr s'
    \<and> paged.updates (cells (alloc_list p)) (alloc_list p) s s' c \<and> holds_list c (fst (first_regions p))"
  by (rule paged.init_alloc_list_spec [OF paged.updates_refl [OF assms,
        where c = "\<lambda>j. vword s (cell (alloc_list p) j)"]]) simp_all

lemma init_free_list_ready:
  assumes "lists_ready (cells (free_list p)) s" and "vm_size p \<noteq> 8192"
  shows "\<exists>s' c. init_free_list demand_store p s = Inr s'
    \<and> paged.updates (cells (free_list p)) (free_list p) s s' c \<and> holds_list c (snd (first_regions p))"
  by (rule paged.init_free_list_spec [OF paged.updates_refl [OF assms(1),
        where c = "\<lambda>j. vword s (cell (free_list p) j)"]]) (use assms(2) in simp_all)

text \<open>The objects after the constructor has registered the pool.\<close>

definition registered :: "nat \<Rightarrow> vm_pool \<Rightarrow> nat \<Rightarrow> page_table_obj \<Rightarrow> 'a paging_state_scheme \<Rightarrow> 'a paging_state_scheme" where
  "registered this p pt t s =
     s\<lparr>vm_pools := (vm_pools s)(this \<mapsto> p), page_tables := (page_tables s)(pt \<mapsto> t\<lparr>head_pool := Some this\<rparr>)\<rparr>"

lemma registered_simps [simp]:
  "vm_pools (registered this p pt t s) = (vm_pools s)(this \<mapsto> p)"
  "page_tables (registered this p pt t s) = (page_tables s)(pt \<mapsto> t\<lparr>head_pool := Some this\<rparr>)"
  "cr3 (registered this p pt t s) = cr3 s" "mem (registered this p pt t s) = mem s"
  "paging_ok (registered this p pt t s) = paging_ok s" "slots (registered this p pt t s) = slots s"
  "mapped (registered this p pt t s) = mapped s" "free_count (registered this p pt t s) = free_count s"
  "resident (registered this p pt t s) = resident s" "vword (registered this p pt t s) = vword s"
  by (simp_all add: registered_def resident_def vword_def page_of_def fun_eq_iff)

lemma VMPool_ok:
  assumes ok: "paging_ok s" and t: "page_tables s pt = Some t"
    and base: "base mod 4096 = 0" "unat base + 8192 \<le> 4294967295"
    and dirs: "0 < dir_ix base" "dir_ix (base + 4096) < 1023"
    and ends: "tbl_ix (base + 4096) \<noteq> 1023"
    and un: "mapped s (dir_ix base) (tbl_ix base) = None"
      "mapped s (dir_ix (base + 4096)) (tbl_ix (base + 4096)) = None"
    and size: "round_up size0 \<noteq> 8192" and free: "4 \<le> free_count s"
  shows "\<exists>s'. VMPool this base size0 fp pt s = Inr s'
    \<and> vm_holds (built_pool base size0 fp pt t) s'
        (fst (first_regions (built_pool base size0 fp pt t))) (snd (first_regions (built_pool base size0 fp pt t)))
    \<and> vm_pools s' = (vm_pools s)(this \<mapsto> built_pool base size0 fp pt t)
    \<and> page_tables s' = (page_tables s)(pt \<mapsto> t\<lparr>head_pool := Some this\<rparr>)
    \<and> (\<forall>sl g. slots s sl = Some g \<longrightarrow> slots s' sl = Some g)
    \<and> cr3 s' = cr3 s \<and> free_count s \<le> free_count s' + 4
    \<and> keeps {page_slot base, page_slot (base + 4096)} (registered this (built_pool base size0 fp pt t) pt t s) s'
    \<and> (dir_ix (base + 4096) = dir_ix base \<longrightarrow> free_count s = free_count s' + fault_cost s base + 1)"
proof -
  let ?p = "built_pool base size0 fp pt t" and ?fl = "base + 4096"
  let ?s0 = "registered this ?p pt t s"
  let ?B = "{page_slot base, page_slot ?fl}"
  have p: "alloc_list ?p = base" "free_list ?p = ?fl" "vm_size ?p = round_up size0" "base_address ?p = base"
    by (simp_all add: built_pool_def new_vm_pool_def)
  have ub: "unat base mod 4096 = 0" "unat ?fl = unat base + 4096"
    using base by (simp_all only: unat_mod_4096) (simp add: unat_word_ariths)
  then have flm: "?fl mod 4096 = 0" by (simp only: unat_mod_4096) simp
  have dv: "unat ?fl div 4096 = Suc (unat base div 4096)" using ub(2) by simp
  have slot_ne: "page_slot base \<noteq> page_slot ?fl"
  proof
    assume "page_slot base = page_slot ?fl"
    then have "unat base div 4096 = unat ?fl div 4096" by (simp add: page_number)
    with dv show False by simp
  qed
  have dmono: "dir_ix base \<le> dir_ix ?fl" unfolding dir_ix_def ub(2) by (rule div_le_mono) simp
  then have d: "dir_ix base < 1023" "0 < dir_ix ?fl" using dirs by simp_all
  have reg: "register_pool pt this (s\<lparr>vm_pools := (vm_pools s)(this \<mapsto> new_vm_pool base size0 fp pt)\<rparr>) = Inr ?s0"
    using t by (simp add: register_pool_def registered_def built_pool_def)
  have run: "VMPool this base size0 fp pt s = andThen (init_alloc_list demand_store ?p ?s0) (init_free_list demand_store ?p)"
    using reg by (simp add: VMPool_def Let_def)
  have "\<exists>s2. init_alloc_list demand_store ?p ?s0 = Inr s2 \<and> keeps {page_slot base} ?s0 s2
    \<and> (\<forall>a\<in>cells base. resident s2 a) \<and> holds_list (\<lambda>j. vword s2 (cell base j)) (fst (first_regions ?p))
    \<and> (\<forall>sl g. slots ?s0 sl = Some g \<longrightarrow> slots s2 sl = Some g) \<and> free_count ?s0 = free_count s2 + fault_cost ?s0 base"
    using ok un(1) free init_alloc_list_ready [of ?p]
    by (intro build_list [OF _ base(1) dirs(1) d(1)] init_alloc_list_first) (simp_all add: p)
  then obtain s2 where s2: "init_alloc_list demand_store ?p ?s0 = Inr s2" "keeps {page_slot base} ?s0 s2"
      "\<forall>a\<in>cells base. resident s2 a" "holds_list (\<lambda>j. vword s2 (cell base j)) (fst (first_regions ?p))"
      "\<forall>sl g. slots ?s0 sl = Some g \<longrightarrow> slots s2 sl = Some g" "free_count ?s0 = free_count s2 + fault_cost ?s0 base"
    by (elim exE conjE)
  have b: "tbl_ix ?fl < 1023" using ends tbl_ix_bound [of ?fl] by linarith
  have un2: "mapped s2 (dir_ix ?fl) (tbl_ix ?fl) = None"
    using un(2) keepsD(4) [OF s2(2) d(2) dirs(2) b] slot_ne [symmetric]
    by (simp add: mapped_slots d(2) dirs(2) b)
  have fc: "fault_cost ?s0 a = fault_cost s a" for a by (simp add: fault_cost_def)
  have free2: "2 \<le> free_count s2" using s2(6) free fc [of base] by (simp add: fault_cost_def split: if_splits)
  have "\<exists>s4. init_free_list demand_store ?p s2 = Inr s4 \<and> keeps {page_slot ?fl} s2 s4
    \<and> (\<forall>a\<in>cells ?fl. resident s4 a) \<and> holds_list (\<lambda>j. vword s4 (cell ?fl j)) (snd (first_regions ?p))
    \<and> (\<forall>sl g. slots s2 sl = Some g \<longrightarrow> slots s4 sl = Some g) \<and> free_count s2 = free_count s4 + fault_cost s2 ?fl"
    using keepsD(1) [OF s2(2)] un2 free2 init_free_list_ready [of ?p] size
    by (intro build_list [OF _ flm d(2) dirs(2)] init_free_list_first) (simp_all add: p)
  then obtain s4 where s4: "init_free_list demand_store ?p s2 = Inr s4" "keeps {page_slot ?fl} s2 s4"
      "\<forall>a\<in>cells ?fl. resident s4 a" "holds_list (\<lambda>j. vword s4 (cell ?fl j)) (snd (first_regions ?p))"
      "\<forall>sl g. slots s2 sl = Some g \<longrightarrow> slots s4 sl = Some g" "free_count s2 = free_count s4 + fault_cost s2 ?fl"
    by (elim exE conjE)
  have k: "keeps ?B ?s0 s4"
    by (rule keeps_trans [OF keeps_mono [OF s2(2)] keeps_mono [OF s4(2)]]) simp_all
  have kept: "resident s4 a \<and> vword s4 a = vword s2 a" if "a \<in> cells base" for a
    using that s2(3) keepsD(2,3) [OF s4(2)] slot_ne page_cells(2) [OF base(1)] by (auto simp: cells_def)
  then have "holds_list (\<lambda>j. vword s4 (cell base j)) (fst (first_regions ?p))"
    using s2(4) holds_list_cong [of "\<lambda>j. vword s4 (cell base j)" "\<lambda>j. vword s2 (cell base j)"] by simp
  then have "vm_holds ?p s4 (fst (first_regions ?p)) (snd (first_regions ?p))"
    using kept s4(3,4) keepsD(1) [OF k] cells_apart [OF base(1) flm slot_ne]
    by (auto simp: vm_holds_def pool_holds_def list_cells_def lists_ready_def p)
  moreover have "VMPool this base size0 fp pt s = Inr s4" using run s2(1) s4(1) by simp
  moreover have "fault_cost s2 ?fl = 1" if "dir_ix ?fl = dir_ix base"
  proof -
    have "resident s2 (cell base 0)" using s2(3) by simp
    then have "slots s2 (page_slot base) \<noteq> None" by (simp add: resident_def cell_def)
    then show ?thesis using d dirs that by (auto simp: fault_cost_def slots_def split: bind_splits)
  qed
  moreover have "free_count s \<le> free_count s4 + 4"
    using s2(6) s4(6) by (simp add: fault_cost_def split: if_splits)
  ultimately show ?thesis
    using k keepsD(6-8) [OF k] s2(5,6) s4(5,6) fc [of base] by (intro exI [of _ s4]) simp
qed

end
