(* ===== verification/Demand_Memory.thy ===== *)
theory Demand_Memory
  imports Paging_Boot
begin

text \<open>
  What a thread sees of the paged memory: loads and stores of aligned words, faults included.  A
  store is found by the next load, every other word keeps its value whatever the fault handler
  did in between, two virtual addresses never share memory, and no virtual address outside the
  last page of a region reaches a page table or the directory.  The last section has sequences of
  stores, with every fault they take.
\<close>

text \<open>An address the handler can serve: in a region of its own, and with enough frames left.\<close>

definition servable :: "'a paging_state_scheme \<Rightarrow> u32 \<Rightarrow> bool" where
  "servable s a \<longleftrightarrow> aligned a \<and> 0 < dir_ix a \<and> dir_ix a < 1023 \<and> tbl_ix a \<noteq> 1023 \<and>
     (resident s a \<or> fault_cost s a \<le> free_count s)"

lemma tbl_ix_less: "tbl_ix a \<noteq> 1023 \<Longrightarrow> tbl_ix a < 1023"
  using tbl_ix_bound [of a] by linarith

text \<open>The page is there, or it is there after one fault and every word is as it was.\<close>

lemma touch_ok:
  assumes ok: "paging_ok s" and a: "servable s a" and err: "err AND 1 = 0"
  shows "\<exists>s'. touch err a s = Some (Inr (phys (page_of s' a) (offset a), s')) \<and> paging_ok s'
    \<and> resident s' a \<and> free_count s = free_count s' + (if resident s a then 0 else fault_cost s a)
    \<and> (\<forall>b. resident s b \<longrightarrow> resident s' b \<and> vword s' b = vword s b) \<and> keeps {page_slot a} s s'"
proof (cases "resident s a")
  case True
  then show ?thesis
    using touch_resident [OF resident_translate(1) [OF ok True]] ok keeps_refl [OF ok] by auto
next
  case False
  have d: "0 < dir_ix a" "dir_ix a < 1023" "tbl_ix a < 1023" "aligned a"
    and free: "fault_cost s a \<le> free_count s"
    using a False tbl_ix_less [of a] by (simp_all add: servable_def)
  have "mapped s (dir_ix a) (tbl_ix a) = None"
    using False d mapped_slots [OF d(1-3), of s] by (simp add: resident_def)
  then have "translate s a = None" using translate_mapped [OF paging_okD(2) [OF ok]] by simp
  from touch_unmapped [OF ok d(1,2) this free err]
  obtain f s' where t: "touch err a s = Some (Inr (phys f (offset a), s'))"
      and p: "page_added (s\<lparr>cr2 := a\<rparr>) a f s'" by blast
  have ok2: "paging_ok (s\<lparr>cr2 := a\<rparr>)" using ok by simp
  have same: "resident (s\<lparr>cr2 := a\<rparr>) b = resident s b" "vword (s\<lparr>cr2 := a\<rparr>) b = vword s b" for b
    by (simp_all add: resident_def vword_def page_of_def)
  have "resident s' b \<and> vword s' b = vword s b" if "resident s b" for b
    using page_added_keeps [OF p ok2, of b] that same [of b] by simp
  moreover have "resident s' a" using page_added_resident [OF p refl d(4)] .
  moreover have "slots s' (page_slot a) = Some f" "paging_ok s'"
    using p unfolding page_added_def by blast+
  then have "page_of s' a = f" "paging_ok s'" by (simp_all add: page_of_def)
  moreover have "free_count s = free_count s' + fault_cost s a"
    using p unfolding page_added_def fault_cost_def by simp
  ultimately show ?thesis using t False fault_keeps [OF p ok] by auto
qed

text \<open>The state after a store: one more word in memory, all others as they were.\<close>

definition stored :: "'a paging_state_scheme \<Rightarrow> u32 \<Rightarrow> u32 \<Rightarrow> 'a paging_state_scheme \<Rightarrow> bool" where
  "stored s a v s' \<longleftrightarrow> paging_ok s' \<and>
     free_count s = free_count s' + (if resident s a then 0 else fault_cost s a) \<and>
     resident s' a \<and> vword s' a = v \<and>
     (\<forall>b. resident s b \<longrightarrow> resident s' b \<and> (b \<noteq> a \<longrightarrow> vword s' b = vword s b)) \<and>
     keeps {page_slot a} s s'"

lemma stored_cost: "stored s a v s' \<Longrightarrow> free_count s \<le> free_count s' + 2"
  by (auto simp: stored_def fault_cost_def split: if_splits)

lemma load_resident: "paging_ok s \<Longrightarrow> resident s a \<Longrightarrow> demand_load a s = Inr (vword s a, s)"
  using demand_resident(1) [OF resident_translate(1)] by (simp add: vword_def)

lemma demand_store_stored:
  assumes ok: "paging_ok s" and a: "servable s a"
  shows "\<exists>s'. demand_store a v s = Inr s' \<and> stored s a v s'"
proof -
  obtain s1 where t: "touch 2 a s = Some (Inr (phys (page_of s1 a) (offset a), s1))"
    and s1: "paging_ok s1" "resident s1 a" "\<forall>b. resident s b \<longrightarrow> resident s1 b \<and> vword s1 b = vword s b"
      "free_count s = free_count s1 + (if resident s a then 0 else fault_cost s a)" "keeps {page_slot a} s s1"
    using touch_ok [OF ok a, of 2] by auto
  define s' where s': "s' = s1\<lparr>mem := store32 (phys (page_of s1 a) (offset a)) v (mem s1)\<rparr>"
  note w = write_word_ok [where A = "{a}", OF s1(1,2) _ s', simplified]
  have st: "demand_store a v s = Inr s'" using t by (simp add: demand_store_def s')
  have res: "resident s' b = resident s1 b" for b
    using w(2) by (simp add: resident_def same_map_def)
  have free: "free_count s' = free_count s1" using w(2) by (simp add: same_map_def)
  have "keeps (page_slot ` {a}) s1 s'"
    by (rule same_map_keeps [OF w(2) s1(1) w(1)]) (use s1(2) in simp)
  then have "keeps {page_slot a} s s'" using keeps_trans [OF s1(5)] by simp
  then have "stored s a v s'"
    using w(1) s1 res free w(3) unfolding stored_def by simp
  then show ?thesis using st by blast
qed

lemma demand_store_ok:
  assumes ok: "paging_ok s" and a: "servable s a"
  shows "\<exists>s'. demand_store a v s = Inr s' \<and> paging_ok s' \<and> demand_load a s' = Inr (v, s')
    \<and> (\<forall>b. resident s b \<longrightarrow> b \<noteq> a \<longrightarrow> demand_load b s' = Inr (vword s b, s'))"
proof -
  obtain s' where s': "demand_store a v s = Inr s'" "stored s a v s'"
    using demand_store_stored [OF ok a] by blast
  then show ?thesis using load_resident [of s'] unfolding stored_def by metis
qed

lemma demand_load_ok:
  assumes ok: "paging_ok s" and a: "servable s a"
  shows "\<exists>v s'. demand_load a s = Inr (v, s') \<and> paging_ok s' \<and> (resident s a \<longrightarrow> v = vword s a)
    \<and> demand_load a s' = Inr (v, s')
    \<and> (\<forall>b. resident s b \<longrightarrow> demand_load b s' = Inr (vword s b, s'))"
proof -
  obtain s' where t: "touch 0 a s = Some (Inr (phys (page_of s' a) (offset a), s'))"
    and s': "paging_ok s'" "resident s' a" "\<forall>b. resident s b \<longrightarrow> resident s' b \<and> vword s' b = vword s b"
    using touch_ok [OF ok a, of 0] by auto
  have ld: "demand_load b s' = Inr (vword s' b, s')" if "resident s' b" for b
    using demand_resident(1) [OF resident_translate(1) [OF s'(1) that]] by (simp add: vword_def)
  have "demand_load a s = Inr (vword s' a, s')" using t by (simp add: demand_load_def vword_def)
  then show ?thesis using ld s' by (metis (no_types, lifting))
qed

section \<open>Isolation\<close>

text \<open>The frame of a mapped page of a region, and what it is not.\<close>

lemma isolation:
  assumes ok: "paging_ok s"
    and a: "0 < dir_ix a" "dir_ix a < 1023" "tbl_ix a < 1023" "translate s a = Some x"
    and b: "0 < dir_ix b" "dir_ix b < 1023" "tbl_ix b < 1023" "translate s b = Some y"
  shows "x = y \<longleftrightarrow> a = b" and "kernel_top \<le> unat x"
    and "slots s (Table d) = Some F \<Longrightarrow> x \<notin> frame_bytes F"
    and "x \<notin> frame_bytes (frame_of (cr3 s))"
proof -
  have frame: "\<exists>f. slots s (page_slot c) = Some f \<and> z = phys f (offset c) \<and> 1024 \<le> f \<and> f < frame_bound"
    if c: "0 < dir_ix c" "dir_ix c < 1023" "tbl_ix c < 1023" "translate s c = Some z" for c z
  proof -
    obtain f where f: "mapped s (dir_ix c) (tbl_ix c) = Some f" "z = phys f (offset c)"
      using c(4) translate_mapped [OF paging_okD(2) [OF ok], of c] by auto
    then have "slots s (page_slot c) = Some f" using mapped_slots [OF c(1-3), of s] by simp
    then show ?thesis using f(2) paging_okD(5,6) [OF ok] by blast
  qed
  obtain f where f: "slots s (page_slot a) = Some f" "x = phys f (offset a)" "1024 \<le> f" "f < frame_bound"
    using frame [OF a] by blast
  obtain g where g: "slots s (page_slot b) = Some g" "y = phys g (offset b)" "1024 \<le> g" "g < frame_bound"
    using frame [OF b] by blast
  have in_f: "x \<in> frame_bytes f"
    using f(2-4) offset_bound [of a] unat_phys by (simp add: frame_bytes_def)
  show "x = y \<longleftrightarrow> a = b"
  proof
    assume "x = y"
    then have "f = g" "offset a = offset b" using phys_eq f(2,4) g(2,4) by auto
    moreover from this(1) have "page_slot a = page_slot b"
      using slots_inject [OF ok f(1)] g(1) by metis
    ultimately have "unat a = unat b" using address_pieces [of a] address_pieces [of b] by simp
    then show "a = b" by (simp add: word_unat_eq_iff)
  next
    assume "a = b"
    then show "x = y" using a(4) b(4) by simp
  qed
  show "kernel_top \<le> unat x" using in_f f(3) by (simp add: frame_bytes_def kernel_top_def)
  have out: "x \<notin> frame_bytes F" if "slots s sl = Some F" "sl \<noteq> page_slot a" for sl F
  proof -
    have "F \<noteq> f" using slots_inject [OF ok f(1)] that by metis
    then show ?thesis using in_f frame_bytes_disjoint [of F f] by blast
  qed
  show "slots s (Table d) = Some F \<Longrightarrow> x \<notin> frame_bytes F" by (erule out) simp
  show "x \<notin> frame_bytes (frame_of (cr3 s))" by (rule out [of Dir]) simp_all
qed

section \<open>Sequences of stores\<close>

text \<open>The words a program may use: outside the kernel's region, the last region, and the last pages.\<close>

definition user_word :: "u32 \<Rightarrow> bool" where
  "user_word a \<longleftrightarrow> aligned a \<and> 0 < dir_ix a \<and> dir_ix a < 1023 \<and> tbl_ix a \<noteq> 1023"

text \<open>The value that a sequence of stores leaves in a word.\<close>

definition last_stored :: "(u32 \<times> u32) list \<Rightarrow> (u32 \<Rightarrow> u32) \<Rightarrow> u32 \<Rightarrow> u32" where
  "last_stored ws m a = (case map_of (rev ws) a of Some v \<Rightarrow> v | None \<Rightarrow> m a)"

lemma last_stored_simps:
  "last_stored [] m = m"
  "last_stored ((a, v) # ws) m = last_stored ws (m(a := v))"
  by (auto simp: last_stored_def fun_eq_iff map_add_def split: option.splits)

lemma last_stored_cong: "(map_of (rev ws) a = None \<Longrightarrow> m a = m' a) \<Longrightarrow> last_stored ws m a = last_stored ws m' a"
  by (auto simp: last_stored_def split: option.splits)

lemma map_of_rev_None: "map_of (rev ws) a = None \<longleftrightarrow> a \<notin> fst ` set ws"
  by (simp add: map_of_eq_None_iff)

lemma store_run:
  assumes "paging_ok s" and "\<forall>w\<in>set ws. user_word (fst w)" and "2 * length ws \<le> free_count s"
  shows "\<exists>s'. for_each (\<lambda>(a, v). demand_store a v) ws s = Inr s' \<and> paging_ok s'
    \<and> free_count s \<le> free_count s' + 2 * length ws
    \<and> (\<forall>a. a \<in> fst ` set ws \<or> resident s a \<longrightarrow> resident s' a \<and> vword s' a = last_stored ws (vword s) a)"
  using assms
proof (induction ws arbitrary: s)
  case Nil
  then show ?case by (simp add: last_stored_simps)
next
  case (Cons w ws)
  obtain a v where w: "w = (a, v)" by fastforce
  have "servable s a"
    using Cons.prems(2,3) w by (auto simp: user_word_def servable_def fault_cost_def)
  from demand_store_stored [OF Cons.prems(1) this, of v]
  obtain s1 where s1: "demand_store a v s = Inr s1" "stored s a v s1" by blast
  have ok1: "paging_ok s1" and cost: "free_count s \<le> free_count s1 + 2"
    using s1(2) stored_cost [OF s1(2)] by (simp_all add: stored_def)
  have "2 * length ws \<le> free_count s1" using cost Cons.prems(3) by simp
  from Cons.IH [OF ok1 _ this] Cons.prems(2)
  obtain s' where s': "for_each (\<lambda>(a, v). demand_store a v) ws s1 = Inr s'" "paging_ok s'"
      "free_count s1 \<le> free_count s' + 2 * length ws"
      "\<forall>a. a \<in> fst ` set ws \<or> resident s1 a \<longrightarrow> resident s' a \<and> vword s' a = last_stored ws (vword s1) a"
    by auto
  have "resident s' b \<and> vword s' b = last_stored (w # ws) (vword s) b"
    if b: "b \<in> fst ` set (w # ws) \<or> resident s b" for b
  proof -
    have r: "b \<in> fst ` set ws \<or> resident s1 b" using b w s1(2) by (auto simp: stored_def)
    have "last_stored ws (vword s1) b = last_stored ws ((vword s)(a := v)) b"
    proof (rule last_stored_cong)
      assume "map_of (rev ws) b = None"
      then have "b = a \<or> resident s b" using b w by (auto simp: map_of_rev_None)
      then show "vword s1 b = ((vword s)(a := v)) b" using s1(2) by (auto simp: stored_def)
    qed
    moreover have "resident s' b \<and> vword s' b = last_stored ws (vword s1) b" using s'(4) r by blast
    ultimately show ?thesis using w by (simp add: last_stored_simps)
  qed
  moreover have "for_each (\<lambda>(a, v). demand_store a v) (w # ws) s = Inr s'" using w s1(1) s'(1) by simp
  ultimately show ?case using s'(2,3) cost by (intro exI [of _ s']) simp
qed

text \<open>The words that a program has used are in memory of their own.\<close>

definition isolated :: "'a paging_state_scheme \<Rightarrow> u32 set \<Rightarrow> bool" where
  "isolated s W \<longleftrightarrow>
     (\<forall>a\<in>W. \<exists>x. translate s a = Some x \<and> kernel_top \<le> unat x
        \<and> (\<forall>d F. slots s (Table d) = Some F \<longrightarrow> x \<notin> frame_bytes F) \<and> x \<notin> frame_bytes (frame_of (cr3 s)))
     \<and> inj_on (translate s) W"

lemma resident_isolated:
  assumes ok: "paging_ok s" and W: "\<forall>a\<in>W. user_word a \<and> resident s a"
  shows "isolated s W"
proof -
  have t: "\<exists>x. translate s a = Some x" if "a \<in> W" for a
    using resident_translate(1) [OF ok] W that by blast
  have u: "0 < dir_ix a" "dir_ix a < 1023" "tbl_ix a < 1023" if "a \<in> W" for a
    using W that tbl_ix_less [of a] by (auto simp: user_word_def)
  have "\<exists>x. translate s a = Some x \<and> kernel_top \<le> unat x
      \<and> (\<forall>d F. slots s (Table d) = Some F \<longrightarrow> x \<notin> frame_bytes F) \<and> x \<notin> frame_bytes (frame_of (cr3 s))"
    if a: "a \<in> W" for a
  proof -
    obtain x where x: "translate s a = Some x" using t [OF a] ..
    show ?thesis using isolation(2-4) [OF ok u [OF a] x u [OF a] x] x by blast
  qed
  moreover have "a = b" if ab: "a \<in> W" "b \<in> W" "translate s a = translate s b" for a b
  proof -
    obtain x where x: "translate s a = Some x" using t [OF ab(1)] ..
    then show ?thesis using isolation(1) [OF ok u [OF ab(1)] x u [OF ab(2)], of x] ab(3) by simp
  qed
  ultimately show ?thesis unfolding isolated_def inj_on_def by blast
qed

section \<open>The last page of a region\<close>

text \<open>Where the last page of a region is the region's own table, a store there writes an entry.\<close>

lemma last_page_store:
  assumes ok: "paging_ok s" and F: "slots s (Table d) = Some F" "mapped s d 1023 = Some F"
    and a: "aligned a" "dir_ix a = d" "tbl_ix a = 1023"
    and b: "dir_ix b = d" "tbl_ix b = offset a div 4"
  shows "\<exists>s'. demand_store a v s = Inr s'
    \<and> translate s' b = (if present v then Some (phys (frame_of v) (offset b)) else None)"
proof -
  let ?i = "offset a div 4" and ?P = "frame_of (cr3 s)"
  note al = aligned_offset_4(1) [OF a(1), symmetric] aligned_offset_4(2) [of a]
  have d: "d < 1023" using F(1) by (simp add: table_frame_def split: if_splits)
  have bounds: "F < frame_bound" "?P < frame_bound" using paging_okD(6) [OF ok F(1)] by simp_all
  have "?P \<noteq> F" using slots_inject [OF ok F(1), of Dir] by (auto simp del: slots_simps simp: slots_def)
  have pa: "phys F (offset a) = entry_addr F ?i"
    using al bounds by (simp add: word_unat_eq_iff unat_phys unat_entry_addr)
  have "translate s a = Some (phys F (offset a))"
    using translate_mapped [OF paging_okD(2) [OF ok], of a] F(2) a by simp
  note st = demand_resident(2) [OF this, of v, unfolded pa]
  let ?m = "store32 (entry_addr F ?i) v (mem s)"
  have "table_frame (entry (mem s)) ?P d = Some F" using F(1) by (simp add: slots_def)
  then have "table_frame (entry ?m) ?P d = Some F"
    using al bounds d \<open>?P \<noteq> F\<close> by (simp add: table_frame_def entry_store32 split: if_splits)
  then have "lookup_frame (entry ?m) ?P d ?i = (if present v then Some (frame_of v) else None)"
    using al bounds d by (simp add: lookup_table entry_store32)
  then have "translate (s\<lparr>mem := ?m\<rparr>) b = (if present v then Some (phys (frame_of v) (offset b)) else None)"
    using translate_mapped [of "s\<lparr>mem := ?m\<rparr>" b] paging_okD(2) [OF ok] b by (simp add: mapped_def)
  then show ?thesis using st by blast
qed

end
