(* ===== verification/Kernel_Boot.thy ===== *)
theory Kernel_Boot
  imports Demand_Memory
begin

text \<open>
  The memory part of \<open>main\<close> (\<open>kernel.C\<close>): the two frame pools, the memory hole, the page table, and
  \<open>GeneratePageTableMemoryReferences\<close>, the test that the kernel runs with paging on.  The kernel's
  pool is pool 0, the process pool is pool 1 and \<open>pt1\<close> is page table 0.  \<open>TestFailed\<close> ends in an
  endless loop, the outcome \<open>Inl Hang\<close>.
\<close>

section \<open>The code\<close>

abbreviation (input) KERNEL_POOL_START_FRAME :: u32 where "KERNEL_POOL_START_FRAME \<equiv> 512"
abbreviation (input) KERNEL_POOL_SIZE :: u32 where "KERNEL_POOL_SIZE \<equiv> 512"
abbreviation (input) PROCESS_POOL_START_FRAME :: u32 where "PROCESS_POOL_START_FRAME \<equiv> 1024"
abbreviation (input) PROCESS_POOL_SIZE :: u32 where "PROCESS_POOL_SIZE \<equiv> 7168"
abbreviation (input) MEM_HOLE_START_FRAME :: u32 where "MEM_HOLE_START_FRAME \<equiv> 3840"
abbreviation (input) MEM_HOLE_SIZE :: u32 where "MEM_HOLE_SIZE \<equiv> 256"

definition init_frame_pools :: "'a paging_state_scheme \<Rightarrow> 'a paging_state_scheme outcome" where
  "init_frame_pools s =
     (let s = ContFramePool 0 KERNEL_POOL_START_FRAME KERNEL_POOL_SIZE 0 s;
          n_info_frames = needed_info_frames PROCESS_POOL_SIZE
      in andThen (get_frames 0 n_info_frames s) (\<lambda>(process_mem_pool_info_frame, s).
         let s = ContFramePool 1 PROCESS_POOL_START_FRAME PROCESS_POOL_SIZE
               process_mem_pool_info_frame s
         in mark_inaccessible 1 MEM_HOLE_START_FRAME MEM_HOLE_SIZE s))"

definition boot_memory :: "'a paging_state_scheme \<Rightarrow> 'a paging_state_scheme outcome" where
  "boot_memory s =
     andThen (init_frame_pools s) (\<lambda>s. boot_paging 0 (init_paging 0 1 0x400000 s))"

definition write_references ::
  "u32 \<Rightarrow> nat \<Rightarrow> 'a paging_state_scheme \<Rightarrow> 'a paging_state_scheme outcome" where
  "write_references foo n_references =
     for_each (\<lambda>i. demand_store (cell foo i) (word_of_nat i)) [0..<n_references]"

definition check_references ::
  "u32 \<Rightarrow> nat \<Rightarrow> 'a paging_state_scheme \<Rightarrow> 'a paging_state_scheme outcome" where
  "check_references foo n_references =
     for_each (\<lambda>i s. andThen (demand_load (cell foo i) s) (\<lambda>(v, s).
       if v \<noteq> word_of_nat i then Inl Hang else Inr s)) [0..<n_references]"

definition GeneratePageTableMemoryReferences ::
  "u32 \<Rightarrow> nat \<Rightarrow> 'a paging_state_scheme \<Rightarrow> 'a paging_state_scheme outcome" where
  "GeneratePageTableMemoryReferences start_address n_references s =
     andThen (write_references start_address n_references s) (\<lambda>s.
     check_references start_address n_references s)"

section \<open>The frame pools\<close>

lemma info_frames_1: "needed_info_frames 7168 = 1" "needed_info_frames 512 = 1"
  by (simp_all add: needed_info_frames_def)

definition kernel_pool :: cont_frame_pool where
  "kernel_pool = (fresh_pool None 512 512 0)\<lparr>nFreeFrames := 511\<rparr>"

definition process_pool :: cont_frame_pool where
  "process_pool = fresh_pool (Some 0) 1024 7168 513"

lemma pool_numbers [simp]:
  "base_frame_no kernel_pool = 512" "nframes kernel_pool = 512" "nFreeFrames kernel_pool = 511"
  "bitmap kernel_pool = 0x200000" "next_fp kernel_pool = None"
  "base_frame_no process_pool = 1024" "nframes process_pool = 7168" "nFreeFrames process_pool = 7168"
  "bitmap process_pool = 0x201000" "next_fp process_pool = Some 0"
  by (simp_all add: kernel_pool_def process_pool_def)

lemma bitmap_range:
  assumes "x \<in> bitmap_bytes p" and "unat (bitmap p) + unat (nframes p) < 4294967296"
  shows "unat (bitmap p) \<le> unat x" and "unat x \<le> unat (bitmap p) + unat (nframes p) div 4"
proof -
  obtain f where f: "f < nframes p" "x = bitmap p + f div 4" using assms(1) by (auto simp: bitmap_bytes_def)
  then have "unat f div 4 \<le> unat (nframes p) div 4" by (simp add: word_less_nat_alt div_le_mono)
  moreover have "unat x = unat (bitmap p) + unat f div 4"
    using f assms(2) calculation div_le_dividend [of "unat (nframes p)" 4]
    by (simp add: unat_word_ariths unat_div)
  ultimately show "unat (bitmap p) \<le> unat x" "unat x \<le> unat (bitmap p) + unat (nframes p) div 4"
    by linarith+
qed

lemma kernel_bitmap: "x \<in> bitmap_bytes kernel_pool \<Longrightarrow> 0x200000 \<le> unat x \<and> unat x < 0x201000"
  using bitmap_range [of x kernel_pool] by simp

lemma process_bitmap: "x \<in> bitmap_bytes process_pool \<Longrightarrow> 0x201000 \<le> unat x \<and> unat x < 0x202000"
  using bitmap_range [of x process_pool] by simp

lemma pools_are_apart: "pools_apart process_pool (kernel_pool\<lparr>nFreeFrames := x\<rparr>)"
proof -
  have "bitmap_bytes process_pool \<inter> bitmap_bytes kernel_pool = {}"
    using kernel_bitmap process_bitmap by fastforce
  then have "pools_apart process_pool kernel_pool" by (simp add: pools_apart_def frames_apart_def)
  then show ?thesis by simp
qed

text \<open>The kernel's pool: its bitmap is in its own first frame.\<close>

lemma kernel_pool_built:
  assumes "frame_pools s = Map.empty" and "fp_head s = None"
  shows "\<exists>m. ContFramePool 0 512 512 0 s = s\<lparr>mem := m, frame_pools := [0 \<mapsto> kernel_pool], fp_head := Some 0\<rparr>
    \<and> pools_ok (ContFramePool 0 512 512 0 s)
    \<and> states (ContFramePool 0 512 512 0 s) 0 = HoS # replicate 511 Free"
proof -
  have kp: "(fresh_pool None 512 512 0)\<lparr>nFreeFrames := 512 - needed_info_frames 512\<rparr> = kernel_pool"
    by (simp add: kernel_pool_def info_frames_1)
  have "take_run 0 1 (replicate 512 Free) = HoS # replicate 511 Free"
    by (simp add: take_run_def numeral_eq_Suc)
  moreover have "\<exists>m'. pool_construct (mem s) None 512 512 0 = (m', kernel_pool)
      \<and> fstates m' (fresh_pool None 512 512 0)
        = take_run 0 (unat (needed_info_frames 512)) (replicate (unat (512 :: u32)) Free)
      \<and> (\<forall>a. a \<notin> bitmap_bytes (fresh_pool None 512 512 0) \<longrightarrow> m' a = mem s a)
      \<and> pool_ok m' kernel_pool"
    unfolding kp [symmetric] by (rule pool_construct_marked) (simp_all add: info_frames_1)
  ultimately obtain m where m: "pool_construct (mem s) None 512 512 0 = (m, kernel_pool)"
      "fstates m (fresh_pool None 512 512 0) = HoS # replicate 511 Free"
      "\<forall>x. x \<notin> bitmap_bytes (fresh_pool None 512 512 0) \<longrightarrow> m x = mem s x" "pool_ok m kernel_pool"
    by (auto simp: info_frames_1)
  have fr: "fstates m kernel_pool = HoS # replicate 511 Free"
    using m(2) by (simp add: kernel_pool_def)
  have bb: "bitmap_bytes kernel_pool = bitmap_bytes (fresh_pool None 512 512 0)"
    by (simp add: kernel_pool_def)
  have e: "ContFramePool 0 512 512 0 s = s\<lparr>mem := m, frame_pools := [0 \<mapsto> kernel_pool], fp_head := Some 0\<rparr>"
    using m(1) assms by (simp add: ContFramePool_def)
  have "pools_ok (ContFramePool 0 512 512 0 s)"
    by (rule ContFramePool_ok(1) [OF pools_ok_empty [OF assms], where p = kernel_pool and m' = m])
      (use m bb assms in simp_all)
  then show ?thesis using e fr by (auto simp: states_def)
qed

lemma init_frame_pools_ok:
  assumes none: "frame_pools s = Map.empty" "fp_head s = None"
  shows "\<exists>m. init_frame_pools s = Inr (s\<lparr>fp_head := Some 1, mem := m,
       frame_pools := [0 \<mapsto> kernel_pool\<lparr>nFreeFrames := 510\<rparr>, 1 \<mapsto> process_pool\<lparr>nFreeFrames := 6912\<rparr>]\<rparr>)
    \<and> pools_ok (s\<lparr>fp_head := Some 1, mem := m,
       frame_pools := [0 \<mapsto> kernel_pool\<lparr>nFreeFrames := 510\<rparr>, 1 \<mapsto> process_pool\<lparr>nFreeFrames := 6912\<rparr>]\<rparr>)
    \<and> fstates m process_pool = take_run 2816 256 (replicate 7168 Free)"
proof -
  define s1 where s1: "s1 = ContFramePool 0 512 512 0 s"
  obtain m1 where s1_eq: "s1 = s\<lparr>mem := m1, frame_pools := [0 \<mapsto> kernel_pool], fp_head := Some 0\<rparr>"
    and s1_ok: "pools_ok s1" and s1_st: "states s1 0 = HoS # replicate 511 Free"
    using kernel_pool_built [OF none] unfolding s1 [symmetric] by blast
  have p1: "frame_pools s1 0 = Some kernel_pool" by (simp add: s1_eq)
  have run: "free_run (states s1 0) 1 (unat (1 :: u32))" by (simp add: s1_st free_run_def)
  have least: "\<forall>j<1. \<not> free_run (states s1 0) j (unat (1 :: u32))" by (simp add: s1_st free_run_def)
  obtain s2 where g: "get_frames 0 1 s1 = Inr (base_frame_no kernel_pool + word_of_nat 1, s2)"
    and s2p: "frame_pools s2 0 = Some (kernel_pool\<lparr>nFreeFrames := nFreeFrames kernel_pool - 1\<rparr>)"
    and s2_ok: "pools_ok s2" and s2_only: "only_pool 0 kernel_pool s1 s2"
    using get_frames_alloc [OF s1_ok p1 _ run least] by auto
  obtain m2 where s2_eq: "s2 = s\<lparr>fp_head := Some 0, mem := m2, frame_pools := [0 \<mapsto> kernel_pool\<lparr>nFreeFrames := 510\<rparr>]\<rparr>"
  proof -
    have "s2 = s1\<lparr>mem := mem s2, frame_pools := frame_pools s2\<rparr>"
      using get_frames_fields [OF g] by (simp add: frames_only_def)
    moreover have "frame_pools s2 = [0 \<mapsto> kernel_pool\<lparr>nFreeFrames := 510\<rparr>]"
    proof
      fix b show "frame_pools s2 b = [0 \<mapsto> kernel_pool\<lparr>nFreeFrames := 510\<rparr>] b"
        using s2p s2_only by (cases "b = 0") (auto simp: only_pool_def s1_eq)
    qed
    ultimately show ?thesis using that s1_eq by simp
  qed
  have pp: "fresh_pool (Some 0) 1024 7168 513 = process_pool" by (simp add: process_pool_def)
  have "\<not> (1024 \<le> (513 :: u32) \<and> 513 + needed_info_frames 7168 \<le> 1024 + (7168 :: u32))"
    by (simp add: word_le_nat_alt)
  then obtain m3 where m3: "pool_construct (mem s2) (Some 0) 1024 7168 513 = (m3, process_pool)"
      "fstates m3 process_pool = replicate (unat (7168 :: u32)) Free"
      "\<forall>x. x \<notin> bitmap_bytes process_pool \<longrightarrow> m3 x = mem s2 x" "pool_ok m3 process_pool"
    using pool_construct_outside [of 1024 7168 513 "mem s2" "Some 0"] by (auto simp: pp)
  define s3 where s3: "s3 = ContFramePool 1 1024 7168 513 s2"
  have s3_eq: "s3 = s\<lparr>mem := m3, frame_pools := [0 \<mapsto> kernel_pool\<lparr>nFreeFrames := 510\<rparr>, 1 \<mapsto> process_pool],
      fp_head := Some 1\<rparr>"
    using m3(1) by (simp add: s3 ContFramePool_def s2_eq)
  have s3_ok: "pools_ok s3" unfolding s3
  proof (rule ContFramePool_ok(1) [OF s2_ok])
    show "pool_construct (mem s2) (fp_head s2) 1024 7168 513 = (m3, process_pool)"
      using m3(1) by (simp add: s2_eq)
    show "pools_apart process_pool q" if "frame_pools s2 a = Some q" for a q
      using that pools_are_apart by (auto simp: s2_eq split: if_splits)
  qed (use m3 in \<open>simp_all add: s2_eq\<close>)
  have p3: "frame_pools s3 1 = Some process_pool" by (simp add: s3_eq)
  have st3: "states s3 1 = replicate 7168 Free" using m3(2) by (simp add: states_def s3_eq)
  have run3: "free_run (states s3 1) 2816 (unat (256 :: u32))"
    unfolding st3 by (simp add: free_run_def)
  obtain s4 where mk: "mark_inaccessible 1 (base_frame_no process_pool + word_of_nat 2816) 256 s3 = Inr s4"
    and s4p: "frame_pools s4 1 = Some (process_pool\<lparr>nFreeFrames := nFreeFrames process_pool - 256\<rparr>)"
    and s4st: "states s4 1 = take_run 2816 (unat (256 :: u32)) (states s3 1)" and s4_ok: "pools_ok s4"
    and s4_only: "only_pool 1 process_pool s3 s4"
    using mark_inaccessible_free [OF s3_ok p3 _ run3] by auto
  have fp4: "frame_pools s4 = [0 \<mapsto> kernel_pool\<lparr>nFreeFrames := 510\<rparr>, 1 \<mapsto> process_pool\<lparr>nFreeFrames := 6912\<rparr>]"
  proof
    fix b show "frame_pools s4 b = [0 \<mapsto> kernel_pool\<lparr>nFreeFrames := 510\<rparr>, 1 \<mapsto> process_pool\<lparr>nFreeFrames := 6912\<rparr>] b"
      using s4p s4_only by (cases "b = 1") (auto simp: only_pool_def s3_eq)
  qed
  have mk': "mark_inaccessible 1 3840 256 s3 = Inr s4" using mk by simp
  have "s4 = s3\<lparr>mem := mem s4, frame_pools := frame_pools s4\<rparr>"
    using mk' by (auto simp: mark_inaccessible_def Let_def split: option.splits prod.splits)
  then have s4_eq: "s4 = s\<lparr>fp_head := Some 1, mem := mem s4, frame_pools :=
      [0 \<mapsto> kernel_pool\<lparr>nFreeFrames := 510\<rparr>, 1 \<mapsto> process_pool\<lparr>nFreeFrames := 6912\<rparr>]\<rparr>"
    unfolding fp4 by (simp add: s3_eq)
  have "init_frame_pools s = Inr s4"
    using g mk' unfolding init_frame_pools_def info_frames_1 Let_def s1 [symmetric] by (simp add: s3)
  moreover have "fstates (mem s4) process_pool = take_run 2816 256 (replicate 7168 Free)"
    using s4st s4p st3 by (simp add: states_def)
  ultimately show ?thesis using s4_ok s4_eq by metis
qed

section \<open>Paging turned on\<close>

lemma count_free_hole: "count_free (take_run 2816 256 (replicate 7168 Free)) = 6912"
proof -
  have "free_run (replicate 7168 Free) 2816 256" by (simp add: free_run_def)
  from count_free_take_run [OF this] show ?thesis by simp
qed

lemma boot_memory_ok:
  assumes none: "frame_pools s = Map.empty" "fp_head s = None" and off: "\<not> bit (cr0 s) 31"
  shows "\<exists>s'. boot_memory s = Inr s' \<and> paging_ok s' \<and> free_count s' = 6910
    \<and> (\<forall>t<1024. mapped s' 0 t = Some t) \<and> (\<forall>d t. 0 < d \<longrightarrow> d < 1023 \<longrightarrow> mapped s' d t = None)
    \<and> (\<forall>d. 0 < d \<longrightarrow> slots s' (Table d) = None)
    \<and> page_tables s' 0 = Some \<lparr>page_directory = cr3 s', head_pool = None\<rparr>"
proof -
  let ?pools = "[0 \<mapsto> kernel_pool\<lparr>nFreeFrames := 510\<rparr>, 1 \<mapsto> process_pool\<lparr>nFreeFrames := 6912\<rparr>]
    :: nat \<Rightarrow> cont_frame_pool option"
  obtain m where i: "init_frame_pools s = Inr (s\<lparr>fp_head := Some 1, mem := m, frame_pools := ?pools\<rparr>)"
    and ok: "pools_ok (s\<lparr>fp_head := Some 1, mem := m, frame_pools := ?pools\<rparr>)"
    and st: "fstates m process_pool = take_run 2816 256 (replicate 7168 Free)"
    using init_frame_pools_ok [OF none] by blast
  define s1 where s1: "s1 = init_paging 0 1 0x400000 (s\<lparr>fp_head := Some 1, mem := m, frame_pools := ?pools\<rparr>)"
  have f: "frame_pools s1 = ?pools" "process_mem_pool s1 = Some 1" "mem s1 = m" "cr0 s1 = cr0 s"
    by (simp_all add: s1 init_paging_def)
  have ok1: "pools_ok s1" using ok by (simp add: s1 init_paging_def pools_ok_def)
  have st1: "states s1 1 = take_run 2816 256 (replicate 7168 Free)"
    using st f by (simp add: states_def)
  have low: "unat x < kernel_top" if "?pools b = Some q" "x \<in> bitmap_bytes q" for b q x
  proof -
    have "x \<in> bitmap_bytes kernel_pool \<or> x \<in> bitmap_bytes process_pool"
      using that by (auto split: if_splits)
    then show ?thesis using kernel_bitmap [of x] process_bitmap [of x] by (auto simp: kernel_top_def)
  qed
  have ar: "arena s1"
    unfolding arena_def f
  proof (intro conjI allI impI ballI)
    show "pools_ok s1" by (rule ok1)
    show "unat x < kernel_top" if "?pools b = Some q" "x \<in> bitmap_bytes q" for b q x
      using low [OF that] .
  qed simp
  have fc: "free_count s1 = 6912"
    using st1 count_free_hole by (simp add: free_count_def process_states_def f)
  obtain P F s' where s': "boot_paging 0 s1 = Inr s'" "paging_ok s'"
    "slots s' = (\<lambda>_. None)(Dir \<mapsto> P, Table 0 \<mapsto> F)" "\<forall>t<1024. mapped s' 0 t = Some t"
    "free_count s1 = free_count s' + 2" "page_tables s' 0 = Some \<lparr>page_directory = cr3 s', head_pool = None\<rparr>"
    using boot_paging_ok [OF ar, of 0] fc off f(4) by (auto simp del: slots_simps)
  have tab: "slots s' (Table d) = None" if "0 < d" for d
    unfolding s'(3) using that by simp
  moreover have "mapped s' d t = None" if "0 < d" "d < 1023" for d t
    using tab [OF that(1)] that unfolding mapped_def by (simp add: lookup_table)
  moreover have "boot_memory s = Inr s'" using i s'(1) by (simp add: boot_memory_def s1)
  ultimately show ?thesis using s' fc by (auto simp del: slots_simps)
qed

section \<open>The memory test\<close>

text \<open>The words of an array that lies in regions the handler serves.\<close>

definition array_ok :: "u32 \<Rightarrow> nat \<Rightarrow> bool" where
  "array_ok foo n \<longleftrightarrow> n < 1073741824 \<and> (\<forall>i<n. let a = cell foo i in
     aligned a \<and> 0 < dir_ix a \<and> dir_ix a < 1023 \<and> tbl_ix a \<noteq> 1023)"

lemma cell_inj_wide:
  assumes "i < 1073741824" "j < 1073741824"
  shows "cell l i = cell l j \<longleftrightarrow> i = j"
proof -
  have "(word_of_nat (4 * i) :: u32) = word_of_nat (4 * j) \<longleftrightarrow> i = j"
    using assms by (simp add: of_nat_eq_32 del: of_nat_mult)
  then show ?thesis by (simp add: cell_def del: of_nat_mult)
qed

definition holds_words :: "u32 \<Rightarrow> nat \<Rightarrow> 'a paging_state_scheme \<Rightarrow> bool" where
  "holds_words foo n s \<longleftrightarrow> paging_ok s \<and>
     (\<forall>i<n. resident s (cell foo i) \<and> vword s (cell foo i) = word_of_nat i)"

lemma write_references_ok:
  assumes ok: "paging_ok s" and a: "array_ok foo n" and free: "2 * n \<le> free_count s"
  shows "\<exists>s'. write_references foo n s = Inr s' \<and> holds_words foo n s'"
proof -
  let ?J = "\<lambda>i s'. holds_words foo i s' \<and> 2 * n - 2 * i \<le> free_count s'"
  have step: "\<exists>s2. demand_store (cell foo i) (word_of_nat i) s1 = Inr s2 \<and> ?J (Suc i) s2"
    if i: "i < n" and J: "?J i s1" for i s1
  proof -
    have ok1: "paging_ok s1" using J by (simp add: holds_words_def)
    have "fault_cost s1 (cell foo i) \<le> 2" by (simp add: fault_cost_def)
    then have "servable s1 (cell foo i)"
      using a i J unfolding servable_def array_ok_def Let_def by auto
    from demand_store_stored [OF ok1 this]
    obtain s2 where s2: "demand_store (cell foo i) (word_of_nat i) s1 = Inr s2"
      "stored s1 (cell foo i) (word_of_nat i) s2" by blast
    have "cell foo j \<noteq> cell foo i" if "j < i" for j
      using that i a cell_inj_wide [of j i] by (auto simp: array_ok_def)
    then have "resident s2 (cell foo j) \<and> vword s2 (cell foo j) = word_of_nat j" if "j < Suc i" for j
      using that s2(2) J unfolding stored_def holds_words_def by (auto simp: less_Suc_eq)
    then have "?J (Suc i) s2"
      using s2(2) stored_cost [OF s2(2)] J i unfolding stored_def holds_words_def by auto
    then show ?thesis using s2(1) by blast
  qed
  have "?J 0 s" using ok free by (simp add: holds_words_def)
  then have "\<exists>s'. for_each (\<lambda>i. demand_store (cell foo i) (word_of_nat i)) [0..<n] s = Inr s' \<and> ?J n s'"
    by (intro for_each_invariant) (simp, assumption, rule step)
  then show ?thesis by (auto simp: write_references_def)
qed

lemma check_references_ok:
  assumes h: "holds_words foo n s"
  shows "check_references foo n s = Inr s"
proof -
  have "\<exists>s'. for_each (\<lambda>i s. andThen (demand_load (cell foo i) s) (\<lambda>(v, s).
       if v \<noteq> word_of_nat i then Inl Hang else Inr s)) [0..<n] s = Inr s' \<and> s' = s"
  proof (rule for_each_invariant)
    fix i s' assume i: "i < n" "s' = s"
    then have "demand_load (cell foo i) s' = Inr (word_of_nat i, s)"
      using h load_resident [of s "cell foo i"] by (simp add: holds_words_def)
    then show "\<exists>s2. andThen (demand_load (cell foo i) s') (\<lambda>(v, s).
       if v \<noteq> word_of_nat i then Inl Hang else Inr s) = Inr s2 \<and> s2 = s" by simp
  qed simp_all
  then show ?thesis by (simp add: check_references_def)
qed

lemma references_pass:
  assumes "paging_ok s" and "array_ok foo n" and "2 * n \<le> free_count s"
  shows "\<exists>s'. GeneratePageTableMemoryReferences foo n s = Inr s' \<and> holds_words foo n s'"
  using write_references_ok [OF assms] check_references_ok
  by (force simp: GeneratePageTableMemoryReferences_def)

text \<open>The array that the kernel tests: 2048 words from 4 MB on.\<close>

lemma kernel_array: "array_ok 0x400000 2048"
  unfolding array_ok_def Let_def
proof (intro conjI allI impI)
  fix i :: nat assume i: "i < 2048"
  have u: "unat (cell 0x400000 i) = 4194304 + 4 * i"
    using i by (simp add: cell_def unat_word_ariths)
  have d: "(4194304 + 4 * i) div 4194304 = 1" using i by (intro div_nat_eqI) simp_all
  have "(4194304 + 4 * i) div 4096 = (1024 * 4096 + 4 * i) div 4096" by simp
  also have "\<dots> = 1024 + 4 * i div 4096" by (subst div_mult_self3) simp_all
  finally have q: "(4194304 + 4 * i) div 4096 = 1024 + 4 * i div 4096" .
  have "4 * i div 4096 < 2" using i by (intro less_mult_imp_div_less) simp
  then have t: "(4194304 + 4 * i) div 4096 mod 1024 < 2" unfolding q by simp
  show "aligned (cell 0x400000 i)" by (simp add: aligned_def u)
  show "0 < dir_ix (cell 0x400000 i)" "dir_ix (cell 0x400000 i) < 1023" using d by (simp_all add: dir_ix_def u)
  show "tbl_ix (cell 0x400000 i) \<noteq> 1023" using t by (simp add: tbl_ix_def u)
qed simp

end
