(* ===== verification/Startup.thy ===== *)
theory Startup
  imports Dispatch Timer Kernel_Boot
begin

text \<open>
  \<open>main\<close> of the virtual-memory kernel (\<open>kernel.C\<close>): descriptor tables, dispatchers, interrupt
  controllers, timer and interrupts (\<open>boot_devices\<close>), then frame pools, page-fault handler and
  paging, then the page-table test.  The three handler objects that \<open>main\<close> creates are named by
  numbers, and \<open>exception_method\<close> and \<open>interrupt_method\<close> are their virtual methods.  The screen
  and the paged memory are separate fields of the state: no other part touches the screen's bytes.

  \<open>TestPassed\<close> prints and then idles for ever: the result of \<open>vm_main\<close> is the state in which it
  idles.  \<open>TestFailed\<close> is the outcome \<open>Inl Hang\<close>.
\<close>

record vm_kernel = dispatcher +
  kernel_timer :: simple_timer
  paging :: paging_state

datatype color_code = BLACK | BLUE | GREEN | CYAN | RED | MAGENTA | BROWN | LIGHT_GREY | DARK_GREY
  | LIGHT_BLUE | LIGHT_GREEN | LIGHT_CYAN | LIGHT_RED | LIGHT_MAGENTA | LIGHT_BROWN | WHITE

primrec color_number :: "color_code \<Rightarrow> u8" where
  "color_number BLACK = 0" | "color_number BLUE = 1" | "color_number GREEN = 2"
| "color_number CYAN = 3" | "color_number RED = 4" | "color_number MAGENTA = 5"
| "color_number BROWN = 6" | "color_number LIGHT_GREY = 7" | "color_number DARK_GREY = 8"
| "color_number LIGHT_BLUE = 9" | "color_number LIGHT_GREEN = 10" | "color_number LIGHT_CYAN = 11"
| "color_number LIGHT_RED = 12" | "color_number LIGHT_MAGENTA = 13" | "color_number LIGHT_BROWN = 14"
| "color_number WHITE = 15"

abbreviation (input) dbz_handler :: nat where "dbz_handler \<equiv> 0"
abbreviation (input) pagefault_handler :: nat where "pagefault_handler \<equiv> 1"
abbreviation (input) timer_handler :: nat where "timer_handler \<equiv> 2"

definition DBZ_Handler :: "regs \<Rightarrow> 'a vm_kernel_scheme \<Rightarrow> 'a vm_kernel_scheme outcome" where
  "DBZ_Handler r s = (let s = print_line ''DIVISION BY ZERO!'' s in Inl Hang)"

definition PageFault_Handler :: "regs \<Rightarrow> 'a vm_kernel_scheme \<Rightarrow> 'a vm_kernel_scheme outcome" where
  "PageFault_Handler r s = andThen (handle_fault (reg_err_code r) (paging s)) (\<lambda>p. Inr (s\<lparr>paging := p\<rparr>))"

definition exception_method ::
  "nat \<Rightarrow> regs \<Rightarrow> 'a vm_kernel_scheme \<Rightarrow> 'a vm_kernel_scheme outcome" where
  "exception_method h r s =
     (if h = dbz_handler then DBZ_Handler r s
      else if h = pagefault_handler then PageFault_Handler r s
      else Inl Wild)"

definition interrupt_method ::
  "nat \<Rightarrow> regs \<Rightarrow> 'a vm_kernel_scheme \<Rightarrow> 'a vm_kernel_scheme outcome" where
  "interrupt_method h r s =
     (if h = timer_handler then
        case timer_interrupt (kernel_timer s) s of (t, s) \<Rightarrow> Inr (s\<lparr>kernel_timer := t\<rparr>)
      else Inl Wild)"

text \<open>The first six calls of both kernels.\<close>

definition boot_tables ::
  "u32 \<Rightarrow> u32 \<Rightarrow> (nat \<Rightarrow> u32) \<Rightarrow> (nat \<Rightarrow> u32) \<Rightarrow> 'a dispatcher_scheme \<Rightarrow> 'a dispatcher_scheme outcome" where
  "boot_tables gdt_addr idt_addr isr irq s =
     andThen (gdt_init gdt_addr s) (\<lambda>s.
     let s = init_console (color_number WHITE) (color_number BLACK) s;
         s = idt_init idt_addr s;
         s = init_exceptions isr s;
         s = irq_init s;
         s = init_interrupts irq s
     in Inr (redirect_output True s))"

definition boot_devices ::
  "u32 \<Rightarrow> u32 \<Rightarrow> (nat \<Rightarrow> u32) \<Rightarrow> (nat \<Rightarrow> u32) \<Rightarrow> 'a vm_kernel_scheme \<Rightarrow> 'a vm_kernel_scheme outcome" where
  "boot_devices gdt_addr idt_addr isr irq s =
     andThen (boot_tables gdt_addr idt_addr isr irq s) (\<lambda>s.
     andThen (register_exception_handler 0 dbz_handler s) (\<lambda>s.
     andThen (SimpleTimer 100 s) (\<lambda>(t, s).
     let s = s\<lparr>kernel_timer := t\<rparr> in
     andThen (register_interrupt_handler 0 timer_handler s) (\<lambda>s.
     enable_interrupts s))))"

text \<open>\<open>main\<close> up to its \<open>#ifdef _TEST_PAGE_TABLE_\<close>.\<close>

definition boot_kernel ::
  "u32 \<Rightarrow> u32 \<Rightarrow> (nat \<Rightarrow> u32) \<Rightarrow> (nat \<Rightarrow> u32) \<Rightarrow> 'a vm_kernel_scheme \<Rightarrow> 'a vm_kernel_scheme outcome" where
  "boot_kernel gdt_addr idt_addr isr irq s =
     andThen (boot_devices gdt_addr idt_addr isr irq s) (\<lambda>s.
     andThen (init_frame_pools (paging s)) (\<lambda>p.
     let s = print_line ''POOLS INITIALIZED!'' (s\<lparr>paging := p\<rparr>) in
     andThen (register_exception_handler 14 pagefault_handler s) (\<lambda>s.
     andThen (boot_paging 0 (init_paging 0 1 0x400000 (paging s))) (\<lambda>p.
     Inr (print_line ''Hello World!'' (s\<lparr>paging := p\<rparr>))))))"

definition TestPassed :: "'a vm_kernel_scheme \<Rightarrow> 'a vm_kernel_scheme" where
  "TestPassed s =
     print_line ''YOU CAN SAFELY TURN OFF THE MACHINE NOW.'' (print_line ''Test Passed! Congratulations!'' s)"

text \<open>With \<open>_TEST_PAGE_TABLE_\<close> defined, as the file has it.\<close>

definition vm_main ::
  "u32 \<Rightarrow> u32 \<Rightarrow> (nat \<Rightarrow> u32) \<Rightarrow> (nat \<Rightarrow> u32) \<Rightarrow> 'a vm_kernel_scheme \<Rightarrow> 'a vm_kernel_scheme outcome" where
  "vm_main gdt_addr idt_addr isr irq s =
     andThen (boot_kernel gdt_addr idt_addr isr irq s) (\<lambda>s.
     andThen (write_references 0x400000 2048 (paging s)) (\<lambda>p.
     let s = print_line ''DONE WRITING TO MEMORY. Now testing...'' (s\<lparr>paging := p\<rparr>) in
     andThen (check_references 0x400000 2048 (paging s)) (\<lambda>p.
     Inr (TestPassed (s\<lparr>paging := p\<rparr>)))))"

section \<open>Tables and dispatchers\<close>

lemma vm_kernel_putch:
  "kernel_timer (putch c s) = kernel_timer s" "paging (putch c s) = paging s"
  by (simp_all add: putch_def put_char_def scroll_def move_cursor_def serial_def outportb_def Let_def)

lemmas vm_kernel_messages [simp] = vm_kernel_putch
  putch_invariant [where f = kernel_timer, OF vm_kernel_putch(1)]
  putch_invariant [where f = paging, OF vm_kernel_putch(2)]

text \<open>The vector table delivers the exceptions and the lines of the controllers to their stubs.\<close>

definition vectors_installed :: "(nat \<Rightarrow> u32) \<Rightarrow> (nat \<Rightarrow> u32) \<Rightarrow> 'a tables_scheme \<Rightarrow> bool" where
  "vectors_installed isr irq s \<longleftrightarrow> length (idt s) = 256 \<and>
     (\<forall>n<32. gate_present (idt s ! n) \<and> gate_target (idt s ! n) = isr n) \<and>
     (\<forall>i<16. \<forall>p. gate_present (idt s ! unat (vector_of p s i)) \<and> gate_target (idt s ! unat (vector_of p s i)) = irq i)"

lemma gate_present_8E: "gate_present (idt_gate b sl 0x8E)"
  by (simp add: gate_present_def idt_gate_def bit_numeral_rec)

lemma unat_u8: "n < 256 \<Longrightarrow> unat (word_of_nat n :: u8) = n"
  by (subst unat_of_nat) (simp add: take_bit_eq_mod)

lemma tables_outside [simp]:
  "idt (init_console a b s) = idt s" "gdt (init_console a b s) = gdt s" "EFLAGS (init_console a b s) = EFLAGS s"
  "idt (irq_init s) = idt s" "gdt (irq_init s) = gdt s" "EFLAGS (irq_init s) = EFLAGS s"
  "exception_table (irq_init s) = exception_table s"
  by (simp_all add: init_console_def cls_def move_cursor_def set_TextColor_def outportb_def irq_init_def irq_remap_def Let_def)

text \<open>Everything behind the dispatchers' fields.\<close>

lemma more_putch: "dispatcher.more (putch c s) = dispatcher.more s"
  by (simp add: putch_def put_char_def scroll_def move_cursor_def serial_def outportb_def Let_def)

lemmas more_messages [simp] = more_putch putch_invariant [where f = dispatcher.more, OF more_putch]

lemma more_others [simp]:
  "dispatcher.more (init_console a b s) = dispatcher.more s" "dispatcher.more (irq_init s) = dispatcher.more s"
  "dispatcher.more (idt_set_gate n x sl f s) = dispatcher.more s"
  by (simp_all add: init_console_def cls_def move_cursor_def set_TextColor_def outportb_def irq_init_def
      irq_remap_def idt_set_gate_def Let_def)

lemma more_gates [simp]: "dispatcher.more (set_gates base stub k s) = dispatcher.more s"
  by (induction k) (simp_all add: set_gates_Suc, simp add: set_gates_def)

lemma gdt_gates [simp]: "gdt (set_gates base stub k s) = gdt s"
  by (induction k) (simp_all add: set_gates_Suc idt_set_gate_def Let_def, simp add: set_gates_def)

lemma same_more:
  assumes "dispatcher.more s' = dispatcher.more s"
  shows "kernel_timer s' = kernel_timer s" "paging s' = paging s"
  using assms by (cases s; cases s'; simp)+

lemma boot_tables_ok:
  assumes "length (gdt s) = 3"
  shows "\<exists>s'. boot_tables gdt_addr idt_addr isr irq s = Inr s' \<and> vectors_installed isr irq s'
    \<and> map segment_base (gdt s') = [0, 0, 0] \<and> map segment_last (gdt s') = [0, 0xFFFFFFFF, 0xFFFFFFFF]
    \<and> exception_table s' = replicate 32 None \<and> interrupt_table s' = replicate 16 None
    \<and> EFLAGS s' = EFLAGS s \<and> dispatcher.more s' = dispatcher.more s \<and> output_redirected s'"
proof -
  obtain s1 where s1: "gdt_init gdt_addr s = Inr s1" "EFLAGS s1 = EFLAGS s" "dispatcher.more s1 = dispatcher.more s"
    and flat: "map segment_base (gdt s1) = [0, 0, 0]" "map segment_last (gdt s1) = [0, 0xFFFFFFFF, 0xFFFFFFFF]"
    using gdt_init_flat [OF assms, of gdt_addr] gdt_init_entries [OF assms, of gdt_addr] by auto
  define s2 where s2: "s2 = idt_init idt_addr (init_console (color_number WHITE) (color_number BLACK) s1)"
  define s3 where s3: "s3 = irq_init (init_exceptions isr s2)"
  define s4 where s4: "s4 = redirect_output True (init_interrupts irq s3)"
  have boot: "boot_tables gdt_addr idt_addr isr irq s = Inr s4"
    by (simp add: boot_tables_def s1 Let_def s2 s3 s4)
  have l2: "length (idt s2) = 256" by (simp add: s2 idt_init_def Let_def)
  have l3: "length (idt s3) = 256" using set_gates_idt(1) [OF l2, of 0 32] by (simp add: s3 init_gates)
  have i3: "idt s3 ! unat m = (if unat m < 32 then idt_gate (isr (unat m)) 0x08 0x8E else idt s2 ! unat m)" for m :: u8
    using set_gates_idt(2) [OF l2, of 0 32 isr m] by (simp add: s3 init_gates)
  have i4: "idt s4 ! unat m = (if 32 \<le> unat m \<and> unat m < 48 then idt_gate (irq (unat m - 32)) 0x08 0x8E
      else idt s3 ! unat m)" for m :: u8
    using set_gates_idt(2) [OF l3, of 32 16 irq m] by (simp add: s4 init_gates redirect_output_def)
  have exc: "idt s4 ! n = idt_gate (isr n) 0x08 0x8E" if "n < 32" for n
    using that i4 [of "word_of_nat n"] i3 [of "word_of_nat n"] by (simp add: unat_u8)
  have irqs: "idt s4 ! (32 + i) = idt_gate (irq i) 0x08 0x8E" if "i < 16" for i
    using that i4 [of "word_of_nat (32 + i)"] unat_u8 [of "32 + i"] by simp
  have pr: "pic_run base (port_log s4) p = pic_run base (port_log s3) p" if "base = 0x20 \<or> base = 0xA0" for base p
    using pic_run_gates [OF that] by (simp add: s4 init_gates redirect_output_def)
  have vec: "unat (vector_of p s4 i) = 32 + i" if "i < 16" for p i
  proof -
    have "vector_of p s4 i = word_of_nat (32 + i)"
      using that by (simp add: vector_of_def pr s3 irq_init_vectors of_nat_diff)
    then show ?thesis using that unat_u8 [of "32 + i"] by simp
  qed
  have "vectors_installed isr irq s4"
    unfolding vectors_installed_def using exc irqs vec
    by (simp add: gate_present_8E gate_target_gate s4 init_gates redirect_output_def set_gates_idt(1) [OF l3])
  moreover have "gdt s4 = gdt s1"
    by (simp add: s4 s3 s2 init_gates redirect_output_def idt_init_def Let_def)
  ultimately show ?thesis
    unfolding boot using s1 flat by (simp add: s4 s3 s2 init_gates redirect_output_def idt_init_def Let_def)
qed

section \<open>Devices\<close>

text \<open>What the handlers and the interrupts rely on.\<close>

definition devices_ok :: "(nat \<Rightarrow> u32) \<Rightarrow> (nat \<Rightarrow> u32) \<Rightarrow> 'a vm_kernel_scheme \<Rightarrow> bool" where
  "devices_ok isr irq s \<longleftrightarrow> vectors_installed isr irq s \<and> interrupts_enabled s
     \<and> length (exception_table s) = 32 \<and> length (interrupt_table s) = 16
     \<and> exception_table s ! 0 = Some dbz_handler \<and> interrupt_table s ! 0 = Some timer_handler
     \<and> timer_ok (kernel_timer s)"

lemma vectors_putch:
  "vectors_installed isr irq (putch c s) = vectors_installed isr irq s"
  by (simp add: vectors_installed_def vector_of_def pic_run_putch)

lemma interrupts_enabled_putch: "interrupts_enabled (putch c s) = interrupts_enabled s"
  by (simp add: interrupts_enabled_def)

lemmas vectors_messages [simp] = vectors_putch interrupts_enabled_putch
  putch_invariant [where f = "vectors_installed isr irq" for isr irq, OF vectors_putch]
  putch_invariant [where f = interrupts_enabled, OF interrupts_enabled_putch]

lemma vectors_fields [simp]:
  "vectors_installed isr irq (s\<lparr>exception_table := et\<rparr>) = vectors_installed isr irq s"
  "vectors_installed isr irq (s\<lparr>interrupt_table := it\<rparr>) = vectors_installed isr irq s"
  "vectors_installed isr irq (v\<lparr>kernel_timer := t\<rparr>) = vectors_installed isr irq v"
  "vectors_installed isr irq (v\<lparr>paging := p\<rparr>) = vectors_installed isr irq v"
  "vectors_installed isr irq (s\<lparr>EFLAGS := e\<rparr>) = vectors_installed isr irq s"
  by (simp_all add: vectors_installed_def vector_of_def)

text \<open>Bytes for the other devices leave the controllers' vectors as they are.\<close>

lemma vectors_outportb:
  assumes "port \<notin> {0x20, 0x21, 0xA0, 0xA1}"
  shows "vectors_installed isr irq (outportb port b s) = vectors_installed isr irq s"
  using assms by (simp add: vectors_installed_def vector_of_def outportb_def pic_run_append)

text \<open>An end of interrupt does so as well, once the controllers are initialised.\<close>

lemma vectors_eoi:
  "vectors_installed isr irq (s\<lparr>port_log := port_log s @ eoi i\<rparr>) = vectors_installed isr irq s"
  by (simp add: vectors_installed_def vector_of_def pic_run_append eoi_def pic_command_def bit_numeral_rec)

lemma kernel_outportb [simp]:
  "gdt (outportb p b s) = gdt s" "kernel_timer (outportb p b v) = kernel_timer v" "paging (outportb p b v) = paging v"
  by (simp_all add: outportb_def)

lemma interrupts_enabled_fields [simp]:
  "interrupts_enabled (s\<lparr>exception_table := et\<rparr>) = interrupts_enabled s"
  "interrupts_enabled (s\<lparr>interrupt_table := it\<rparr>) = interrupts_enabled s"
  "interrupts_enabled (v\<lparr>kernel_timer := t\<rparr>) = interrupts_enabled v"
  "interrupts_enabled (v\<lparr>kernel_timer := t, interrupt_table := it\<rparr>) = interrupts_enabled v"
  "interrupts_enabled (v\<lparr>paging := p\<rparr>) = interrupts_enabled v"
  "interrupts_enabled (m\<lparr>port_log := l\<rparr>) = interrupts_enabled m"
  by (simp_all add: interrupts_enabled_def)

lemma SimpleTimer_100:
  "SimpleTimer 100 s = Inr (\<lparr>timer_seconds = 0, timer_ticks = 0, timer_hz = 100\<rparr>,
     outportb 0x40 (word_of_int (drop_bit 8 11931)) (outportb 0x40 (word_of_int (11931 AND 0xFF)) (outportb 0x43 0x34 s)))"
  by (simp add: SimpleTimer_def set_frequency_def Let_def signed_divide_int_def)

lemma boot_devices_ok:
  assumes "length (gdt s) = 3" and off: "\<not> interrupts_enabled s"
  shows "\<exists>s'. boot_devices gdt_addr idt_addr isr irq s = Inr s' \<and> devices_ok isr irq s'
    \<and> kernel_timer s' = \<lparr>timer_seconds = 0, timer_ticks = 0, timer_hz = 100\<rparr> \<and> paging s' = paging s
    \<and> map segment_last (gdt s') = [0, 0xFFFFFFFF, 0xFFFFFFFF]"
proof -
  obtain s1 where s1: "boot_tables gdt_addr idt_addr isr irq s = Inr s1" "vectors_installed isr irq s1"
    "map segment_last (gdt s1) = [0, 0xFFFFFFFF, 0xFFFFFFFF]" "exception_table s1 = replicate 32 None"
    "interrupt_table s1 = replicate 16 None" "EFLAGS s1 = EFLAGS s" "dispatcher.more s1 = dispatcher.more s"
    using boot_tables_ok [OF assms(1), of gdt_addr idt_addr isr irq] by (elim exE conjE)
  have e1: "\<not> interrupts_enabled s1" using off s1(6) by (simp add: interrupts_enabled_def)
  obtain s2 where s2: "register_exception_handler 0 dbz_handler s1 = Inr s2" "vectors_installed isr irq s2"
      "gdt s2 = gdt s1" "exception_table s2 = (replicate 32 None)[0 := Some dbz_handler]"
      "interrupt_table s2 = replicate 16 None" "\<not> interrupts_enabled s2" "paging s2 = paging s"
    using s1 e1 same_more [OF s1(7)] by (simp add: register_exception_handler_def Let_def interrupts_enabled_def)
  show ?thesis
    using s2 s1(1,3) unfolding boot_devices_def
    by (simp add: SimpleTimer_100 register_interrupt_handler_def Let_def enable_disable devices_ok_def
        vectors_outportb timer_ok_def)
qed

section \<open>Interrupts and faults through the dispatchers\<close>

text \<open>The end-of-interrupt commands sent so far, to the master at 0x20 and to the slave at 0xA0.\<close>

definition acknowledged :: "'a machine_state_scheme \<Rightarrow> port_write list" where
  "acknowledged s = filter (\<lambda>w. w = OutB 0x20 0x20 \<or> w = OutB 0xA0 0x20) (port_log s)"

lemma acknowledged_out:
  "acknowledged (outportb p b s)
     = acknowledged s @ (if b = 0x20 \<and> (p = 0x20 \<or> p = 0xA0) then [OutB p b] else [])"
  by (auto simp: acknowledged_def outportb_def)

lemma acknowledged_putch: "acknowledged (putch c (s :: 'b console_state_scheme)) = acknowledged s"
proof -
  have serial: "acknowledged (serial on c v) = acknowledged v" for on c and v :: "'b console_state_scheme"
    by (simp add: serial_def acknowledged_out)
  have cursor: "acknowledged (move_cursor v) = acknowledged v" for v :: "'b console_state_scheme"
    by (simp add: move_cursor_def acknowledged_out)
  have cells: "acknowledged (v\<lparr>csr_x := x\<rparr>) = acknowledged v" "acknowledged (v\<lparr>csr_y := y\<rparr>) = acknowledged v"
    "acknowledged (v\<lparr>vram := m\<rparr>) = acknowledged v" for x y m and v :: "'b console_state_scheme"
    by (simp_all add: acknowledged_def)
  show ?thesis
    by (simp add: putch_def put_char_def scroll_def serial cursor cells Let_def)
qed

lemmas acknowledged_messages [simp] =
  acknowledged_putch putch_invariant [where f = acknowledged, OF acknowledged_putch]

lemma timer_line_step:
  assumes ok: "devices_ok isr irq s" and r: "reg_int_no r = 32"
  shows "\<exists>s'. dispatch_interrupt interrupt_method r s = Inr s' \<and> devices_ok isr irq s'
    \<and> kernel_timer s' = after_ticks 1 (kernel_timer s) \<and> paging s' = paging s
    \<and> acknowledged s' = acknowledged s @ [OutB 0x20 0x20]"
proof -
  obtain t v where t: "timer_interrupt (kernel_timer s) s = (t, v)" by fastforce
  have v: "v = s \<or> v = print_line ''One second has passed'' s"
    using t by (auto simp: timer_interrupt_def Let_def split: if_splits)
  have tick: "t = after_ticks 1 (kernel_timer s)"
    using timer_interrupt_ticks [of "kernel_timer s" 0 s] ok t by (simp add: devices_ok_def after_ticks_0)
  let ?s' = "v\<lparr>kernel_timer := t, port_log := port_log v @ eoi 0\<rparr>"
  have "dispatch_interrupt interrupt_method r s = Inr ?s'"
    using dispatch_interrupt_line [of 0 r interrupt_method s] ok r t
    by (simp add: devices_ok_def interrupt_method_def)
  moreover have "devices_ok isr irq ?s'"
  proof -
    have "vectors_installed isr irq ?s' = vectors_installed isr irq v"
      using vectors_eoi [of isr irq "v\<lparr>kernel_timer := t\<rparr>" 0] by simp
    moreover have "interrupts_enabled ?s' = interrupts_enabled v"
      by (simp add: interrupts_enabled_def)
    ultimately show ?thesis
      using v ok after_ticks_ok [of "kernel_timer s" 1] unfolding devices_ok_def tick by auto
  qed
  moreover have "paging v = paging s" using v by auto
  moreover have "acknowledged v = acknowledged s" using v by auto
  then have "acknowledged ?s' = acknowledged s @ [OutB 0x20 0x20]"
    by (simp add: acknowledged_def eoi_def)
  ultimately show ?thesis using tick by auto
qed

lemma timer_line_run:
  assumes ok: "devices_ok isr irq s" and r: "reg_int_no r = 32"
  shows "\<exists>s'. for_each (\<lambda>_. dispatch_interrupt interrupt_method r) [0..<n] s = Inr s' \<and> devices_ok isr irq s'
    \<and> kernel_timer s' = after_ticks n (kernel_timer s) \<and> paging s' = paging s
    \<and> acknowledged s' = acknowledged s @ replicate n (OutB 0x20 0x20)"
proof (rule for_each_invariant [where J = "\<lambda>i s'. devices_ok isr irq s' \<and> kernel_timer s' = after_ticks i (kernel_timer s)
    \<and> paging s' = paging s \<and> acknowledged s' = acknowledged s @ replicate i (OutB 0x20 0x20)"])
  show "0 \<le> n" by simp
  show "devices_ok isr irq s \<and> kernel_timer s = after_ticks 0 (kernel_timer s) \<and> paging s = paging s
      \<and> acknowledged s = acknowledged s @ replicate 0 (OutB 0x20 0x20)"
    using ok by (simp add: devices_ok_def after_ticks_0)
next
  fix i v assume v: "devices_ok isr irq v \<and> kernel_timer v = after_ticks i (kernel_timer s) \<and> paging v = paging s
    \<and> acknowledged v = acknowledged s @ replicate i (OutB 0x20 0x20)"
  have k: "timer_ok (kernel_timer s)" using ok by (simp add: devices_ok_def)
  have "after_ticks 1 (after_ticks i (kernel_timer s)) = after_ticks (Suc i) (kernel_timer s)"
    using timer_interrupt_ticks [OF k, of i v] timer_interrupt_ticks [OF after_ticks_ok [OF k, of i], of 0 v]
    by (simp add: after_ticks_0 after_ticks_ok [OF k])
  then show "\<exists>v'. dispatch_interrupt interrupt_method r v = Inr v' \<and> devices_ok isr irq v'
      \<and> kernel_timer v' = after_ticks (Suc i) (kernel_timer s) \<and> paging v' = paging s
      \<and> acknowledged v' = acknowledged s @ replicate (Suc i) (OutB 0x20 0x20)"
    using timer_line_step [of isr irq v r] v r by (auto simp: replicate_append_same)
qed

lemma page_fault_exception:
  assumes "exception_table s ! 14 = Some pagefault_handler" and "reg_int_no r = 14"
  shows "dispatch_exception exception_method r s =
    andThen (handle_fault (reg_err_code r) (paging s)) (\<lambda>p.
      Inr ((print_line '''' (putui 14 (print ''EXCEPTION DISPATCHER: exc_no = '' s)))\<lparr>paging := p\<rparr>))"
  using assms by (simp add: dispatch_exception_number exception_method_def PageFault_Handler_def)

section \<open>The kernel\<close>

lemma boot_kernel_ok:
  assumes "length (gdt s) = 3" and "\<not> interrupts_enabled s"
    and none: "frame_pools (paging s) = Map.empty" "fp_head (paging s) = None" and off: "\<not> bit (cr0 (paging s)) 31"
  shows "\<exists>s' p. boot_kernel gdt_addr idt_addr isr irq s = Inr s' \<and> devices_ok isr irq s'
    \<and> exception_table s' ! 14 = Some pagefault_handler
    \<and> paging s' = p \<and> boot_memory (paging s) = Inr p \<and> paging_ok p \<and> free_count p = 6910"
proof -
  obtain s1 where s1: "boot_devices gdt_addr idt_addr isr irq s = Inr s1" "devices_ok isr irq s1"
      "paging s1 = paging s"
    using boot_devices_ok [OF assms(1,2), of gdt_addr idt_addr isr irq] by auto
  obtain p1 p2 where p: "init_frame_pools (paging s) = Inr p1" "boot_paging 0 (init_paging 0 1 0x400000 p1) = Inr p2"
      "paging_ok p2" "free_count p2 = 6910"
    using boot_memory_ok [OF none off] by (auto simp: boot_memory_def andThen_eq_Inr)
  then show ?thesis
    using s1 unfolding boot_kernel_def
    by (simp add: register_exception_handler_def boot_memory_def Let_def devices_ok_def nth_list_update)
qed

text \<open>Messages and the paged memory leave the devices as they are.\<close>

lemma devices_ok_messages:
  "devices_ok isr irq (s\<lparr>paging := p\<rparr>) = devices_ok isr irq s"
  "devices_ok isr irq (print_line t s) = devices_ok isr irq s" "devices_ok isr irq (print t s) = devices_ok isr irq s"
  "exception_table (print_line t s) = exception_table s" "exception_table (print t s) = exception_table s"
  by (simp_all add: devices_ok_def)

lemma vm_main_ok:
  assumes "length (gdt s) = 3" and "\<not> interrupts_enabled s"
    and none: "frame_pools (paging s) = Map.empty" "fp_head (paging s) = None" and off: "\<not> bit (cr0 (paging s)) 31"
  shows "\<exists>s'. vm_main gdt_addr idt_addr isr irq s = Inr s' \<and> devices_ok isr irq s'
    \<and> exception_table s' ! 14 = Some pagefault_handler \<and> holds_words 0x400000 2048 (paging s')"
proof -
  obtain s2 p2 where s2: "boot_kernel gdt_addr idt_addr isr irq s = Inr s2" "devices_ok isr irq s2"
      "exception_table s2 ! 14 = Some pagefault_handler" "paging s2 = p2" "paging_ok p2" "free_count p2 = 6910"
    using boot_kernel_ok [OF assms, of gdt_addr idt_addr isr irq] by blast
  have "2 * 2048 \<le> free_count p2" using s2(6) by simp
  from write_references_ok [OF s2(5) kernel_array this]
  obtain p3 where p3: "write_references 0x400000 2048 p2 = Inr p3" "holds_words 0x400000 2048 p3" by blast
  have p4: "check_references 0x400000 2048 p3 = Inr p3" by (rule check_references_ok [OF p3(2)])
  show ?thesis
    using s2 p3 p4 unfolding vm_main_def by (simp add: Let_def devices_ok_messages TestPassed_def)
qed

end
