(* ===== verification/EOQ_Timer.thy ===== *)
theory EOQ_Timer
  imports Scheduling Timer
begin

text \<open>
  Class \<open>EOQTimer\<close> (second kernel, \<open>simple_timer.C\<close>): the end-of-quantum timer.  Its count
  \<open>EOQTimer::ticks\<close> is static, the field \<open>eoq_ticks\<close> of the scheduler's state; \<open>yield\<close> of the
  scheduler is virtual and a parameter.  The handler overrides the one of \<open>SimpleTimer\<close> and does
  not call it.
\<close>

record eoq_timer = simple_timer +
  quantum :: int

definition EOQTimer ::
  "int \<Rightarrow> int \<Rightarrow> 'a machine_state_scheme \<Rightarrow> (eoq_timer \<times> 'a machine_state_scheme) outcome" where
  "EOQTimer hz q s =
     andThen (SimpleTimer hz s) (\<lambda>(t, s). Inr (simple_timer.extend t \<lparr>quantum = q * hz sdiv 1000\<rparr>, s))"

definition eoq_interrupt ::
  "('a sched_state_scheme \<Rightarrow> 'a sched_state_scheme outcome) \<Rightarrow> 'b eoq_timer_scheme \<Rightarrow> regs
     \<Rightarrow> 'a sched_state_scheme \<Rightarrow> 'a sched_state_scheme outcome" where
  "eoq_interrupt yield_method t r s =
     (let s = (if CurrentThread s \<noteq> 0 then s\<lparr>eoq_ticks := eoq_ticks s + 1\<rparr> else s) in
      if eoq_ticks s = quantum t then
        let s = print_line ''5ms has passed'' s;
            s = reset_ticks s in
        if CurrentThread s \<noteq> 0 then
          andThen (resume (CurrentThread s) s) (\<lambda>s.
          let s = set_EOI r s in yield_method s)
        else Inr s
      else Inr s)"

section \<open>The quantum\<close>

lemma eoq_putch: "eoq_ticks (putch c s) = eoq_ticks s"
  by (simp add: putch_def put_char_def scroll_def move_cursor_def serial_def outportb_def Let_def)

lemmas eoq_messages [simp] = eoq_putch putch_invariant [where f = eoq_ticks, OF eoq_putch]

text \<open>What a message may change.\<close>

lemma sched_ok_putch: "sched_ok (putch c s) R D = sched_ok s R D"
  by (simp add: sched_ok_def putch_def put_char_def scroll_def move_cursor_def serial_def outportb_def Let_def)

lemmas sched_ok_messages [simp] = sched_ok_putch
  putch_invariant [where f = "\<lambda>s. sched_ok s R D" for R D, OF sched_ok_putch]

text \<open>Before the quantum is over the handler only counts.\<close>

lemma eoq_counts:
  assumes "current_thread s \<noteq> 0" and "eoq_ticks s + 1 \<noteq> quantum t"
  shows "eoq_interrupt y t r s = Inr (s\<lparr>eoq_ticks := eoq_ticks s + 1\<rparr>)"
  using assms by (simp add: eoq_interrupt_def CurrentThread_def)

lemma eoq_idle:
  "current_thread s = 0 \<Longrightarrow> eoq_ticks s \<noteq> quantum t \<Longrightarrow> eoq_interrupt y t r s = Inr s"
  by (simp add: eoq_interrupt_def CurrentThread_def)

text \<open>
  When it is over, the running thread goes to the end of the ready queue, the interrupt is
  acknowledged, and the first ready thread runs, all before the handler returns.
\<close>

lemma eoq_preempts:
  assumes ok: "sched_ok s R []" and cur: "current_thread s \<noteq> 0" and room: "12 \<le> heap_room s"
    and over: "eoq_ticks s + 1 = quantum t" and line: "reg_int_no r = 32"
  shows "\<exists>s1 n R'. eoq_interrupt (yield ro 0) t r s = andThen (ro s1) (\<lambda>s2. Inr (yield_finish n s2))
    \<and> sched_ok s1 R' [] \<and> current_thread s1 # map snd R' = map snd R @ [current_thread s] \<and> eoq_ticks s1 = 0
    \<and> port_log s1 = port_log (print_line ''5ms has passed'' (s\<lparr>eoq_ticks := eoq_ticks s + 1\<rparr>)) @ eoi 0"
proof -
  let ?s0 = "reset_ticks (print_line ''5ms has passed'' (s\<lparr>eoq_ticks := eoq_ticks s + 1\<rparr>))"
  have f0: "current_thread ?s0 = current_thread s" "heap_room ?s0 = heap_room s" "eoq_ticks ?s0 = 0"
    by (simp_all add: reset_ticks_def heap_room_def)
  have ok0: "sched_ok ?s0 R []"
  proof -
    have "sched_ok (s\<lparr>eoq_ticks := eoq_ticks s + 1\<rparr>) R []" using ok by (simp add: sched_ok_def)
    then have "sched_ok (print_line ''5ms has passed'' (s\<lparr>eoq_ticks := eoq_ticks s + 1\<rparr>)) R []" by simp
    then show ?thesis by (simp add: reset_ticks_def sched_ok_def)
  qed
  let ?c = "current_thread s"
  have "12 \<le> heap_room ?s0" using room f0 by simp
  from resume_ok [OF ok0 this, of ?c]
  obtain s1 h q where s1: "resume ?c ?s0 = Inr s1" "sched_ok s1 (R @ [(start_address ?s0, ?c)]) []"
    "s1 = ?s0\<lparr>start_address := start_address ?s0 + 12, queue_nodes := h, ready_queue := q, EFLAGS := EFLAGS ?s0 OR IF_mask\<rparr>"
    by (elim exE conjE)
  let ?s2 = "s1\<lparr>port_log := port_log s1 @ eoi 0\<rparr>"
  have e: "set_EOI r s1 = ?s2" using set_EOI_eoi [of 0 r s1] line by simp
  have c2: "current_thread ?s2 \<noteq> 0" using s1(3) cur f0(1) by simp
  obtain n t' R' where R': "R @ [(start_address ?s0, ?c)] = (n, t') # R'"
    by (metis append_is_Nil_conv neq_Nil_conv prod.exhaust)
  have ok2: "sched_ok ?s2 ((n, t') # R') []" using s1(2) unfolding R' by (simp add: sched_ok_def)
  have "next_thread (0 = (0 :: int) \<and> busy_at ?s2 (port_reads ?s2)) ((n, t') # R') [] = (Some (n, t'), R', [])"
    by (simp add: next_thread_def)
  from yield_select_refines [OF ok2 c2 this, of ro]
  obtain s3 v where y: "yield_select ro 0 ?s2 = Inr (Some n, s3)" "sched_ok s3 R' []" "same_threads ?s2 s3"
    "queue_nodes s3 n = Some v" "node_thread v = t'" by auto
  have keep: "eoq_ticks s3 = eoq_ticks ?s2" using y(3) by (simp add: same_threads_def)
  have "eoq_interrupt (yield ro 0) t r s = andThen (ro (s3\<lparr>current_thread := t'\<rparr>)) (\<lambda>s2. Inr (yield_finish n s2))"
    using cur over s1(1) e y f0(1) by (simp add: eoq_interrupt_def CurrentThread_def Let_def yield_def yield_dispatch_Some)
  moreover have "t' # map snd R' = map snd R @ [?c]" using arg_cong [OF R', of "map snd"] by simp
  moreover have "sched_ok (s3\<lparr>current_thread := t'\<rparr>) R' []" using y(2) by (simp add: sched_ok_def)
  moreover have "eoq_ticks s3 = 0" using keep s1(3) f0(3) by simp
  moreover have "port_log s3 = port_log (print_line ''5ms has passed'' (s\<lparr>eoq_ticks := eoq_ticks s + 1\<rparr>)) @ eoi 0"
    using y(3) s1(3) by (simp add: same_threads_def reset_ticks_def)
  ultimately show ?thesis by (intro exI [of _ "s3\<lparr>current_thread := t'\<rparr>"] exI [of _ n] exI [of _ R']) simp
qed

end
