(* ===== verification/Thread_Kernel.thy ===== *)
theory Thread_Kernel
  imports Kernel_Threads NonBlocking_Disk Startup EOQ_Timer
begin

text \<open>
  \<open>main\<close> of the second kernel (\<open>kernel.C\<close>) up to the dispatch of its first thread, and the four
  thread functions.  \<open>run_others\<close> is, as in \<open>Scheduler\<close>, what the other threads do while this one
  is switched out.  The thread functions never return: their loops are partial functions, and
  \<open>None\<close> is a thread that runs for ever.

  A \<open>NonBlockingDisk\<close> and a \<open>Scheduler\<close> object have 20 bytes each, a \<open>Thread\<close> 24; the fields of
  a new object that its constructor does not set are the parameter \<open>old\<close>.
\<close>

record thread_kernel = sched_state +
  the_timer :: simple_timer

section \<open>The thread functions\<close>

definition print_number :: "string \<Rightarrow> int \<Rightarrow> string \<Rightarrow> 'a console_state_scheme \<Rightarrow> 'a console_state_scheme" where
  "print_number pre n post s = print_line post (puti n (print pre s))"

text \<open>The ten ticks that \<open>fun1\<close>, \<open>fun3\<close> and \<open>fun4\<close> print in an iteration.\<close>

primrec print_ticks :: "string \<Rightarrow> nat \<Rightarrow> 'a console_state_scheme \<Rightarrow> 'a console_state_scheme" where
  "print_ticks name 0 s = s"
| "print_ticks name (Suc i) s = print_number (name @ '': TICK ['') (int i) '']'' (print_ticks name i s)"

definition fun1_iteration ::
  "u32 \<Rightarrow> ('a sched_state_scheme \<Rightarrow> 'a sched_state_scheme outcome) \<Rightarrow> int \<Rightarrow> 'a sched_state_scheme
     \<Rightarrow> 'a sched_state_scheme outcome" where
  "fun1_iteration thread2 run_others j s =
     (let s = print_number ''FUN 1 IN ITERATION['' j '']'' s;
          s = print_ticks ''FUN 1'' 10 s
      in pass_on_CPU run_others thread2 s)"

definition fun3_iteration ::
  "u32 \<Rightarrow> ('a sched_state_scheme \<Rightarrow> 'a sched_state_scheme outcome) \<Rightarrow> int \<Rightarrow> 'a sched_state_scheme
     \<Rightarrow> 'a sched_state_scheme outcome" where
  "fun3_iteration thread4 run_others j s =
     (let s = print_number ''FUN 3 IN BURST['' j '']'' s;
          s = print_ticks ''FUN 3'' 10 s
      in pass_on_CPU run_others thread4 s)"

definition fun4_iteration ::
  "u32 \<Rightarrow> ('a sched_state_scheme \<Rightarrow> 'a sched_state_scheme outcome) \<Rightarrow> int \<Rightarrow> 'a sched_state_scheme
     \<Rightarrow> 'a sched_state_scheme outcome" where
  "fun4_iteration thread1 run_others j s =
     (let s = print_number ''FUN 4 IN BURST['' j '']'' s;
          s = print_ticks ''FUN 4'' 10 s
      in pass_on_CPU run_others thread1 s)"

text \<open>Printing the block read and filling the buffer for the next write.\<close>

primrec show_and_fill :: "u32 \<Rightarrow> int \<Rightarrow> nat \<Rightarrow> 'a thread_state_scheme \<Rightarrow> 'a thread_state_scheme" where
  "show_and_fill buf j 0 s = s"
| "show_and_fill buf j (Suc i) s =
     (let s = show_and_fill buf j i s;
          a = buf + word_of_nat i;
          s = putui (ucast (ram s a)) s
      in s\<lparr>ram := (ram s)(a := word_of_int (j smod 256))\<rparr>)"

definition fun2_iteration ::
  "u32 \<Rightarrow> u32 \<Rightarrow> ('a sched_state_scheme \<Rightarrow> 'a sched_state_scheme outcome) \<Rightarrow> int
     \<Rightarrow> (int \<times> int) \<times> 'a sched_state_scheme \<Rightarrow> ((int \<times> int) \<times> 'a sched_state_scheme) outcome" where
  "fun2_iteration thread3 buf run_others j b = (case b of ((read_block, write_block), s) \<Rightarrow>
     let s = print_number ''FUN 2 IN ITERATION['' j '']'' s;
         s = print_number ''Reading Block '' read_block '' from disk...'' s in
     andThen (nb_read run_others (word_of_int read_block) buf s) (\<lambda>s.
     let s = print ''Content of block is:'' (print_line '''' s);
         s = show_and_fill buf j 512 s;
         s = print_line '''' s;
         s = print_number ''Writing buffer to Block '' write_block '' on disk...'' s in
     andThen (nb_write run_others (word_of_int write_block) buf s) (\<lambda>s.
     let s = print_line ''Done writing'' (print_line '''' s);
         write_block = read_block;
         read_block = (read_block + 1) smod 10 in
     andThen (pass_on_CPU run_others thread3 s) (\<lambda>s. Inr ((read_block, write_block), s)))))"

text \<open>\<open>for (int j = 0;; j++) body\<close>\<close>

partial_function (option) for_ever :: "(int \<Rightarrow> 's \<Rightarrow> 's outcome) \<Rightarrow> int \<Rightarrow> 's \<Rightarrow> 's outcome option" where
  "for_ever body j s = (case body j s of Inl e \<Rightarrow> Some (Inl e) | Inr s \<Rightarrow> for_ever body (j + 1) s)"

definition say_thread :: "'a thread_state_scheme \<Rightarrow> 'a thread_state_scheme outcome" where
  "say_thread s = andThen (ThreadId (CurrentThread s) s) (\<lambda>n. Inr (print_number ''THREAD: '' n '''' s))"

definition fun1 ::
  "u32 \<Rightarrow> ('a sched_state_scheme \<Rightarrow> 'a sched_state_scheme outcome) \<Rightarrow> 'a sched_state_scheme
     \<Rightarrow> 'a sched_state_scheme outcome option" where
  "fun1 thread2 run_others s =
     (case say_thread s of Inl e \<Rightarrow> Some (Inl e)
      | Inr s \<Rightarrow> for_ever (fun1_iteration thread2 run_others) 0 (print_line ''FUN 1 INVOKED!'' s))"

definition fun2 ::
  "u32 \<Rightarrow> u32 \<Rightarrow> ('a sched_state_scheme \<Rightarrow> 'a sched_state_scheme outcome) \<Rightarrow> 'a sched_state_scheme
     \<Rightarrow> ((int \<times> int) \<times> 'a sched_state_scheme) outcome option" where
  "fun2 thread3 buf run_others s =
     (case say_thread s of Inl e \<Rightarrow> Some (Inl e)
      | Inr s \<Rightarrow> for_ever (fun2_iteration thread3 buf run_others) 0 ((1, 0), print_line ''FUN 2 INVOKED!'' s))"

definition fun3 ::
  "u32 \<Rightarrow> ('a sched_state_scheme \<Rightarrow> 'a sched_state_scheme outcome) \<Rightarrow> 'a sched_state_scheme
     \<Rightarrow> 'a sched_state_scheme outcome option" where
  "fun3 thread4 run_others s =
     (case say_thread s of Inl e \<Rightarrow> Some (Inl e)
      | Inr s \<Rightarrow> for_ever (fun3_iteration thread4 run_others) 0 (print_line ''FUN 3 INVOKED!'' s))"

definition fun4 ::
  "u32 \<Rightarrow> ('a sched_state_scheme \<Rightarrow> 'a sched_state_scheme outcome) \<Rightarrow> 'a sched_state_scheme
     \<Rightarrow> 'a sched_state_scheme outcome option" where
  "fun4 thread1 run_others s =
     (case say_thread s of Inl e \<Rightarrow> Some (Inl e)
      | Inr s \<Rightarrow> for_ever (fun4_iteration thread1 run_others) 0 s)"

section \<open>main\<close>

text \<open>The parts of \<open>main\<close>: tables and handlers, memory, timer, disk and scheduler.\<close>

definition boot_machine ::
  "u32 \<Rightarrow> u32 \<Rightarrow> (nat \<Rightarrow> u32) \<Rightarrow> (nat \<Rightarrow> u32) \<Rightarrow> 'a thread_kernel_scheme \<Rightarrow> 'a thread_kernel_scheme outcome" where
  "boot_machine gdt_addr idt_addr isr irq s =
     andThen (boot_tables gdt_addr idt_addr isr irq s) (\<lambda>s.
     andThen (register_exception_handler 0 dbz_handler s) (\<lambda>s.
     let s = FramePool s;
         s = MemPool 256 s in
     andThen (SimpleTimer 100 s) (\<lambda>(t, s).
     let s = s\<lparr>the_timer := t\<rparr> in
     andThen (register_interrupt_handler 0 timer_handler s) (\<lambda>s.
     let s = NonBlockingDisk (10 * 0x100000) (snd (operator_new 20 s));
         s = new_Scheduler (snd (operator_new 20 s)) in
     andThen (enable_interrupts s) (\<lambda>s.
     Inr (print_line ''Hello World!'' s))))))"

definition create_threads ::
  "u32 \<Rightarrow> u32 \<Rightarrow> (nat \<Rightarrow> thread_obj) \<Rightarrow> (nat \<Rightarrow> u32) \<Rightarrow> 'a sched_state_scheme
     \<Rightarrow> (u32 \<times> 'a sched_state_scheme) outcome" where
  "create_threads start shutdown old tf s =
     andThen (create_thread start shutdown (old 1) (tf 1) (print_line ''CREATING THREAD 1...'' s)) (\<lambda>(thread1, s).
     andThen (create_thread start shutdown (old 2) (tf 2) (print ''CREATING THREAD 2...'' (print_line ''DONE'' s))) (\<lambda>(thread2, s).
     andThen (create_thread start shutdown (old 3) (tf 3) (print ''CREATING THREAD 3...'' (print_line ''DONE'' s))) (\<lambda>(thread3, s).
     andThen (create_thread start shutdown (old 4) (tf 4) (print ''CREATING THREAD 4...'' (print_line ''DONE'' s))) (\<lambda>(thread4, s).
     andThen (add_thread thread2 (print_line ''DONE'' s)) (\<lambda>s.
     andThen (add_thread thread3 s) (\<lambda>s.
     andThen (add_thread thread4 s) (\<lambda>s.
     Inr (thread1, print_line ''STARTING THREAD 1 ...'' s))))))))"

definition thread_main ::
  "u32 \<Rightarrow> u32 \<Rightarrow> (nat \<Rightarrow> u32) \<Rightarrow> (nat \<Rightarrow> u32) \<Rightarrow> u32 \<Rightarrow> u32 \<Rightarrow> (nat \<Rightarrow> thread_obj) \<Rightarrow> (nat \<Rightarrow> u32)
     \<Rightarrow> ('a thread_kernel_scheme \<Rightarrow> 'a thread_kernel_scheme outcome) \<Rightarrow> 'a thread_kernel_scheme
     \<Rightarrow> 'a thread_kernel_scheme outcome" where
  "thread_main gdt_addr idt_addr isr irq start shutdown old tf run_others s =
     andThen (boot_machine gdt_addr idt_addr isr irq s) (\<lambda>s.
     andThen (create_threads start shutdown old tf s) (\<lambda>(thread1, s).
     andThen (dispatch_to run_others thread1 s) (\<lambda>s.
     Inl Assertion)))"

section \<open>Threads that are ready to start\<close>

text \<open>The threads \<open>ts\<close> have control blocks and contexts for the functions \<open>fs\<close>, below the free memory.\<close>

definition ready_to_start :: "u32 \<Rightarrow> u32 \<Rightarrow> 'a thread_state_scheme \<Rightarrow> u32 list \<Rightarrow> u32 list \<Rightarrow> bool" where
  "ready_to_start start shutdown s ts fs \<longleftrightarrow> list_all2 (\<lambda>x f. unat x < unat (start_address s) \<and>
     (\<exists>t. thread_objs s x = Some t \<and> unat (thread_esp t) + 80 \<le> unat (start_address s)
        \<and> new_context start shutdown f (ram s) (thread_esp t))) ts fs"

lemma new_context_cong:
  assumes same: "\<And>x. unat esp \<le> unat x \<Longrightarrow> unat x < unat esp + 80 \<Longrightarrow> m' x = m x"
    and wrap: "unat esp + 80 \<le> 4294967295"
  shows "new_context start shutdown f m' esp = new_context start shutdown f m esp"
proof -
  have byte: "m' (esp + word_of_nat k) = m (esp + word_of_nat k)" if "k < 80" for k
  proof -
    have "unat (esp + word_of_nat k) = unat esp + k" using that wrap by (simp add: unat_word_ariths)
    then show ?thesis using that by (intro same) simp_all
  qed
  have "stack_word m' esp i = stack_word m esp i" if "i < 20" for i
    using that byte [of "4 * i"] byte [of "4 * i + 1"] byte [of "4 * i + 2"] byte [of "4 * i + 3"]
    by (simp add: stack_word_def load32_def add.assoc add.commute add.left_commute)
  then show ?thesis by (simp add: new_context_def load_context_def)
qed

lemma ready_putch: "ready_to_start start shutdown (putch c s) ts fs = ready_to_start start shutdown s ts fs"
  by (simp add: ready_to_start_def)

lemmas ready_messages [simp] = ready_putch
  putch_invariant [where f = "\<lambda>s. ready_to_start start shutdown s ts fs" for start shutdown ts fs, OF ready_putch]

lemma ready_grow:
  assumes "ready_to_start start shutdown s ts fs" and "thread_objs s' = thread_objs s" and "ram s' = ram s"
    and "unat (start_address s) \<le> unat (start_address s')"
  shows "ready_to_start start shutdown s' ts fs"
  using assms(1) unfolding ready_to_start_def assms(2,3)
  by (rule list_all2_mono) (use assms(4) in \<open>auto intro: order_less_le_trans order_trans\<close>)

text \<open>What belongs to the disk and to the layers above stays the same while threads are created.\<close>

definition same_disk :: "'a sched_state_scheme \<Rightarrow> 'a sched_state_scheme \<Rightarrow> bool" where
  "same_disk s s' \<longleftrightarrow> hw_locked s' = hw_locked s \<and> port_input s' = port_input s \<and> sched_state.more s' = sched_state.more s"

lemma same_disk_trans: "same_disk s s' \<Longrightarrow> same_disk s' s'' \<Longrightarrow> same_disk s s''"
  by (simp add: same_disk_def)

lemma disk_putch: "hw_locked (putch c s) = hw_locked s" "port_input (putch c v) = port_input v"
  "sched_state.more (putch c s) = sched_state.more s" "thread_kernel.more (putch c k) = thread_kernel.more k"
  by (simp_all add: putch_def put_char_def scroll_def move_cursor_def serial_def outportb_def Let_def)

lemmas disk_messages [simp] = disk_putch
  putch_invariant [where f = hw_locked, OF disk_putch(1)] putch_invariant [where f = port_input, OF disk_putch(2)]
  putch_invariant [where f = sched_state.more, OF disk_putch(3)] putch_invariant [where f = thread_kernel.more, OF disk_putch(4)]

lemma same_disk_messages: "same_disk (print_line m s) s' = same_disk s s'" "same_disk (print m s) s' = same_disk s s'"
  by (simp_all add: same_disk_def)

lemma create_thread_disk:
  "create_thread start shutdown old tf s = Inr (t, s') \<Longrightarrow> same_disk s s'"
  by (auto simp: create_thread_def Thread_def setup_context_def heap_operators Let_def andThen_eq_Inr same_disk_def
      split: prod.splits)

text \<open>Creating one more thread leaves the stacks of the others as they are.\<close>

lemma create_thread_ready:
  assumes rd: "ready_to_start start shutdown s ts fs" and ok: "sched_ok s R []"
    and room: "4120 \<le> heap_room s" and al: "aligned (start_address s)"
  shows "\<exists>s'. create_thread start shutdown old f s = Inr (start_address s + 4096, s')
    \<and> ready_to_start start shutdown s' (ts @ [start_address s + 4096]) (fs @ [f]) \<and> sched_ok s' R []
    \<and> start_address s' = start_address s + 4120 \<and> heap_room s' = heap_room s - 4120 \<and> aligned (start_address s')
    \<and> zombieThread s' = zombieThread s \<and> current_thread s' = current_thread s \<and> same_disk s s'"
proof -
  let ?a = "start_address s"
  obtain s' t where s': "create_thread start shutdown old f s = Inr (?a + 4096, s')"
    "thread_objs s' = (thread_objs s)(?a + 4096 \<mapsto> t)" "start_address s' = ?a + 4120"
    "new_context start shutdown f (ram s') (thread_esp t)" "thread_esp t = ?a + 4016"
    "\<forall>x. unat x < unat ?a \<longrightarrow> ram s' x = ram s x"
    using create_thread_ok [OF room al, of start shutdown old f] by blast
  note fields = create_thread_fields [OF s'(1)]
  have u: "unat (?a + 4096) = unat ?a + 4096" "unat (?a + 4120) = unat ?a + 4120" "unat (?a + 4016) = unat ?a + 4016"
    using room by (simp_all add: heap_room_def unat_word_ariths)
  have old: "list_all2 (\<lambda>x f. unat x < unat (start_address s') \<and>
     (\<exists>t. thread_objs s' x = Some t \<and> unat (thread_esp t) + 80 \<le> unat (start_address s')
        \<and> new_context start shutdown f (ram s') (thread_esp t))) ts fs"
    using rd unfolding ready_to_start_def
  proof (rule list_all2_mono)
    fix x f
    assume x: "unat x < unat ?a \<and> (\<exists>t. thread_objs s x = Some t \<and> unat (thread_esp t) + 80 \<le> unat ?a
        \<and> new_context start shutdown f (ram s) (thread_esp t))"
    then obtain t' where t': "thread_objs s x = Some t'" "unat (thread_esp t') + 80 \<le> unat ?a"
      "new_context start shutdown f (ram s) (thread_esp t')" by blast
    have "x \<noteq> ?a + 4096" using x u by auto
    moreover have "new_context start shutdown f (ram s') (thread_esp t')"
      using t' s'(6) room by (subst new_context_cong [where m = "ram s"]) (auto simp: heap_room_def)
    ultimately show "unat x < unat (start_address s') \<and>
     (\<exists>t. thread_objs s' x = Some t \<and> unat (thread_esp t) + 80 \<le> unat (start_address s')
        \<and> new_context start shutdown f (ram s') (thread_esp t))"
      using t' x u(2) unfolding s'(2,3) by auto
  qed
  have "ready_to_start start shutdown s' (ts @ [?a + 4096]) (fs @ [f])"
    using old s'(2,4,5) u unfolding ready_to_start_def s'(3) by (simp add: list_all2_appendI)
  moreover have "sched_ok s' R []"
  proof -
    have "start_address s' \<noteq> 0" unfolding s'(3) using u(2) by auto
    then show ?thesis using ok u(2) unfolding sched_ok_def fields s'(3) by (auto intro: trans_less_add1)
  qed
  moreover have "heap_room s' = heap_room s - 4120" unfolding heap_room_def s'(3) u(2) by simp
  moreover have "aligned (start_address s')"
  proof -
    have "(x + 4120) mod 4 = x mod 4" for x :: nat by presburger
    then show ?thesis using al unfolding aligned_def s'(3) u(2) by simp
  qed
  ultimately show ?thesis using s'(1,3) fields create_thread_disk [OF s'(1)] by blast
qed

section \<open>Main hands the processor over\<close>

text \<open>What \<open>main\<close> has before it creates threads.\<close>

definition machine_ready :: "(nat \<Rightarrow> u32) \<Rightarrow> (nat \<Rightarrow> u32) \<Rightarrow> 'a thread_kernel_scheme \<Rightarrow> bool" where
  "machine_ready isr irq s \<longleftrightarrow> sched_ok s [] [] \<and> start_address s = 0x200028 \<and> zombieThread s = 0
     \<and> interrupts_enabled s \<and> vectors_installed isr irq s \<and> interrupt_table s ! 0 = Some timer_handler
     \<and> the_timer s = \<lparr>timer_seconds = 0, timer_ticks = 0, timer_hz = 100\<rparr> \<and> disk_size s = 0xA00000"

lemma thread_kernel_putch: "the_timer (putch c s) = the_timer s" "disk_size (putch c v) = disk_size v"
  by (simp_all add: putch_def put_char_def scroll_def move_cursor_def serial_def outportb_def Let_def)

lemmas thread_kernel_messages [simp] = thread_kernel_putch
  putch_invariant [where f = the_timer, OF thread_kernel_putch(1)]
  putch_invariant [where f = disk_size, OF thread_kernel_putch(2)]

lemma interrupts_enabled_EFLAGS: "EFLAGS s' = EFLAGS s \<Longrightarrow> interrupts_enabled s' = interrupts_enabled s"
  by (simp add: interrupts_enabled_def)

lemma vectors_updates [simp]:
  "vectors_installed isr irq (m\<lparr>next_free_frame := f\<rparr>) = vectors_installed isr irq m"
  "vectors_installed isr irq (m\<lparr>start_address := a\<rparr>) = vectors_installed isr irq m"
  "vectors_installed isr irq (m\<lparr>start_address := a, next_free_frame := f\<rparr>) = vectors_installed isr irq m"
  "vectors_installed isr irq (k\<lparr>the_timer := t\<rparr>) = vectors_installed isr irq k"
  by (simp_all add: vectors_installed_def vector_of_def)

lemma vectors_same:
  "idt s' = idt s \<Longrightarrow> port_log s' = port_log s \<Longrightarrow> vectors_installed isr irq s' = vectors_installed isr irq s"
  by (simp add: vectors_installed_def vector_of_def)

lemma boot_machine_ok:
  assumes "length (gdt s) = 3" and off: "\<not> interrupts_enabled s" and free: "\<not> queue_locked s"
  shows "\<exists>s'. boot_machine gdt_addr idt_addr isr irq s = Inr s' \<and> machine_ready isr irq s'
    \<and> current_thread s' = current_thread s \<and> nextFreePid s' = nextFreePid s
    \<and> hw_locked s' = hw_locked s \<and> port_input s' = port_input s \<and> thread_kernel.more s' = thread_kernel.more s"
proof -
  obtain s1 where s1: "boot_tables gdt_addr idt_addr isr irq s = Inr s1" "vectors_installed isr irq s1"
    "exception_table s1 = replicate 32 None"
    "interrupt_table s1 = replicate 16 None" "EFLAGS s1 = EFLAGS s" "dispatcher.more s1 = dispatcher.more s"
    using boot_tables_ok [OF assms(1), of gdt_addr idt_addr isr irq] by blast
  have same: "queue_locked s1 = queue_locked s" "current_thread s1 = current_thread s" "nextFreePid s1 = nextFreePid s"
    "hw_locked s1 = hw_locked s" "port_input s1 = port_input s" "thread_kernel.more s1 = thread_kernel.more s"
    using s1(6) by (cases s; cases s1; simp)+
  define s2 where "s2 = print_line '''' (putui 0 (print ''Installed exception handler at ISR ''
    (s1\<lparr>exception_table := (exception_table s1)[0 := Some dbz_handler]\<rparr>)))"
  define s3 where "s3 = MemPool 256 (FramePool s2)"
  have r2: "register_exception_handler 0 dbz_handler s1 = Inr s2"
    by (simp add: register_exception_handler_def Let_def s2_def)
  have e3: "EFLAGS s3 = EFLAGS s" "interrupt_table s3 = replicate 16 None" "queue_locked s3 = queue_locked s"
     "current_thread s3 = current_thread s" "nextFreePid s3 = nextFreePid s" "vectors_installed isr irq s3"
     "start_address s3 = 0x200000" "hw_locked s3 = hw_locked s" "port_input s3 = port_input s" "thread_kernel.more s3 = thread_kernel.more s"
    using s1 same by (simp_all add: s3_def s2_def MemPool_def FramePool_def get_frame_def take_frames_eq Let_def)
  define s4 where "s4 = outportb 0x40 (word_of_int (drop_bit 8 11931))
    (outportb 0x40 (word_of_int (11931 AND 0xFF)) (outportb 0x43 0x34 s3))"
  let ?t = "\<lparr>timer_seconds = 0, timer_ticks = 0, timer_hz = 100\<rparr>"
  have e4: "vectors_installed isr irq s4" "EFLAGS s4 = EFLAGS s" "interrupt_table s4 = replicate 16 None"
    "queue_locked s4 = queue_locked s" "current_thread s4 = current_thread s" "nextFreePid s4 = nextFreePid s"
    "start_address s4 = 0x200000" "hw_locked s4 = hw_locked s" "port_input s4 = port_input s" "thread_kernel.more s4 = thread_kernel.more s"
    using e3 unfolding s4_def by (simp_all add: vectors_outportb) (simp_all add: outportb_def)
  define s5 where "s5 = print_line '''' (putui 0 (print ''Installed interrupt handler at IRQ ''
    (s4\<lparr>the_timer := ?t, interrupt_table := (interrupt_table s4)[0 := Some timer_handler]\<rparr>)))"
  have r5: "register_interrupt_handler 0 timer_handler (s4\<lparr>the_timer := ?t\<rparr>) = Inr s5"
    by (simp add: register_interrupt_handler_def Let_def s5_def)
  define s6 where "s6 = new_Scheduler (snd (operator_new 20 (NonBlockingDisk (10 * 0x100000) (snd (operator_new 20 s5)))))"
  have e6: "EFLAGS s6 = EFLAGS s" "interrupt_table s6 ! 0 = Some timer_handler" "queue_locked s6 = queue_locked s"
    "current_thread s6 = current_thread s" "nextFreePid s6 = nextFreePid s" "start_address s6 = 0x200028"
    "the_timer s6 = ?t" "disk_size s6 = 0xA00000" "zombieThread s6 = 0"
    "ready_queue s6 = \<lparr>list_head = 0, list_tail = 0\<rparr>" "io_queue s6 = \<lparr>list_head = 0, list_tail = 0\<rparr>"
    "hw_locked s6 = hw_locked s" "port_input s6 = port_input s" "thread_kernel.more s6 = thread_kernel.more s"
    using e4 unfolding s6_def s5_def new_Scheduler_def NonBlockingDisk_def SimpleDisk_def heap_operators
    by simp_all
  have "vectors_installed isr irq s5" using e4(1) by (simp add: s5_def)
  then have v6: "vectors_installed isr irq s6"
    by (simp add: s6_def new_Scheduler_def NonBlockingDisk_def SimpleDisk_def heap_operators)
      (subst vectors_same [where s = s5], simp_all)
  let ?s = "print_line ''Hello World!'' (s6\<lparr>EFLAGS := EFLAGS s6 OR IF_mask\<rparr>)"
  have t4: "SimpleTimer 100 s3 = Inr (?t, s4)" by (simp add: SimpleTimer_100 s4_def)
  have n6: "new_Scheduler (snd (operator_new 20 (NonBlockingDisk 0xA00000 (snd (operator_new 20 s5))))) = s6"
    by (simp add: s6_def)
  have "boot_machine gdt_addr idt_addr isr irq s = Inr ?s"
    using s1(1) r2 r5 off e6(1)
    by (simp add: boot_machine_def s3_def [symmetric] t4 n6 enable_disable interrupts_enabled_def Let_def)
  moreover have "machine_ready isr irq ?s"
    using e6 v6 free by (simp add: machine_ready_def sched_ok_def list_repr_def interrupts_enabled_bit bit_or_iff bit_IF_mask)
  ultimately show ?thesis using e6 by (intro exI [of _ ?s]) simp
qed

text \<open>Resuming a thread leaves contexts and control blocks alone.\<close>

lemma resume_ready:
  assumes ok: "sched_ok s R []" and rd: "ready_to_start start shutdown s ts fs" and room: "12 \<le> heap_room s"
  shows "\<exists>s'. add_thread t s = Inr s' \<and> sched_ok s' (R @ [(start_address s, t)]) [] \<and> ready_to_start start shutdown s' ts fs
    \<and> start_address s' = start_address s + 12 \<and> zombieThread s' = zombieThread s \<and> interrupts_enabled s' \<and> same_disk s s'"
proof -
  obtain s' h q where s': "resume t s = Inr s'" "sched_ok s' (R @ [(start_address s, t)]) []"
    "s' = s\<lparr>start_address := start_address s + 12, queue_nodes := h, ready_queue := q, EFLAGS := EFLAGS s OR IF_mask\<rparr>"
    using resume_ok [OF ok room, of t] by (elim exE conjE)
  have "ready_to_start start shutdown s' ts fs"
    using rd by (rule ready_grow) (simp_all add: s'(3) start_grows(1) [OF room])
  then show ?thesis using s' by (simp add: add_thread_def interrupts_enabled_bit bit_or_iff bit_IF_mask same_disk_def)
qed

text \<open>The addresses of the four control blocks and of the three nodes.\<close>

abbreviation (input) main_threads :: "u32 list" where "main_threads \<equiv> [0x201028, 0x202040, 0x203058, 0x204070]"

lemma create_threads_ok:
  assumes ok: "sched_ok s [] []" and sa: "start_address s = 0x200028" and z: "zombieThread s = 0"
  shows "\<exists>s'. create_threads start shutdown old tf s = Inr (0x201028, s')
    \<and> sched_ok s' [(0x204088, 0x202040), (0x204094, 0x203058), (0x2040A0, 0x204070)] []
    \<and> ready_to_start start shutdown s' main_threads (map tf [1, 2, 3, 4]) \<and> zombieThread s' = 0 \<and> interrupts_enabled s'
    \<and> start_address s' = 0x2040AC \<and> same_disk s s'"
proof -
  let ?m1 = "print_line ''CREATING THREAD 1...''"
  let ?m = "\<lambda>i s. print i (print_line ''DONE'' s)"
  have r0: "ready_to_start start shutdown (?m1 s) [] []" by (simp add: ready_to_start_def)
  obtain s1 where s1: "create_thread start shutdown (old 1) (tf 1) (?m1 s) = Inr (0x201028, s1)"
    "ready_to_start start shutdown s1 [0x201028] [tf 1]" "sched_ok s1 [] []" "start_address s1 = 0x201040"
    "zombieThread s1 = 0" "same_disk (?m1 s) s1"
    using create_thread_ready [OF r0, of "[]" "old 1" "tf 1"] ok sa z by (auto simp: heap_room_def aligned_def)
  let ?s1 = "print ''CREATING THREAD 2...'' (print_line ''DONE'' s1)"
  have p1: "ready_to_start start shutdown ?s1 [0x201028] [tf 1]" "sched_ok ?s1 [] []" "start_address ?s1 = 0x201040"
    "zombieThread ?s1 = 0" using s1 by simp_all
  obtain s2 where s2: "create_thread start shutdown (old 2) (tf 2) ?s1 = Inr (0x202040, s2)"
    "ready_to_start start shutdown s2 [0x201028, 0x202040] [tf 1, tf 2]" "sched_ok s2 [] []" "start_address s2 = 0x202058"
    "zombieThread s2 = 0" "same_disk ?s1 s2"
    using create_thread_ready [OF p1(1,2), of "old 2" "tf 2"] p1(3,4) by (auto simp: heap_room_def aligned_def)
  let ?s2 = "print ''CREATING THREAD 3...'' (print_line ''DONE'' s2)"
  have p2: "ready_to_start start shutdown ?s2 [0x201028, 0x202040] [tf 1, tf 2]" "sched_ok ?s2 [] []"
    "start_address ?s2 = 0x202058" "zombieThread ?s2 = 0" using s2 by simp_all
  obtain s3 where s3: "create_thread start shutdown (old 3) (tf 3) ?s2 = Inr (0x203058, s3)"
    "ready_to_start start shutdown s3 [0x201028, 0x202040, 0x203058] [tf 1, tf 2, tf 3]" "sched_ok s3 [] []"
    "start_address s3 = 0x203070" "zombieThread s3 = 0" "same_disk ?s2 s3"
    using create_thread_ready [OF p2(1,2), of "old 3" "tf 3"] p2(3,4) by (auto simp: heap_room_def aligned_def)
  let ?s3 = "print ''CREATING THREAD 4...'' (print_line ''DONE'' s3)"
  have p3: "ready_to_start start shutdown ?s3 [0x201028, 0x202040, 0x203058] [tf 1, tf 2, tf 3]" "sched_ok ?s3 [] []"
    "start_address ?s3 = 0x203070" "zombieThread ?s3 = 0" using s3 by simp_all
  obtain s4 where s4: "create_thread start shutdown (old 4) (tf 4) ?s3 = Inr (0x204070, s4)"
    "ready_to_start start shutdown s4 main_threads (map tf [1, 2, 3, 4])" "sched_ok s4 [] []"
    "start_address s4 = 0x204088" "zombieThread s4 = 0" "same_disk ?s3 s4"
    using create_thread_ready [OF p3(1,2), of "old 4" "tf 4"] p3(3,4) by (auto simp: heap_room_def aligned_def)
  let ?s4 = "print_line ''DONE'' s4"
  have p4: "sched_ok ?s4 [] []" "ready_to_start start shutdown ?s4 main_threads (map tf [1, 2, 3, 4])"
    "start_address ?s4 = 0x204088" "zombieThread ?s4 = 0" using s4 by simp_all
  obtain s5 where s5: "add_thread 0x202040 ?s4 = Inr s5" "sched_ok s5 [(0x204088, 0x202040)] []"
    "ready_to_start start shutdown s5 main_threads (map tf [1, 2, 3, 4])" "start_address s5 = 0x204094" "zombieThread s5 = 0" "same_disk ?s4 s5"
    using resume_ready [OF p4(1,2), of "0x202040"] p4(3,4) by (auto simp: heap_room_def)
  obtain s6 where s6: "add_thread 0x203058 s5 = Inr s6" "sched_ok s6 [(0x204088, 0x202040), (0x204094, 0x203058)] []"
    "ready_to_start start shutdown s6 main_threads (map tf [1, 2, 3, 4])" "start_address s6 = 0x2040A0" "zombieThread s6 = 0" "same_disk s5 s6"
    using resume_ready [OF s5(2,3), of "0x203058"] s5(4,5) by (auto simp: heap_room_def)
  obtain s7 where s7: "add_thread 0x204070 s6 = Inr s7"
    "sched_ok s7 [(0x204088, 0x202040), (0x204094, 0x203058), (0x2040A0, 0x204070)] []"
    "ready_to_start start shutdown s7 main_threads (map tf [1, 2, 3, 4])" "zombieThread s7 = 0" "interrupts_enabled s7"
    "start_address s7 = 0x2040AC" "same_disk s6 s7"
    using resume_ready [OF s6(2,3), of "0x204070"] s6(4,5) by (auto simp: heap_room_def)
  have "create_threads start shutdown old tf s = Inr (0x201028, print_line ''STARTING THREAD 1 ...'' s7)"
    using s1(1) s2(1) s3(1) s4(1) s5(1) s6(1) s7(1) by (simp add: create_threads_def)
  moreover have "same_disk s s7"
    using s1(6) s2(6) s3(6) s4(6) s5(6) s6(6) s7(7) by (simp add: same_disk_def)
  ultimately show ?thesis using s7 by (simp add: same_disk_def)
qed

lemma more_of_more: "sched_state.more s' = sched_state.more s \<Longrightarrow> thread_kernel.more s' = thread_kernel.more s"
  by (cases s; cases s') simp

text \<open>
  \<open>main\<close> hands the processor to thread 1 with threads 2, 3 and 4 in the ready queue, all four about
  to run their functions for the first time, and fails if it is ever scheduled again.
\<close>

lemma thread_main_ok:
  assumes "length (gdt s) = 3" and "\<not> interrupts_enabled s" and "\<not> queue_locked s"
  shows "\<exists>s' R. (\<forall>ro. thread_main gdt_addr idt_addr isr irq start shutdown old tf ro s = andThen (ro s') (\<lambda>_. Inl Assertion))
    \<and> running (s', Map.empty) 0x201028 R \<and> map snd R = tl main_threads
    \<and> ready_to_start start shutdown s' main_threads (map tf [1, 2, 3, 4]) \<and> interrupts_enabled s'
    \<and> start_address s' = 0x2040AC \<and> hw_locked s' = hw_locked s \<and> port_input s' = port_input s
    \<and> thread_kernel.more s' = thread_kernel.more s"
proof -
  obtain s1 where s1: "boot_machine gdt_addr idt_addr isr irq s = Inr s1" "machine_ready isr irq s1"
    "hw_locked s1 = hw_locked s" "port_input s1 = port_input s" "thread_kernel.more s1 = thread_kernel.more s"
    using boot_machine_ok [OF assms, of gdt_addr idt_addr isr irq] by auto
  let ?R = "[(0x204088, 0x202040), (0x204094, 0x203058), (0x2040A0, 0x204070)]"
  obtain s2 where s2: "create_threads start shutdown old tf s1 = Inr (0x201028, s2)" "sched_ok s2 ?R []"
    "ready_to_start start shutdown s2 main_threads (map tf [1, 2, 3, 4])" "zombieThread s2 = 0" "interrupts_enabled s2"
    "start_address s2 = 0x2040AC" "same_disk s1 s2"
    using create_threads_ok [of s1 start shutdown old tf] s1(2) unfolding machine_ready_def by blast
  let ?s = "s2\<lparr>current_thread := 0x201028\<rparr>"
  have rd: "ready_to_start start shutdown ?s main_threads (map tf [1, 2, 3, 4])"
    using s2(3) by (rule ready_grow) simp_all
  have "threads_ok ?s main_threads"
    using rd s2(4) by (auto simp: threads_ok_def ready_to_start_def)
  moreover have "sched_ok ?s ?R []" using s2(2) by (simp add: sched_ok_def)
  ultimately have "running (?s, Map.empty) 0x201028 ?R" by (simp add: running_def pending_ok_def)
  moreover have "thread_main gdt_addr idt_addr isr irq start shutdown old tf ro s = andThen (ro ?s) (\<lambda>_. Inl Assertion)" for ro
    using s1(1) s2(1) by (simp add: thread_main_def dispatch_to_def)
  moreover have "interrupts_enabled ?s" using s2(5) by (simp add: interrupts_enabled_def)
  moreover have "thread_kernel.more s2 = thread_kernel.more s1" "hw_locked s2 = hw_locked s1" "port_input s2 = port_input s1"
    using s2(7) by (auto simp: same_disk_def intro: more_of_more)
  ultimately show ?thesis using rd s1(3-5) s2(6) by (intro exI [of _ ?s] exI [of _ ?R]) simp
qed

end
