(* ===== verification/Four_Threads.thy ===== *)
theory Four_Threads
  imports Thread_Kernel "HOL-Library.Multiset"
begin

text \<open>
  The four threads of \<open>kernel.C\<close> together, on a disk that is always ready.  Threads 1, 3 and 4 only
  print and pass the processor on: \<open>turn\<close> runs one of them from one context switch to the next, and
  \<open>others\<close> runs them until thread 2 is dispatched again.  This is the \<open>run_others\<close> of thread 2, the
  one that uses the disk, whose iterations then run against the code of the other threads.

  A suspended thread has a node to delete when it continues, and a number of its iteration: the two
  fields \<open>suspended\<close> and \<open>bursts\<close> stand for the stacks of the three threads.
\<close>

record four_threads = thread_kernel +
  suspended :: "u32 \<Rightarrow> u32 option"
  bursts :: "u32 \<Rightarrow> int option"

section \<open>The other threads\<close>

text \<open>What thread function \<open>k\<close> prints when it starts, and in iteration \<open>j\<close>.\<close>

definition begin_fun :: "nat \<Rightarrow> 'a thread_state_scheme \<Rightarrow> 'a thread_state_scheme outcome" where
  "begin_fun k s =
     andThen (thread_start s) (\<lambda>s.
     andThen (say_thread s) (\<lambda>s.
     Inr (if k = 1 then print_line ''FUN 1 INVOKED!'' s
          else if k = 2 then print_line ''FUN 2 INVOKED!'' s
          else if k = 3 then print_line ''FUN 3 INVOKED!'' s else s)))"

definition burst_prints :: "nat \<Rightarrow> int \<Rightarrow> 'a console_state_scheme \<Rightarrow> 'a console_state_scheme" where
  "burst_prints k j s =
     (if k = 1 then print_ticks ''FUN 1'' 10 (print_number ''FUN 1 IN ITERATION['' j '']'' s)
      else if k = 3 then print_ticks ''FUN 3'' 10 (print_number ''FUN 3 IN BURST['' j '']'' s)
      else print_ticks ''FUN 4'' 10 (print_number ''FUN 4 IN BURST['' j '']'' s))"

definition pass_select :: "'a sched_state_scheme \<Rightarrow> (u32 option \<times> 'a sched_state_scheme) outcome" where
  "pass_select s = andThen (resume (CurrentThread s) s) (yield_select Inr 0)"

definition turn :: "nat \<Rightarrow> 'a four_threads_scheme \<Rightarrow> 'a four_threads_scheme outcome" where
  "turn k s =
     (let c = current_thread s;
          s = (case suspended s c of None \<Rightarrow> s | Some n \<Rightarrow> yield_finish n s) in
      andThen (case bursts s c of None \<Rightarrow> andThen (begin_fun k s) (\<lambda>s. Inr (0, s)) | Some j \<Rightarrow> Inr (j + 1, s)) (\<lambda>(j, s).
      andThen (pass_select (burst_prints k j s)) (\<lambda>(choice, s).
      let s = s\<lparr>bursts := (bursts s)(c \<mapsto> j)\<rparr> in
      (case choice of
         None \<Rightarrow> Inr (s\<lparr>suspended := (suspended s)(c := None)\<rparr>)
       | Some n \<Rightarrow>
           (case queue_nodes s n of
              None \<Rightarrow> Inl Wild
            | Some v \<Rightarrow> Inr (s\<lparr>current_thread := node_thread v, suspended := (suspended s)(c \<mapsto> n)\<rparr>))))))"

text \<open>The cut is the one in the code: an iteration is its prints, the choice, and the switch.\<close>

lemma pass_on_CPU_cut:
  assumes "\<not> queue_locked s" and "current_thread s \<noteq> 0"
  shows "pass_on_CPU ro t s = andThen (pass_select s) (yield_dispatch ro)"
proof (cases "resume (CurrentThread s) s")
  case (Inr s1)
  then have "queue_locked s1 = queue_locked s" "current_thread s1 = current_thread s"
    by (auto simp: resume_def interrupts_off_eq interrupts_on_eq make_node_eq andThen_eq_Inr)
  then have "yield_select ro 0 s1 = yield_select Inr 0 s1"
    using assms by (simp add: yield_select_eq)
  then show ?thesis using Inr by (simp add: pass_on_CPU_def pass_select_def yield_def)
qed (simp add: pass_on_CPU_def pass_select_def)

lemma iterations_cut:
  assumes "\<not> queue_locked s" and "current_thread s \<noteq> 0"
  shows "fun1_iteration t ro j s = andThen (pass_select (burst_prints 1 j s)) (yield_dispatch ro)"
    and "fun3_iteration t ro j s = andThen (pass_select (burst_prints 3 j s)) (yield_dispatch ro)"
    and "fun4_iteration t ro j s = andThen (pass_select (burst_prints 4 j s)) (yield_dispatch ro)"
proof -
  have n: "queue_locked (print_number pre i post s) = queue_locked s"
    "current_thread (print_number pre i post s) = current_thread s" for pre i post and s :: "'a sched_state_scheme"
    by (simp_all add: print_number_def)
  have t: "queue_locked (print_ticks name i s) = queue_locked s" "current_thread (print_ticks name i s) = current_thread s"
    for name i and s :: "'a sched_state_scheme"
    by (induction i) (simp_all add: n)
  show "fun1_iteration t ro j s = andThen (pass_select (burst_prints 1 j s)) (yield_dispatch ro)"
    and "fun3_iteration t ro j s = andThen (pass_select (burst_prints 3 j s)) (yield_dispatch ro)"
    and "fun4_iteration t ro j s = andThen (pass_select (burst_prints 4 j s)) (yield_dispatch ro)"
    unfolding fun1_iteration_def fun3_iteration_def fun4_iteration_def Let_def burst_prints_def
    using assms by (simp_all add: pass_on_CPU_cut n t)
qed

text \<open>The function of a thread is \<open>which\<close>.\<close>

partial_function (option) others_run ::
  "(u32 \<Rightarrow> nat) \<Rightarrow> u32 \<Rightarrow> 'a four_threads_scheme \<Rightarrow> 'a four_threads_scheme outcome option" where
  "others_run which me s =
     (if current_thread s = me then Some (Inr s)
      else (case turn (which (current_thread s)) s of
              Inl e \<Rightarrow> Some (Inl e)
            | Inr s \<Rightarrow> others_run which me s))"

definition others :: "(u32 \<Rightarrow> nat) \<Rightarrow> u32 \<Rightarrow> 'a four_threads_scheme \<Rightarrow> 'a four_threads_scheme outcome" where
  "others which me s = andThen (of_loop (others_run which me s)) (\<lambda>r. r)"

text \<open>The first \<open>n\<close> iterations of a loop that runs for ever.\<close>

primrec iterations :: "nat \<Rightarrow> (int \<Rightarrow> 's \<Rightarrow> 's outcome) \<Rightarrow> int \<Rightarrow> 's \<Rightarrow> 's outcome" where
  "iterations 0 body j s = Inr s"
| "iterations (Suc n) body j s = andThen (body j s) (iterations n body (j + 1))"

lemma for_ever_iterations:
  "iterations n body j s = Inr s' \<Longrightarrow> for_ever body j s = for_ever body (j + int n) s'"
proof (induction n arbitrary: j s)
  case (Suc n)
  then obtain s1 where s1: "body j s = Inr s1" "iterations n body (j + 1) s1 = Inr s'" by (auto simp: andThen_eq_Inr)
  have "for_ever body j s = for_ever body (j + 1) s1" by (subst for_ever.simps) (simp add: s1(1))
  then show ?case using Suc.IH [OF s1(2)] by (simp add: add.assoc)
qed simp

lemma iterations_Suc_end: "iterations (Suc n) body j s = andThen (iterations n body j s) (body (j + int n))"
proof (induction n arbitrary: j s)
  case 0
  show ?case by (cases "body j s") simp_all
next
  case (Suc n)
  show ?case
    using Suc.IH [of "j + 1"] by (cases "body j s") (simp_all add: add.assoc)
qed

section \<open>Prints\<close>

text \<open>What only prints, or changes the interrupt flag and the memory of a buffer.\<close>

definition alike :: "'a four_threads_scheme \<Rightarrow> 'a four_threads_scheme \<Rightarrow> bool" where
  "alike s s' \<longleftrightarrow> queue_nodes s' = queue_nodes s \<and> ready_queue s' = ready_queue s \<and> io_queue s' = io_queue s
     \<and> queue_locked s' = queue_locked s \<and> hw_locked s' = hw_locked s \<and> start_address s' = start_address s
     \<and> thread_objs s' = thread_objs s \<and> current_thread s' = current_thread s \<and> port_input s' = port_input s
     \<and> port_reads s' = port_reads s \<and> sched_state.more s' = sched_state.more s \<and> (\<forall>c. ata_run (port_log s') c = ata_run (port_log s) c)"

lemma alike_refl [simp]: "alike s s"
  by (simp add: alike_def)

lemma alike_trans: "alike s s' \<Longrightarrow> alike s' s'' \<Longrightarrow> alike s s''"
  by (simp add: alike_def)

lemma ata_putch: "ata_run (port_log (putch c s)) a = ata_run (port_log s) a"
  by (auto simp: putch_def put_char_def scroll_def move_cursor_def serial_def outportb_def Let_def ata_run_append)
    (simp_all add: ata_run_def ata_step_def)

lemma port_reads_putch: "port_reads (putch c s) = port_reads s"
  by (simp add: putch_def put_char_def scroll_def move_cursor_def serial_def outportb_def Let_def)

lemma alike_putch: "alike s (putch c v) = alike s v"
  by (simp add: alike_def ata_putch port_reads_putch)

lemma alike_ram [simp]: "alike s (v\<lparr>ram := r\<rparr>) = alike s v"
  by (simp add: alike_def)

lemmas alike_messages [simp] = alike_putch putch_invariant [where f = "alike s" for s, OF alike_putch]

lemma ram_putch: "ram (putch c s) = ram s"
  by (simp add: putch_def put_char_def scroll_def move_cursor_def serial_def outportb_def Let_def)

lemmas ram_messages [simp] = ram_putch putch_invariant [where f = ram, OF ram_putch]

lemma burst_prints_invariant:
  assumes "\<And>c s. f (putch c s) = f s"
  shows "f (print_number pre n post s) = f s" "f (print_ticks name i s) = f s" "f (burst_prints k j s) = f s"
proof -
  note f = putch_invariant [of f, OF assms]
  show n: "f (print_number pre n post s) = f s" for pre n post s by (simp add: print_number_def f)
  show t: "f (print_ticks name i s) = f s" for name i s by (induction i) (simp_all add: n)
  show "f (burst_prints k j s) = f s" by (simp add: burst_prints_def n t)
qed

lemmas alike_bursts [simp] = burst_prints_invariant [where f = "alike s" for s, OF alike_putch]
lemmas ram_bursts [simp] = burst_prints_invariant [where f = ram, OF ram_putch]

lemma begin_fun_alike:
  assumes "thread_objs s (current_thread s) \<noteq> None"
  shows "\<exists>s'. begin_fun k s = Inr s' \<and> alike s s' \<and> ram s' = ram s"
proof -
  obtain t where t: "thread_objs s (current_thread s) = Some t" using assms by blast
  obtain s1 where s1: "thread_start s = Inr s1" "alike s s1" "ram s1 = ram s"
    by (cases "interrupts_enabled s") (simp_all add: thread_start_def enable_disable alike_def)
  then have "say_thread s1 = Inr (print_number ''THREAD: '' (thread_id t) '''' s1)"
    using t by (simp add: say_thread_def ThreadId_def CurrentThread_def alike_def)
  then show ?thesis using s1 by (simp add: begin_fun_def)
qed

text \<open>Filling the buffer.\<close>

lemma show_and_fill_spec:
  "n \<le> 512 \<Longrightarrow> alike s (show_and_fill buf j n s)
    \<and> (\<forall>x. ram (show_and_fill buf j n s) x = (if \<exists>i<n. x = buf + word_of_nat i then word_of_int (j smod 256) else ram s x))"
proof (induction n)
  case (Suc n)
  let ?s = "show_and_fill buf j n s"
  have IH: "alike s ?s" "ram ?s x = (if \<exists>i<n. x = buf + word_of_nat i then word_of_int (j smod 256) else ram s x)" for x
    using Suc by simp_all
  have "alike s (show_and_fill buf j (Suc n) s)" using IH(1) by (simp add: Let_def)
  then show ?case by (auto simp: Let_def IH(2) less_Suc_eq)
qed simp

definition block_word :: "int \<Rightarrow> u16" where
  "block_word j = (let b = word_of_int (j smod 256) :: u8 in ucast b OR push_bit 8 (ucast b))"

lemma filled_words:
  assumes "\<And>x. m x = (if \<exists>i<512. x = buf + word_of_nat i then word_of_int (j smod 256) else r x)" and "i < 256"
  shows "buffer_word m buf i = block_word j"
proof -
  have "\<exists>k<512. buf + word_of_nat (2 * i) = buf + word_of_nat k" "\<exists>k<512. buf + word_of_nat (2 * i + 1) = buf + word_of_nat k"
    using assms(2) by (intro exI [of _ "2 * i"] exI [of _ "2 * i + 1"]; simp)+
  then have "m (buf + word_of_nat (2 * i)) = word_of_int (j smod 256)" "m (buf + word_of_nat (2 * i + 1)) = word_of_int (j smod 256)"
    using assms(1) by presburger+
  then show ?thesis by (simp only: buffer_word_def block_word_def Let_def)
qed

section \<open>The system\<close>

text \<open>The disk is never busy and never reports an error.\<close>

definition disk_ready :: "'a disk_state_scheme \<Rightarrow> bool" where
  "disk_ready s \<longleftrightarrow> (\<forall>n. \<not> busy_at s n \<and> verdict (ucast (port_input s n 0x1F7)) = 0)"

text \<open>
  The threads \<open>ts\<close> and the thread \<open>me\<close> that uses the disk: each of \<open>ts\<close> either runs or is in the
  ready queue \<open>R\<close> exactly once; how often \<open>me\<close> is there is left open.  Only \<open>me\<close> is in the disk's
  queue \<open>D\<close>.
\<close>

definition crew :: "u32 \<Rightarrow> u32 list \<Rightarrow> 'a four_threads_scheme \<Rightarrow> (u32 \<times> u32) list \<Rightarrow> (u32 \<times> u32) list \<Rightarrow> bool" where
  "crew me ts s R D \<longleftrightarrow> sched_ok s R D \<and> snd ` set D \<subseteq> {me}
     \<and> 0 \<notin> set (me # ts) \<and> me \<notin> set ts \<and> (\<forall>t\<in>set (me # ts). thread_objs s t \<noteq> None)
     \<and> mset (filter (\<lambda>t. t \<noteq> me) (current_thread s # map snd R)) = mset ts
     \<and> (\<forall>t n. suspended s t = Some n \<longrightarrow> n \<notin> fst ` set R \<union> fst ` set D \<and> unat n < unat (start_address s))"

definition four_ok :: "u32 \<Rightarrow> u32 list \<Rightarrow> 'a four_threads_scheme \<Rightarrow> (u32 \<times> u32) list \<Rightarrow> bool" where
  "four_ok me ts s R \<longleftrightarrow> crew me ts s R [] \<and> \<not> hw_locked s \<and> disk_ready s"

lemma more_fields:
  "sched_state.more s' = sched_state.more s \<Longrightarrow> suspended s' = suspended s \<and> bursts s' = bursts s"
  by (cases s; cases s') simp

lemma crew_fields [simp]:
  "crew me ts (s\<lparr>port_log := l\<rparr>) R D = crew me ts s R D" "crew me ts (s\<lparr>port_reads := r\<rparr>) R D = crew me ts s R D"
  "crew me ts (s\<lparr>ram := m\<rparr>) R D = crew me ts s R D" "crew me ts (s\<lparr>hw_locked := h\<rparr>) R D = crew me ts s R D"
  "crew me ts (s\<lparr>EFLAGS := e\<rparr>) R D = crew me ts s R D"
  by (simp_all add: crew_def sched_ok_def)

lemma alikeD:
  assumes "alike s s'"
  shows "four_ok me ts s' R = four_ok me ts s R" "sched_ok s' R D = sched_ok s R D" "heap_room s' = heap_room s"
    "suspended s' = suspended s" "bursts s' = bursts s" "start_address s' = start_address s" "thread_objs s' = thread_objs s"
    "current_thread s' = current_thread s" "hw_locked s' = hw_locked s" "port_input s' = port_input s"
    "port_reads s' = port_reads s" "ata_run (port_log s') c = ata_run (port_log s) c"
  using assms more_fields [of s' s]
  by (simp_all add: alike_def four_ok_def crew_def sched_ok_def disk_ready_def busy_at_def heap_room_def)

lemma crewD:
  assumes "crew me ts s R D"
  shows "sched_ok s R D" "current_thread s \<noteq> 0" "thread_objs s (current_thread s) \<noteq> None" "current_thread s \<in> set (me # ts)"
proof -
  show "current_thread s \<in> set (me # ts)"
  proof (cases "current_thread s = me")
    case False
    have "mset (filter (\<lambda>t. t \<noteq> me) (current_thread s # map snd R)) = mset ts" using assms by (simp only: crew_def)
    from mset_eq_setD [OF this] False show ?thesis by auto
  qed simp
  then show "current_thread s \<noteq> 0" "thread_objs s (current_thread s) \<noteq> None" using assms by (auto simp: crew_def)
qed (use assms in \<open>simp add: crew_def\<close>)

lemma four_okD:
  assumes "four_ok me ts s R"
  shows "crew me ts s R []" "\<not> hw_locked s" "disk_ready s"
  using assms by (simp_all add: four_ok_def)

text \<open>From the caller's last statement to the switch: the choice is that of \<open>next_thread\<close>.\<close>

lemma yield_select_reads:
  assumes "\<not> queue_locked s" and "current_thread s \<noteq> 0" and "yield_select ro 0 s = Inr (choice, s')"
  shows "port_reads s' = port_reads s + 1"
  using assms
  by (auto simp: yield_select_eq take_ready_def take_io_def unlock_eq interrupts_on_eq at_select_def Let_def andThen_eq_Inr
      split: if_splits)

lemma pass_select_ok:
  assumes ok: "sched_ok s R D" and cur: "current_thread s \<noteq> 0" and room: "12 \<le> heap_room s"
    and choice: "next_thread (busy_at s (port_reads s)) (R @ [(start_address s, current_thread s)]) D = (Some (n, t), Q, D')"
  shows "\<exists>s' v. pass_select s = Inr (Some n, s') \<and> sched_ok s' Q D' \<and> queue_nodes s' n = Some v \<and> node_thread v = t
    \<and> hw_locked s' = hw_locked s \<and> port_input s' = port_input s \<and> thread_objs s' = thread_objs s \<and> ram s' = ram s
    \<and> port_log s' = port_log s \<and> start_address s' = start_address s + 12 \<and> sched_state.more s' = sched_state.more s
    \<and> port_reads s' = port_reads s + 1"
proof -
  obtain s1 h q where r: "resume (current_thread s) s = Inr s1" "sched_ok s1 (R @ [(start_address s, current_thread s)]) D"
    "s1 = s\<lparr>start_address := start_address s + 12, queue_nodes := h, ready_queue := q, EFLAGS := EFLAGS s OR IF_mask\<rparr>"
    using resume_ok [OF ok room, of "current_thread s"] by (elim exE conjE)
  have cur1: "current_thread s1 \<noteq> 0" using cur r(3) by simp
  have "next_thread (0 = (0 :: int) \<and> busy_at s1 (port_reads s1)) (R @ [(start_address s, current_thread s)]) D = (Some (n, t), Q, D')"
    using choice by (simp add: r(3) busy_at_def)
  from yield_select_refines [OF r(2) cur1 this, of Inr]
  obtain s2 v where y: "yield_select Inr 0 s1 = Inr (Some n, s2)" "sched_ok s2 Q D'" "same_threads s1 s2"
    "queue_nodes s2 n = Some v" "node_thread v = t" by auto
  have "pass_select s = Inr (Some n, s2)" using r(1) y(1) by (simp add: pass_select_def CurrentThread_def)
  moreover have "\<not> queue_locked s1" using r(2) by (simp add: sched_ok_def)
  then have "port_reads s2 = port_reads s1 + 1" using yield_select_reads cur1 y(1) by blast
  ultimately show ?thesis using y r(3) by (intro exI [of _ s2] exI [of _ v]) (simp add: same_threads_def)
qed

text \<open>The nodes before and after a choice.\<close>

lemma next_nodes:
  assumes "next_thread b (R @ [(a, c)]) D = (Some (n, t), Q, D')"
  shows "mset ((n, t) # Q @ D') = mset ((a, c) # R @ D)"
  using assms by (cases "b \<or> D = []"; cases R; cases D) (auto simp: next_thread_def)

lemma node_bounds:
  assumes ok: "sched_ok s R D" and choice: "next_thread b (R @ [(start_address s, c)]) D = (Some (n, t), Q, D')"
    and room: "12 \<le> heap_room s"
  shows "n \<notin> fst ` set Q \<union> fst ` set D'" "unat n < unat (start_address s + 12)"
    "fst ` set Q \<union> fst ` set D' \<subseteq> insert (start_address s) (fst ` set R \<union> fst ` set D)"
    "\<And>m. m \<in> fst ` set R \<union> fst ` set D \<Longrightarrow> unat m < unat (start_address s)"
proof -
  have d: "distinct (map fst R)" "distinct (map fst D)" "fst ` set R \<inter> fst ` set D = {}"
    and b: "\<And>m. m \<in> fst ` set R \<union> fst ` set D \<Longrightarrow> unat m < unat (start_address s)"
    using ok by (auto simp: sched_ok_def list_repr_def)
  show "\<And>m. m \<in> fst ` set R \<union> fst ` set D \<Longrightarrow> unat m < unat (start_address s)" by (rule b)
  have "start_address s \<notin> fst ` set R \<union> fst ` set D" using b by blast
  then have "distinct (map fst ((start_address s, c) # R @ D))" using d by auto
  moreover have m: "mset (map fst ((n, t) # Q @ D')) = mset (map fst ((start_address s, c) # R @ D))"
    unfolding mset_map next_nodes [OF choice] by (rule refl)
  ultimately have "distinct (map fst ((n, t) # Q @ D'))" using mset_eq_imp_distinct_iff by blast
  then show "n \<notin> fst ` set Q \<union> fst ` set D'" by auto
  have e: "insert n (fst ` set Q \<union> fst ` set D') = insert (start_address s) (fst ` set R \<union> fst ` set D)"
    using mset_eq_setD [OF m] by (simp add: image_Un)
  then show "fst ` set Q \<union> fst ` set D' \<subseteq> insert (start_address s) (fst ` set R \<union> fst ` set D)" by blast
  have "n = start_address s \<or> n \<in> fst ` set R \<union> fst ` set D" using e by blast
  then show "unat n < unat (start_address s + 12)"
    unfolding start_grows(1) [OF room] using b [of n] by (elim disjE) simp_all
qed

lemma crew_passed:
  assumes ok: "crew me ts s R D" and room: "12 \<le> heap_room s"
    and choice: "next_thread b (R @ [(start_address s, current_thread s)]) D = (Some (n, t), Q, D')"
    and s': "sched_ok s' Q D'" "current_thread s' = t" "thread_objs s' = thread_objs s" "start_address s' = start_address s + 12"
      "suspended s' = suspended s \<or> suspended s' = (suspended s)(c \<mapsto> n)"
  shows "crew me ts s' Q D'"
proof -
  note D = crewD [OF ok]
  note nb = node_bounds [OF D(1) choice room]
  have u: "unat (start_address s + 12) = unat (start_address s) + 12" by (rule start_grows(1) [OF room])
  have old: "m \<notin> fst ` set Q \<union> fst ` set D' \<and> unat m < unat (start_address s + 12)" if "suspended s x = Some m" for x m
  proof -
    have m: "m \<notin> fst ` set R \<union> fst ` set D" "unat m < unat (start_address s)" using ok that by (simp_all add: crew_def)
    then have "m \<notin> insert (start_address s) (fst ` set R \<union> fst ` set D)" by auto
    then show ?thesis using nb(3) m(2) unfolding u by auto
  qed
  have pend: "m \<notin> fst ` set Q \<union> fst ` set D' \<and> unat m < unat (start_address s + 12)" if "suspended s' x = Some m" for x m
  proof -
    have "suspended s x = Some m \<or> m = n" using s'(5) that by (auto split: if_splits)
    then show ?thesis using old nb(1,2) by blast
  qed
  have io: "snd ` set D \<subseteq> {me}" using ok by (simp add: crew_def)
  have "mset (filter (\<lambda>x. x \<noteq> me) (t # map snd Q)) = mset (filter (\<lambda>x. x \<noteq> me) (current_thread s # map snd R)) \<and> snd ` set D' \<subseteq> {me}"
    using choice io by (cases "b \<or> D = []"; cases R; cases D) (auto simp: next_thread_def)
  moreover have "mset (filter (\<lambda>x. x \<noteq> me) (current_thread s # map snd R)) = mset ts" using ok by (simp only: crew_def)
  ultimately show ?thesis
    using ok s'(1) pend unfolding crew_def s'(2-4) by (simp del: filter.simps)
qed

text \<open>One of the other threads, from a switch to the next.\<close>

lemma turn_ok:
  assumes ok: "crew me ts s R D" and room: "12 \<le> heap_room s"
    and choice: "next_thread (busy_at s (port_reads s)) (R @ [(start_address s, current_thread s)]) D = (Some (n, t), Q, D')"
  shows "\<exists>s'. turn k s = Inr s' \<and> current_thread s' = t \<and> crew me ts s' Q D'
    \<and> start_address s' = start_address s + 12 \<and> heap_room s' = heap_room s - 12 \<and> ram s' = ram s
    \<and> hw_locked s' = hw_locked s \<and> port_input s' = port_input s \<and> port_reads s' = port_reads s + 1
    \<and> ata_run (port_log s') a = ata_run (port_log s) a"
proof -
  let ?c = "current_thread s"
  note D = crewD [OF ok]
  define s0 where "s0 = (case suspended s ?c of None \<Rightarrow> s | Some n \<Rightarrow> yield_finish n s)"
  have "sched_ok s0 R D \<and> same_threads s s0 \<and> port_reads s0 = port_reads s"
  proof (cases "suspended s ?c")
    case (Some m)
    then have "m \<notin> fst ` set R \<union> fst ` set D" using ok by (simp add: crew_def)
    then show ?thesis using yield_finish_ok [OF D(1), of m] Some by (simp add: s0_def yield_finish_def heap_operators Let_def)
  qed (use D(1) in \<open>simp add: s0_def same_threads_def\<close>)
  then have s0: "sched_ok s0 R D" "hw_locked s0 = hw_locked s" "port_input s0 = port_input s" "thread_objs s0 = thread_objs s"
    "ram s0 = ram s" "port_log s0 = port_log s" "start_address s0 = start_address s" "current_thread s0 = ?c"
    "sched_state.more s0 = sched_state.more s" "port_reads s0 = port_reads s"
    by (simp_all add: same_threads_def)
  obtain j s1 where s1: "(case bursts s0 ?c of None \<Rightarrow> andThen (begin_fun k s0) (\<lambda>s. Inr (0, s)) | Some j \<Rightarrow> Inr (j + 1, s0)) = Inr (j, s1)"
    "alike s0 s1" "ram s1 = ram s0"
  proof (cases "bursts s0 ?c")
    case None
    obtain x where "begin_fun k s0 = Inr x" "alike s0 x" "ram x = ram s0"
      using begin_fun_alike [of s0 k] D(3) s0 by auto
    then show ?thesis using None that by simp
  qed (use that in simp)
  define s2 where "s2 = burst_prints k j s1"
  have "alike s0 s2" "ram s2 = ram s" using s1(2,3) s0(5) by (simp_all add: s2_def)
  note s2 = alikeD [OF this(1)] this(2)
  have ch: "next_thread (busy_at s2 (port_reads s2)) (R @ [(start_address s2, current_thread s2)]) D = (Some (n, t), Q, D')"
    using choice by (simp add: s2 s0 busy_at_def)
  have p: "sched_ok s2 R D" "current_thread s2 \<noteq> 0" "12 \<le> heap_room s2" using s0 D(2) room by (simp_all add: s2 heap_room_def)
  obtain s3 v where s3: "pass_select s2 = Inr (Some n, s3)" "sched_ok s3 Q D'" "queue_nodes s3 n = Some v" "node_thread v = t"
    "hw_locked s3 = hw_locked s2" "port_input s3 = port_input s2" "thread_objs s3 = thread_objs s2" "ram s3 = ram s2"
    "port_log s3 = port_log s2" "start_address s3 = start_address s2 + 12" "sched_state.more s3 = sched_state.more s2"
    "port_reads s3 = port_reads s2 + 1"
    using pass_select_ok [OF p ch] by (elim exE conjE)
  note m3 = more_fields [OF s3(11)]
  let ?s = "s3\<lparr>bursts := (bursts s3)(?c \<mapsto> j), current_thread := t, suspended := (suspended s3)(?c \<mapsto> n)\<rparr>"
  have b: "bursts s0 = bursts s" "suspended s0 = suspended s" using more_fields [OF s0(9)] by simp_all
  have "turn k s = Inr ?s"
    unfolding turn_def Let_def s0_def [symmetric] s1(1) andThen_simps split_conv s2_def [symmetric] s3(1)
    using s3(3,4) by simp
  moreover have "crew me ts ?s Q D'"
    by (rule crew_passed [OF ok room choice, where c = ?c]) (use s3(2) in \<open>simp_all add: sched_ok_def s3(7,10) s2 s0 m3 b\<close>)
  moreover have "heap_room ?s = heap_room s - 12"
    by (simp add: heap_room_def s3(10) s2 s0 start_grows(1) [OF room])
  ultimately show ?thesis using s3(5,6,8-10,12) by (intro exI [of _ ?s]) (simp add: s2 s0)
qed

lemma next_ready: "next_thread b (r # R) [] = (Some r, R, [])"
  by (simp add: next_thread_def)

text \<open>Nothing waits for the disk: the others take turns until \<open>me\<close>, in the queue behind \<open>xs\<close>, is dispatched.\<close>

lemma others_run_ok:
  assumes "crew me ts s R []" and "current_thread s # map snd R = xs @ me # ys" and "me \<notin> set xs"
    and "12 * length xs \<le> heap_room s"
  shows "\<exists>s' R'. others_run which me s = Some (Inr s') \<and> current_thread s' = me \<and> crew me ts s' R' [] \<and> map snd R' = ys @ xs
    \<and> heap_room s' = heap_room s - 12 * length xs \<and> unat (start_address s) \<le> unat (start_address s')
    \<and> (\<forall>m \<in> fst ` set R'. m \<in> fst ` set R \<or> unat (start_address s) \<le> unat m)
    \<and> ram s' = ram s \<and> hw_locked s' = hw_locked s \<and> port_input s' = port_input s
    \<and> ata_run (port_log s') a = ata_run (port_log s) a"
  using assms
proof (induction xs arbitrary: s R ys)
  case Nil
  then have "current_thread s = me" "map snd R = ys" by simp_all
  then show ?case using Nil.prems(1)
    by (intro exI [of _ s] exI [of _ R]) (simp add: others_run.simps [of which me s])
next
  case (Cons c xs)
  have c: "current_thread s = c" "c \<noteq> me" "map snd R = xs @ me # ys" using Cons.prems(2,3) by auto
  then obtain n t Q where R: "R = (n, t) # Q" by (cases R) auto
  have room: "12 \<le> heap_room s" using Cons.prems(4) by simp
  have "next_thread (busy_at s (port_reads s)) (R @ [(start_address s, current_thread s)]) []
      = (Some (n, t), Q @ [(start_address s, c)], [])"
    unfolding R c(1) append_Cons by (rule next_ready)
  from turn_ok [OF Cons.prems(1) room this, of "which c" a]
  obtain s1 where s1: "turn (which c) s = Inr s1" "current_thread s1 = t" "crew me ts s1 (Q @ [(start_address s, c)]) []"
    "start_address s1 = start_address s + 12" "heap_room s1 = heap_room s - 12" "ram s1 = ram s"
    "hw_locked s1 = hw_locked s" "port_input s1 = port_input s" "ata_run (port_log s1) a = ata_run (port_log s) a"
    by (elim exE conjE)
  have q: "current_thread s1 # map snd (Q @ [(start_address s, c)]) = xs @ me # (ys @ [c])"
    using c(3) R s1(2) by simp
  have "me \<notin> set xs" "12 * length xs \<le> heap_room s1" using Cons.prems(3,4) s1(5) by simp_all
  from Cons.IH [OF s1(3) q this]
  obtain s' R' where s': "others_run which me s1 = Some (Inr s')" "current_thread s' = me" "crew me ts s' R' []"
    "map snd R' = (ys @ [c]) @ xs" "heap_room s' = heap_room s1 - 12 * length xs" "unat (start_address s1) \<le> unat (start_address s')"
    "\<forall>m \<in> fst ` set R'. m \<in> fst ` set (Q @ [(start_address s, c)]) \<or> unat (start_address s1) \<le> unat m"
    "ram s' = ram s1" "hw_locked s' = hw_locked s1" "port_input s' = port_input s1"
    "ata_run (port_log s') a = ata_run (port_log s1) a"
    by (elim exE conjE)
  have u: "unat (start_address s1) = unat (start_address s) + 12" unfolding s1(4) by (rule start_grows(1) [OF room])
  have "\<forall>m \<in> fst ` set R'. m \<in> fst ` set R \<or> unat (start_address s) \<le> unat m"
  proof
    fix m assume "m \<in> fst ` set R'"
    then have "m \<in> fst ` set (Q @ [(start_address s, c)]) \<or> unat (start_address s1) \<le> unat m" using s'(7) by blast
    then show "m \<in> fst ` set R \<or> unat (start_address s) \<le> unat m" unfolding u R by auto
  qed
  moreover have "others_run which me s = Some (Inr s')"
    using s1(1) s'(1) c(1,2) by (subst others_run.simps) simp
  ultimately show ?case using s' s1(5-9) u by (intro exI [of _ s'] exI [of _ R']) simp
qed

section \<open>The thread that uses the disk\<close>

text \<open>Dispatched to itself, the thread goes on at once.\<close>

lemma others_self: "current_thread s = me \<Longrightarrow> others which me s = Inr s"
  by (simp add: others_def others_run.simps [of which me s])

text \<open>An operation on the disk ends with the caller once more in the ready queue.\<close>

lemma finish_own_node:
  assumes ok: "sched_ok x (R @ [(start_address s + 12, me)]) []" and s: "crew me ts s R []" "current_thread s = me"
    and room: "24 \<le> heap_room s" and cur: "current_thread x = me"
    and f: "start_address x = start_address s + 24" "thread_objs x = thread_objs s" "sched_state.more x = sched_state.more s"
  defines "s' \<equiv> yield_finish (start_address s) x"
  shows "crew me ts s' (R @ [(start_address s + 12, me)]) []" "current_thread s' = me" "ram s' = ram x" "port_log s' = port_log x"
    "heap_room s' = heap_room x" "hw_locked s' = hw_locked x" "port_input s' = port_input x"
proof -
  have u: "unat (start_address s + 12) = unat (start_address s) + 12" "unat (start_address s + 24) = unat (start_address s) + 24"
    using room by (simp_all add: heap_room_def unat_word_ariths)
  have below: "unat m < unat (start_address s)" if "m \<in> fst ` set R" for m
    using s(1) that by (auto simp: crew_def sched_ok_def)
  have "start_address s \<noteq> start_address s + 12" using u(1) by (metis less_add_same_cancel1 less_irrefl zero_less_numeral)
  then have "start_address s \<notin> fst ` set (R @ [(start_address s + 12, me)]) \<union> fst ` set []" using below by fastforce
  from yield_finish_ok [OF ok this]
  have y: "sched_ok s' (R @ [(start_address s + 12, me)]) []" "same_threads x s'" by (simp_all add: s'_def)
  then have g: "thread_objs s' = thread_objs x" "sched_state.more s' = sched_state.more x" "start_address s' = start_address x"
    by (simp_all add: same_threads_def)
  show h: "current_thread s' = me" "ram s' = ram x" "port_log s' = port_log x" "heap_room s' = heap_room x"
    "hw_locked s' = hw_locked x" "port_input s' = port_input x"
    using y(2) cur by (simp_all add: same_threads_def heap_room_def)
  have pend: "m \<notin> fst ` set (R @ [(start_address s + 12, me)]) \<and> unat m < unat (start_address s + 24)"
    if "suspended s z = Some m" for z m
  proof -
    have "m \<notin> fst ` set R" "unat m < unat (start_address s)" using s(1) that by (simp_all add: crew_def)
    then show ?thesis using u by auto
  qed
  have "suspended s' = suspended s" using more_fields [of s' s] g(2) f(3) by simp
  then show "crew me ts s' (R @ [(start_address s + 12, me)]) []"
    using s y(1) pend f unfolding crew_def g f by (simp add: h(1))
qed

lemma four_read:
  assumes ok: "four_ok me ts s R" and cur: "current_thread s = me" and room: "24 \<le> heap_room s"
  shows "\<exists>s' n. nb_read (others which me) block_no buf s = Inr s' \<and> four_ok me ts s' (R @ [(n, me)]) \<and> current_thread s' = me
    \<and> heap_room s' = heap_room s - 24
    \<and> (\<forall>i<256. buffer_word (ram s') buf i = port_input s (port_reads s + 7 + i) 0x1F0)
    \<and> ata_commands (ata_run (port_log s') a) = ata_commands (ata_run (port_log s) a) @ [(0x20, block_no AND 0x0FFFFFFF)]
    \<and> ata_data (ata_run (port_log s') a) = ata_data (ata_run (port_log s) a)"
proof -
  note D = four_okD [OF ok]
  have r: "\<not> busy_at s m" "verdict (ucast (port_input s m 0x1F7)) = 0" for m using D(3) by (simp_all add: disk_ready_def)
  obtain x where x: "nb_read (others which me) block_no buf s
      = andThen (others which me x) (\<lambda>s2. Inr (yield_finish (start_address s) s2))"
    "current_thread x = me" "sched_ok x (R @ [(start_address s + 12, me)]) []" "\<not> hw_locked x"
    "\<forall>i<256. buffer_word (ram x) buf i = port_input s (port_reads s + 7 + i) 0x1F0"
    "ata_commands (ata_run (port_log x) a) = ata_commands (ata_run (port_log s) a) @ [(0x20, block_no AND 0x0FFFFFFF)]"
    "ata_data (ata_run (port_log x) a) = ata_data (ata_run (port_log s) a)"
    "port_input x = port_input s" "heap_room x = heap_room s - 24" "start_address x = start_address s + 24"
    "thread_objs x = thread_objs s" "sched_state.more x = sched_state.more s"
    using nb_read_ready [OF crewD(1,2) [OF D(1)] room D(2) r(1) r(1) r(2) r(1), of "others which me" block_no buf a] cur by auto
  note f = finish_own_node [OF x(3) D(1) cur room x(2) x(10-12)]
  show ?thesis using x f D(3)
    by (intro exI [of _ "yield_finish (start_address s) x"] exI [of _ "start_address s + 12"]) (simp add: others_self four_ok_def disk_ready_def busy_at_def)
qed

lemma four_write:
  assumes ok: "four_ok me ts s R" and cur: "current_thread s = me" and room: "24 \<le> heap_room s"
  shows "\<exists>s' n. nb_write (others which me) block_no buf s = Inr s' \<and> four_ok me ts s' (R @ [(n, me)]) \<and> current_thread s' = me
    \<and> heap_room s' = heap_room s - 24 \<and> ram s' = ram s
    \<and> ata_commands (ata_run (port_log s') a) = ata_commands (ata_run (port_log s) a)
        @ [(0x30, block_no AND 0x0FFFFFFF), (0xE7, block_no AND 0x0FFFFFFF)]
    \<and> ata_data (ata_run (port_log s') a) = ata_data (ata_run (port_log s) a) @ map (buffer_word (ram s) buf) [0..<256]"
proof -
  note D = four_okD [OF ok]
  have r: "\<not> busy_at s m" for m using D(3) by (simp add: disk_ready_def)
  obtain x where x: "nb_write (others which me) block_no buf s
      = andThen (others which me x) (\<lambda>s2. Inr (yield_finish (start_address s) s2))"
    "current_thread x = me" "sched_ok x (R @ [(start_address s + 12, me)]) []" "\<not> hw_locked x"
    "ram x = ram s"
    "ata_commands (ata_run (port_log x) a) = ata_commands (ata_run (port_log s) a)
        @ [(0x30, block_no AND 0x0FFFFFFF), (0xE7, block_no AND 0x0FFFFFFF)]"
    "ata_data (ata_run (port_log x) a) = ata_data (ata_run (port_log s) a) @ map (buffer_word (ram s) buf) [0..<256]"
    "port_input x = port_input s" "heap_room x = heap_room s - 24" "start_address x = start_address s + 24"
    "thread_objs x = thread_objs s" "sched_state.more x = sched_state.more s"
    using nb_write_ready [OF crewD(1,2) [OF D(1)] room D(2) r r r r, of "others which me" block_no buf a] cur by (auto simp del: upt_Suc)
  note f = finish_own_node [OF x(3) D(1) cur room x(2) x(10-12)]
  show ?thesis using x f D(3)
    by (intro exI [of _ "yield_finish (start_address s) x"] exI [of _ "start_address s + 12"]) (simp add: others_self four_ok_def disk_ready_def busy_at_def del: upt_Suc)
qed

text \<open>Deleting the node of a dispatch that is over.\<close>

lemma crew_finish:
  assumes ok: "crew me ts s R []" and n: "n \<notin> fst ` set R"
  shows "crew me ts (yield_finish n s) R []" "current_thread (yield_finish n s) = current_thread s"
    "heap_room (yield_finish n s) = heap_room s" "ram (yield_finish n s) = ram s" "hw_locked (yield_finish n s) = hw_locked s"
    "port_input (yield_finish n s) = port_input s" "port_reads (yield_finish n s) = port_reads s"
    "port_log (yield_finish n s) = port_log s"
proof -
  have "n \<notin> fst ` set R \<union> fst ` set []" using n by simp
  from yield_finish_ok [OF crewD(1) [OF ok] this]
  have f: "sched_ok (yield_finish n s) R []" "same_threads s (yield_finish n s)" by simp_all
  then have g: "thread_objs (yield_finish n s) = thread_objs s" "start_address (yield_finish n s) = start_address s"
    "suspended (yield_finish n s) = suspended s"
    using more_fields [of "yield_finish n s" s] by (simp_all add: same_threads_def)
  show h: "current_thread (yield_finish n s) = current_thread s" "heap_room (yield_finish n s) = heap_room s"
    "ram (yield_finish n s) = ram s" "hw_locked (yield_finish n s) = hw_locked s"
    "port_input (yield_finish n s) = port_input s" "port_log (yield_finish n s) = port_log s"
    using f(2) by (simp_all add: same_threads_def heap_room_def)
  show "port_reads (yield_finish n s) = port_reads s" by (simp add: yield_finish_def heap_operators Let_def)
  show "crew me ts (yield_finish n s) R []" using ok f(1) unfolding crew_def by (simp add: g h(1))
qed

text \<open>
  Passing the processor on: the caller goes to the end of the queue, and the others take turns until
  its first entry in the queue is reached.
\<close>

lemma crew_pass:
  assumes ok: "crew me ts s R []" and cur: "current_thread s = me" and room: "12 + 12 * length ts \<le> heap_room s"
  shows "\<exists>s' R'. pass_on_CPU (others which me) t0 s = Inr s' \<and> current_thread s' = me \<and> crew me ts s' R' []
    \<and> count_list (map snd R') me = count_list (map snd R) me
    \<and> (me \<notin> set (map snd R) \<longrightarrow> map snd R' = map snd R)
    \<and> heap_room s \<le> heap_room s' + 12 + 12 * length ts \<and> ram s' = ram s
    \<and> hw_locked s' = hw_locked s \<and> port_input s' = port_input s
    \<and> ata_run (port_log s') a = ata_run (port_log s) a"
proof -
  note D = crewD [OF ok]
  obtain n t Q where Q: "R @ [(start_address s, current_thread s)] = (n, t) # Q"
    by (metis append_is_Nil_conv neq_Nil_conv prod.exhaust)
  have choice: "next_thread b (R @ [(start_address s, current_thread s)]) [] = (Some (n, t), Q, [])" for b
    unfolding Q by (rule next_ready)
  have room1: "12 \<le> heap_room s" using room by simp
  obtain s1 v where s1: "pass_select s = Inr (Some n, s1)" "sched_ok s1 Q []" "queue_nodes s1 n = Some v" "node_thread v = t"
    "hw_locked s1 = hw_locked s" "port_input s1 = port_input s" "thread_objs s1 = thread_objs s" "ram s1 = ram s"
    "port_log s1 = port_log s" "start_address s1 = start_address s + 12" "sched_state.more s1 = sched_state.more s"
    using pass_select_ok [OF D(1,2) room1 choice] by (elim exE conjE)
  let ?s = "s1\<lparr>current_thread := t\<rparr>"
  note nb = node_bounds [OF D(1) choice room1]
  have tq: "t # map snd Q = map snd R @ [me]" using arg_cong [OF Q, of "map snd"] cur by simp
  have ok1: "crew me ts ?s Q []"
    by (rule crew_passed [OF ok room1 choice])
      (use s1(2) more_fields [OF s1(11)] in \<open>simp_all add: sched_ok_def s1(7,10)\<close>)
  have "me \<in> set (t # map snd Q)" unfolding tq by simp
  then obtain xs ys where xs: "t # map snd Q = xs @ me # ys" "me \<notin> set xs" by (meson split_list_first)
  have len: "length xs \<le> length ts"
  proof -
    have "mset (filter (\<lambda>x. x \<noteq> me) (t # map snd Q)) = mset ts" using ok1 by (simp add: crew_def)
    then have "length (filter (\<lambda>x. x \<noteq> me) (xs @ me # ys)) = length ts" unfolding xs(1) by (metis size_mset)
    moreover have "filter (\<lambda>x. x \<noteq> me) xs = xs" using xs(2) by (induction xs) auto
    ultimately show ?thesis by simp
  qed
  have h1: "heap_room ?s = heap_room s - 12" by (simp add: heap_room_def s1(10) start_grows(1) [OF room1])
  have "12 * length xs \<le> heap_room ?s" using len room unfolding h1 by simp
  moreover have "current_thread ?s # map snd Q = xs @ me # ys" using xs(1) by simp
  ultimately obtain s2 R2 where s2: "others_run which me ?s = Some (Inr s2)" "current_thread s2 = me" "crew me ts s2 R2 []"
    "map snd R2 = ys @ xs" "heap_room s2 = heap_room ?s - 12 * length xs" "unat (start_address ?s) \<le> unat (start_address s2)"
    "\<forall>m \<in> fst ` set R2. m \<in> fst ` set Q \<or> unat (start_address ?s) \<le> unat m" "ram s2 = ram ?s"
    "hw_locked s2 = hw_locked ?s" "port_input s2 = port_input ?s" "ata_run (port_log s2) a = ata_run (port_log ?s) a"
    using others_run_ok [OF ok1 _ xs(2), of ys which a] by blast
  let ?f = "yield_finish n s2"
  have n2: "n \<notin> fst ` set R2"
  proof
    assume "n \<in> fst ` set R2"
    then have "n \<in> fst ` set Q \<or> unat (start_address ?s) \<le> unat n" using s2(7) by blast
    then show False using nb(1,2) by (simp add: s1(10))
  qed
  note f = crew_finish [OF s2(3) n2]
  have "pass_on_CPU (others which me) t0 s = Inr ?f"
  proof -
    have "\<not> queue_locked s" using D(1) by (simp add: sched_ok_def)
    from pass_on_CPU_cut [OF this D(2), of "others which me" t0] s1(1,3,4) s2(1)
    show ?thesis by (simp add: yield_dispatch_Some others_def)
  qed
  moreover have "count_list (map snd R2) me = count_list (map snd R) me"
  proof -
    have "Suc (count_list (map snd R2) me) = count_list (xs @ me # ys) me" by (simp add: s2(4) count_list_append)
    also have "\<dots> = Suc (count_list (map snd R) me)" unfolding xs(1) [symmetric] tq by (simp add: count_list_append)
    finally show ?thesis by simp
  qed
  moreover have "map snd R2 = map snd R" if "me \<notin> set (map snd R)"
  proof -
    have "xs @ me # ys = map snd R @ [me]" using xs(1) tq by simp
    then have "takeWhile (\<lambda>x. x \<noteq> me) (xs @ me # ys) = takeWhile (\<lambda>x. x \<noteq> me) (map snd R @ [me])" by simp
    moreover have "takeWhile (\<lambda>x. x \<noteq> me) (zs @ me # us) = zs" if "me \<notin> set zs" for zs us
      using that by (induction zs) auto
    ultimately have "xs = map snd R" using xs(2) that by simp
    then show ?thesis using s2(4) \<open>xs @ me # ys = map snd R @ [me]\<close> by simp
  qed
  moreover have "heap_room s \<le> heap_room ?f + 12 + 12 * length ts"
    using s2(5) h1 len by (simp add: f)
  ultimately show ?thesis using f s2(2,8-11) s1(5,6,8,9) by (intro exI [of _ ?f] exI [of _ R2]) simp
qed

lemma four_iteration:
  assumes ok: "four_ok me ts s R" and cur: "current_thread s = me" and room: "60 + 12 * length ts \<le> heap_room s"
  shows "\<exists>s' R'. fun2_iteration thread3 buf (others which me) j ((rb, wb), s) = Inr (((rb + 1) smod 10, rb), s')
    \<and> current_thread s' = me \<and> four_ok me ts s' R' \<and> count_list (map snd R') me = count_list (map snd R) me + 2
    \<and> heap_room s \<le> heap_room s' + (60 + 12 * length ts)
    \<and> ata_commands (ata_run (port_log s') a) = ata_commands (ata_run (port_log s) a)
        @ [(0x20, word_of_int rb AND 0x0FFFFFFF), (0x30, word_of_int wb AND 0x0FFFFFFF), (0xE7, word_of_int wb AND 0x0FFFFFFF)]
    \<and> ata_data (ata_run (port_log s') a) = ata_data (ata_run (port_log s) a) @ replicate 256 (block_word j)"
proof -
  define p where "p = print_number ''Reading Block '' rb '' from disk...'' (print_number ''FUN 2 IN ITERATION['' j '']'' s)"
  have "alike s p" by (simp add: p_def)
  note p = alikeD [OF this]
  have p_ok: "four_ok me ts p R" "current_thread p = me" "24 \<le> heap_room p" using ok cur room by (simp_all add: p)
  obtain s1 n1 where s1: "nb_read (others which me) (word_of_int rb) buf p = Inr s1" "four_ok me ts s1 (R @ [(n1, me)])"
    "current_thread s1 = me" "heap_room s1 = heap_room p - 24"
    "ata_commands (ata_run (port_log s1) a) = ata_commands (ata_run (port_log p) a) @ [(0x20, word_of_int rb AND 0x0FFFFFFF)]"
    "ata_data (ata_run (port_log s1) a) = ata_data (ata_run (port_log p) a)"
    using four_read [OF p_ok, of which "word_of_int rb" buf a] by (elim exE conjE)
  define q where "q = print ''Content of block is:'' (print_line '''' s1)"
  define f where "f = show_and_fill buf j 512 q"
  define s2 where "s2 = print_number ''Writing buffer to Block '' wb '' on disk...'' (print_line '''' f)"
  have q: "alike s1 q" by (simp add: q_def)
  have f: "alike q f" "\<And>x. ram f x = (if \<exists>i<512. x = buf + word_of_nat i then word_of_int (j smod 256) else ram q x)"
    using show_and_fill_spec [of 512 q buf j] by (simp_all add: f_def)
  have "alike s1 s2" using alike_trans [OF q f(1)] by (simp add: s2_def)
  note s2 = alikeD [OF this]
  have r2: "ram s2 = ram f" by (simp add: s2_def)
  have words: "map (buffer_word (ram s2) buf) [0..<256] = replicate 256 (block_word j)"
    using filled_words [OF f(2)] unfolding r2 by (intro replicate_eqI) (auto simp del: upt_Suc)
  have s2_ok: "four_ok me ts s2 (R @ [(n1, me)])" "current_thread s2 = me" "24 \<le> heap_room s2"
    using s1(2-4) room by (simp_all add: s2 p)
  obtain s3 n2 where s3: "nb_write (others which me) (word_of_int wb) buf s2 = Inr s3" "four_ok me ts s3 ((R @ [(n1, me)]) @ [(n2, me)])"
    "current_thread s3 = me" "heap_room s3 = heap_room s2 - 24"
    "ata_commands (ata_run (port_log s3) a) = ata_commands (ata_run (port_log s2) a)
        @ [(0x30, word_of_int wb AND 0x0FFFFFFF), (0xE7, word_of_int wb AND 0x0FFFFFFF)]"
    "ata_data (ata_run (port_log s3) a) = ata_data (ata_run (port_log s2) a) @ replicate 256 (block_word j)"
    using four_write [OF s2_ok, of which "word_of_int wb" buf a] unfolding words by (elim exE conjE)
  define s4 where "s4 = print_line ''Done writing'' (print_line '''' s3)"
  have "alike s3 s4" by (simp add: s4_def)
  note s4 = alikeD [OF this]
  have h4: "heap_room s4 + 48 = heap_room s" using s3(4) s1(4) room by (simp add: s4 s2 p)
  have s4_ok: "four_ok me ts s4 ((R @ [(n1, me)]) @ [(n2, me)])" "current_thread s4 = me" "12 + 12 * length ts \<le> heap_room s4"
    using s3(2,3) h4 room by (simp_all add: s4)
  obtain s5 R5 where s5: "pass_on_CPU (others which me) thread3 s4 = Inr s5" "current_thread s5 = me" "crew me ts s5 R5 []"
    "count_list (map snd R5) me = count_list (map snd ((R @ [(n1, me)]) @ [(n2, me)])) me"
    "heap_room s4 \<le> heap_room s5 + 12 + 12 * length ts" "ata_run (port_log s5) a = ata_run (port_log s4) a"
    "hw_locked s5 = hw_locked s4" "port_input s5 = port_input s4"
    using crew_pass [OF four_okD(1) [OF s4_ok(1)] s4_ok(2,3), of which thread3 a] by (elim exE conjE)
  have "four_ok me ts s5 R5"
    using s4_ok(1) s5(3) by (simp add: four_ok_def s5(7,8) disk_ready_def busy_at_def)
  have "fun2_iteration thread3 buf (others which me) j ((rb, wb), s) = Inr (((rb + 1) smod 10, rb), s5)"
    unfolding fun2_iteration_def split_conv Let_def p_def [symmetric] s1(1) andThen_simps q_def [symmetric] f_def [symmetric]
      s2_def [symmetric] s3(1) s4_def [symmetric] s5(1) by (rule refl)
  moreover note \<open>four_ok me ts s5 R5\<close>
  moreover have "count_list (map snd R5) me = count_list (map snd R) me + 2"
    by (simp add: s5(4) count_list_append)
  moreover have "heap_room s \<le> heap_room s5 + (60 + 12 * length ts)" using s5(5) h4 by simp
  ultimately show ?thesis using s5(2,6) s3(5,6) s1(5,6)
    by (intro exI [of _ s5] exI [of _ R5]) (simp add: s4 s2 p)
qed

section \<open>Many iterations\<close>

text \<open>Iteration \<open>i\<close> reads block \<open>i + 1\<close> and writes block \<open>i\<close>, modulo 10.\<close>

definition disk_commands :: "nat \<Rightarrow> (u8 \<times> u32) list" where
  "disk_commands i = [(0x20, word_of_nat (Suc i mod 10)), (0x30, word_of_nat (i mod 10)), (0xE7, word_of_nat (i mod 10))]"

lemma small_block: "k < 10 \<Longrightarrow> (word_of_nat k :: u32) AND 0x0FFFFFFF = word_of_nat k"
proof -
  assume "k < 10"
  then have "k = 0 \<or> k = 1 \<or> k = 2 \<or> k = 3 \<or> k = 4 \<or> k = 5 \<or> k = 6 \<or> k = 7 \<or> k = 8 \<or> k = 9" by presburger
  then show ?thesis by (elim disjE) simp_all
qed

lemma next_block: "(int (Suc n mod 10) + 1) smod 10 = int (Suc (Suc n) mod 10)"
proof -
  have "(int (Suc n mod 10) + 1) smod 10 = (int (Suc n mod 10) + 1) mod 10" by (simp add: signed_modulo_int_def)
  also have "\<dots> = (int (Suc n) + 1) mod 10" by (simp add: zmod_int mod_simps)
  finally show ?thesis by (simp add: zmod_int add.commute)
qed

lemma four_iterations:
  assumes ok: "four_ok me ts s R" and cur: "current_thread s = me" and room: "n * (60 + 12 * length ts) \<le> heap_room s"
  shows "\<exists>s' R'. iterations n (fun2_iteration thread3 buf (others which me)) 0 ((1, 0), s)
        = Inr ((int (Suc n mod 10), int (n mod 10)), s')
    \<and> current_thread s' = me \<and> four_ok me ts s' R' \<and> count_list (map snd R') me = count_list (map snd R) me + 2 * n
    \<and> heap_room s \<le> heap_room s' + n * (60 + 12 * length ts)
    \<and> ata_commands (ata_run (port_log s') a) = ata_commands (ata_run (port_log s) a) @ concat (map disk_commands [0..<n])
    \<and> ata_data (ata_run (port_log s') a) = ata_data (ata_run (port_log s) a)
        @ concat (map (\<lambda>i. replicate 256 (block_word (int i))) [0..<n])"
  using room
proof (induction n)
  case 0
  then show ?case using ok cur by (intro exI [of _ s] exI [of _ R]) simp
next
  case (Suc n)
  obtain s1 R1 where s1: "iterations n (fun2_iteration thread3 buf (others which me)) 0 ((1, 0), s)
        = Inr ((int (Suc n mod 10), int (n mod 10)), s1)"
    "current_thread s1 = me" "four_ok me ts s1 R1" "count_list (map snd R1) me = count_list (map snd R) me + 2 * n"
    "heap_room s \<le> heap_room s1 + n * (60 + 12 * length ts)"
    "ata_commands (ata_run (port_log s1) a) = ata_commands (ata_run (port_log s) a) @ concat (map disk_commands [0..<n])"
    "ata_data (ata_run (port_log s1) a) = ata_data (ata_run (port_log s) a)
        @ concat (map (\<lambda>i. replicate 256 (block_word (int i))) [0..<n])"
    using Suc.IH Suc.prems by auto
  have "60 + 12 * length ts \<le> heap_room s1" using s1(5) Suc.prems by simp
  from four_iteration [OF s1(3,2) this, of thread3 buf which "int n" "int (Suc n mod 10)" "int (n mod 10)" a]
  obtain s2 R2 where s2: "fun2_iteration thread3 buf (others which me) (int n) ((int (Suc n mod 10), int (n mod 10)), s1)
        = Inr (((int (Suc n mod 10) + 1) smod 10, int (Suc n mod 10)), s2)"
    "current_thread s2 = me" "four_ok me ts s2 R2" "count_list (map snd R2) me = count_list (map snd R1) me + 2"
    "heap_room s1 \<le> heap_room s2 + (60 + 12 * length ts)"
    "ata_commands (ata_run (port_log s2) a) = ata_commands (ata_run (port_log s1) a)
        @ [(0x20, word_of_int (int (Suc n mod 10)) AND 0x0FFFFFFF), (0x30, word_of_int (int (n mod 10)) AND 0x0FFFFFFF),
           (0xE7, word_of_int (int (n mod 10)) AND 0x0FFFFFFF)]"
    "ata_data (ata_run (port_log s2) a) = ata_data (ata_run (port_log s1) a) @ replicate 256 (block_word (int n))"
    by (elim exE conjE)
  have c: "[(0x20, word_of_int (int (Suc n mod 10)) AND 0x0FFFFFFF), (0x30, word_of_int (int (n mod 10)) AND 0x0FFFFFFF),
       (0xE7, word_of_int (int (n mod 10)) AND 0x0FFFFFFF)] = disk_commands n"
    unfolding disk_commands_def of_int_of_nat_eq by (simp only: small_block mod_less_divisor zero_less_numeral)
  have "iterations (Suc n) (fun2_iteration thread3 buf (others which me)) 0 ((1, 0), s)
      = Inr ((int (Suc (Suc n) mod 10), int (Suc n mod 10)), s2)"
    unfolding iterations_Suc_end s1(1) andThen_simps add_0 s2(1) next_block by (rule refl)
  moreover have "heap_room s \<le> heap_room s2 + Suc n * (60 + 12 * length ts)" using s1(5) s2(5) by simp
  moreover have "ata_commands (ata_run (port_log s2) a) = ata_commands (ata_run (port_log s) a) @ concat (map disk_commands [0..<Suc n])"
    unfolding s2(6) c s1(6) by simp
  moreover have "ata_data (ata_run (port_log s2) a) = ata_data (ata_run (port_log s) a)
        @ concat (map (\<lambda>i. replicate 256 (block_word (int i))) [0..<Suc n])"
    unfolding s2(7) s1(7) by simp
  moreover have "count_list (map snd R2) me = count_list (map snd R) me + 2 * Suc n" using s2(4) s1(4) by simp
  ultimately show ?case using s2(2,3) by blast
qed

section \<open>From power on\<close>

abbreviation (input) disk_thread :: u32 where "disk_thread \<equiv> 0x202040"
abbreviation (input) printing_threads :: "u32 list" where "printing_threads \<equiv> [0x201028, 0x203058, 0x204070]"

text \<open>
  \<open>main\<close> dispatches thread 1; its first turn dispatches thread 2, which starts its function, and from
  then on makes its iterations.
\<close>

lemma kernel_runs:
  assumes "length (gdt s) = 3" and "\<not> interrupts_enabled s" and "\<not> queue_locked s" and "\<not> hw_locked s"
    and disk: "disk_ready s" and fresh: "suspended s = Map.empty" "bursts s = Map.empty" and n: "n \<le> 40000000"
  shows "\<exists>s1 s2 s3 s4 R.
      (\<forall>ro. thread_main gdt_addr idt_addr isr irq start shutdown old tf ro s = andThen (ro s1) (\<lambda>_. Inl Assertion))
    \<and> others which disk_thread s1 = Inr s2 \<and> begin_fun 2 s2 = Inr s3 \<and> current_thread s3 = disk_thread
    \<and> iterations n (fun2_iteration 0x203058 buf (others which disk_thread)) 0 ((1, 0), s3)
        = Inr ((int (Suc n mod 10), int (n mod 10)), s4)
    \<and> four_ok disk_thread printing_threads s4 R \<and> current_thread s4 = disk_thread
    \<and> count_list (map snd R) disk_thread = 2 * n
    \<and> ata_commands (ata_run (port_log s4) a) = ata_commands (ata_run (port_log s3) a) @ concat (map disk_commands [0..<n])
    \<and> ata_data (ata_run (port_log s4) a) = ata_data (ata_run (port_log s3) a)
        @ concat (map (\<lambda>i. replicate 256 (block_word (int i))) [0..<n])"
proof -
  obtain s1 R1 where s1: "\<forall>ro. thread_main gdt_addr idt_addr isr irq start shutdown old tf ro s = andThen (ro s1) (\<lambda>_. Inl Assertion)"
    "running (s1, Map.empty) 0x201028 R1" "map snd R1 = tl main_threads"
    "start_address s1 = 0x2040AC" "hw_locked s1 = hw_locked s" "port_input s1 = port_input s"
    "thread_kernel.more s1 = thread_kernel.more s"
    using thread_main_ok [OF assms(1-3), of gdt_addr idt_addr isr irq start shutdown old tf] by blast
  have f1: "suspended s1 = Map.empty" "bursts s1 = Map.empty"
    using s1(7) fresh by (cases s; cases s1; simp)+
  have ok1: "four_ok disk_thread printing_threads s1 R1"
    using s1(2,3,5,6) disk assms(4) f1
    by (auto simp: four_ok_def crew_def running_def threads_ok_def disk_ready_def busy_at_def)
  have h1: "heap_room s1 = 4292853587" by (simp add: heap_room_def s1(4))
  have q: "current_thread s1 # map snd R1 = [0x201028] @ disk_thread # [0x203058, 0x204070]"
    using s1(2,3) by (simp add: running_def)
  obtain s2 R2 where s2: "others_run which disk_thread s1 = Some (Inr s2)" "current_thread s2 = disk_thread"
    "crew disk_thread printing_threads s2 R2 []" "map snd R2 = [0x203058, 0x204070] @ [0x201028]"
    "heap_room s2 = heap_room s1 - 12 * length [0x201028 :: u32]" "hw_locked s2 = hw_locked s1" "port_input s2 = port_input s1"
    using others_run_ok [OF four_okD(1) [OF ok1] q, of which a] h1 by auto
  have ok2: "four_ok disk_thread printing_threads s2 R2"
    using ok1 s2(3) by (simp add: four_ok_def s2(6,7) disk_ready_def busy_at_def)
  obtain s3 where s3: "begin_fun 2 s2 = Inr s3" "alike s2 s3"
    using begin_fun_alike [OF crewD(3) [OF s2(3)], of 2] by blast
  note a3 = alikeD [OF s3(2)]
  have ok3: "four_ok disk_thread printing_threads s3 R2" "current_thread s3 = disk_thread"
    "n * (60 + 12 * length printing_threads) \<le> heap_room s3"
    using s2(2,5) ok2 h1 n by (simp_all add: a3)
  from four_iterations [OF ok3, of "0x203058" buf which a]
  obtain s4 R4 where "iterations n (fun2_iteration 0x203058 buf (others which disk_thread)) 0 ((1, 0), s3)
        = Inr ((int (Suc n mod 10), int (n mod 10)), s4)"
    "current_thread s4 = disk_thread" "four_ok disk_thread printing_threads s4 R4"
    "count_list (map snd R4) disk_thread = count_list (map snd R2) disk_thread + 2 * n"
    "ata_commands (ata_run (port_log s4) a) = ata_commands (ata_run (port_log s3) a) @ concat (map disk_commands [0..<n])"
    "ata_data (ata_run (port_log s4) a) = ata_data (ata_run (port_log s3) a)
        @ concat (map (\<lambda>i. replicate 256 (block_word (int i))) [0..<n])"
    by (elim exE conjE)
  moreover have "others which disk_thread s1 = Inr s2" using s2(1) by (simp add: others_def)
  moreover have "count_list (map snd R2) disk_thread = 0" by (simp add: s2(4))
  ultimately show ?thesis using s1(1) s3(1) ok3(2) by (intro exI [of _ s1] exI [of _ s2] exI [of _ s3] exI [of _ s4] exI [of _ R4]) simp
qed

end
