(* ===== verification/Disk_Overlap.thy ===== *)
theory Disk_Overlap
  imports Four_Threads
begin

text \<open>
  A read or write of a disk that is busy after the command.  The caller stands in the disk's queue and
  gives the processor away; the other threads take turns while the disk is busy, and the first yield
  that finds it ready dispatches the caller, which completes its transfer.  This is what
  \<open>NonBlockingDisk\<close> is for; it needs that the caller is in no queue when it starts, and for a write
  that the disk is not busy again after the flush, when the caller's place in the queue is used up.
\<close>

section \<open>The others, until the disk is ready\<close>

lemma next_io: "next_thread False R ((d, me) # D) = (Some (d, me), R, D)" "next_thread True (r # R) D = (Some r, R, D)"
  by (simp_all add: next_thread_def)

lemma busy_for_Suc:
  "busy_for s r (Suc m) \<longleftrightarrow> busy_at s r \<and> busy_for s (Suc r) m"
  unfolding busy_for_def by (auto simp: less_Suc_eq_0_disj)

lemma busy_same: "port_input s' = port_input s \<Longrightarrow> busy_at s' = busy_at s" "port_input s' = port_input s \<Longrightarrow> busy_for s' = busy_for s"
  by (auto simp: busy_for_def busy_at_def fun_eq_iff)

lemma others_until_io:
  assumes "crew me ts s R [(d, me)]" and "current_thread s \<noteq> me" and "me \<notin> set (map snd R)"
    and "busy_for s (port_reads s) m" and "12 * Suc m \<le> heap_room s"
  shows "\<exists>s' R'. others_run which me s = Some (Inr s') \<and> current_thread s' = me \<and> crew me ts s' R' []
    \<and> map snd R' = rotate (Suc m) (current_thread s # map snd R)
    \<and> port_reads s' = port_reads s + m + 1 \<and> heap_room s' = heap_room s - 12 * Suc m
    \<and> (\<forall>k \<in> fst ` set R'. k \<in> fst ` set R \<or> unat (start_address s) \<le> unat k)
    \<and> ram s' = ram s \<and> hw_locked s' = hw_locked s \<and> port_input s' = port_input s
    \<and> ata_run (port_log s') a = ata_run (port_log s) a"
  using assms
proof (induction m arbitrary: s R)
  case 0
  let ?c = "current_thread s" and ?Q = "R @ [(start_address s, current_thread s)]"
  have room: "12 \<le> heap_room s" using "0.prems"(5) by simp
  have "\<not> busy_at s (port_reads s)" using "0.prems"(4) by (simp add: busy_for_def)
  then have "next_thread (busy_at s (port_reads s)) ?Q [(d, me)] = (Some (d, me), ?Q, [])" by (simp add: next_io)
  from turn_ok [OF "0.prems"(1) room this, of "which ?c" a]
  obtain s1 where s1: "turn (which ?c) s = Inr s1" "current_thread s1 = me" "crew me ts s1 ?Q []"
    "start_address s1 = start_address s + 12" "heap_room s1 = heap_room s - 12" "ram s1 = ram s"
    "hw_locked s1 = hw_locked s" "port_input s1 = port_input s" "port_reads s1 = port_reads s + 1"
    "ata_run (port_log s1) a = ata_run (port_log s) a"
    by (elim exE conjE)
  have "others_run which me s = Some (Inr s1)"
    using s1(1,2) "0.prems"(2) by (subst others_run.simps) (simp add: others_run.simps [of which me s1])
  then show ?case using s1 by (intro exI [of _ s1] exI [of _ ?Q]) auto
next
  case (Suc m)
  let ?c = "current_thread s"
  have room: "12 \<le> heap_room s" using Suc.prems(5) by simp
  obtain n t Q where Q: "R @ [(start_address s, ?c)] = (n, t) # Q"
    by (metis append_is_Nil_conv neq_Nil_conv prod.exhaust)
  have b: "busy_at s (port_reads s)" "busy_for s (Suc (port_reads s)) m" using Suc.prems(4) by (simp_all add: busy_for_Suc)
  have tq: "t # map snd Q = map snd R @ [?c]" using arg_cong [OF Q, of "map snd"] by simp
  have "me \<notin> set (t # map snd Q)" unfolding tq using Suc.prems(2,3) by auto
  then have other: "t \<noteq> me" "me \<notin> set (map snd Q)" by auto
  have "next_thread (busy_at s (port_reads s)) (R @ [(start_address s, ?c)]) [(d, me)] = (Some (n, t), Q, [(d, me)])"
    using b(1) unfolding Q by (simp add: next_io)
  from turn_ok [OF Suc.prems(1) room this, of "which ?c" a]
  obtain s1 where s1: "turn (which ?c) s = Inr s1" "current_thread s1 = t" "crew me ts s1 Q [(d, me)]"
    "start_address s1 = start_address s + 12" "heap_room s1 = heap_room s - 12" "ram s1 = ram s"
    "hw_locked s1 = hw_locked s" "port_input s1 = port_input s" "port_reads s1 = port_reads s + 1"
    "ata_run (port_log s1) a = ata_run (port_log s) a"
    by (elim exE conjE)
  have "current_thread s1 \<noteq> me" "busy_for s1 (port_reads s1) m" "12 * Suc m \<le> heap_room s1"
    using other(1) b(2) Suc.prems(5) s1(2,5,9) busy_same(2) [OF s1(8)] by simp_all
  from Suc.IH [OF s1(3) this(1) other(2) this(2,3)]
  obtain s' R' where s': "others_run which me s1 = Some (Inr s')" "current_thread s' = me" "crew me ts s' R' []"
    "map snd R' = rotate (Suc m) (t # map snd Q)" "port_reads s' = port_reads s1 + m + 1" "heap_room s' = heap_room s1 - 12 * Suc m"
    "\<forall>k \<in> fst ` set R'. k \<in> fst ` set Q \<or> unat (start_address s1) \<le> unat k"
    "ram s' = ram s1" "hw_locked s' = hw_locked s1" "port_input s' = port_input s1"
    "ata_run (port_log s') a = ata_run (port_log s1) a"
    unfolding s1(2) by (elim exE conjE)
  have u: "unat (start_address s1) = unat (start_address s) + 12" unfolding s1(4) by (rule start_grows(1) [OF room])
  have "\<forall>k \<in> fst ` set R'. k \<in> fst ` set R \<or> unat (start_address s) \<le> unat k"
  proof
    fix k assume "k \<in> fst ` set R'"
    then have "k \<in> fst ` set Q \<or> unat (start_address s1) \<le> unat k" using s'(7) by blast
    moreover have "fst ` set Q \<subseteq> insert (start_address s) (fst ` set R)"
      using arg_cong [OF Q, of "\<lambda>l. fst ` set l"] by auto
    ultimately show "k \<in> fst ` set R \<or> unat (start_address s) \<le> unat k" unfolding u by auto
  qed
  moreover have "others_run which me s = Some (Inr s')"
    using s1(1) s'(1) Suc.prems(2) by (subst others_run.simps) simp
  moreover have "map snd R' = rotate (Suc (Suc m)) (?c # map snd R)"
    unfolding s'(4) tq by (simp add: rotate1_rotate_swap)
  ultimately show ?case using s' s1(5-10) by (intro exI [of _ s'] exI [of _ R']) simp
qed

section \<open>Waiting\<close>

lemma wait_overlaps:
  assumes ok: "crew me ts s R [(d, me)]" and cur: "current_thread s = me" and new: "me \<notin> set (map snd R)" and R: "R \<noteq> []"
    and busy: "busy_for s (port_reads s) (Suc k)" "\<not> busy_at s (port_reads s + k + 2)" and room: "12 * k \<le> heap_room s"
  shows "\<exists>s' R'. nb_wait_while_busy (others which me) s = Inr s' \<and> current_thread s' = me \<and> crew me ts s' R' []
    \<and> map snd R' = rotate k (map snd R) \<and> port_reads s' = port_reads s + k + 3 \<and> heap_room s' = heap_room s - 12 * k
    \<and> ram s' = ram s \<and> hw_locked s' = hw_locked s \<and> port_input s' = port_input s
    \<and> ata_run (port_log s') a = ata_run (port_log s) a"
proof -
  let ?s = "s\<lparr>port_reads := port_reads s + 1\<rparr>"
  note D = crewD [OF ok]
  have ok1: "sched_ok ?s R [(d, me)]" and cur1: "current_thread ?s \<noteq> 0" using D(1,2) by (simp_all add: sched_ok_def)
  have b: "busy_at s (port_reads s)" using busy(1) by (simp add: busy_for_Suc)
  have d: "d \<notin> fst ` set R" using D(1) by (auto simp: sched_ok_def)

  have enough: ?thesis
    if y: "yield (others which me) 0 ?s = Inr s2" and s2: "current_thread s2 = me" "crew me ts s2 R2 []"
      "map snd R2 = rotate k (map snd R)" "port_reads s2 = port_reads s + k + 2" "heap_room s2 = heap_room s - 12 * k"
      "ram s2 = ram s" "hw_locked s2 = hw_locked s" "port_input s2 = port_input s"
      "ata_run (port_log s2) a = ata_run (port_log s) a" for s2 R2
  proof -
    have "\<not> busy_at s2 (port_reads s2)" using busy(2) busy_same(1) [OF s2(8)] by (simp add: s2(4))
    then have w: "nb_wait_while_busy (others which me) s2 = Inr (s2\<lparr>port_reads := port_reads s2 + 1\<rparr>)" by (rule wait_ready)
    have "nb_wait_while_busy (others which me) s = nb_wait_while_busy (others which me) s2"
      using b y by (simp add: nb_wait_while_busy_def wait_yielding.simps [of "others which me" s] is_busy_eq)
    then show ?thesis using w s2 by (intro exI [of _ "s2\<lparr>port_reads := port_reads s2 + 1\<rparr>"] exI [of _ R2]) (simp add: heap_room_def)
  qed
  show ?thesis
  proof (cases k)
    case 0
    have nb: "\<not> busy_at ?s (port_reads ?s)" using busy(1) 0 by (simp add: busy_for_def busy_at_def)
    then have "next_thread (0 = (0 :: int) \<and> busy_at ?s (port_reads ?s)) R [(d, me)] = (Some (d, me), R, [])"
      by (simp add: next_io)
    from yield_select_refines [OF ok1 cur1 this, of "others which me"]
    obtain s1 v where s1: "yield_select (others which me) 0 ?s = Inr (Some d, s1)" "sched_ok s1 R []" "same_threads ?s s1"
      "queue_nodes s1 d = Some v" "node_thread v = me" by auto
    have pr: "port_reads s1 = port_reads ?s + 1"
      using ok1 cur1 s1(1) by (intro yield_select_reads) (simp_all add: sched_ok_def)
    let ?s1 = "s1\<lparr>current_thread := me\<rparr>"
    have "suspended s1 = suspended s" using s1(3) more_fields [of s1 s] by (simp add: same_threads_def)
    then have c1: "crew me ts ?s1 R []"
      using ok s1(2,3) cur by (simp add: crew_def same_threads_def sched_ok_def)
    note f = crew_finish [OF c1 d]
    have "yield (others which me) 0 ?s = Inr (yield_finish d ?s1)"
      using s1(1,4,5) by (simp add: yield_def yield_dispatch_Some others_self)
    then show ?thesis
      by (rule enough) (use f s1(3) pr 0 in \<open>simp_all add: same_threads_def heap_room_def\<close>)
  next
    case (Suc m)
    obtain n t Q where Q: "R = (n, t) # Q" using R by (cases R) auto
    have bs: "busy_at s (Suc (port_reads s))" "busy_for s (Suc (Suc (port_reads s))) m"
      using busy(1) Suc by (simp_all add: busy_for_Suc)
    then have "next_thread (0 = (0 :: int) \<and> busy_at ?s (port_reads ?s)) R [(d, me)] = (Some (n, t), Q, [(d, me)])"
      unfolding Q by (simp add: next_io busy_at_def)
    from yield_select_refines [OF ok1 cur1 this, of "others which me"]
    obtain s1 v where s1: "yield_select (others which me) 0 ?s = Inr (Some n, s1)" "sched_ok s1 Q [(d, me)]" "same_threads ?s s1"
      "queue_nodes s1 n = Some v" "node_thread v = t" by auto
    have pr: "port_reads s1 = port_reads ?s + 1"
      using ok1 cur1 s1(1) by (intro yield_select_reads) (simp_all add: sched_ok_def)
    let ?s1 = "s1\<lparr>current_thread := t\<rparr>"
    have sus: "suspended s1 = suspended s" using s1(3) more_fields [of s1 s] by (simp add: same_threads_def)
    have c1: "crew me ts ?s1 Q [(d, me)]"
      using ok s1(2,3) cur unfolding Q by (simp add: crew_def same_threads_def sched_ok_def sus)
    have n: "n \<notin> fst ` set Q" "unat n < unat (start_address s)"
      using D(1) unfolding Q by (auto simp: sched_ok_def list_repr_def)
    have "current_thread ?s1 \<noteq> me" "me \<notin> set (map snd Q)" using new Q by auto
    moreover have "busy_for ?s1 (port_reads ?s1) m"
      using bs(2) s1(3) pr by (simp add: busy_for_def busy_at_def same_threads_def)
    moreover have "12 * Suc m \<le> heap_room ?s1" using room Suc s1(3) by (simp add: same_threads_def heap_room_def)
    ultimately obtain s2 R2 where s2: "others_run which me ?s1 = Some (Inr s2)" "current_thread s2 = me" "crew me ts s2 R2 []"
      "map snd R2 = rotate (Suc m) (current_thread ?s1 # map snd Q)"
      "port_reads s2 = port_reads ?s1 + m + 1" "heap_room s2 = heap_room ?s1 - 12 * Suc m"
      "\<forall>k \<in> fst ` set R2. k \<in> fst ` set Q \<or> unat (start_address ?s1) \<le> unat k"
      "ram s2 = ram ?s1" "hw_locked s2 = hw_locked ?s1" "port_input s2 = port_input ?s1"
      "ata_run (port_log s2) a = ata_run (port_log ?s1) a"
      using others_until_io [OF c1, of m which a] by blast
    have "n \<notin> fst ` set R2"
    proof
      assume "n \<in> fst ` set R2"
      then have "n \<in> fst ` set Q \<or> unat (start_address ?s1) \<le> unat n" using s2(7) by blast
      then show False using n s1(3) by (simp add: same_threads_def)
    qed
    note f = crew_finish [OF s2(3) this]
    have "yield (others which me) 0 ?s = Inr (yield_finish n s2)"
      using s1(1,4,5) s2(1) by (simp add: yield_def yield_dispatch_Some others_def)
    then show ?thesis
      by (rule enough) (use f s2 s1(3) pr Suc Q in \<open>simp_all add: same_threads_def heap_room_def\<close>)
  qed
qed

section \<open>The transfers\<close>

text \<open>The command is accepted at once, then the disk is busy for \<open>k + 1\<close> reads of its status.\<close>

lemma command_overlaps:
  assumes ok: "crew me ts s R [(d, me)]" and cur: "current_thread s = me" and new: "me \<notin> set (map snd R)" and R: "R \<noteq> []"
    and first: "\<not> busy_at s (port_reads s)" and busy: "busy_for s (port_reads s + 5) (Suc k)" "\<not> busy_at s (port_reads s + k + 7)"
    and room: "12 * k \<le> heap_room s"
  shows "\<exists>s1 s3 R3. ide_ata_issue_command (nb_wait_while_busy (others which me)) operation block_no s = Inr s1
    \<and> nb_wait_while_busy (others which me) (s1\<lparr>port_reads := port_reads s1 + 4\<rparr>) = Inr s3
    \<and> current_thread s3 = me \<and> crew me ts s3 R3 [] \<and> map snd R3 = rotate k (map snd R)
    \<and> port_reads s3 = port_reads s + k + 8 \<and> heap_room s3 = heap_room s - 12 * k \<and> ram s3 = ram s
    \<and> port_input s3 = port_input s
    \<and> ata_commands (ata_run (port_log s3) a) = ata_commands (ata_run (port_log s) a) @ [(command_byte operation, block_no AND 0x0FFFFFFF)]
    \<and> ata_data (ata_run (port_log s3) a) = ata_data (ata_run (port_log s) a)
    \<and> ata_lba (ata_run (port_log s3) a) = block_no AND 0x0FFFFFFF"
proof -
  let ?w = "nb_wait_while_busy (others which me)"
  obtain s1 where i: "ide_ata_issue_command ?w operation block_no s = Inr s1"
    and s1: "s1 = (s\<lparr>port_reads := port_reads s + 1\<rparr>)\<lparr>port_log := port_log s1\<rparr>"
    and ata: "ata_commands (ata_run (port_log s1) a) = ata_commands (ata_run (port_log s) a) @ [(command_byte operation, block_no AND 0x0FFFFFFF)]"
      "ata_data (ata_run (port_log s1) a) = ata_data (ata_run (port_log s) a)" "ata_lba (ata_run (port_log s1) a) = block_no AND 0x0FFFFFFF"
    using issue_command_log [where wait = ?w and s = s and operation = operation and block_no = block_no and c = a,
        OF wait_ready [OF first, of "others which me"]]
    by (auto simp: Let_def ata_lba_def device_head_bits(1) [simplified] lba_bytes)
  define s2 where "s2 = s1\<lparr>port_reads := port_reads s1 + 4\<rparr>"
  have f2: "current_thread s2 = me" "heap_room s2 = heap_room s" "ram s2 = ram s" "port_input s2 = port_input s"
    "port_log s2 = port_log s1" "port_reads s2 = port_reads s + 5" "crew me ts s2 R [(d, me)] = crew me ts s R [(d, me)]"
    using cur by (simp_all add: s2_def heap_room_def) (subst s1, simp)+
  have b2: "busy_for s2 (port_reads s2) (Suc k)" "\<not> busy_at s2 (port_reads s2 + k + 2)" "12 * k \<le> heap_room s2"
  proof -
    have "port_reads s2 + k + 2 = port_reads s + k + 7" using f2(6) by simp
    then show "busy_for s2 (port_reads s2) (Suc k)" "\<not> busy_at s2 (port_reads s2 + k + 2)" "12 * k \<le> heap_room s2"
      using busy room busy_same [OF f2(4)] by (simp_all only: f2(2,6) simp_thms)
  qed
  have ok2: "crew me ts s2 R [(d, me)]" unfolding f2(7) by (rule ok)
  obtain s3 R3 where s3: "?w s2 = Inr s3" "current_thread s3 = me" "crew me ts s3 R3 []" "map snd R3 = rotate k (map snd R)"
    "port_reads s3 = port_reads s2 + k + 3" "heap_room s3 = heap_room s2 - 12 * k" "ram s3 = ram s2"
    "port_input s3 = port_input s2" "ata_run (port_log s3) a = ata_run (port_log s2) a"
    using wait_overlaps [OF ok2 f2(1) new R b2, of which a] by (elim exE conjE)
  have "port_reads s3 = port_reads s + k + 8" using s3(5) f2(6) by simp
  then show ?thesis
    using i s3(1-4,6-9) ata unfolding s2_def [symmetric] f2(2-5)
    by (intro exI [of _ s1] exI [of _ s3] exI [of _ R3]) (simp add: s2_def [symmetric])
qed

lemma transfer_overlaps:
  assumes ok: "crew me ts s R [(d, me)]" and cur: "current_thread s = me" and new: "me \<notin> set (map snd R)" and R: "R \<noteq> []"
    and first: "\<not> busy_at s (port_reads s)" and busy: "busy_for s (port_reads s + 5) (Suc k)" "\<not> busy_at s (port_reads s + k + 7)"
    and room: "12 * k \<le> heap_room s" and good: "verdict (ucast (port_input s (port_reads s + k + 8) 0x1F7)) = 0"
  shows "\<exists>s' R'. disk_read (nb_wait_while_busy (others which me)) block_no buf s = Inr s' \<and> current_thread s' = me
    \<and> crew me ts s' R' [] \<and> map snd R' = rotate k (map snd R) \<and> heap_room s' = heap_room s - 12 * k
    \<and> (\<forall>i<256. buffer_word (ram s') buf i = port_input s (port_reads s + k + 9 + i) 0x1F0)
    \<and> ata_commands (ata_run (port_log s') a) = ata_commands (ata_run (port_log s) a) @ [(0x20, block_no AND 0x0FFFFFFF)]
    \<and> ata_data (ata_run (port_log s') a) = ata_data (ata_run (port_log s) a)"
proof -
  let ?w = "nb_wait_while_busy (others which me)"
  obtain s1 s3 R3 where s3: "ide_ata_issue_command ?w READ block_no s = Inr s1" "?w (s1\<lparr>port_reads := port_reads s1 + 4\<rparr>) = Inr s3"
    "current_thread s3 = me" "crew me ts s3 R3 []" "map snd R3 = rotate k (map snd R)" "port_reads s3 = port_reads s + k + 8"
    "heap_room s3 = heap_room s - 12 * k" "port_input s3 = port_input s"
    "ata_commands (ata_run (port_log s3) a) = ata_commands (ata_run (port_log s) a) @ [(command_byte READ, block_no AND 0x0FFFFFFF)]"
    "ata_data (ata_run (port_log s3) a) = ata_data (ata_run (port_log s) a)"
    using command_overlaps [OF ok cur new R first busy room, of which READ block_no a] by (elim exE conjE)
  let ?x = "s3\<lparr>port_reads := port_reads s3 + 1\<rparr>"
  have pol: "ide_polling ?w True s1 = Inr (0, ?x)"
    using s3(2) good by (simp add: ide_polling_eq s3(6,8))
  obtain m where m: "read_words 256 buf ?x = ?x\<lparr>ram := m, port_reads := port_reads ?x + 256\<rparr>"
    "\<forall>i<256. buffer_word m buf i = port_input ?x (port_reads ?x + i) 0x1F0"
    using read_words_spec [of 256 buf ?x] by auto
  let ?f = "?x\<lparr>ram := m, port_reads := port_reads ?x + 256\<rparr>"
  have "disk_read ?w block_no buf s = Inr ?f"
    by (simp only: disk_read_def s3(1) pol m(1) andThen_simps split_conv assert_that_simps simp_thms)
  moreover have "crew me ts ?f R3 []" using s3(4) by simp
  moreover have "heap_room ?f = heap_room s - 12 * k" using s3(7) by (simp add: heap_room_def)
  moreover have "\<forall>i<256. buffer_word m buf i = port_input s (port_reads s + k + 9 + i) 0x1F0"
    using m(2) by (simp add: s3(6,8) add.commute add.left_commute)
  ultimately show ?thesis using s3(3,5,9,10)
    by (intro exI [of _ ?f] exI [of _ R3]) (simp add: command_byte_def)
qed

text \<open>A write, with a disk that is ready at the first status read after the flush.\<close>

lemma write_transfer_overlaps:
  assumes ok: "crew me ts s R [(d, me)]" and cur: "current_thread s = me" and new: "me \<notin> set (map snd R)" and R: "R \<noteq> []"
    and first: "\<not> busy_at s (port_reads s)" and busy: "busy_for s (port_reads s + 5) (Suc k)" "\<not> busy_at s (port_reads s + k + 7)"
    and room: "12 * k \<le> heap_room s" and flush: "\<not> busy_at s (port_reads s + k + 12)"
  shows "\<exists>s' R'. disk_write (nb_wait_while_busy (others which me)) block_no buf s = Inr s' \<and> current_thread s' = me
    \<and> crew me ts s' R' [] \<and> map snd R' = rotate k (map snd R) \<and> heap_room s' = heap_room s - 12 * k
    \<and> ram s' = ram s
    \<and> ata_commands (ata_run (port_log s') a) = ata_commands (ata_run (port_log s) a)
        @ [(0x30, block_no AND 0x0FFFFFFF), (0xE7, block_no AND 0x0FFFFFFF)]
    \<and> ata_data (ata_run (port_log s') a) = ata_data (ata_run (port_log s) a) @ map (buffer_word (ram s) buf) [0..<256]"
proof -
  let ?w = "nb_wait_while_busy (others which me)"
  obtain s1 s3 R3 where s3: "ide_ata_issue_command ?w WRITE block_no s = Inr s1" "?w (s1\<lparr>port_reads := port_reads s1 + 4\<rparr>) = Inr s3"
    "current_thread s3 = me" "crew me ts s3 R3 []" "map snd R3 = rotate k (map snd R)" "port_reads s3 = port_reads s + k + 8"
    "heap_room s3 = heap_room s - 12 * k" "ram s3 = ram s" "port_input s3 = port_input s"
    "ata_commands (ata_run (port_log s3) a) = ata_commands (ata_run (port_log s) a) @ [(command_byte WRITE, block_no AND 0x0FFFFFFF)]"
    "ata_data (ata_run (port_log s3) a) = ata_data (ata_run (port_log s) a)"
    "ata_lba (ata_run (port_log s3) a) = block_no AND 0x0FFFFFFF"
    using command_overlaps [OF ok cur new R first busy room, of which WRITE block_no a] by (elim exE conjE)
  have pol: "ide_polling ?w False s1 = Inr (0, s3)" using s3(2) by (simp add: ide_polling_eq)
  define log where "log = port_log s3 @ map (\<lambda>i. OutW 0x1F0 (buffer_word (ram s) buf i)) [0..<256] @ [OutB 0x1F7 0xE7]"
  have wr: "ide_write_register ATA_REG_COMMAND ATA_CMD_CACHE_FLUSH (write_words 256 buf s3) = s3\<lparr>port_log := log\<rparr>"
    by (simp add: write_words_eq ide_write_register_def outportb_def log_def s3(8) del: upt_Suc)
  let ?f = "s3\<lparr>port_log := log, port_reads := port_reads s3 + 5\<rparr>"
  have "\<not> busy_at (s3\<lparr>port_log := log, port_reads := port_reads s3 + 4\<rparr>) (port_reads s3 + 4)"
    using flush by (simp add: busy_at_def s3(6,9) add.commute add.left_commute)
  then have "?w (s3\<lparr>port_log := log, port_reads := port_reads s3 + 4\<rparr>) = Inr ?f"
    using wait_ready [of "s3\<lparr>port_log := log, port_reads := port_reads s3 + 4\<rparr>" "others which me"] by simp
  then have fl: "ide_polling ?w False (s3\<lparr>port_log := log\<rparr>) = Inr (0, ?f)" by (simp add: ide_polling_eq)
  have "disk_write ?w block_no buf s = Inr ?f"
    by (simp only: disk_write_def s3(1) pol wr fl andThen_simps split_conv Let_def assert_that_simps simp_thms)
  moreover have "crew me ts ?f R3 []" using s3(4) by simp
  moreover have "heap_room ?f = heap_room s - 12 * k" using s3(7) by (simp add: heap_room_def)
  moreover have "ata_run log a = (let c1 = (ata_run (port_log s3) a)\<lparr>ata_data := ata_data (ata_run (port_log s3) a) @ map (buffer_word (ram s) buf) [0..<256]\<rparr>
      in c1\<lparr>ata_commands := ata_commands c1 @ [(0xE7, ata_lba c1)]\<rparr>)"
    unfolding log_def ata_run_append ata_run_data by (simp add: ata_run_def ata_step_def Let_def)
  moreover have "ata_lba ((ata_run (port_log s3) a)\<lparr>ata_data := d\<rparr>) = ata_lba (ata_run (port_log s3) a)" for d
    by (simp add: ata_lba_def)
  ultimately show ?thesis using s3(3,5,8,10-12)
    by (intro exI [of _ ?f] exI [of _ R3]) (simp add: command_byte_def Let_def)
qed

section \<open>The operations\<close>

text \<open>
  Around the transfer: the caller is put into the disk's queue before it, and into the ready queue
  after it.
\<close>

lemma nb_transfer_overlaps:
  assumes ok: "crew me ts s R []" and cur: "current_thread s = me" and new: "me \<notin> set (map snd R)" and free: "\<not> hw_locked s"
    and room: "24 + 12 * k + 12 * length ts \<le> heap_room s"
    and transfer: "\<And>x d. crew me ts x R [(d, me)] \<Longrightarrow> current_thread x = me \<Longrightarrow> port_reads x = port_reads s
      \<Longrightarrow> port_input x = port_input s \<Longrightarrow> ram x = ram s \<Longrightarrow> port_log x = port_log s \<Longrightarrow> 12 * k \<le> heap_room x
      \<Longrightarrow> \<exists>s' R'. transfer0 x = Inr s' \<and> current_thread s' = me \<and> crew me ts s' R' [] \<and> map snd R' = rotate k (map snd R)
        \<and> heap_room s' = heap_room x - 12 * k \<and> P (ram s') (ata_run (port_log s') a)"
  shows "\<exists>s' R'. nb_transfer (others which me) transfer0 s = Inr s' \<and> current_thread s' = me
    \<and> crew me ts s' R' [] \<and> map snd R' = rotate k (map snd R) \<and> \<not> hw_locked s'
    \<and> heap_room s \<le> heap_room s' + 24 + 12 * k + 12 * length ts \<and> P (ram s') (ata_run (port_log s') a)"
proof -
  let ?n = "start_address s" and ?ro = "others which me"
  have room1: "12 \<le> heap_room s" using room by simp
  obtain h q where e: "enqueue_io ?ro s = Inr (s\<lparr>start_address := ?n + 12, queue_nodes := h, io_queue := q,
      EFLAGS := EFLAGS s OR IF_mask, queue_locked := False\<rparr>)"
    "sched_ok (s\<lparr>start_address := ?n + 12, queue_nodes := h, io_queue := q,
      EFLAGS := EFLAGS s OR IF_mask, queue_locked := False\<rparr>) R [(?n, me)]"
    using enqueue_io_ok [OF crewD(1) [OF ok] room1, of ?ro] cur by auto
  let ?s1 = "s\<lparr>start_address := ?n + 12, queue_nodes := h, io_queue := q, EFLAGS := EFLAGS s OR IF_mask, queue_locked := False\<rparr>"
  have l: "lock_hw ?ro ?s1 = Inr (?s1\<lparr>EFLAGS := EFLAGS ?s1 OR IF_mask, hw_locked := True\<rparr>)"
    by (rule lock_hw_free) (simp add: free)
  let ?s2 = "?s1\<lparr>EFLAGS := EFLAGS ?s1 OR IF_mask, hw_locked := True\<rparr>"
  have u: "unat (?n + 12) = unat ?n + 12" by (rule start_grows(1) [OF room1])
  have "crew me ts ?s1 R [(?n, me)]"
    unfolding crew_def
  proof (intro conjI allI impI)
    fix t m assume "suspended ?s1 t = Some m"
    then have "m \<notin> fst ` set R" "unat m < unat ?n" using ok by (simp_all add: crew_def)
    then show "m \<notin> fst ` set R \<union> fst ` set [(?n, me)]" "unat m < unat (start_address ?s1)" using u by auto
  qed (use ok e(2) in \<open>simp_all add: crew_def\<close>)
  then have ok2: "crew me ts ?s2 R [(?n, me)]" by (simp only: crew_fields)
  have h2: "heap_room ?s2 = heap_room s - 12" by (simp add: heap_room_def u)
  have "12 * k \<le> heap_room ?s2" using room h2 by simp
  then obtain s3 R3 where s3: "transfer0 ?s2 = Inr s3" "current_thread s3 = me" "crew me ts s3 R3 []"
    "map snd R3 = rotate k (map snd R)" "heap_room s3 = heap_room ?s2 - 12 * k" "P (ram s3) (ata_run (port_log s3) a)"
    using transfer [OF ok2] cur by auto
  define s4 where "s4 = s3\<lparr>EFLAGS := EFLAGS s3 OR IF_mask, hw_locked := False\<rparr>"
  have un: "unlock_hw s3 = Inr s4" by (simp add: unlock_hw_def unlock_eq s4_def)
  have ok4: "crew me ts s4 R3 []" "current_thread s4 = me" "12 + 12 * length ts \<le> heap_room s4"
    using s3(2,3,5) h2 room by (simp_all add: s4_def heap_room_def)
  obtain s5 R5 where s5: "pass_on_CPU ?ro 0 s4 = Inr s5" "current_thread s5 = me" "crew me ts s5 R5 []"
    "me \<notin> set (map snd R3) \<longrightarrow> map snd R5 = map snd R3" "heap_room s4 \<le> heap_room s5 + 12 + 12 * length ts" "ram s5 = ram s4"
    "hw_locked s5 = hw_locked s4" "ata_run (port_log s5) a = ata_run (port_log s4) a"
    using crew_pass [OF ok4, of which 0 a] by (elim exE conjE)
  have "nb_transfer ?ro transfer0 s = Inr s5"
    unfolding nb_transfer_def e(1) andThen_simps l s3(1) un using s5(1) by (simp add: pass_on_CPU_def)
  moreover have "map snd R5 = rotate k (map snd R)" using s5(4) new unfolding s3(4) by simp
  moreover have "heap_room s4 = heap_room s3" by (simp add: s4_def heap_room_def)
  then have "heap_room s \<le> heap_room s5 + 24 + 12 * k + 12 * length ts" using s5(5) s3(5) h2 room by simp
  ultimately show ?thesis using s5(2,3,6-8) s3(6)
    by (intro exI [of _ s5] exI [of _ R5]) (simp add: s4_def)
qed

lemma read_overlaps:
  assumes ok: "crew me ts s R []" and cur: "current_thread s = me" and new: "me \<notin> set (map snd R)" and R: "R \<noteq> []"
    and free: "\<not> hw_locked s"
    and first: "\<not> busy_at s (port_reads s)" and busy: "busy_for s (port_reads s + 5) (Suc k)" "\<not> busy_at s (port_reads s + k + 7)"
    and good: "verdict (ucast (port_input s (port_reads s + k + 8) 0x1F7)) = 0"
    and room: "24 + 12 * k + 12 * length ts \<le> heap_room s"
  shows "\<exists>s' R'. nb_read (others which me) block_no buf s = Inr s' \<and> current_thread s' = me
    \<and> crew me ts s' R' [] \<and> map snd R' = rotate k (map snd R) \<and> \<not> hw_locked s'
    \<and> heap_room s \<le> heap_room s' + 24 + 12 * k + 12 * length ts
    \<and> (\<forall>i<256. buffer_word (ram s') buf i = port_input s (port_reads s + k + 9 + i) 0x1F0)
    \<and> ata_commands (ata_run (port_log s') a) = ata_commands (ata_run (port_log s) a) @ [(0x20, block_no AND 0x0FFFFFFF)]
    \<and> ata_data (ata_run (port_log s') a) = ata_data (ata_run (port_log s) a)"
  unfolding nb_operations
proof (rule nb_transfer_overlaps [OF ok cur new free room])
  fix x :: "'a four_threads_scheme" and d
  assume x: "crew me ts x R [(d, me)]" "current_thread x = me" "port_reads x = port_reads s" "port_input x = port_input s"
    "ram x = ram s" "port_log x = port_log s" "12 * k \<le> heap_room x"
  have b: "\<not> busy_at x (port_reads x)" "busy_for x (port_reads x + 5) (Suc k)" "\<not> busy_at x (port_reads x + k + 7)"
    using first busy busy_same [OF x(4)] by (simp_all add: x(3))
  have "verdict (ucast (port_input x (port_reads x + k + 8) 0x1F7)) = 0" using good by (simp add: x(3,4))
  from transfer_overlaps [OF x(1,2) new R b x(7) this, of which block_no buf a]
  show "\<exists>s' R'. disk_read (nb_wait_while_busy (others which me)) block_no buf x = Inr s' \<and> current_thread s' = me
    \<and> crew me ts s' R' [] \<and> map snd R' = rotate k (map snd R) \<and> heap_room s' = heap_room x - 12 * k
    \<and> ((\<forall>i<256. buffer_word (ram s') buf i = port_input s (port_reads s + k + 9 + i) 0x1F0)
    \<and> ata_commands (ata_run (port_log s') a) = ata_commands (ata_run (port_log s) a) @ [(0x20, block_no AND 0x0FFFFFFF)]
    \<and> ata_data (ata_run (port_log s') a) = ata_data (ata_run (port_log s) a))"
    unfolding x(3,4,6) .
qed

lemma write_overlaps:
  assumes ok: "crew me ts s R []" and cur: "current_thread s = me" and new: "me \<notin> set (map snd R)" and R: "R \<noteq> []"
    and free: "\<not> hw_locked s"
    and first: "\<not> busy_at s (port_reads s)" and busy: "busy_for s (port_reads s + 5) (Suc k)" "\<not> busy_at s (port_reads s + k + 7)"
    and flush: "\<not> busy_at s (port_reads s + k + 12)"
    and room: "24 + 12 * k + 12 * length ts \<le> heap_room s"
  shows "\<exists>s' R'. nb_write (others which me) block_no buf s = Inr s' \<and> current_thread s' = me
    \<and> crew me ts s' R' [] \<and> map snd R' = rotate k (map snd R) \<and> \<not> hw_locked s'
    \<and> heap_room s \<le> heap_room s' + 24 + 12 * k + 12 * length ts
    \<and> ram s' = ram s
    \<and> ata_commands (ata_run (port_log s') a) = ata_commands (ata_run (port_log s) a)
        @ [(0x30, block_no AND 0x0FFFFFFF), (0xE7, block_no AND 0x0FFFFFFF)]
    \<and> ata_data (ata_run (port_log s') a) = ata_data (ata_run (port_log s) a) @ map (buffer_word (ram s) buf) [0..<256]"
  unfolding nb_operations
proof (rule nb_transfer_overlaps [OF ok cur new free room])
  fix x :: "'a four_threads_scheme" and d
  assume x: "crew me ts x R [(d, me)]" "current_thread x = me" "port_reads x = port_reads s" "port_input x = port_input s"
    "ram x = ram s" "port_log x = port_log s" "12 * k \<le> heap_room x"
  have b: "\<not> busy_at x (port_reads x)" "busy_for x (port_reads x + 5) (Suc k)" "\<not> busy_at x (port_reads x + k + 7)"
    using first busy busy_same [OF x(4)] by (simp_all add: x(3))
  have "\<not> busy_at x (port_reads x + k + 12)" using flush busy_same(1) [OF x(4)] by (simp add: x(3))
  from write_transfer_overlaps [OF x(1,2) new R b x(7) this, of which block_no buf a]
  show "\<exists>s' R'. disk_write (nb_wait_while_busy (others which me)) block_no buf x = Inr s' \<and> current_thread s' = me
    \<and> crew me ts s' R' [] \<and> map snd R' = rotate k (map snd R) \<and> heap_room s' = heap_room x - 12 * k
    \<and> (ram s' = ram s
    \<and> ata_commands (ata_run (port_log s') a) = ata_commands (ata_run (port_log s) a)
        @ [(0x30, block_no AND 0x0FFFFFFF), (0xE7, block_no AND 0x0FFFFFFF)]
    \<and> ata_data (ata_run (port_log s') a) = ata_data (ata_run (port_log s) a) @ map (buffer_word (ram s) buf) [0..<256])"
    unfolding x(5,6) .
qed

end
