(* ===== verification/Pool_Runs.thy ===== *)
theory Pool_Runs
  imports VM_System Demand_Memory
begin

text \<open>
  Programs that share several virtual memory pools: any sequence of \<open>allocate\<close>, \<open>release\<close>, loads and
  stores, on any of the pools, with the faults they take.  \<open>pool_run s0 live s\<close> says that such a
  sequence leads from \<open>s0\<close> to \<open>s\<close> and that \<open>live\<close> are the blocks it allocated and did not release, each
  with its pool, its start and the size that was asked for.  The invariant \<open>pools_hold\<close> ties the lists in
  paged memory to \<open>live\<close>: so live blocks never overlap.
\<close>

section \<open>Runs\<close>

type_synonym block = "nat \<times> u32 \<times> u32"

definition block_region :: "block \<Rightarrow> region" where
  "block_region b = (fst (snd b), round_up (snd (snd b)))"

text \<open>A page that holds a list of some pool.\<close>

definition list_page :: "'a paging_state_scheme \<Rightarrow> u32 \<Rightarrow> bool" where
  "list_page s a \<longleftrightarrow> (\<exists>m p. vm_pools s m = Some p \<and>
     (page_slot a = page_slot (alloc_list p) \<or> page_slot a = page_slot (free_list p)))"

inductive pool_run :: "'a paging_state_scheme \<Rightarrow> block list \<Rightarrow> 'a paging_state_scheme \<Rightarrow> bool"
  for s0 where
  start: "pool_run s0 [] s0"
| allocate: "pool_run s0 live s \<Longrightarrow> 0 < sz \<Longrightarrow> unat sz + 4095 < 4294967296
    \<Longrightarrow> vm_allocate m sz s = Inr (a, s') \<Longrightarrow> pool_run s0 (live @ [(m, a, sz)]) s'"
| release: "pool_run s0 (bs @ (m, a, sz) # cs) s \<Longrightarrow> region_ready s a (unat (round_up sz) div 4096)
    \<Longrightarrow> vm_release m a s = Inr s' \<Longrightarrow> pool_run s0 (bs @ cs) s'"
| store: "pool_run s0 live s \<Longrightarrow> servable s a \<Longrightarrow> \<not> list_page s a
    \<Longrightarrow> demand_store a v s = Inr s' \<Longrightarrow> pool_run s0 live s'"
| load: "pool_run s0 live s \<Longrightarrow> servable s a \<Longrightarrow> demand_load a s = Inr (v, s') \<Longrightarrow> pool_run s0 live s'"

section \<open>The lists in memory hold the live blocks\<close>

definition list_pages :: "vm_pool \<Rightarrow> region list" where
  "list_pages p = [(alloc_list p, 4096), (free_list p, 4096)]"

definition blocks_of :: "nat \<Rightarrow> block list \<Rightarrow> region list" where
  "blocks_of m live = map block_region (filter (\<lambda>b. fst b = m) live)"

definition pool_range :: "vm_pool \<Rightarrow> nat set" where
  "pool_range p = {unat (base_address p)..<unat (base_address p) + unat (vm_size p)}"

definition holds_blocks :: "nat \<Rightarrow> block list \<Rightarrow> vm_pool \<Rightarrow> 'a paging_state_scheme \<Rightarrow> bool" where
  "holds_blocks m live p s \<longleftrightarrow> (\<exists>fs.
     vm_holds p s (list_pages p @ blocks_of m live) fs \<and>
     partitions (unat (base_address p)) (unat (base_address p) + unat (vm_size p))
       (list_pages p @ blocks_of m live) fs)"

text \<open>The pools \<open>ns\<close> are those registered with the page table in use, and their ranges are apart.\<close>

definition pools_hold :: "nat list \<Rightarrow> block list \<Rightarrow> 'a paging_state_scheme \<Rightarrow> bool" where
  "pools_hold ns live s \<longleftrightarrow>
     paging_ok s \<and> dom (vm_pools s) = set ns \<and>
     (\<forall>m p. vm_pools s m = Some p \<longrightarrow> holds_blocks m live p s
        \<and> unat (base_address p) + unat (vm_size p) \<le> 4294967295
        \<and> (\<exists>t. page_tables s (page_table p) = Some t \<and> cr3 s = page_directory t
             \<and> node_chain (vm_pools s) (head_pool t) ns)) \<and>
     (\<forall>m p k q. vm_pools s m = Some p \<longrightarrow> vm_pools s k = Some q \<longrightarrow> m \<noteq> k \<longrightarrow> pool_range p \<inter> pool_range q = {})"

lemma pools_holdD:
  assumes "pools_hold ns live s" and "vm_pools s m = Some p"
  shows "m \<in> set ns" and "holds_blocks m live p s"
    and "unat (base_address p) + unat (vm_size p) \<le> 4294967295"
    and "\<exists>t. page_tables s (page_table p) = Some t \<and> cr3 s = page_directory t
      \<and> node_chain (vm_pools s) (head_pool t) ns"
    and "vm_pools s k = Some q \<Longrightarrow> m \<noteq> k \<Longrightarrow> pool_range p \<inter> pool_range q = {}"
  using assms unfolding pools_hold_def by blast+

lemma blocks_of_simps [simp]:
  "blocks_of m [] = []"
  "blocks_of m (b # bs) = (if fst b = m then [block_region b] else []) @ blocks_of m bs"
  "blocks_of m (bs @ cs) = blocks_of m bs @ blocks_of m cs"
  by (simp_all add: blocks_of_def)

section \<open>Pages of regions\<close>

lemma same_page:
  assumes "page_slot x = page_slot y"
  shows "unat x div 4096 = unat y div 4096"
proof -
  have "unat z div 4194304 = unat z div 4096 div 1024" for z :: u32 by (simp add: div_mult2_eq [symmetric])
  then have "unat z div 4096 = 1024 * dir_ix z + tbl_ix z" for z by (simp add: dir_ix_def tbl_ix_def)
  then show ?thesis using assms by simp
qed

lemma same_page_region:
  assumes r: "page_region r" and x: "unat x \<in> region_set r" and "page_slot x = page_slot y"
  shows "unat y \<in> region_set r"
proof -
  obtain i n where i: "unat (fst r) = 4096 * i" "unat (snd r) = 4096 * n"
    using r unfolding page_region_def unat_mod_4096 by (metis dvd_eq_mod_eq_0 dvdE)
  have "i \<le> unat x div 4096 \<and> unat x div 4096 < i + n"
    using x unfolding region_set_def i by (auto simp: less_mult_imp_div_less div_le_mono)
  then have "i \<le> unat y div 4096 \<and> unat y div 4096 < i + n" using same_page [OF assms(3)] by simp
  then show ?thesis unfolding region_set_def i by auto
qed

lemma region_start: "page_region r \<Longrightarrow> unat (fst r) \<in> region_set r"
  by (simp add: page_region_def region_set_def unat_gt_0)

text \<open>Regions of one list, and regions of two pools.\<close>

lemma partitions_apart:
  assumes p: "partitions lo hi (us @ r # vs @ q # ws) fs"
  shows "region_set r \<inter> region_set q = {}"
  using partitions_disjoint [OF p, of "length us" "Suc (length us + length vs)"]
  by (simp add: nth_append)

lemma partitions_page: "partitions lo hi as fs \<Longrightarrow> r \<in> set as \<Longrightarrow> page_region r"
  by (simp add: partitions_def)

lemma region_in_range:
  assumes "holds_blocks m live p s" and "r \<in> set (list_pages p @ blocks_of m live)"
  shows "region_set r \<subseteq> pool_range p" and "page_region r"
proof -
  obtain fs where f: "partitions (unat (base_address p)) (unat (base_address p) + unat (vm_size p))
      (list_pages p @ blocks_of m live) fs"
    using assms(1) unfolding holds_blocks_def by blast
  show "region_set r \<subseteq> pool_range p"
    using partitions_bound [OF f, of r] assms(2) by (auto simp: region_set_def pool_range_def)
  show "page_region r" using partitions_page [OF f assms(2)] .
qed

lemma list_cells_page:
  assumes h: "holds_blocks m live p s" and a: "a \<in> list_cells p"
  shows "page_slot a = page_slot (alloc_list p) \<or> page_slot a = page_slot (free_list p)"
    and "\<exists>r\<in>set (list_pages p). unat a \<in> region_set r"
proof -
  have pr: "page_region (alloc_list p, 4096)" "page_region (free_list p, 4096)"
    using region_in_range(2) [OF h] by (simp_all add: list_pages_def)
  then have al: "alloc_list p mod 4096 = 0" "free_list p mod 4096 = 0" by (simp_all add: page_region_def)
  show sl: "page_slot a = page_slot (alloc_list p) \<or> page_slot a = page_slot (free_list p)"
    using a page_cells(2) [OF al(1)] page_cells(2) [OF al(2)] by (auto simp: list_cells_def cells_def)
  show "\<exists>r\<in>set (list_pages p). unat a \<in> region_set r"
    using sl same_page_region [OF pr(1) region_start [OF pr(1)], of a]
      same_page_region [OF pr(2) region_start [OF pr(2)], of a] by (auto simp: list_pages_def)
qed

section \<open>Every step keeps the invariant\<close>

lemma holds_blocks_keeps:
  assumes "holds_blocks m live p s" and "keeps B s s'" and "\<forall>a\<in>list_cells p. page_slot a \<notin> B"
  shows "holds_blocks m live p s'"
  using assms keeps_holds unfolding holds_blocks_def by blast

text \<open>A change of the pages \<open>B\<close> that leaves the lists of every pool but \<open>m\<close> alone.\<close>

lemma pools_hold_step:
  assumes h: "pools_hold ns live s" and k: "keeps B s s'"
    and others: "\<And>k q a. vm_pools s k = Some q \<Longrightarrow> k \<noteq> m \<Longrightarrow> a \<in> list_cells q \<Longrightarrow> page_slot a \<notin> B"
    and same: "\<And>k. k \<noteq> m \<Longrightarrow> blocks_of k live' = blocks_of k live"
    and own: "\<And>p. vm_pools s m = Some p \<Longrightarrow> holds_blocks m live' p s'"
  shows "pools_hold ns live' s'"
proof -
  have eq: "vm_pools s' = vm_pools s" "page_tables s' = page_tables s" "cr3 s' = cr3 s"
    using keepsD(6-8) [OF k] by simp_all
  have "holds_blocks k live' q s'" if q: "vm_pools s k = Some q" for k q
  proof (cases "k = m")
    case True
    then show ?thesis using own q by simp
  next
    case False
    have "holds_blocks k live q s'"
      using holds_blocks_keeps [OF pools_holdD(2) [OF h q] k] others [OF q False] by blast
    then show ?thesis unfolding holds_blocks_def same [OF False] .
  qed
  then show ?thesis using h keepsD(1) [OF k] unfolding pools_hold_def eq by simp
qed

lemma pools_hold_keeps:
  assumes h: "pools_hold ns live s" and k: "keeps B s s'"
    and out: "\<And>k q a. vm_pools s k = Some q \<Longrightarrow> a \<in> list_cells q \<Longrightarrow> page_slot a \<notin> B"
  shows "pools_hold ns live s'"
proof (rule pools_hold_step [OF h k, where m = 0])
  show "holds_blocks 0 live p s'" if "vm_pools s 0 = Some p" for p
    using holds_blocks_keeps [OF pools_holdD(2) [OF h that] k] out [OF that] by blast
qed (use out in blast)+

text \<open>The list pages of a pool are apart from another pool's range and from its own live blocks.\<close>

lemma lists_apart:
  assumes h: "pools_hold ns live s" and p: "vm_pools s m = Some p" and q: "vm_pools s k = Some q"
    and ne: "m \<noteq> k" and a: "a \<in> list_cells q" and b: "unat b \<in> pool_range p"
  shows "page_slot a \<noteq> page_slot b"
proof
  assume eq: "page_slot a = page_slot b"
  note hq = pools_holdD(2) [OF h q]
  obtain r where r: "r \<in> set (list_pages q)" "unat a \<in> region_set r" using list_cells_page(2) [OF hq a] ..
  then have "page_region r" "region_set r \<subseteq> pool_range q" using region_in_range [OF hq, of r] by simp_all
  then have "unat b \<in> pool_range q" using same_page_region [OF _ r(2) eq] by blast
  then show False using pools_holdD(5) [OF h p q ne] b by blast
qed

lemma blocks_apart:
  assumes h: "holds_blocks m live p s" and "blocks_of m live = us @ r # vs"
    and a: "a \<in> list_cells p" and b: "unat b \<in> region_set r"
  shows "page_slot a \<noteq> page_slot b"
proof
  assume eq: "page_slot a = page_slot b"
  obtain q where q: "q \<in> set (list_pages p)" "unat a \<in> region_set q" using list_cells_page(2) [OF h a] ..
  have "page_region q" using region_in_range(2) [OF h] q(1) by simp
  from same_page_region [OF this q(2) eq] have bq: "unat b \<in> region_set q" .
  obtain xs ys where "list_pages p = xs @ q # ys" using q(1) by (meson split_list)
  then have "list_pages p @ blocks_of m live = xs @ q # (ys @ us) @ r # vs" using assms(2) by simp
  then obtain fs where "partitions (unat (base_address p)) (unat (base_address p) + unat (vm_size p))
      (xs @ q # (ys @ us) @ r # vs) fs"
    using h unfolding holds_blocks_def by metis
  from partitions_apart [OF this] show False using b bq by blast
qed

lemma list_cells_own:
  assumes h: "holds_blocks m live p s" and a: "a \<in> list_cells p"
  shows "unat a \<in> pool_range p"
  using list_cells_page(2) [OF h a] region_in_range(1) [OF h] by fastforce

lemma allocate_step:
  assumes h: "pools_hold ns live s" and sz: "0 < sz" "unat sz + 4095 < 4294967296"
    and a: "vm_allocate m sz s = Inr (a, s')"
  shows "pools_hold ns (live @ [(m, a, sz)]) s'"
proof -
  obtain p where p: "vm_pools s m = Some p" using a by (auto simp: vm_allocate_def split: option.splits)
  note hp = pools_holdD(2) [OF h p]
  let ?as = "list_pages p @ blocks_of m live"
  obtain fs where fs: "vm_holds p s ?as fs"
      "partitions (unat (base_address p)) (unat (base_address p) + unat (vm_size p)) ?as fs"
    using hp unfolding holds_blocks_def by blast
  note page = round_up_page(1,2) [OF sz]
  obtain start as' fs' where r: "alloc_regions (round_up sz) ?as fs = Some (start, as', fs')"
    using vm_allocate_fails [OF p fs(1) page(1)] a by (cases "alloc_regions (round_up sz) ?as fs") auto
  obtain s1 where "vm_allocate m sz s = Inr (start, s1)" "vm_holds p s1 as' fs'" "same_map (list_cells p) s s1"
    using vm_allocate_refines [OF p fs(1) page(1) r] by blast
  then have s': "start = a" "vm_holds p s' as' fs'" "same_map (list_cells p) s s'" using a by simp_all
  have as': "as' = list_pages p @ blocks_of m (live @ [(m, a, sz)])"
    using r s'(1) by (auto simp: alloc_regions_def Let_def block_region_def split: if_splits prod.splits)
  have "holds_blocks m (live @ [(m, a, sz)]) p s'"
    unfolding holds_blocks_def as' [symmetric] using s'(2) alloc_partitions [OF fs(2) page r] by blast
  moreover have ok: "paging_ok s" "paging_ok s'" "\<forall>a\<in>list_cells p. resident s a"
    using fs(1) s'(2) by (simp_all add: vm_holds_def pool_holds_def lists_ready_def)
  ultimately show ?thesis
    using lists_apart [OF h p] list_cells_own [OF hp] p
    by (intro pools_hold_step [OF h same_map_keeps [OF s'(3) ok], where m = m]) auto
qed

text \<open>The block that \<open>release\<close> finds is the one with that start.\<close>

lemma region_ix_unique:
  assumes p: "partitions lo hi (us @ (a, n) # vs) fs"
  shows "region_ix a (us @ (a, n) # vs) = length us" and "drop_nth (length us) (us @ (a, n) # vs) = us @ vs"
proof -
  have "fst r \<noteq> a" if r: "r \<in> set us" for r
  proof
    assume eq: "fst r = a"
    obtain xs ys where "us = xs @ r # ys" using r by (meson split_list)
    then have "region_set r \<inter> region_set (a, n) = {}"
      using partitions_apart [of lo hi xs r ys "(a, n)" vs fs] p by simp
    moreover have "page_region r" "page_region (a, n)" using partitions_page [OF p] r by simp_all
    ultimately show False using region_start [of r] region_start [of "(a, n)"] eq by fastforce
  qed
  then have "takeWhile (\<lambda>r. fst r \<noteq> a) (us @ (a, n) # vs) = us" by (simp add: takeWhile_append2)
  then show "region_ix a (us @ (a, n) # vs) = length us" by (simp add: region_ix_def)
qed (simp add: drop_nth_def)

lemma page_addr_in_region:
  assumes "unat a + 4096 * n \<le> 4294967295" and "unat r = 4096 * n" and "k < n"
  shows "unat (page_addr a k) \<in> region_set (a, r)"
  using unat_page_addr [OF assms(1), of k] assms(2,3) by (simp add: region_set_def)

text \<open>A live block is made of whole pages, apart from the list pages of every pool.\<close>

lemma live_block:
  assumes h: "pools_hold ns (bs @ (m, a, sz) # cs) s" and p: "vm_pools s m = Some p"
    and n: "n = unat (round_up sz) div 4096"
  shows "a mod 4096 = 0" and "unat (round_up sz) = 4096 * n" and "unat a + 4096 * n \<le> 4294967295"
    and "vm_pools s i = Some q \<Longrightarrow> c \<in> list_cells q \<Longrightarrow> k < n \<Longrightarrow> page_slot c \<noteq> page_slot (page_addr a k)"
proof -
  let ?live = "bs @ (m, a, sz) # cs" and ?r = "round_up sz"
  note hp = pools_holdD(2) [OF h p]
  have bl: "blocks_of m ?live = blocks_of m bs @ (a, ?r) # blocks_of m cs" by (simp add: block_region_def)
  then have mem: "(a, ?r) \<in> set (list_pages p @ blocks_of m ?live)" by simp
  note reg = region_in_range [OF hp mem]
  show pr: "a mod 4096 = 0" "unat ?r = 4096 * n"
    using reg(2) n by (auto simp: page_region_def unat_mod_4096)
  obtain fs where "partitions (unat (base_address p)) (unat (base_address p) + unat (vm_size p))
      (list_pages p @ blocks_of m ?live) fs"
    using hp unfolding holds_blocks_def by blast
  moreover have "(a, ?r) \<in> set ((list_pages p @ blocks_of m ?live) @ fs)"
    using mem by (metis UnI1 set_append)
  ultimately have "unat (fst (a, ?r)) + unat (snd (a, ?r)) \<le> unat (base_address p) + unat (vm_size p)"
    by (rule partitions_bound(2))
  then show bound: "unat a + 4096 * n \<le> 4294967295"
    using pools_holdD(3) [OF h p] pr(2) by simp
  show "page_slot c \<noteq> page_slot (page_addr a k)"
    if q: "vm_pools s i = Some q" and c: "c \<in> list_cells q" and k: "k < n"
  proof -
    note in_r = page_addr_in_region [OF bound pr(2) k]
    show ?thesis
    proof (cases "i = m")
      case True
      then have "c \<in> list_cells p" using c q p by simp
      then show ?thesis using blocks_apart [OF hp bl _ in_r] by blast
    next
      case False
      have "unat (page_addr a k) \<in> pool_range p" using in_r reg(1) by blast
      then show ?thesis using lists_apart [OF h p q _ c] False by blast
    qed
  qed
qed

text \<open>\<open>release\<close> of a live block, when it returns, moves the block from one list to the other.\<close>

lemma release_block:
  assumes h: "pools_hold ns (bs @ (m, a, sz) # cs) s" and p: "vm_pools s m = Some p"
    and n: "n = unat (round_up sz) div 4096" and ready: "region_ready s a n"
    and r: "vm_release m a s = Inr s'"
  shows "\<exists>s1. region_unmapped s a n s1 \<and> same_map (list_cells p) s1 s'
    \<and> (\<forall>c\<in>list_cells p. resident s1 c) \<and> paging_ok s1 \<and> holds_blocks m (bs @ cs) p s'"
proof -
  let ?live = "bs @ (m, a, sz) # cs" and ?r = "round_up sz"
  note lb = live_block [OF h p n]
  define us where us: "us = list_pages p @ blocks_of m bs"
  define vs where vs: "vs = blocks_of m cs"
  have as: "list_pages p @ blocks_of m ?live = us @ (a, ?r) # vs" by (simp add: us vs block_region_def)
  obtain fs where fs: "vm_holds p s (us @ (a, ?r) # vs) fs"
      "partitions (unat (base_address p)) (unat (base_address p) + unat (vm_size p)) (us @ (a, ?r) # vs) fs"
    using pools_holdD(2) [OF h p] unfolding holds_blocks_def as by blast
  have len: "word_of_nat (4096 * n) = ?r" by (simp flip: lb(2))
  obtain t where t: "page_tables s (page_table p) = Some t" "cr3 s = page_directory t"
      "node_chain (vm_pools s) (head_pool t) ns"
    using pools_holdD(4) [OF h p] by blast
  have dom: "\<exists>q. vm_pools s i = Some q" if "i \<in> set ns" for i
    using h that unfolding pools_hold_def by blast
  define AL where AL: "AL k = list_pages (the (vm_pools s k)) @ blocks_of k ?live" for k
  have lists: "\<forall>i\<in>set ns. \<exists>fs. vm_holds (the (vm_pools s i)) s (AL i) fs"
    using pools_holdD(2) [OF h] dom unfolding AL holds_blocks_def by fastforce
  have AL_m: "AL m = us @ (a, ?r) # vs" using p as by (simp add: AL)
  have apart: "\<forall>i\<in>set ns. \<forall>c\<in>list_cells (the (vm_pools s i)). \<forall>k<n. page_slot c \<noteq> page_slot (page_addr a k)"
    using lb(4) dom by fastforce
  note ix = region_ix_unique [OF fs(2)]
  have region: "(us @ (a, ?r) # vs) ! region_ix a (us @ (a, ?r) # vs) = (a, word_of_nat (4096 * n))"
    using ix(1) len by simp
  have "length fs \<noteq> 511"
    using vm_release_full [OF p fs(1) _ _ region lb(1) t pools_holdD(1) [OF h p] lists AL_m apart lb(3) ready]
      ix(1) r by auto
  moreover have "length fs \<le> 511" using fs(1) by (simp add: vm_holds_def pool_holds_def holds_list_def)
  ultimately have rel: "release_regions a (us @ (a, ?r) # vs) fs = Some (us @ vs, fs @ [(a, ?r)])"
    using ix by (simp add: release_regions_def)
  obtain s1 where s1: "vm_holds p s1 (us @ (a, ?r) # vs) fs" "vm_holds p s' (us @ vs) (fs @ [(a, ?r)])"
      "region_unmapped s a n s1" "same_map (list_cells p) s1 s'"
    using vm_release_ok [OF p fs(1) rel region lb(1) t pools_holdD(1) [OF h p] lists AL_m apart lb(3) ready] r by auto
  have "list_pages p @ blocks_of m (bs @ cs) = us @ vs" by (simp add: us vs)
  then have "holds_blocks m (bs @ cs) p s'"
    using s1(2) release_partitions [OF fs(2) rel] unfolding holds_blocks_def by metis
  moreover have "paging_ok s1" "\<forall>c\<in>list_cells p. resident s1 c"
    using s1(1) by (simp_all add: vm_holds_def pool_holds_def lists_ready_def)
  ultimately show ?thesis using s1(3,4) by blast
qed

lemma release_step:
  assumes h: "pools_hold ns (bs @ (m, a, sz) # cs) s"
    and ready: "region_ready s a (unat (round_up sz) div 4096)" and r: "vm_release m a s = Inr s'"
  shows "pools_hold ns (bs @ cs) s'"
proof -
  let ?n = "unat (round_up sz) div 4096"
  obtain p where p: "vm_pools s m = Some p" using r by (auto simp: vm_release_def split: option.splits)
  note hp = pools_holdD(2) [OF h p] and apart = live_block(4) [OF h p refl]
  obtain s1 where s1: "region_unmapped s a ?n s1" "same_map (list_cells p) s1 s'" "paging_ok s1"
      "\<forall>c\<in>list_cells p. resident s1 c" "holds_blocks m (bs @ cs) p s'"
    using release_block [OF h p refl ready r] by blast
  let ?B = "{page_slot (page_addr a k) |k. k < ?n}"
  have k1: "keeps ?B s s1" using s1(1) by (simp add: region_unmapped_def)
  have "paging_ok s'"
    using s1(5) by (auto simp: holds_blocks_def vm_holds_def pool_holds_def lists_ready_def)
  note k2 = same_map_keeps [OF s1(2,3) this s1(4)]
  have k: "keeps (?B \<union> page_slot ` list_cells p) s s'"
    using keeps_trans [OF keeps_mono [OF k1] keeps_mono [OF k2]] by blast
  show ?thesis
  proof (rule pools_hold_step [OF h k, where m = m])
    show "page_slot c \<notin> ?B \<union> page_slot ` list_cells p" if "vm_pools s i = Some q" "i \<noteq> m" "c \<in> list_cells q" for i q c
      using apart [OF that(1,3)] lists_apart [OF h p that(1) _ that(3)] list_cells_own [OF hp] that(2) by blast
    show "holds_blocks m (bs @ cs) p' s'" if "vm_pools s m = Some p'" for p'
      using that p s1(5) by simp
  qed auto
qed

lemma access_step:
  assumes h: "pools_hold ns live s" and k: "keeps {page_slot a} s s'" and a: "\<not> list_page s a"
  shows "pools_hold ns live s'"
proof (rule pools_hold_keeps [OF h k])
  show "page_slot c \<notin> {page_slot a}" if q: "vm_pools s i = Some q" and c: "c \<in> list_cells q" for i q c
    using list_cells_page(1) [OF pools_holdD(2) [OF h q] c] a q unfolding list_page_def by (metis singletonD)
qed

lemma list_page_resident:
  assumes h: "pools_hold ns live s" and a: "list_page s a" "aligned a"
  shows "resident s a"
proof -
  obtain m p where p: "vm_pools s m = Some p"
      "page_slot a = page_slot (alloc_list p) \<or> page_slot a = page_slot (free_list p)"
    using a(1) unfolding list_page_def by blast
  obtain fs where f: "vm_holds p s (list_pages p @ blocks_of m live) fs"
    using pools_holdD(2) [OF h p(1)] unfolding holds_blocks_def by blast
  have "cell (alloc_list p) 0 \<in> list_cells p" "cell (free_list p) 0 \<in> list_cells p"
    by (simp_all add: list_cells_def)
  then have "resident s (alloc_list p)" "resident s (free_list p)"
    using f by (simp_all add: vm_holds_def pool_holds_def lists_ready_def cell_def)
  then show ?thesis using p(2) a(2) by (auto simp: resident_def)
qed

lemma load_step:
  assumes h: "pools_hold ns live s" and a: "servable s a" and l: "demand_load a s = Inr (v, s')"
  shows "pools_hold ns live s'"
proof (cases "resident s a")
  case True
  have "paging_ok s" using h by (simp add: pools_hold_def)
  from load_resident [OF this True] show ?thesis using h l by simp
next
  case False
  have "paging_ok s" "aligned a" using h a by (simp_all add: pools_hold_def servable_def)
  then obtain s1 where s1: "touch 0 a s = Some (Inr (phys (page_of s1 a) (offset a), s1))" "keeps {page_slot a} s s1"
    using touch_ok [OF _ a, of 0] by auto
  then have "s' = s1" using l by (simp add: demand_load_def)
  then show ?thesis
    using access_step [OF h s1(2)] list_page_resident [OF h _ \<open>aligned a\<close>] False by blast
qed

theorem pool_run_holds:
  assumes "pool_run s0 live s" and "pools_hold ns [] s0"
  shows "pools_hold ns live s"
  using assms
proof induction
  case (store live s a v s')
  then have h: "pools_hold ns live s" by blast
  then have "paging_ok s" by (simp add: pools_hold_def)
  from demand_store_stored [OF this store.hyps(2), of v]
  have "keeps {page_slot a} s s'" using store.hyps(4) by (auto simp: stored_def)
  then show ?case using access_step [OF h _ store.hyps(3)] by blast
qed (blast intro: allocate_step release_step load_step)+

section \<open>Live blocks never overlap\<close>

text \<open>The addresses of a block, rounded up to whole pages.\<close>

definition block_bytes :: "block \<Rightarrow> nat set" where
  "block_bytes b = region_set (block_region b)"

lemma live_split: "i < j \<Longrightarrow> j < length xs \<Longrightarrow> \<exists>us vs ws. xs = us @ xs ! i # vs @ xs ! j # ws"
proof -
  assume ij: "i < j" "j < length xs"
  have "xs = take j xs @ xs ! j # drop (Suc j) xs" using id_take_nth_drop [OF ij(2)] .
  moreover have "take j xs = take i xs @ xs ! i # drop (Suc i) (take j xs)"
    using id_take_nth_drop [of i "take j xs"] ij by (simp add: min_def)
  ultimately show ?thesis by (metis append.assoc append_Cons)
qed

lemma live_disjoint:
  assumes h: "pools_hold ns (us @ (m, a, x) # vs @ (k, b, y) # ws) s"
    and p: "vm_pools s m = Some p" "vm_pools s k = Some q"
  shows "block_bytes (m, a, x) \<inter> block_bytes (k, b, y) = {}"
proof (cases "m = k")
  case False
  have "block_bytes (m, a, x) \<subseteq> pool_range p" "block_bytes (k, b, y) \<subseteq> pool_range q"
    unfolding block_bytes_def
    by (rule region_in_range(1) [OF pools_holdD(2) [OF h p(1)]], simp)
      (rule region_in_range(1) [OF pools_holdD(2) [OF h p(2)]], simp)
  then show ?thesis using pools_holdD(5) [OF h p False] by blast
next
  case True
  let ?R = "\<lambda>b. block_region b"
  have "list_pages p @ blocks_of m (us @ (m, a, x) # vs @ (k, b, y) # ws)
      = (list_pages p @ blocks_of m us) @ ?R (m, a, x) # blocks_of m vs @ ?R (k, b, y) # blocks_of m ws"
    using True by simp
  then obtain fs where "partitions (unat (base_address p)) (unat (base_address p) + unat (vm_size p))
      ((list_pages p @ blocks_of m us) @ ?R (m, a, x) # blocks_of m vs @ ?R (k, b, y) # blocks_of m ws) fs"
    using pools_holdD(2) [OF h p(1)] unfolding holds_blocks_def by metis
  from partitions_apart [OF this] show ?thesis by (simp add: block_bytes_def)
qed

lemma live_pools:
  assumes "pool_run s0 live s" and "pools_hold ns [] s0"
  shows "\<forall>b\<in>set live. fst b \<in> set ns"
  using assms
proof induction
  case (allocate live s sz m a s')
  have "m \<in> dom (vm_pools s)" using allocate.hyps(4) by (auto simp: vm_allocate_def split: option.splits)
  then have "m \<in> set ns" using pool_run_holds [OF allocate.hyps(1) allocate.prems] by (simp add: pools_hold_def)
  then show ?case using allocate.IH [OF allocate.prems] by simp
qed auto

lemma live_in_pool:
  assumes h: "pools_hold ns live s" and b: "b \<in> set live" and p: "vm_pools s (fst b) = Some p"
  shows "block_bytes b \<subseteq> pool_range p" and "r \<in> set (list_pages p) \<Longrightarrow> block_bytes b \<inter> region_set r = {}"
proof -
  note hp = pools_holdD(2) [OF h p]
  obtain us vs where "live = us @ b # vs" using b by (meson split_list)
  then have bl: "blocks_of (fst b) live = blocks_of (fst b) us @ block_region b # blocks_of (fst b) vs" by simp
  then show "block_bytes b \<subseteq> pool_range p"
    unfolding block_bytes_def by (intro region_in_range(1) [OF hp]) simp
  show "block_bytes b \<inter> region_set r = {}" if r: "r \<in> set (list_pages p)"
  proof -
    obtain xs ys where xs: "list_pages p = xs @ r # ys" using r by (meson split_list)
    obtain fs where fs: "partitions (unat (base_address p)) (unat (base_address p) + unat (vm_size p))
        (list_pages p @ blocks_of (fst b) live) fs"
      using hp unfolding holds_blocks_def by blast
    have "list_pages p @ blocks_of (fst b) live
        = xs @ r # (ys @ blocks_of (fst b) us) @ block_region b # blocks_of (fst b) vs"
      unfolding bl xs by simp
    from partitions_apart [OF fs [unfolded this]] show ?thesis unfolding block_bytes_def by blast
  qed
qed

lemma live_never_overlap:
  assumes run: "pool_run s0 live s" and h0: "pools_hold ns [] s0"
    and ij: "i < j" "j < length live"
  shows "block_bytes (live ! i) \<inter> block_bytes (live ! j) = {}"
proof -
  note h = pool_run_holds [OF run h0]
  obtain us vs ws where split: "live = us @ live ! i # vs @ live ! j # ws" using live_split [OF ij] by blast
  obtain m a x k b y where e: "live ! i = (m, a, x)" "live ! j = (k, b, y)" by (metis surj_pair)
  have "live ! i \<in> set live" "live ! j \<in> set live" using ij by simp_all
  then have "fst (live ! i) \<in> set ns" "fst (live ! j) \<in> set ns" using live_pools [OF run h0] by blast+
  then have "m \<in> dom (vm_pools s)" "k \<in> dom (vm_pools s)" using h e by (simp_all add: pools_hold_def)
  then obtain p q where "vm_pools s m = Some p" "vm_pools s k = Some q" by blast
  moreover have "live = us @ (m, a, x) # vs @ (k, b, y) # ws" using split unfolding e .
  from h [unfolded this] have "pools_hold ns (us @ (m, a, x) # vs @ (k, b, y) # ws) s" .
  ultimately show ?thesis using live_disjoint e by metis
qed

end
