(* ===== verification/Sample_States.thy ===== *)
theory Sample_States
  imports Demand_Memory Pool_Runs
begin

text \<open>
  A small concrete system on which the theorems are instantiated: one frame pool of 16 frames
  from frame 1024 on, built by the constructor over blank memory with its bitmap in frame 1; the
  state after the boot sequence turned paging on; the state after a \<open>VMPool\<close> of 64 KB was
  constructed at \<open>0x20000000\<close>; the state after two pages were allocated from it; and a run
  of two allocations with a store between them.
\<close>

section \<open>The states\<close>

definition blank :: paging_state where
  "blank = \<lparr>mem = (\<lambda>_. 0), frame_pools = Map.empty, fp_head = None, cr0 = 1, cr2 = 0, cr3 = 0,
     current_page_table = None, paging_enabled = 0, kernel_mem_pool = None,
     process_mem_pool = None, shared_size = 0, page_tables = Map.empty, vm_pools = Map.empty\<rparr>"

definition frames_state :: "u32 \<Rightarrow> paging_state" where
  "frames_state n = init_paging 0 0 0x400000 (ContFramePool 0 1024 n 1 blank)"

definition with_frames :: paging_state where
  "with_frames = frames_state 16"

definition reached :: "'a outcome \<Rightarrow> 'a" where
  "reached r = (case r of Inr s \<Rightarrow> s)"

definition booted :: paging_state where
  "booted = reached (boot_paging 0 with_frames)"

definition with_pool :: paging_state where
  "with_pool = reached (VMPool 0 0x20000000 0x10000 0 0 booted)"

definition with_region :: paging_state where
  "with_region = snd (reached (vm_allocate 0 5000 with_pool))"

definition sample_frame_pool :: cont_frame_pool where
  "sample_frame_pool = \<lparr>bitmap = 0x1000, nFreeFrames = 16, base_frame_no = 1024, nframes = 16,
     info_frame_no = 1, info_frame_total = 1, next_fp = None\<rparr>"

definition sample_vm_pool :: vm_pool where
  "sample_vm_pool = built_pool 0x20000000 0x10000 0 0 \<lparr>page_directory = cr3 booted, head_pool = None\<rparr>"

lemma reached_Inr [simp]: "reached (Inr s) = s"
  by (simp add: reached_def)

section \<open>The frame pool\<close>

definition frames_pool :: "u32 \<Rightarrow> cont_frame_pool" where
  "frames_pool n = \<lparr>bitmap = 0x1000, nFreeFrames = n, base_frame_no = 1024, nframes = n,
     info_frame_no = 1, info_frame_total = needed_info_frames n, next_fp = None\<rparr>"

lemma frames_pool_16: "frames_pool 16 = sample_frame_pool"
  by (simp add: frames_pool_def sample_frame_pool_def needed_info_frames_def)

lemma frames_built:
  assumes "unat n \<le> 16"
  obtains m where "pool_construct (\<lambda>_. 0) None 1024 n 1 = (m, frames_pool n)"
    "fstates m (frames_pool n) = replicate (unat n) Free" "pool_ok m (frames_pool n)"
proof -
  have "fresh_pool None 1024 n 1 = frames_pool n"
    by (simp add: fresh_pool_def frames_pool_def)
  moreover have "\<not> (1024 \<le> (1 :: u32) \<and> 1 + needed_info_frames n \<le> 1024 + n)"
    by (simp add: word_le_nat_alt)
  ultimately show ?thesis
    using that pool_construct_outside [of 1024 n 1 "\<lambda>_. 0" None] assms by auto
qed

lemma frames_state_fields:
  assumes "unat n \<le> 16"
  shows "frame_pools (frames_state n) = [0 \<mapsto> frames_pool n]" "fp_head (frames_state n) = Some 0"
    "process_mem_pool (frames_state n) = Some 0" "cr0 (frames_state n) = 1"
    "page_tables (frames_state n) = Map.empty" "vm_pools (frames_state n) = Map.empty"
  by (rule frames_built [OF assms], simp add: frames_state_def init_paging_def ContFramePool_def blank_def)+

lemma frames_state_ok:
  assumes "unat n \<le> 16"
  shows "pools_ok (frames_state n)" "states (frames_state n) 0 = replicate (unat n) Free"
proof -
  note f = frames_state_fields [OF assms]
  obtain m where m: "pool_construct (\<lambda>_. 0) None 1024 n 1 = (m, frames_pool n)"
    "fstates m (frames_pool n) = replicate (unat n) Free" "pool_ok m (frames_pool n)"
    using frames_built [OF assms] .
  have mem: "mem (frames_state n) = m"
    using m(1) by (simp add: frames_state_def init_paging_def ContFramePool_def blank_def)
  then show "states (frames_state n) 0 = replicate (unat n) Free"
    using m(2) by (simp add: states_def f)
  have "next_fp (frames_pool n) = None" by (simp add: frames_pool_def)
  then have "pool_chain (frame_pools (frames_state n)) (fp_head (frames_state n)) [0]"
    by (simp add: f)
  then show "pools_ok (frames_state n)"
    using m(3) mem unfolding pools_ok_def f
    by (auto intro!: exI [of _ "[0]"] split: if_splits)
qed

lemma frames_state_arena:
  assumes "unat n \<le> 16"
  shows "arena (frames_state n)" "free_count (frames_state n) = unat n"
proof -
  note f = frames_state_fields [OF assms]
  have "unat x < kernel_top" if "x \<in> bitmap_bytes (frames_pool n)" for x
  proof -
    have "x \<in> (\<lambda>f. 0x1000 + f div 4) ` {f. f < n}"
      using that by (simp add: bitmap_bytes_def frames_pool_def)
    then obtain g :: u32 where g: "g < n" "x = 0x1000 + g div 4" by blast
    then have "unat g < 16" using assms by (simp add: word_less_nat_alt)
    then have "unat x < 4096 + 16"
      using g(2) by (simp add: unat_word_ariths unat_div)
    then show ?thesis by (simp add: kernel_top_def)
  qed
  moreover have "base_frame_no (frames_pool n) = 1024" "nframes (frames_pool n) = n"
    by (simp_all add: frames_pool_def)
  ultimately show "arena (frames_state n)"
    using frames_state_ok(1) [OF assms] assms by (auto simp: arena_def f split: if_splits)
  show "free_count (frames_state n) = unat n"
    using frames_state_ok(2) [OF assms] by (simp add: free_count_def process_states_def f)
qed

lemma sample_size: "unat (16 :: u32) \<le> 16" "unat (2 :: u32) \<le> 16"
  by simp_all

lemmas with_frames_fields =
  frames_state_fields [OF sample_size(1), folded with_frames_def, unfolded frames_pool_16]

lemma with_frames_ok: "pools_ok with_frames" "states with_frames 0 = replicate 16 Free"
  using frames_state_ok [OF sample_size(1)] by (simp_all add: with_frames_def)

lemma with_frames_arena: "arena with_frames" "free_count with_frames = 16"
  using frames_state_arena [OF sample_size(1)] by (simp_all add: with_frames_def)

text \<open>The frame pool after three frames were taken.\<close>

lemma unat_numeral_3: "unat (3 :: u32) = 3"
  by simp

lemma sample_runs:
  "take_run 0 3 (replicate 16 Free) = [HoS, Used, Used] @ replicate 13 Free"
  "section_len 0 ([HoS, Used, Used] @ replicate 13 Free) = 3"
  "release_run 0 ([HoS, Used, Used] @ replicate 13 Free) = replicate 16 Free"
  by (simp_all add: take_run_def section_len_def release_run_def eval_nat_numeral)

definition with_section :: paging_state where
  "with_section = snd (reached (get_frames 0 3 with_frames))"

lemma with_section_ok:
  "pools_ok with_section" "frame_pools with_section 0 = Some (sample_frame_pool\<lparr>nFreeFrames := 13\<rparr>)"
  "states with_section 0 = [HoS, Used, Used] @ replicate 13 Free"
  "frame_pools with_section a \<noteq> None \<Longrightarrow> a = 0"
proof -
  have p: "frame_pools with_frames 0 = Some sample_frame_pool" by (simp add: with_frames_fields)
  have r: "free_run (states with_frames 0) 0 (unat (3 :: u32))"
    by (simp add: with_frames_ok(2) free_run_def)
  have nf: "nFreeFrames sample_frame_pool - 3 = 13" by (simp add: sample_frame_pool_def)
  obtain s' where s': "get_frames 0 3 with_frames = Inr (base_frame_no sample_frame_pool + word_of_nat 0, s')"
    "frame_pools s' 0 = Some (sample_frame_pool\<lparr>nFreeFrames := nFreeFrames sample_frame_pool - 3\<rparr>)"
    "states s' 0 = take_run 0 (unat (3 :: u32)) (states with_frames 0)" "pools_ok s'"
    "only_pool 0 sample_frame_pool with_frames s'"
    using get_frames_alloc [OF with_frames_ok(1) p _ r] by auto
  then have e: "with_section = s'" by (simp add: with_section_def)
  show "pools_ok with_section" using s'(4) e by simp
  show "frame_pools with_section 0 = Some (sample_frame_pool\<lparr>nFreeFrames := 13\<rparr>)"
    using s'(2) nf unfolding e by simp
  show "states with_section 0 = [HoS, Used, Used] @ replicate 13 Free"
    using s'(3) unfolding e by (simp only: with_frames_ok(2) sample_runs unat_numeral_3)
  show "frame_pools with_section a \<noteq> None \<Longrightarrow> a = 0"
    using s'(5) unfolding e only_pool_def by (metis with_frames_fields(1) fun_upd_apply)
qed

section \<open>Paging on\<close>

lemma booted_ok:
  obtains P F where "boot_paging 0 with_frames = Inr booted" "paging_ok booted"
    "slots booted = (\<lambda>_. None)(Dir \<mapsto> P, Table 0 \<mapsto> F)" "free_count booted = 14"
    "page_tables booted = [0 \<mapsto> \<lparr>page_directory = cr3 booted, head_pool = None\<rparr>]"
    "vm_pools booted = Map.empty"
proof -
  have "\<not> bit (cr0 with_frames) 31" by (simp add: with_frames_fields)
  from boot_paging_ok [OF with_frames_arena(1) _ this, of 0]
  obtain P F s' where s': "boot_paging 0 with_frames = Inr s'" "paging_ok s'"
    "slots s' = (\<lambda>_. None)(Dir \<mapsto> P, Table 0 \<mapsto> F)" "free_count with_frames = free_count s' + 2"
    "page_tables s' = [0 \<mapsto> \<lparr>page_directory = word_of_nat P * PAGE_SIZE, head_pool = None\<rparr>]"
    "cr3 s' = word_of_nat P * PAGE_SIZE" "vm_pools s' = Map.empty"
    unfolding with_frames_fields with_frames_arena(2) by auto
  then have "booted = s'" by (simp add: booted_def)
  then show ?thesis using that s' with_frames_arena(2) by simp
qed

section \<open>A virtual memory pool\<close>

lemma sample_vm_pool_fields:
  "base_address sample_vm_pool = 0x20000000" "vm_size sample_vm_pool = 0x10000"
  "alloc_list sample_vm_pool = 0x20000000" "free_list sample_vm_pool = 0x20001000"
  "page_table sample_vm_pool = 0" "next_pool sample_vm_pool = None"
  by (simp_all add: sample_vm_pool_def built_pool_def new_vm_pool_def round_up_def)

abbreviation sample_free :: "region list" where
  "sample_free \<equiv> [(0x20002000, 0xE000)]"

abbreviation sample_alloc :: "region list" where
  "sample_alloc \<equiv> [(0x20000000, 0x1000), (0x20001000, 0x1000)]"

lemma sample_dirs: "dir_ix 0x20000000 = 128" "dir_ix 0x20001000 = 128" "dir_ix 0x20002000 = 128"
  "dir_ix 0x20003000 = 128"
  "tbl_ix 0x20000000 = 0" "tbl_ix 0x20001000 = 1" "tbl_ix 0x20002000 = 2" "tbl_ix 0x20003000 = 3"
  by (simp_all add: dir_ix_def tbl_ix_def)

lemma booted_unmapped:
  assumes "0 < d" "d < 1023"
  shows "mapped booted d t = None"
proof -
  obtain P F where "slots booted = (\<lambda>_. None)(Dir \<mapsto> P, Table 0 \<mapsto> F)"
    using booted_ok by metis
  then have "slots booted (Table d) = None" using assms by simp
  then show ?thesis using assms unfolding mapped_def by (simp add: lookup_table)
qed

lemma with_pool_ok:
  "VMPool 0 0x20000000 0x10000 0 0 booted = Inr with_pool"
  "vm_holds sample_vm_pool with_pool sample_alloc sample_free"
  "vm_pools with_pool = [0 \<mapsto> sample_vm_pool]"
  "page_tables with_pool = [0 \<mapsto> \<lparr>page_directory = cr3 with_pool, head_pool = Some 0\<rparr>]"
  "10 \<le> free_count with_pool"
proof -
  obtain P F where b: "paging_ok booted" "free_count booted = 14"
    "page_tables booted = [0 \<mapsto> \<lparr>page_directory = cr3 booted, head_pool = None\<rparr>]"
    "vm_pools booted = Map.empty"
    using booted_ok by metis
  have bt: "page_tables booted 0 = Some \<lparr>page_directory = cr3 booted, head_pool = None\<rparr>"
    using b(3) by simp
  have "first_regions sample_vm_pool = (sample_alloc, sample_free)"
    by (simp add: first_regions_def sample_vm_pool_fields)
  then have fr: "fst (first_regions sample_vm_pool) = sample_alloc"
    "snd (first_regions sample_vm_pool) = sample_free" by simp_all
  have "\<exists>s'. VMPool 0 0x20000000 0x10000 0 0 booted = Inr s'
    \<and> vm_holds sample_vm_pool s' sample_alloc sample_free
    \<and> vm_pools s' = (vm_pools booted)(0 \<mapsto> sample_vm_pool)
    \<and> page_tables s' = (page_tables booted)(0 \<mapsto> \<lparr>page_directory = cr3 booted, head_pool = None\<rparr>\<lparr>head_pool := Some 0\<rparr>)
    \<and> (\<forall>sl g. slots booted sl = Some g \<longrightarrow> slots s' sl = Some g)
    \<and> cr3 s' = cr3 booted \<and> free_count booted \<le> free_count s' + 4"
    unfolding fr [symmetric] unfolding sample_vm_pool_def
    by (rule ex_forward [OF VMPool_ok [OF b(1) bt, where base = "0x20000000" and ?size0.0 = "0x10000"
        and fp = 0 and this = 0]])
      (simp_all add: sample_dirs booted_unmapped b(2) round_up_def)
  then obtain s' where s': "VMPool 0 0x20000000 0x10000 0 0 booted = Inr s'"
    "vm_holds sample_vm_pool s' sample_alloc sample_free"
    "vm_pools s' = (vm_pools booted)(0 \<mapsto> sample_vm_pool)"
    "page_tables s' = (page_tables booted)(0 \<mapsto> \<lparr>page_directory = cr3 booted, head_pool = Some 0\<rparr>)"
    "cr3 s' = cr3 booted" "free_count booted \<le> free_count s' + 4"
    by auto
  have e: "with_pool = s'" using s'(1) by (simp add: with_pool_def)
  show "VMPool 0 0x20000000 0x10000 0 0 booted = Inr with_pool" using s'(1) e by simp
  show "vm_holds sample_vm_pool with_pool sample_alloc sample_free" using s'(2) e by simp
  show "vm_pools with_pool = [0 \<mapsto> sample_vm_pool]" using s'(3) e b(4) by simp
  show "page_tables with_pool = [0 \<mapsto> \<lparr>page_directory = cr3 with_pool, head_pool = Some 0\<rparr>]"
    using s'(4,5) e b(3) by simp
  show "10 \<le> free_count with_pool" using s'(6) e b(2) by simp
qed

text \<open>Two pages for a request of 5000 bytes.\<close>

lemma sample_alloc_regions:
  "alloc_regions (round_up 5000) sample_alloc sample_free =
     Some (0x20002000, sample_alloc @ [(0x20002000, 0x2000)], [(0x20004000, 0xC000)])"
  by (simp add: alloc_regions_def first_fit_def round_up_def)

lemma with_region_ok:
  "vm_allocate 0 5000 with_pool = Inr (0x20002000, with_region)"
  "vm_holds sample_vm_pool with_region (sample_alloc @ [(0x20002000, 0x2000)]) [(0x20004000, 0xC000)]"
  "same_map (list_cells sample_vm_pool) with_pool with_region"
proof -
  have p: "vm_pools with_pool 0 = Some sample_vm_pool" by (simp add: with_pool_ok(3))
  have "round_up 5000 \<noteq> 0" by (simp add: round_up_def)
  from vm_allocate_refines [OF p with_pool_ok(2) this sample_alloc_regions]
  obtain s' where s': "vm_allocate 0 5000 with_pool = Inr (0x20002000, s')"
    "vm_holds sample_vm_pool s' (sample_alloc @ [(0x20002000, 0x2000)]) [(0x20004000, 0xC000)]"
    "same_map (list_cells sample_vm_pool) with_pool s'"
    by blast
  moreover have "with_region = s'" using s'(1) by (simp add: with_region_def)
  ultimately show "vm_allocate 0 5000 with_pool = Inr (0x20002000, with_region)"
    "vm_holds sample_vm_pool with_region (sample_alloc @ [(0x20002000, 0x2000)]) [(0x20004000, 0xC000)]"
    "same_map (list_cells sample_vm_pool) with_pool with_region" by simp_all
qed

lemma vm_holds_table:
  assumes "vm_holds p s as fs" and "alloc_list p = l"
  shows "\<exists>F. slots s (Table (dir_ix l)) = Some F" and "paging_ok s"
proof -
  have "cell l 0 \<in> list_cells p" using assms(2) by (auto simp: list_cells_def cells_def)
  moreover have "cell l 0 = l" by (simp add: cell_def)
  ultimately have "resident s l"
    using assms(1) unfolding vm_holds_def pool_holds_def lists_ready_def by metis
  then show "\<exists>F. slots s (Table (dir_ix l)) = Some F"
    by (cases "slots s (Table (dir_ix l))") (auto simp: resident_def slots_def split: if_splits)
  show "paging_ok s" using assms(1) by (simp add: vm_holds_def pool_holds_def lists_ready_def)
qed

lemma with_pool_resident: "resident with_pool 0x20000000" "resident with_pool 0x20001000"
proof -
  have "cell 0x20000000 0 \<in> list_cells sample_vm_pool" "cell 0x20001000 0 \<in> list_cells sample_vm_pool"
    unfolding list_cells_def sample_vm_pool_fields by (blast intro: cell_in_cells zero_less_numeral)+
  then show "resident with_pool 0x20000000" "resident with_pool 0x20001000"
    using with_pool_ok(2) unfolding vm_holds_def pool_holds_def lists_ready_def by (auto simp: cell_def)
qed

lemma with_pool_servable: "servable with_pool 0x20003004"
proof -
  have "fault_cost with_pool 0x20003004 \<le> free_count with_pool"
    using with_pool_ok(5) by (simp add: fault_cost_def)
  then show ?thesis by (simp add: servable_def aligned_def dir_ix_def tbl_ix_def)
qed

lemma sample_partition: "partitions 0x20000000 0x20010000 sample_alloc sample_free"
proof -
  have "first_regions sample_vm_pool = (sample_alloc, sample_free)"
    by (simp add: first_regions_def sample_vm_pool_fields)
  moreover have "base_address sample_vm_pool = 0x20000000" "vm_size sample_vm_pool = round_up 0x10000"
    "unat (round_up 0x10000) = 0x10000"
    by (simp_all add: sample_vm_pool_fields round_up_def)
  ultimately show ?thesis
    using first_regions_partition [of "0x20000000" "0x10000" sample_vm_pool]
    by (simp add: round_up_def)
qed

lemma sample_region_partition:
  "partitions 0x20000000 0x20010000 (sample_alloc @ [(0x20002000, 0x2000)]) [(0x20004000, 0xC000)]"
  using alloc_partitions [OF sample_partition _ _ sample_alloc_regions] by (simp add: round_up_def)

lemma sample_list_slots:
  assumes "a \<in> list_cells sample_vm_pool"
  shows "page_slot a = Page 128 0 \<or> page_slot a = Page 128 1"
proof -
  obtain i where "i < 1024" "a = cell 0x20000000 i \<or> a = cell 0x20001000 i"
    using assms unfolding list_cells_def cells_def sample_vm_pool_fields by blast
  then show ?thesis
    using page_cells(2) [of "0x20000000" i] page_cells(2) [of "0x20001000" i] by (auto simp: sample_dirs)
qed

lemma sample_region_slots:
  assumes "k < 2"
  shows "page_slot (page_addr 0x20002000 k) = Page 128 (2 + k)"
proof -
  have "k = 0 \<or> k = 1" using assms by linarith
  then show ?thesis by (auto simp: page_addr_def sample_dirs)
qed

lemma with_region_ready: "region_ready with_region 0x20002000 2"
proof -
  obtain F where F: "slots with_region (Table 128) = Some F"
    using vm_holds_table(1) [OF with_region_ok(2) sample_vm_pool_fields(3)] unfolding sample_dirs by blast
  have "dir_ix (page_addr 0x20002000 k) = 128" "tbl_ix (page_addr 0x20002000 k) = 2 + k" if "k < 2" for k
    using sample_region_slots [OF that] by simp_all
  then show ?thesis
    using F mapped_slots [of 128 _ with_region] unfolding region_ready_def by (simp add: Let_def)
qed

section \<open>A run on the sample pool\<close>

lemma sample_pools_hold: "pools_hold [0] [] with_pool"
proof -
  have "holds_blocks 0 [] sample_vm_pool with_pool"
    using with_pool_ok(2) sample_partition
    by (auto simp: holds_blocks_def list_pages_def sample_vm_pool_fields)
  moreover have "paging_ok with_pool" by (rule vm_holds_table(2) [OF with_pool_ok(2) refl])
  ultimately show ?thesis
    by (simp add: pools_hold_def with_pool_ok(3,4) sample_vm_pool_fields)
qed

text \<open>Two allocations, with a store into the first block between them.\<close>

lemma sample_pool_run:
  "\<exists>s. pool_run with_pool [(0, 0x20002000, 5000), (0, 0x20004000, 1)] s"
proof -
  have r1: "pool_run with_pool ([] @ [(0, 0x20002000, 5000)]) with_region"
    by (rule pool_run.allocate [OF pool_run.start _ _ with_region_ok(1)]) simp_all
  have vp: "vm_pools with_region = [0 \<mapsto> sample_vm_pool]" and "free_count with_region = free_count with_pool"
    using same_map_fields(1) [OF with_region_ok(3)] with_pool_ok(3) with_region_ok(3) by (simp_all add: same_map_def)
  then have sv: "servable with_region 0x20003004"
    using with_pool_ok(5) by (simp add: servable_def fault_cost_def aligned_def dir_ix_def tbl_ix_def)
  have "paging_ok with_region" by (rule vm_holds_table(2) [OF with_region_ok(2) refl])
  from demand_store_stored [OF this sv, of 42]
  obtain s2 where s2: "demand_store 0x20003004 42 with_region = Inr s2" "keeps {page_slot 0x20003004} with_region s2"
    by (auto simp: stored_def)
  have sl: "page_slot 0x20003004 = Page 128 3" by (simp add: dir_ix_def tbl_ix_def)
  have "\<not> list_page with_region 0x20003004"
    unfolding list_page_def vp sl by (auto simp: sample_vm_pool_fields sample_dirs)
  from pool_run.store [OF r1 sv this s2(1)]
  have r2: "pool_run with_pool [(0, 0x20002000, 5000)] s2" by simp
  have h2: "vm_holds sample_vm_pool s2 (sample_alloc @ [(0x20002000, 0x2000)]) [(0x20004000, 0xC000)]"
    by (rule keeps_holds [OF with_region_ok(2) s2(2)]) (use sample_list_slots sl in fastforce)
  have p2: "vm_pools s2 0 = Some sample_vm_pool" using keepsD(7) [OF s2(2)] vp by simp
  have "alloc_regions (round_up 1) (sample_alloc @ [(0x20002000, 0x2000)]) [(0x20004000, 0xC000)]
      = Some (0x20004000, sample_alloc @ [(0x20002000, 0x2000), (0x20004000, 0x1000)], [(0x20005000, 0xB000)])"
    by (simp add: alloc_regions_def first_fit_def round_up_def)
  from vm_allocate_refines [OF p2 h2 _ this]
  obtain s3 where "vm_allocate 0 1 s2 = Inr (0x20004000, s3)" by (auto simp: round_up_def)
  from pool_run.allocate [OF r2 _ _ this] show ?thesis by auto
qed

end
