(* ===== verification/Pool_Test.thy ===== *)
theory Pool_Test
  imports Kernel_Boot
begin

text \<open>
  The test of the virtual memory pools in \<open>kernel.C\<close>: the operators \<open>new\<close> and \<open>delete\<close> on the
  current pool, and \<open>GenerateVMPoolMemoryReferences\<close>, which allocates arrays of growing size, writes
  and checks them, and deletes them.  The global \<open>current_pool\<close> is the first argument of the
  operators.  A failed check ends in \<open>TestFailed\<close>, which prints and loops: the outcome \<open>Inl Hang\<close>.
\<close>

section \<open>The code\<close>

definition vm_new :: "nat \<Rightarrow> u32 \<Rightarrow> 'a paging_state_scheme \<Rightarrow> (u32 \<times> 'a paging_state_scheme) outcome" where
  "vm_new current_pool size0 s = andThen (vm_allocate current_pool size0 s) (\<lambda>(a, s). Inr (a, s))"

definition vm_new_array :: "nat \<Rightarrow> u32 \<Rightarrow> 'a paging_state_scheme \<Rightarrow> (u32 \<times> 'a paging_state_scheme) outcome" where
  "vm_new_array current_pool size0 s = andThen (vm_allocate current_pool size0 s) (\<lambda>(a, s). Inr (a, s))"

definition vm_delete :: "nat \<Rightarrow> u32 \<Rightarrow> 'a paging_state_scheme \<Rightarrow> 'a paging_state_scheme outcome" where
  "vm_delete current_pool p s = vm_release current_pool p s"

definition vm_delete_array :: "nat \<Rightarrow> u32 \<Rightarrow> 'a paging_state_scheme \<Rightarrow> 'a paging_state_scheme outcome" where
  "vm_delete_array current_pool p s = vm_release current_pool p s"

text \<open>The expressions \<open>new int[n]\<close> and \<open>delete[] a\<close>: the second does nothing on a null pointer.\<close>

definition new_ints :: "nat \<Rightarrow> nat \<Rightarrow> 'a paging_state_scheme \<Rightarrow> (u32 \<times> 'a paging_state_scheme) outcome" where
  "new_ints current_pool n = vm_new_array current_pool (word_of_nat (4 * n))"

definition delete_ints :: "nat \<Rightarrow> u32 \<Rightarrow> 'a paging_state_scheme \<Rightarrow> 'a paging_state_scheme outcome" where
  "delete_ints current_pool a s = (if a = 0 then Inr s else vm_delete_array current_pool a s)"

definition pool_is_legitimate ::
  "nat \<Rightarrow> u32 \<Rightarrow> 'a paging_state_scheme \<Rightarrow> (bool \<times> 'a paging_state_scheme) outcome" where
  "pool_is_legitimate this a s =
     (case vm_pools s this of None \<Rightarrow> Inl Wild | Some p \<Rightarrow> is_legitimate demand_load p a s)"

text \<open>\<open>for (j = n - 1; j >= 0; j--) if (arr[j] != j) TestFailed();\<close>\<close>

primrec check_down :: "u32 \<Rightarrow> nat \<Rightarrow> 'a paging_state_scheme \<Rightarrow> 'a paging_state_scheme outcome" where
  "check_down arr 0 s = Inr s"
| "check_down arr (Suc j) s =
     andThen (demand_load (cell arr j) s) (\<lambda>(v, s).
       if v \<noteq> word_of_nat j then Inl Hang else check_down arr j s)"

definition pool_test_step :: "nat \<Rightarrow> nat \<Rightarrow> nat \<Rightarrow> 'a paging_state_scheme \<Rightarrow> 'a paging_state_scheme outcome" where
  "pool_test_step pool size2 i s =
     andThen (new_ints pool (size2 * i) s) (\<lambda>(arr, s).
     andThen (pool_is_legitimate pool arr s) (\<lambda>(ok, s).
     if \<not> ok then Inl Hang
     else
       andThen (write_references arr (size2 * i) s) (\<lambda>s.
       andThen (check_down arr (size2 * i) s) (\<lambda>s.
       delete_ints pool arr s))))"

definition GenerateVMPoolMemoryReferences ::
  "nat \<Rightarrow> nat \<Rightarrow> nat \<Rightarrow> 'a paging_state_scheme \<Rightarrow> 'a paging_state_scheme outcome" where
  "GenerateVMPoolMemoryReferences pool size1 size2 = for_each (pool_test_step pool size2) [1..<size1]"

section \<open>Pages of a 4 MB region\<close>

text \<open>The address of page \<open>k\<close> of the region of directory entry \<open>d\<close>.\<close>

definition at_page :: "nat \<Rightarrow> nat \<Rightarrow> u32" where
  "at_page d k = word_of_nat (4194304 * d + 4096 * k)"

lemma unat_at_page: "d < 1024 \<Longrightarrow> k < 1024 \<Longrightarrow> unat (at_page d k) = 4194304 * d + 4096 * k"
  by (simp add: at_page_def del: of_nat_add of_nat_mult)

lemma at_page_add: "at_page d k + word_of_nat (4096 * j) = at_page d (k + j)"
proof -
  have "4194304 * d + 4096 * (k + j) = (4194304 * d + 4096 * k) + 4096 * j" by simp
  then show ?thesis unfolding at_page_def by (simp only: of_nat_add)
qed

lemma page_addr_at: "page_addr (at_page d k) j = at_page d (k + j)"
  by (simp add: page_addr_def at_page_add del: of_nat_mult)

lemma at_page_4096: "at_page d k + 4096 = at_page d (Suc k)"
  using at_page_add [of d k 1] by simp

lemma region_pieces:
  assumes "unat a = 4194304 * d + 4096 * k + r" and "k < 1024" and "r < 4096"
  shows "dir_ix a = d" and "tbl_ix a = k"
proof -
  have q: "unat a div 4096 = 1024 * d + k"
    unfolding assms(1) using assms(3) by (intro div_nat_eqI) simp_all
  have "unat a div 4194304 = unat a div 4096 div 1024" by (simp add: div_mult2_eq [symmetric])
  then show "dir_ix a = d" unfolding dir_ix_def q using assms(2) by simp
  show "tbl_ix a = k" unfolding tbl_ix_def q using assms(2) by simp
qed

lemma at_page_slot: "d < 1024 \<Longrightarrow> k < 1024 \<Longrightarrow> dir_ix (at_page d k) = d"
  "d < 1024 \<Longrightarrow> k < 1024 \<Longrightarrow> tbl_ix (at_page d k) = k"
  using region_pieces [of "at_page d k" d k 0] by (simp_all add: unat_at_page)

lemma at_page_mod: "d < 1024 \<Longrightarrow> k < 1024 \<Longrightarrow> at_page d k mod 4096 = 0"
proof -
  assume "d < 1024" "k < 1024"
  then have "unat (at_page d k) = 4096 * (1024 * d + k)" by (simp add: unat_at_page)
  then show ?thesis by (simp add: unat_mod_4096 del: mult_Suc)
qed

lemma at_page_inj: "d < 1024 \<Longrightarrow> j < 1024 \<Longrightarrow> k < 1024 \<Longrightarrow> at_page d j = at_page d k \<longleftrightarrow> j = k"
  using at_page_slot(2) by metis

text \<open>The array that starts there: its element \<open>i\<close> is in page \<open>k + i div 1024\<close>.\<close>

lemma unat_array_cell:
  assumes "d < 1024" and "k + q < 1024" and "r < 1024"
  shows "unat (cell (at_page d k) (1024 * q + r)) = 4194304 * d + 4096 * (k + q) + 4 * r"
proof -
  let ?i = "1024 * q + r"
  have b: "4194304 * d + 4096 * k + 4 * ?i < 4294967296" "k < 1024" using assms by simp_all
  have "unat (cell (at_page d k) ?i) = (unat (at_page d k) + unat (word_of_nat (4 * ?i) :: u32)) mod 2 ^ 32"
    by (simp add: cell_def unat_word_ariths del: of_nat_mult of_nat_add)
  also have "\<dots> = 4194304 * d + 4096 * k + 4 * ?i"
    using b by (simp add: unat_at_page assms(1) del: of_nat_mult of_nat_add)
  finally show ?thesis by simp
qed

lemma array_cell:
  assumes "d < 1024" and "k + i div 1024 < 1024"
  shows "aligned (cell (at_page d k) i)" and "page_slot (cell (at_page d k) i) = Page d (k + i div 1024)"
proof -
  define q r where "q = i div 1024" "r = i mod 1024"
  then have i: "i = 1024 * q + r" "r < 1024" "i div 1024 = q" by simp_all
  note u = unat_array_cell [OF assms(1) _ i(2), of k q, folded i(1)]
  have kq: "k + q < 1024" using assms(2) i(3) by simp
  from region_pieces [OF u [OF kq] kq] i(2,3)
  show "page_slot (cell (at_page d k) i) = Page d (k + i div 1024)" by simp
  have "unat (cell (at_page d k) i) = 4 * (1048576 * d + 1024 * (k + q) + r)" using u [OF kq] by simp
  then show "aligned (cell (at_page d k) i)" unfolding aligned_def by (metis mod_mult_self1_is_0)
qed

text \<open>How many pages an array of \<open>n\<close> words takes.\<close>

definition pages :: "nat \<Rightarrow> nat" where
  "pages n = (n + 1023) div 1024"

lemma pages_split: "r < 1024 \<Longrightarrow> pages (1024 * q + r) = (if r = 0 then q else Suc q)"
proof -
  assume r: "r < 1024"
  have "1024 * q + r + 1023 = (r + 1023) + 1024 * q" by simp
  then have "pages (1024 * q + r) = q + (r + 1023) div 1024"
    unfolding pages_def by (simp only: div_mult_self2)
  moreover have "(r + 1023) div 1024 = (if r = 0 then 0 else 1)"
    using r by (simp add: div_nat_eqI)
  ultimately show ?thesis by simp
qed

lemma pages_eq: "pages j = (if j mod 1024 = 0 then j div 1024 else Suc (j div 1024))"
  using pages_split [of "j mod 1024" "j div 1024"] by simp

lemma pages_less: "j < n \<Longrightarrow> j div 1024 < pages n"
proof -
  assume "j < n"
  then have "(j + 1024) div 1024 \<le> pages n" unfolding pages_def by (intro div_le_mono) simp
  then show ?thesis by simp
qed

lemma pages_more: "t < pages n \<Longrightarrow> 1024 * t < n"
proof (rule ccontr)
  assume t: "t < pages n" and "\<not> 1024 * t < n"
  then have "n + 1023 < 1024 * t + 1024" by simp
  then have "(n + 1023) div 1024 < Suc t" by (intro less_mult_imp_div_less) simp
  then show False using t by (simp add: pages_def)
qed

lemma pages_Suc: "pages (Suc j) = (if j mod 1024 = 0 then Suc (pages j) else pages j)"
  by (simp add: pages_eq mod_Suc div_Suc)

lemma round_up_ints:
  assumes "4 * n < 4294963200"
  shows "round_up (word_of_nat (4 * n)) = word_of_nat (4096 * pages n)"
proof -
  have "unat (round_up (word_of_nat (4 * n))) = (4 * n + 4095) div 4096 * 4096"
    using unat_round_up [of "word_of_nat (4 * n)"] assms by (simp del: of_nat_mult)
  also have "(4 * n + 4095) div 4096 = pages n"
  proof -
    have "(4 * n + 4095) div 4096 = (4 * n + 4095) div 4 div 1024" by (simp add: div_mult2_eq [symmetric])
    also have "(4 * n + 4095) div 4 = n + 1023" by simp
    finally show ?thesis by (simp add: pages_def)
  qed
  finally have "unat (round_up (word_of_nat (4 * n))) = 4096 * pages n" by simp
  then have "(word_of_nat (unat (round_up (word_of_nat (4 * n)))) :: u32) = word_of_nat (4096 * pages n)"
    by (rule arg_cong)
  then show ?thesis by (simp del: of_nat_mult)
qed

section \<open>Writing and checking an array\<close>

definition page_range :: "nat \<Rightarrow> nat \<Rightarrow> nat \<Rightarrow> slot set" where
  "page_range d k m = Page d ` {k..<k + m}"

lemma page_range_iff [simp]: "Page e t \<in> page_range d k m \<longleftrightarrow> e = d \<and> k \<le> t \<and> t < k + m"
  by (auto simp: page_range_def)

lemma page_range_mono: "m \<le> m' \<Longrightarrow> page_range d k m \<subseteq> page_range d k m'"
  by (auto simp: page_range_def)

text \<open>The first store to each page faults it in, the others find it: one frame for each page.\<close>

lemma write_array_step:
  assumes d: "0 < d" "d < 1023" and m: "k + pages n \<le> 1023" and j: "j < n"
    and tab: "slots s (Table d) \<noteq> None"
    and fresh: "\<And>t. k \<le> t \<Longrightarrow> t < k + pages n \<Longrightarrow> slots s (Page d t) = None" and free: "pages n \<le> free_count s"
    and h: "holds_words (at_page d k) j s1" and keep: "keeps (page_range d k (pages j)) s s1"
    and count: "free_count s = free_count s1 + pages j"
  shows "\<exists>s2. demand_store (cell (at_page d k) j) (word_of_nat j) s1 = Inr s2
    \<and> holds_words (at_page d k) (Suc j) s2 \<and> keeps (page_range d k (pages (Suc j))) s s2
    \<and> free_count s = free_count s2 + pages (Suc j)"
proof -
  let ?a = "cell (at_page d k) j" and ?t = "k + j div 1024"
  have jp: "j div 1024 < pages n" using pages_less [OF j] .
  then have t: "?t < 1023" using m by simp
  have a: "aligned ?a" "page_slot ?a = Page d ?t" using array_cell [of d k j] d t by simp_all
  then have dt: "dir_ix ?a = d" "tbl_ix ?a = ?t" by simp_all
  have ok1: "paging_ok s1" using h by (simp add: holds_words_def)
  have cost: "fault_cost s1 ?a = 1"
    using tab keepsD(5) [OF keep] by (auto simp: fault_cost_def dt simp del: slots_simps)
  have res: "resident s1 ?a \<longleftrightarrow> j mod 1024 \<noteq> 0"
  proof (cases "j mod 1024 = 0")
    case True
    then have "pages j = j div 1024" by (simp add: pages_eq)
    then have "slots s1 (Page d ?t) = slots s (Page d ?t)" using keepsD(4) [OF keep d t] by simp
    then show ?thesis using fresh [of ?t] jp True by (simp add: resident_def dt)
  next
    case False
    then obtain i where i: "j = Suc i" by (cases j) simp_all
    then have "i div 1024 = j div 1024" using False by (simp add: div_Suc)
    then have "page_slot (cell (at_page d k) i) = Page d ?t" using array_cell(2) [of d k i] d t by simp
    then show ?thesis using h i a False by (auto simp: holds_words_def resident_def)
  qed
  have pj: "pages (Suc j) \<le> pages n" using j unfolding pages_def by (intro div_le_mono) simp
  have sv: "servable s1 ?a"
    using a(1) d t dt cost res count pj free by (cases "j mod 1024 = 0") (simp_all add: servable_def pages_Suc)
  obtain s2 where s2: "demand_store ?a (word_of_nat j) s1 = Inr s2" "stored s1 ?a (word_of_nat j) s2"
    using demand_store_stored [OF ok1 sv] by blast
  have small: "n < 1073741824"
  proof -
    have "(n + 1023) div 1024 \<le> 1023" using m by (simp add: pages_def)
    then show ?thesis by linarith
  qed
  have ne: "cell (at_page d k) i \<noteq> ?a" if "i < j" for i
    using that j small cell_inj_wide [of i j] by simp
  have "holds_words (at_page d k) (Suc j) s2"
    using s2(2) h ne unfolding stored_def holds_words_def by (auto simp: less_Suc_eq)
  moreover have "keeps (page_range d k (pages (Suc j))) s s2"
  proof (rule keeps_trans [OF keeps_mono [OF keep] keeps_mono])
    show "keeps {page_slot ?a} s1 s2" using s2(2) by (simp add: stored_def)
    show "{page_slot ?a} \<subseteq> page_range d k (pages (Suc j))"
      using pages_less [of j "Suc j"] unfolding a(2) by simp
  qed (simp add: page_range_mono pages_Suc)
  moreover have "free_count s = free_count s2 + pages (Suc j)"
    using s2(2) count res cost by (simp add: stored_def pages_Suc split: if_splits)
  ultimately show ?thesis using s2(1) by blast
qed

lemma write_array:
  assumes ok: "paging_ok s" and d: "0 < d" "d < 1023" and m: "k + pages n \<le> 1023"
    and tab: "slots s (Table d) \<noteq> None"
    and fresh: "\<And>t. k \<le> t \<Longrightarrow> t < k + pages n \<Longrightarrow> slots s (Page d t) = None" and free: "pages n \<le> free_count s"
  shows "\<exists>s'. write_references (at_page d k) n s = Inr s' \<and> holds_words (at_page d k) n s'
    \<and> keeps (page_range d k (pages n)) s s' \<and> free_count s = free_count s' + pages n"
proof -
  let ?J = "\<lambda>j s'. holds_words (at_page d k) j s' \<and> keeps (page_range d k (pages j)) s s'
    \<and> free_count s = free_count s' + pages j"
  have "?J 0 s" using ok by (simp add: holds_words_def keeps_refl pages_def)
  then have "\<exists>s'. for_each (\<lambda>i. demand_store (cell (at_page d k) i) (word_of_nat i)) [0..<n] s = Inr s' \<and> ?J n s'"
    using write_array_step [OF d m _ tab fresh free] by (intro for_each_invariant) auto
  then show ?thesis by (simp add: write_references_def)
qed

lemma check_down_ok:
  assumes h: "holds_words arr n s" and "j \<le> n"
  shows "check_down arr j s = Inr s"
  using assms(2)
proof (induction j)
  case (Suc j)
  then have "demand_load (cell arr j) s = Inr (word_of_nat j, s)"
    using h load_resident [of s "cell arr j"] by (simp add: holds_words_def)
  then show ?case using Suc by simp
qed simp

lemma written_pages:
  assumes h: "holds_words (at_page d k) n s" and d: "d < 1023" and m: "k + pages n \<le> 1023"
    and t: "t < pages n"
  shows "slots s (Page d (k + t)) \<noteq> None"
proof -
  have "resident s (cell (at_page d k) (1024 * t))"
    using h pages_more [OF t] by (simp add: holds_words_def)
  moreover have "page_slot (cell (at_page d k) (1024 * t)) = Page d (k + t)"
    using array_cell(2) [of d k "1024 * t"] d m t by simp
  ultimately show ?thesis by (simp add: resident_def)
qed

section \<open>One round of the test\<close>

definition pool_at :: "nat \<Rightarrow> nat \<Rightarrow> vm_pool \<Rightarrow> bool" where
  "pool_at pt d p \<longleftrightarrow> 0 < d \<and> d < 1023 \<and> page_table p = pt \<and>
     alloc_list p = at_page d 0 \<and> free_list p = at_page d 1"

text \<open>The two regions of a pool that hold its lists.\<close>

abbreviation list_regions :: "nat \<Rightarrow> region list" where
  "list_regions d \<equiv> [(at_page d 0, 4096), (at_page d 1, 4096)]"

text \<open>
  The pools \<open>ns\<close> are registered with page table \<open>pt\<close>, each in a 4 MB region \<open>D m\<close> of its own
  whose first two pages are its lists; \<open>AL m\<close> are the regions allocated in pool \<open>m\<close>.
\<close>

definition pools_ready ::
  "nat \<Rightarrow> (nat \<Rightarrow> nat) \<Rightarrow> nat list \<Rightarrow> (nat \<Rightarrow> region list) \<Rightarrow> 'a paging_state_scheme \<Rightarrow> bool" where
  "pools_ready pt D ns AL s \<longleftrightarrow>
     (\<exists>t. page_tables s pt = Some t \<and> cr3 s = page_directory t \<and> node_chain (vm_pools s) (head_pool t) ns) \<and>
     inj_on D (set ns) \<and>
     (\<forall>m\<in>set ns. \<exists>p fs. vm_pools s m = Some p \<and> pool_at pt (D m) p \<and> vm_holds p s (AL m) fs)"

lemma pool_at_slots:
  assumes p: "pool_at pt d p" and a: "a \<in> list_cells p"
  shows "page_slot a = Page d 0 \<or> page_slot a = Page d 1"
proof -
  obtain i where "i < 1024" "a = cell (at_page d 0) i \<or> a = cell (at_page d 1) i"
    using p a unfolding list_cells_def cells_def pool_at_def by auto
  then show ?thesis using p array_cell(2) [of d 0 i] array_cell(2) [of d 1 i] by (auto simp: pool_at_def)
qed

lemma pool_lists_keeps:
  assumes p: "pool_at pt d p" and m: "same_map (list_cells p) s s'"
    and h: "vm_holds p s as fs" and h': "vm_holds p s' as' fs'"
  shows "keeps (page_range d 0 2) s s'"
proof (rule keeps_mono)
  show "keeps (page_slot ` list_cells p) s s'"
    using same_map_keeps [OF m] h h' by (simp add: vm_holds_def pool_holds_def lists_ready_def)
  show "page_slot ` list_cells p \<subseteq> page_range d 0 2" using pool_at_slots [OF p] by fastforce
qed

lemma pools_ready_keeps:
  assumes r: "pools_ready pt D ns AL s" and k: "keeps (range (Page (D this))) s s'"
    and cur: "this \<in> set ns" "vm_pools s this = Some p" "vm_holds p s' as fs"
  shows "pools_ready pt D ns (AL(this := as)) s'"
  unfolding pools_ready_def keepsD(6-8) [OF k]
proof (intro conjI ballI)
  show "\<exists>t. page_tables s pt = Some t \<and> cr3 s = page_directory t \<and> node_chain (vm_pools s) (head_pool t) ns"
    "inj_on D (set ns)" using r by (simp_all add: pools_ready_def)
  fix m assume m: "m \<in> set ns"
  obtain q fs' where q: "vm_pools s m = Some q" "pool_at pt (D m) q" "vm_holds q s (AL m) fs'"
    using r m unfolding pools_ready_def by blast
  show "\<exists>p fs. vm_pools s m = Some p \<and> pool_at pt (D m) p \<and> vm_holds p s' ((AL(this := as)) m) fs"
  proof (cases "m = this")
    case True
    then show ?thesis using cur q by auto
  next
    case False
    then have "D m \<noteq> D this" using r m cur(1) by (auto simp: pools_ready_def inj_on_def)
    then have "\<forall>a\<in>list_cells q. page_slot a \<notin> range (Page (D this))"
      using pool_at_slots [OF q(2)] by fastforce
    then show ?thesis using q keeps_holds [OF q(3) k] False by auto
  qed
qed

text \<open>\<open>new\<close> takes the front of the first free region, \<open>delete\<close> puts it behind the others.\<close>

lemma alloc_front:
  assumes "word_of_nat (4096 * m) < len" and "length as < 511"
  shows "alloc_regions (word_of_nat (4096 * m)) as ((start, len) # fs)
    = Some (start, as @ [(start, word_of_nat (4096 * m))],
        (start + word_of_nat (4096 * m), len - word_of_nat (4096 * m)) # fs)"
proof -
  have "\<not> len < word_of_nat (4096 * m)" using assms(1) by (rule less_not_sym)
  then show ?thesis using assms by (simp add: alloc_regions_def first_fit_def del: of_nat_mult)
qed

lemma release_third:
  assumes "a \<noteq> x" "b \<noteq> x" and "length fs < 511"
  shows "release_regions x [(a, k), (b, l), (x, n)] fs = Some ([(a, k), (b, l)], fs @ [(x, n)])"
    and "[(a, k), (b, l), (x, n)] ! region_ix x [(a, k), (b, l), (x, n)] = (x, n)"
  using assms by (simp_all add: release_regions_def region_ix_def drop_nth_def)

lemma new_region_legit:
  assumes "unat start + unat len < 4294967296" and "len \<noteq> 0" and "(start, len) \<in> set as"
  shows "legit p as start"
proof -
  have "start < start + len"
    using assms(1,2) by (simp add: word_less_nat_alt unat_word_ariths unat_gt_0)
  then show ?thesis using assms(3) by (force simp: legit_def in_regions_def)
qed


lemma slots_page_table: "slots s (Page d t) \<noteq> None \<Longrightarrow> slots s (Table d) \<noteq> None"
  by (auto simp: slots_def split: bind_splits if_splits)

lemma pool_table:
  assumes p: "pool_at pt d p" and h: "vm_holds p s as fs"
  shows "slots s (Table d) \<noteq> None"
proof -
  have "cell (at_page d 0) 0 \<in> list_cells p" using p by (simp add: list_cells_def pool_at_def)
  then have "resident s (at_page d 0)"
    using h unfolding vm_holds_def pool_holds_def lists_ready_def by (simp add: cell_def)
  then show ?thesis
    using slots_page_table [of s d 0] at_page_slot [of d 0] p by (simp add: resident_def pool_at_def del: slots_simps)
qed

text \<open>\<open>delete[]\<close> of an array: each of its pages that has been touched gives its frame back.\<close>

lemma delete_array_ok:
  fixes d k m :: nat
  defines "start \<equiv> at_page d k" and "size0 \<equiv> word_of_nat (4096 * m) :: u32"
  assumes r: "pools_ready pt D ns AL s" and cur: "this \<in> set ns" "vm_pools s this = Some p" "d = D this"
    and AL: "AL this = list_regions d @ [(start, size0)]"
    and h: "vm_holds p s (list_regions d @ [(start, size0)]) fs" "length fs < 511"
    and k: "2 \<le> k" "k + m \<le> 1023"
  shows "\<exists>s'. vm_release this start s = Inr s' \<and> vm_holds p s' (list_regions d) (fs @ [(start, size0)])
    \<and> keeps (range (Page d)) s s' \<and> free_count s' = free_count s + pages_held s start m
    \<and> (\<forall>t. slots s' (Page d t) = (if k \<le> t \<and> t < k + m then None else slots s (Page d t)))"
proof -
  obtain t where t: "page_tables s pt = Some t" "cr3 s = page_directory t" "node_chain (vm_pools s) (head_pool t) ns"
    using r unfolding pools_ready_def by blast
  have p: "pool_at pt d p" using r cur by (auto simp: pools_ready_def)
  then have d: "0 < d" "d < 1023" "page_table p = pt" by (simp_all add: pool_at_def)
  have slot: "page_slot (page_addr start j) = Page d (k + j)" if "j < m" for j
    using that k d at_page_slot [of d "k + j"] by (simp add: start_def page_addr_at)
  have ne: "at_page d 0 \<noteq> start" "at_page d 1 \<noteq> start"
    using k d at_page_inj [of d 0 k] at_page_inj [of d 1 k] by (simp_all add: start_def)
  have ready: "region_ready s start m"
    unfolding region_ready_def Let_def
  proof (intro allI impI)
    fix j assume j: "j < m"
    have "k + j < 1023" using j k(2) by linarith
    then have "mapped s d (k + j) = slots s (Page d (k + j))" by (rule mapped_slots [OF d(1,2)])
    then show "0 < dir_ix (page_addr start j) \<and> slots s (Table (dir_ix (page_addr start j))) \<noteq> None
      \<and> mapped s (dir_ix (page_addr start j)) (tbl_ix (page_addr start j)) = slots s (page_slot (page_addr start j))"
      using slot [OF j] d pool_table [OF p h(1)] by simp
  qed
  have lists: "\<forall>m\<in>set ns. \<exists>fs. vm_holds (the (vm_pools s m)) s (AL m) fs"
    using r unfolding pools_ready_def by fastforce
  have apart: "\<forall>n\<in>set ns. \<forall>a\<in>list_cells (the (vm_pools s n)). \<forall>j<m. page_slot a \<noteq> page_slot (page_addr start j)"
  proof (intro ballI allI impI)
    fix n a j assume n: "n \<in> set ns" "a \<in> list_cells (the (vm_pools s n))" "j < m"
    then have "pool_at pt (D n) (the (vm_pools s n))" using r unfolding pools_ready_def by fastforce
    then show "page_slot a \<noteq> page_slot (page_addr start j)"
      using pool_at_slots [of pt "D n" _ a] n(2) slot [OF n(3)] k(1) by fastforce
  qed
  have bound: "unat start + 4096 * m \<le> 4294967295"
    using k d by (simp add: start_def unat_at_page)
  have rel: "release_regions start (list_regions d @ [(start, size0)]) fs = Some (list_regions d, fs @ [(start, size0)])"
    "(list_regions d @ [(start, size0)]) ! region_ix start (list_regions d @ [(start, size0)]) = (start, word_of_nat (4096 * m))"
    using release_third [OF ne h(2)] by (simp_all add: size0_def)
  have al: "start mod 4096 = 0" using at_page_mod [of d k] k d by (simp add: start_def)
  have tab: "page_tables s (page_table p) = Some t" using t(1) d(3) by simp
  obtain s1 s' where s': "vm_release this start s = Inr s'"
      "vm_holds p s1 (list_regions d @ [(start, size0)]) fs" "vm_holds p s' (list_regions d) (fs @ [(start, size0)])"
      "region_unmapped s start m s1" "same_map (list_cells p) s1 s'"
    using vm_release_ok [OF cur(2) h(1) rel al tab t(2,3) cur(1) lists AL apart bound ready] by blast
  have B: "{page_slot (page_addr start j) |j. j < m} \<subseteq> range (Page d)" using slot by auto
  have "keeps {page_slot (page_addr start j) |j. j < m} s s1" using s'(4) by (simp add: region_unmapped_def)
  from keeps_mono [OF this B] have "keeps (range (Page d)) s s1" .
  moreover have "keeps (range (Page d)) s1 s'"
    by (rule keeps_mono [OF pool_lists_keeps [OF p s'(5,2,3)]]) (auto simp: page_range_def)
  ultimately have keep: "keeps (range (Page d)) s s'" by (rule keeps_trans)
  have "free_count s' = free_count s + pages_held s start m"
    using s'(4,5) by (simp add: region_unmapped_def same_map_def)
  moreover have "slots s' (Page d u) = (if k \<le> u \<and> u < k + m then None else slots s (Page d u))" for u
  proof -
    have "(\<exists>j<m. Page d u = page_slot (page_addr start j)) \<longleftrightarrow> k \<le> u \<and> u < k + m"
    proof
      assume "\<exists>j<m. Page d u = page_slot (page_addr start j)"
      then obtain j where j: "j < m" "Page d u = page_slot (page_addr start j)" by blast
      have "Page d u = Page d (k + j)" using j(2) slot [OF j(1)] by (rule trans)
      then show "k \<le> u \<and> u < k + m" using j(1) by simp
    next
      assume u: "k \<le> u \<and> u < k + m"
      then have j: "u - k < m" by linarith
      have "Page d u = Page d (k + (u - k))" using u by simp
      then have "Page d u = page_slot (page_addr start (u - k))" using slot [OF j] by (simp only:)
      then show "\<exists>j<m. Page d u = page_slot (page_addr start j)" using j by blast
    qed
    then show ?thesis using s'(4,5) unfolding region_unmapped_def same_map_def by simp
  qed
  ultimately show ?thesis using s'(1,3) keep by blast
qed


text \<open>One round: the array comes from the front of the free space, passes the check, and is given back.\<close>

definition pages_free :: "nat \<Rightarrow> 'a paging_state_scheme \<Rightarrow> bool" where
  "pages_free d s \<longleftrightarrow> (\<forall>t. 2 \<le> t \<longrightarrow> t < 1023 \<longrightarrow> slots s (Page d t) = None)"

lemma new_array_ok:
  fixes d k m :: nat
  defines "start \<equiv> at_page d k" and "size0 \<equiv> word_of_nat (4096 * m) :: u32"
  assumes p: "vm_pools s this = Some p" "pool_at pt d p"
    and h: "vm_holds p s (list_regions d) ((start, len) # fs)"
    and m: "m = pages n" "0 < m" "k + m \<le> 1023" "4096 * m < unat len"
  shows "\<exists>s'. new_ints this n s = Inr (start, s') \<and> keeps (page_range d 0 2) s s'
    \<and> vm_holds p s' (list_regions d @ [(start, size0)]) ((at_page d (k + m), len - size0) # fs)
    \<and> pool_is_legitimate this start s' = Inr (True, s')
    \<and> slots s' = slots s \<and> free_count s' = free_count s"
proof -
  have d: "d < 1023" using p(2) by (simp add: pool_at_def)
  have "4 * n < 4294963200"
  proof -
    have "(n + 1023) div 1024 \<le> 1023" using m by (simp add: pages_def)
    then show ?thesis by linarith
  qed
  then have sz: "round_up (word_of_nat (4 * n)) = size0" using round_up_ints m(1) by (simp add: size0_def)
  have us: "unat size0 = 4096 * m" using m(3) by (simp add: size0_def del: of_nat_mult)
  then have nz: "size0 \<noteq> 0" using m(2) by auto
  have lt: "size0 < len" using us m(4) by (simp add: word_less_nat_alt)
  have "alloc_regions (round_up (word_of_nat (4 * n))) (list_regions d) ((start, len) # fs)
      = Some (start, list_regions d @ [(start, size0)], (start + size0, len - size0) # fs)"
    unfolding sz unfolding size0_def by (rule alloc_front) (use lt in \<open>simp_all add: size0_def del: of_nat_mult\<close>)
  from vm_allocate_refines [OF p(1) h _ this] nz sz
  obtain s' where s': "vm_allocate this (word_of_nat (4 * n)) s = Inr (start, s')"
      "vm_holds p s' (list_regions d @ [(start, size0)]) ((start + size0, len - size0) # fs)"
      "same_map (list_cells p) s s'" by auto
  have "start + size0 = at_page d (k + m)" by (simp only: start_def size0_def at_page_add)
  moreover have keep: "keeps (page_range d 0 2) s s'" by (rule pool_lists_keeps [OF p(2) s'(3) h s'(2)])
  moreover have "legit p (list_regions d @ [(start, size0)]) start"
    using nz us m(3) d by (intro new_region_legit [of _ size0]) (simp_all add: start_def unat_at_page)
  then have "pool_is_legitimate this start s' = Inr (True, s')"
    using vm_is_legitimate [OF s'(2), of start] p(1) keepsD(7) [OF keep] by (simp add: pool_is_legitimate_def)
  ultimately show ?thesis
    using s' by (simp add: new_ints_def vm_new_array_def same_map_def)
qed

lemma pool_test_step_ok:
  fixes d k m :: nat
  assumes r: "pools_ready pt D ns AL s" and cur: "this \<in> set ns" "vm_pools s this = Some p" "d = D this"
    and AL: "AL this = list_regions d"
    and h: "vm_holds p s (list_regions d) ((at_page d k, len) # fs)" "length fs < 510"
    and m: "m = pages (size2 * i)" "0 < m" "2 \<le> k" "k + m \<le> 1023" "4096 * m < unat len"
    and fresh: "pages_free d s" and free: "m \<le> free_count s"
  shows "\<exists>s'. pool_test_step this size2 i s = Inr s' \<and> pools_ready pt D ns AL s'
    \<and> vm_holds p s' (list_regions d) ((at_page d (k + m), len - word_of_nat (4096 * m)) # fs
        @ [(at_page d k, word_of_nat (4096 * m))])
    \<and> keeps (range (Page d)) s s' \<and> free_count s' = free_count s \<and> pages_free d s'"
proof -
  let ?start = "at_page d k" and ?n = "size2 * i" and ?all = "range (Page d)"
  let ?r = "(?start, word_of_nat (4096 * m) :: u32)"
  let ?fs = "(at_page d (k + m), len - word_of_nat (4096 * m)) # fs"
  have p: "pool_at pt d p" using r cur by (auto simp: pools_ready_def)
  then have d: "0 < d" "d < 1023" by (simp_all add: pool_at_def)
  have sub: "page_range d a b \<subseteq> ?all" for a b by (auto simp: page_range_def)
  obtain s1 where s1: "new_ints this ?n s = Inr (?start, s1)" "keeps (page_range d 0 2) s s1"
      "vm_holds p s1 (list_regions d @ [?r]) ?fs" "pool_is_legitimate this ?start s1 = Inr (True, s1)"
      "slots s1 = slots s" "free_count s1 = free_count s"
    using new_array_ok [OF cur(2) p h(1) m(1,2,4,5)] by blast
  have tab: "slots s1 (Table d) \<noteq> None" by (rule pool_table [OF p s1(3)])
  have fresh1: "slots s1 (Page d t) = None" if "k \<le> t" "t < k + pages ?n" for t
    using fresh that m s1(5) by (simp add: pages_free_def)
  have m': "k + pages ?n \<le> 1023" "pages ?n \<le> free_count s1" using m(1,4) free s1(6) by simp_all
  obtain s2 where s2: "write_references ?start ?n s1 = Inr s2" "holds_words ?start ?n s2"
      "keeps (page_range d k (pages ?n)) s1 s2" "free_count s1 = free_count s2 + pages ?n"
    using write_array [OF keepsD(1) [OF s1(2)] d m'(1) tab fresh1 m'(2)] by blast
  have "\<forall>a\<in>list_cells p. page_slot a \<notin> page_range d k (pages ?n)"
    using pool_at_slots [OF p] m(3) by fastforce
  then have h2: "vm_holds p s2 (list_regions d @ [?r]) ?fs" by (rule keeps_holds [OF s1(3) s2(3)])
  have k2: "keeps ?all s s2" by (rule keeps_trans [OF keeps_mono [OF s1(2) sub] keeps_mono [OF s2(3) sub]])
  have r2: "pools_ready pt D ns (AL(this := list_regions d @ [?r])) s2"
    using pools_ready_keeps [OF r _ cur(1,2) h2] k2 cur(3) by simp
  have p2: "vm_pools s2 this = Some p" using cur(2) keepsD(7) [OF k2] by simp
  have "slots s2 (page_slot (page_addr ?start t)) \<noteq> None" if "t < m" for t
    using written_pages [OF s2(2) d(2) m'(1), of t] that m(1,4) d at_page_slot [of d "k + t"]
    by (simp add: page_addr_at)
  then have "{t. t < m \<and> slots s2 (page_slot (page_addr ?start t)) \<noteq> None} = {..<m}" by auto
  then have held: "pages_held s2 ?start m = m" by (simp add: pages_held_def)
  then obtain s3 where s3: "vm_release this ?start s2 = Inr s3" "vm_holds p s3 (list_regions d) (?fs @ [?r])"
      "keeps ?all s2 s3" "free_count s3 = free_count s2 + m"
      "\<forall>t. slots s3 (Page d t) = (if k \<le> t \<and> t < k + m then None else slots s2 (Page d t))"
    using delete_array_ok [OF r2 cur(1) p2 cur(3) _ h2 _ m(3,4)] h(2) by auto
  have keep: "keeps ?all s s3" by (rule keeps_trans [OF k2 s3(3)])
  have "?start \<noteq> 0" using unat_at_page [of d k] d m(4) by auto
  then have "pool_test_step this size2 i s = Inr s3"
    using s1(1,4) s2(1) check_down_ok [OF s2(2) le_refl] s3(1)
    by (simp add: pool_test_step_def delete_ints_def vm_delete_array_def)
  moreover have "AL(this := list_regions d) = AL" using AL by auto
  then have "pools_ready pt D ns AL s3" using pools_ready_keeps [OF r _ cur(1,2) s3(2)] keep cur(3) by simp
  moreover have "pages_free d s3"
    using fresh s3(5) keepsD(4) [OF s2(3) d] s1(5) m(1) by (auto simp: pages_free_def)
  ultimately show ?thesis using s3(2,4) s2(4) s1(6) m(1) keep by auto
qed


section \<open>The whole test of a pool\<close>

text \<open>The pages that the rounds before \<open>i\<close> have used, and the regions they have given back.\<close>

definition pages_before :: "nat \<Rightarrow> nat \<Rightarrow> nat" where
  "pages_before size2 i = (\<Sum>j\<leftarrow>[1..<i]. pages (size2 * j))"

definition freed_regions :: "nat \<Rightarrow> nat \<Rightarrow> nat \<Rightarrow> region list" where
  "freed_regions d size2 i =
     map (\<lambda>j. (at_page d (2 + pages_before size2 j), word_of_nat (4096 * pages (size2 * j)))) [1..<i]"

lemma pages_before_1 [simp]: "pages_before size2 (Suc 0) = 0" "freed_regions d size2 (Suc 0) = []"
  by (simp_all add: pages_before_def freed_regions_def)

lemma pages_before_Suc:
  assumes "1 \<le> i"
  shows "pages_before size2 (Suc i) = pages_before size2 i + pages (size2 * i)"
    and "freed_regions d size2 (Suc i)
      = freed_regions d size2 i @ [(at_page d (2 + pages_before size2 i), word_of_nat (4096 * pages (size2 * i)))]"
  using assms by (simp_all add: pages_before_def freed_regions_def)

lemma pages_before_mono: "i \<le> j \<Longrightarrow> pages_before size2 i \<le> pages_before size2 j"
  by (induction rule: dec_induct) (simp_all add: pages_before_def)

lemma pages_mono: "n \<le> n' \<Longrightarrow> pages n \<le> pages n'"
  unfolding pages_def by (intro div_le_mono) simp

lemma GenerateVMPoolMemoryReferences_ok:
  assumes r: "pools_ready pt D ns AL s" and cur: "this \<in> set ns" "vm_pools s this = Some p" "d = D this"
    and AL: "AL this = list_regions d" and h: "vm_holds p s (list_regions d) [(at_page d 2, len)]"
    and size: "0 < size2" "1 \<le> size1" "size1 \<le> 510" "2 + pages_before size2 size1 \<le> 1023"
      "4096 * pages_before size2 size1 < unat len"
    and fresh: "pages_free d s" and free: "pages (size2 * size1) \<le> free_count s"
  shows "\<exists>s'. GenerateVMPoolMemoryReferences this size1 size2 s = Inr s' \<and> pools_ready pt D ns AL s'
    \<and> vm_holds p s' (list_regions d) ((at_page d (2 + pages_before size2 size1),
        len - word_of_nat (4096 * pages_before size2 size1)) # freed_regions d size2 size1)
    \<and> keeps (range (Page d)) s s' \<and> free_count s' = free_count s \<and> pages_free d s'"
proof -
  let ?k = "\<lambda>i. pages_before size2 i"
  let ?J = "\<lambda>i s'. pools_ready pt D ns AL s' \<and> vm_holds p s' (list_regions d) ((at_page d (2 + ?k i),
        len - word_of_nat (4096 * ?k i)) # freed_regions d size2 i)
    \<and> keeps (range (Page d)) s s' \<and> free_count s' = free_count s \<and> pages_free d s'"
  have "?J 1 s"
    using r h fresh by (simp add: keeps_refl vm_holds_def pool_holds_def lists_ready_def)
  moreover have "\<exists>s2. pool_test_step this size2 i s1 = Inr s2 \<and> ?J (Suc i) s2"
    if i: "1 \<le> i" "i < size1" and J: "?J i s1" for i s1
  proof -
    let ?m = "pages (size2 * i)"
    have ki: "?k i + ?m \<le> ?k size1" using pages_before_mono [of "Suc i" size1 size2] pages_before_Suc(1) [OF i(1)] i(2) by simp
    have small: "4096 * (?k i + ?m) < 4294967296" using ki size(4) by simp
    have ul: "unat (len - word_of_nat (4096 * ?k i)) = unat len - 4096 * ?k i"
      using ki size(5) small by (subst unat_sub) (simp_all add: word_le_nat_alt del: of_nat_mult)
    have "0 < size2 * i" using size(1) i(1) by simp
    then have m0: "0 < ?m" using pages_less [of 0 "size2 * i"] by simp
    have r1: "pools_ready pt D ns AL s1" and f1: "pages_free d s1" and h1: "vm_holds p s1 (list_regions d)
        ((at_page d (2 + ?k i), len - word_of_nat (4096 * ?k i)) # freed_regions d size2 i)"
      and k1: "keeps (range (Page d)) s s1" and c1: "free_count s1 = free_count s"
      using J by blast+
    have p1: "vm_pools s1 this = Some p" using keepsD(7) [OF k1] cur(2) by simp
    have l1: "length (freed_regions d size2 i) < 510" using i size(3) by (simp add: freed_regions_def)
    have free1: "?m \<le> free_count s1"
      using c1 free pages_mono [of "size2 * i" "size2 * size1"] i(2) by simp
    have len1: "4096 * ?m < unat (len - word_of_nat (4096 * ?k i))" using ul ki size(5) by linarith
    have "2 \<le> 2 + ?k i" "2 + ?k i + ?m \<le> 1023" using ki size(4) by simp_all
    from pool_test_step_ok [OF r1 cur(1) p1 cur(3) AL h1 l1 refl m0 this len1 f1 free1]
    obtain s2 where s2: "pool_test_step this size2 i s1 = Inr s2" "pools_ready pt D ns AL s2"
        "vm_holds p s2 (list_regions d) ((at_page d (2 + ?k i + ?m), len - word_of_nat (4096 * ?k i) - word_of_nat (4096 * ?m))
          # freed_regions d size2 i @ [(at_page d (2 + ?k i), word_of_nat (4096 * ?m))])"
        "keeps (range (Page d)) s1 s2" "free_count s2 = free_count s1" "pages_free d s2"
      by (elim exE conjE)
    have "(word_of_nat (4096 * (?k i + ?m)) :: u32) = word_of_nat (4096 * ?k i) + word_of_nat (4096 * ?m)"
      by (simp add: distrib_left)
    then have e: "len - word_of_nat (4096 * ?k i) - word_of_nat (4096 * ?m) = len - word_of_nat (4096 * ?k (Suc i))"
      unfolding pages_before_Suc(1) [OF i(1)] by (simp only: diff_diff_eq)
    have k: "2 + ?k i + ?m = 2 + ?k (Suc i)" by (simp only: pages_before_Suc(1) [OF i(1)] add.assoc)
    have "?J (Suc i) s2"
      using s2(2,6) s2(3) [unfolded e k] s2(5) c1 keeps_trans [OF k1 s2(4)]
      unfolding pages_before_Suc(2) [OF i(1)] by simp
    then show ?thesis using s2(1) by blast
  qed
  ultimately show ?thesis
    unfolding GenerateVMPoolMemoryReferences_def
    by (intro for_each_invariant [where J = ?J] size(2)) auto
qed


section \<open>A new pool\<close>

lemma node_chain_upd:
  "n \<notin> set ns \<Longrightarrow> node_chain (vps(n \<mapsto> p)) node ns = node_chain vps node ns"
  by (induction ns arbitrary: node) (auto split: option.splits)

lemma vm_holds_registered [simp]: "vm_holds q (registered this p pt t s) as fs = vm_holds q s as fs"
  by (simp add: vm_holds_def pool_holds_def lists_ready_def)

text \<open>The constructor adds a pool in an untouched 4 MB region to those that are ready.\<close>

lemma new_pool_ready:
  assumes ok: "paging_ok s" and r: "pools_ready pt D ns AL s" and new: "this \<notin> set ns" "inj_on D (insert this (set ns))"
    and d: "d = D this" "0 < d" "d < 1023" and empty: "slots s (Table d) = None"
    and AL: "AL this = list_regions d" and base: "base = at_page d 0"
    and size: "8192 < round_up size0" and free: "4 \<le> free_count s"
  shows "\<exists>p s'. VMPool this base size0 fp pt s = Inr s' \<and> vm_pools s' = (vm_pools s)(this \<mapsto> p)
    \<and> pools_ready pt D (this # ns) AL s'
    \<and> vm_holds p s' (list_regions d) [(at_page d 2, round_up size0 - 8192)] \<and> pages_free d s'
    \<and> free_count s = free_count s' + 3 \<and> paging_ok s'
    \<and> (\<forall>e. e \<noteq> d \<longrightarrow> slots s' (Table e) = slots s (Table e))
    \<and> (\<forall>q as fs. vm_holds q s as fs \<longrightarrow> (\<forall>a\<in>list_cells q. dir_ix a \<noteq> d) \<longrightarrow> vm_holds q s' as fs)
    \<and> (\<forall>e t. 0 < e \<longrightarrow> e < 1023 \<longrightarrow> t < 1023 \<longrightarrow> e \<noteq> d \<longrightarrow> slots s' (Page e t) = slots s (Page e t))"
proof -
  obtain t where t: "page_tables s pt = Some t" "cr3 s = page_directory t" "node_chain (vm_pools s) (head_pool t) ns"
    using r unfolding pools_ready_def by blast
  let ?base = "at_page d 0" and ?p = "built_pool (at_page d 0) size0 fp pt t"
  have p: "pool_at pt d ?p" "next_pool ?p = head_pool t" "vm_size ?p = round_up size0" "base_address ?p = ?base"
    using d by (simp_all add: pool_at_def built_pool_def new_vm_pool_def at_page_4096)
  have pages: "slots s (Page d u) = None" "mapped s d u = None" for u
    using empty d by (auto simp: slots_def mapped_def lookup_table split: if_splits)
  have f1: "?base + 4096 = at_page d 1" using at_page_4096 [of d 0] by simp
  have f2: "at_page d (Suc 0) + 4096 = at_page d 2" using at_page_4096 [of d 1] by (simp add: numeral_2_eq_2)
  have ix: "dir_ix ?base = d" "tbl_ix ?base = 0" "dir_ix (at_page d 1) = d" "tbl_ix (at_page d 1) = 1"
    using at_page_slot [of d 0] at_page_slot [of d 1] d by simp_all
  have "first_regions ?p = (list_regions d, [(at_page d 2, round_up size0 - 8192)])"
    using f1 f2 at_page_add [of d 0 2] by (simp add: first_regions_def p numeral_2_eq_2)
  then have fr: "fst (first_regions ?p) = list_regions d" "snd (first_regions ?p) = [(at_page d 2, round_up size0 - 8192)]"
    by simp_all
  have b: "unat ?base + 8192 \<le> 4294967295" "?base mod 4096 = 0"
    using d at_page_mod [of d 0] by (simp_all add: unat_at_page)
  have ne: "round_up size0 \<noteq> 8192" using size by auto
  obtain s' where s': "VMPool this ?base size0 fp pt s = Inr s'"
      "vm_holds ?p s' (list_regions d) [(at_page d 2, round_up size0 - 8192)]"
      "vm_pools s' = (vm_pools s)(this \<mapsto> ?p)" "page_tables s' = (page_tables s)(pt \<mapsto> t\<lparr>head_pool := Some this\<rparr>)"
      "cr3 s' = cr3 s" "keeps {Page d 0, Page d 1} (registered this ?p pt t s) s'"
      "free_count s = free_count s' + fault_cost s ?base + 1"
    using VMPool_ok [OF ok t(1) b(2,1), of size0 this fp] ix d pages ne free
    unfolding f1 fr by auto
  have others: "vm_holds q s' as fs" if "vm_holds q s as fs" "\<forall>a\<in>list_cells q. dir_ix a \<noteq> d" for q as fs
    by (rule keeps_holds [OF _ s'(6)]) (use that in auto)
  have "vm_pools s' m = Some q \<and> vm_holds q s' (AL m) fs"
    if m: "m \<in> set ns" "vm_pools s m = Some q" "pool_at pt (D m) q" "vm_holds q s (AL m) fs" for m q fs
  proof -
    have "m \<noteq> this" "D m \<noteq> d" using m(1) new d(1) by (auto simp: inj_on_def)
    then show ?thesis using others [OF m(4)] pool_at_slots [OF m(3)] m(2) s'(3) by fastforce
  qed
  then have "\<exists>q fs. vm_pools s' m = Some q \<and> pool_at pt (D m) q \<and> vm_holds q s' (AL m) fs"
    if m: "m \<in> set (this # ns)" for m
    using m r s'(2,3) p(1) d(1) new(1) AL unfolding pools_ready_def by (cases "m = this") fastforce+
  then have "pools_ready pt D (this # ns) AL s'"
    using t new p(2) node_chain_upd [OF new(1)] unfolding pools_ready_def s'(3-5) by auto
  moreover have "pages_free d s'"
    using keepsD(4) [OF s'(6) d(2,3)] pages(1) by (auto simp: pages_free_def)
  moreover have "slots s' (Table e) = slots s (Table e)" if "e \<noteq> d" for e
    using keepsD(9) [OF s'(6), of e] that by (simp del: slots_simps)
  moreover have "slots s' (Page e u) = slots s (Page e u)" if "0 < e" "e < 1023" "u < 1023" "e \<noteq> d" for e u
    using keepsD(4) [OF s'(6) that(1-3)] that(4) by simp
  ultimately show ?thesis
    using s'(1-3,7) base others keepsD(1) [OF s'(6)] empty ix(1)
    by (intro exI [of _ ?p] exI [of _ s']) (simp add: fault_cost_def del: slots_simps)
qed

end
