(* ===== verification/Pool_Main.thy ===== *)
theory Pool_Main
  imports Startup Pool_Test
begin

text \<open>
  The second form of the first kernel's \<open>main\<close>, compiled when \<open>_TEST_PAGE_TABLE_\<close> is not defined: it
  builds two virtual memory pools and runs the pool test on each.  \<open>CustomTests\<close>, whose call is
  commented out there, checks that one pool does not accept an address of the other.
\<close>

section \<open>The code\<close>

abbreviation (input) code_pool :: nat where "code_pool \<equiv> 0"
abbreviation (input) heap_pool :: nat where "heap_pool \<equiv> 1"

definition vm_pools_main ::
  "u32 \<Rightarrow> u32 \<Rightarrow> (nat \<Rightarrow> u32) \<Rightarrow> (nat \<Rightarrow> u32) \<Rightarrow> 'a vm_kernel_scheme \<Rightarrow> 'a vm_kernel_scheme outcome" where
  "vm_pools_main gdt_addr idt_addr isr irq s =
     andThen (boot_kernel gdt_addr idt_addr isr irq s) (\<lambda>s.
     andThen (VMPool code_pool 0x20000000 0x10000000 1 0 (paging s)) (\<lambda>p.
     let s = s\<lparr>paging := p\<rparr> in
     andThen (VMPool heap_pool 0x40000000 0x10000000 1 0 (paging s)) (\<lambda>p.
     let s = print_line ''VM Pools successfully created!'' (s\<lparr>paging := p\<rparr>);
         s = print_line ''I am starting with an extensive test'' s;
         s = print_line ''of the VM Pool memory allocator.'' s;
         s = print_line ''Please be patient...'' s;
         s = print_line ''Testing the memory allocation on code_pool...'' s in
     andThen (GenerateVMPoolMemoryReferences code_pool 50 100 (paging s)) (\<lambda>p.
     let s = print_line ''Testing the memory allocation on heap_pool...'' (s\<lparr>paging := p\<rparr>) in
     andThen (GenerateVMPoolMemoryReferences heap_pool 50 100 (paging s)) (\<lambda>p.
     Inr (TestPassed (s\<lparr>paging := p\<rparr>)))))))"

definition CustomTests :: "nat \<Rightarrow> nat option \<Rightarrow> 'a vm_kernel_scheme \<Rightarrow> 'a vm_kernel_scheme outcome" where
  "CustomTests pool_a pool_b s =
     andThen (new_ints pool_a 16 (paging s)) (\<lambda>(probe, p).
     let s = s\<lparr>paging := p\<rparr> in
     andThen (pool_is_legitimate pool_a probe (paging s)) (\<lambda>(ok, p).
     let s = s\<lparr>paging := p\<rparr>;
         s = (if \<not> ok then print_line ''Error: primary::is_legitimate returned false for its own allocation!'' s
              else s) in
     andThen (case pool_b of None \<Rightarrow> Inr (False, paging s)
              | Some b \<Rightarrow> pool_is_legitimate b probe (paging s)) (\<lambda>(ok, p).
     let s = s\<lparr>paging := p\<rparr>;
         s = (if ok then print_line ''Error: Cross-pool isolation FAILED (other pool accepted primary address)!'' s
              else s) in
     andThen (delete_ints pool_a probe (paging s)) (\<lambda>p.
     Inr (print_line ''Cross-pool legitimacy isolation passed.'' (s\<lparr>paging := p\<rparr>))))))"

section \<open>Both pools\<close>

lemma pool_bases: "at_page 128 0 = 0x20000000" "at_page 256 0 = 0x40000000"
  by (simp_all add: at_page_def)

lemma pool_size: "round_up 0x10000000 = 0x10000000"
  by (simp add: round_up_def)

text \<open>The directory entry of each pool.\<close>

definition pool_dir :: "nat \<Rightarrow> nat" where
  "pool_dir m = (if m = code_pool then 128 else 256)"

lemma pool_dir_simps [simp]: "pool_dir 0 = 128" "pool_dir (Suc 0) = 256" "0 < pool_dir m" "pool_dir m < 1023"
  by (simp_all add: pool_dir_def)

abbreviation first_lists :: "nat \<Rightarrow> region list" where "first_lists \<equiv> \<lambda>m. list_regions (pool_dir m)"

text \<open>Both pools are there, with their list regions allocated, and \<open>fs m\<close> free in pool \<open>m\<close>.\<close>

definition two_pools :: "(nat \<Rightarrow> region list) \<Rightarrow> 'a paging_state_scheme \<Rightarrow> bool" where
  "two_pools fs s \<longleftrightarrow> paging_ok s \<and> pools_ready 0 pool_dir [heap_pool, code_pool] first_lists s \<and>
     (\<forall>m<2. \<exists>p. vm_pools s m = Some p \<and> vm_holds p s (first_lists m) (fs m) \<and> pages_free (pool_dir m) s)"

lemma two_pool_numbers: "m < (2 :: nat) \<longleftrightarrow> m = 0 \<or> m = 1"
  by linarith

lemma two_pools_elsewhere:
  assumes t: "two_pools fs s" and m: "m < 2" and k: "keeps (range (Page (pool_dir m))) s s'"
    and new: "pools_ready 0 pool_dir [heap_pool, code_pool] first_lists s'"
    and p: "vm_pools s m = Some p" "vm_holds p s' (first_lists m) fs'" "pages_free (pool_dir m) s'"
  shows "two_pools (fs(m := fs')) s'"
proof -
  have "\<exists>q. vm_pools s' n = Some q \<and> vm_holds q s' (first_lists n) ((fs(m := fs')) n) \<and> pages_free (pool_dir n) s'"
    if n: "n < 2" for n
  proof (cases "n = m")
    case True
    then show ?thesis using p keepsD(7) [OF k] by simp
  next
    case False
    obtain q where q: "vm_pools s n = Some q" "vm_holds q s (first_lists n) (fs n)" "pages_free (pool_dir n) s"
      using t n by (auto simp: two_pools_def)
    have ne: "pool_dir n \<noteq> pool_dir m" "0 < pool_dir n" "pool_dir n < 1023"
      using False m n by (auto simp: two_pool_numbers)
    have "n \<in> set [heap_pool, code_pool]" using n by (auto simp: two_pool_numbers)
    then have "pool_at 0 (pool_dir n) q" using t q(1) unfolding two_pools_def pools_ready_def by (metis option.inject)
    then have "\<forall>a\<in>list_cells q. page_slot a \<notin> range (Page (pool_dir m))"
      using pool_at_slots [of 0 "pool_dir n" q] ne(1) by fastforce
    then have "vm_holds q s' (first_lists n) (fs n)" by (rule keeps_holds [OF q(2) k])
    moreover have "pages_free (pool_dir n) s'"
      unfolding pages_free_def
    proof (intro allI impI)
      fix t :: nat assume t: "2 \<le> t" "t < 1023"
      have "slots s' (Page (pool_dir n) t) = slots s (Page (pool_dir n) t)"
        by (rule keepsD(4) [OF k ne(2,3) t(2)]) (use ne(1) in auto)
      then show "slots s' (Page (pool_dir n) t) = None" using q(3) t by (simp only: pages_free_def)
    qed
    ultimately show ?thesis using q(1) keepsD(7) [OF k] False by simp
  qed
  then show ?thesis using new keepsD(1) [OF k] by (simp add: two_pools_def)
qed

text \<open>The two constructors, after the kernel has turned paging on.\<close>

lemma two_pools_built:
  assumes ok: "paging_ok s" and t: "page_tables s 0 = Some \<lparr>page_directory = cr3 s, head_pool = None\<rparr>"
    and empty: "\<And>d. 0 < d \<Longrightarrow> slots s (Table d) = None" and free: "8 \<le> free_count s"
  shows "\<exists>s1 s2. VMPool code_pool 0x20000000 0x10000000 1 0 s = Inr s1
    \<and> VMPool heap_pool 0x40000000 0x10000000 1 0 s1 = Inr s2
    \<and> two_pools (\<lambda>m. [(at_page (pool_dir m) 2, 0xFFFE000)]) s2 \<and> free_count s = free_count s2 + 6"
proof -
  have r: "pools_ready 0 pool_dir [] first_lists s" using t by (simp add: pools_ready_def)
  have inj: "inj_on pool_dir (insert code_pool (set []))" "inj_on pool_dir (insert heap_pool (set [code_pool]))"
    by (simp_all add: inj_on_def)
  have e: "slots s (Table 128) = None" "4 \<le> free_count s" "slots s (Table 256) = None"
    using empty [of 128] empty [of 256] free by simp_all
  obtain p1 s1 where s1: "VMPool code_pool 0x20000000 0x10000000 1 0 s = Inr s1" "vm_pools s1 = (vm_pools s)(code_pool \<mapsto> p1)"
      "pools_ready 0 pool_dir [code_pool] first_lists s1" "vm_holds p1 s1 (list_regions 128) [(at_page 128 2, 0xFFFE000)]"
      "pages_free 128 s1" "free_count s = free_count s1 + 3" "paging_ok s1" "slots s1 (Table 256) = slots s (Table 256)"
    using new_pool_ready [OF ok r _ inj(1) _ _ _ e(1) _ pool_bases(1) [symmetric] _ e(2), of "0x10000000" 1]
    unfolding pool_size by (auto simp del: slots_simps)
  have e1: "slots s1 (Table 256) = None" using s1(8) e(3) by (simp del: slots_simps)
  have f1: "4 \<le> free_count s1" using s1(6) free by simp
  obtain p2 s2 where s2: "VMPool heap_pool 0x40000000 0x10000000 1 0 s1 = Inr s2" "vm_pools s2 = (vm_pools s1)(heap_pool \<mapsto> p2)"
      "pools_ready 0 pool_dir [heap_pool, code_pool] first_lists s2"
      "vm_holds p2 s2 (list_regions 256) [(at_page 256 2, 0xFFFE000)]"
      "pages_free 256 s2" "free_count s1 = free_count s2 + 3" "paging_ok s2"
      "\<forall>q as fs. vm_holds q s1 as fs \<longrightarrow> (\<forall>a\<in>list_cells q. dir_ix a \<noteq> 256) \<longrightarrow> vm_holds q s2 as fs"
      "\<forall>e t. 0 < e \<longrightarrow> e < 1023 \<longrightarrow> t < 1023 \<longrightarrow> e \<noteq> 256 \<longrightarrow> slots s2 (Page e t) = slots s1 (Page e t)"
    using new_pool_ready [OF s1(7,3) _ inj(2) _ _ _ e1 _ pool_bases(2) [symmetric] _ f1, of "0x10000000" 1]
    unfolding pool_size by (auto simp del: slots_simps)
  have "pool_at 0 128 p1" using s1(2,3) by (simp add: pools_ready_def)
  then have "\<forall>a\<in>list_cells p1. dir_ix a \<noteq> 256" using pool_at_slots by fastforce
  then have "vm_holds p1 s2 (list_regions 128) [(at_page 128 2, 0xFFFE000)]" using s2(8) s1(4) by blast
  moreover have "pages_free 128 s2" using s1(5) s2(9) by (simp add: pages_free_def)
  ultimately have "two_pools (\<lambda>m. [(at_page (pool_dir m) 2, 0xFFFE000)]) s2"
    using s1(2) s2(2-5,7) by (simp add: two_pools_def two_pool_numbers)
  then show ?thesis using s1(1,6) s2(1,6) by (intro exI [of _ s1] exI [of _ s2]) simp
qed


section \<open>The pool test\<close>

lemma rounds_50: "pages_before 100 50 = 145"
proof -
  have "[1..<50] = (1 :: nat) # [2..<50]" by (subst upt_conv_Cons) (simp_all del: One_nat_def)
  then show ?thesis by (simp add: pages_before_def pages_def upt_rec_numeral del: One_nat_def)
qed

lemma two_pools_test:
  assumes t: "two_pools fs s" and m: "m < 2" "fs m = [(at_page (pool_dir m) 2, 0xFFFE000)]" and free: "5 \<le> free_count s"
  shows "\<exists>s'. GenerateVMPoolMemoryReferences m 50 100 s = Inr s' \<and> free_count s' = free_count s
    \<and> two_pools (fs(m := (at_page (pool_dir m) 147, 0xFF6D000) # freed_regions (pool_dir m) 100 50)) s'"
proof -
  obtain p where p: "vm_pools s m = Some p" "vm_holds p s (first_lists m) (fs m)" "pages_free (pool_dir m) s"
    using t m(1) by (auto simp: two_pools_def)
  have h: "vm_holds p s (first_lists m) [(at_page (pool_dir m) 2, 0xFFFE000)]" using p(2) m(2) by simp
  have r: "pools_ready 0 pool_dir [heap_pool, code_pool] first_lists s" using t by (simp add: two_pools_def)
  have "pages (100 * 50) = 5" by (simp add: pages_def)
  then have "pages (100 * 50) \<le> free_count s" using free by simp
  from GenerateVMPoolMemoryReferences_ok [OF r _ p(1) refl refl h _ _ _ _ _ p(3) this]
  obtain s' where s': "GenerateVMPoolMemoryReferences m 50 100 s = Inr s'"
      "pools_ready 0 pool_dir [heap_pool, code_pool] first_lists s'"
      "vm_holds p s' (first_lists m) ((at_page (pool_dir m) 147, 0xFF6D000) # freed_regions (pool_dir m) 100 50)"
      "keeps (range (Page (pool_dir m))) s s'" "free_count s' = free_count s" "pages_free (pool_dir m) s'"
    using m(1) by (auto simp: rounds_50 two_pool_numbers)
  show ?thesis
    using two_pools_elsewhere [OF t m(1) s'(4,2) p(1) s'(3,6)] s'(1,5) by blast
qed

lemma vm_pools_main_ok:
  assumes "length (gdt s) = 3" and "\<not> interrupts_enabled s"
    and none: "frame_pools (paging s) = Map.empty" "fp_head (paging s) = None" and off: "\<not> bit (cr0 (paging s)) 31"
  shows "\<exists>s'. vm_pools_main gdt_addr idt_addr isr irq s = Inr s' \<and> devices_ok isr irq s'
    \<and> exception_table s' ! 14 = Some pagefault_handler \<and> free_count (paging s') = 6904
    \<and> two_pools (\<lambda>m. (at_page (pool_dir m) 147, 0xFF6D000) # freed_regions (pool_dir m) 100 50) (paging s')"
proof -
  obtain s1 p1 where s1: "boot_kernel gdt_addr idt_addr isr irq s = Inr s1" "devices_ok isr irq s1"
      "exception_table s1 ! 14 = Some pagefault_handler" "paging s1 = p1" "boot_memory (paging s) = Inr p1"
      "paging_ok p1" "free_count p1 = 6910"
    using boot_kernel_ok [OF assms, of gdt_addr idt_addr isr irq] by blast
  have t: "page_tables p1 0 = Some \<lparr>page_directory = cr3 p1, head_pool = None\<rparr>" "\<forall>d>0. slots p1 (Table d) = None"
    using boot_memory_ok [OF none off] s1(5) by (auto simp del: slots_simps)
  have f1: "8 \<le> free_count p1" using s1(7) by simp
  obtain p2 p3 where p: "VMPool code_pool 0x20000000 0x10000000 1 0 p1 = Inr p2"
      "VMPool heap_pool 0x40000000 0x10000000 1 0 p2 = Inr p3"
      "two_pools (\<lambda>m. [(at_page (pool_dir m) 2, 0xFFFE000)]) p3" "free_count p1 = free_count p3 + 6"
    using two_pools_built [OF s1(6) t(1) _ f1] t(2) by blast
  let ?fs = "\<lambda>m. [(at_page (pool_dir m) 2, 0xFFFE000 :: u32)]"
  let ?gs = "\<lambda>m. (at_page (pool_dir m) 147, 0xFF6D000 :: u32) # freed_regions (pool_dir m) 100 50"
  have f3: "5 \<le> free_count p3" using p(4) s1(7) by simp
  obtain p4 where p4: "GenerateVMPoolMemoryReferences code_pool 50 100 p3 = Inr p4" "free_count p4 = free_count p3"
      "two_pools (?fs(code_pool := ?gs code_pool)) p4"
    using two_pools_test [OF p(3) _ refl f3, of code_pool] by auto
  have "(?fs(code_pool := ?gs code_pool)) heap_pool = ?fs heap_pool" by simp
  then obtain p5 where p5: "GenerateVMPoolMemoryReferences heap_pool 50 100 p4 = Inr p5" "free_count p5 = free_count p4"
      "two_pools (?fs(code_pool := ?gs code_pool, heap_pool := ?gs heap_pool)) p5"
    using two_pools_test [OF p4(3), of heap_pool] p4(2) f3 by auto
  have "two_pools ?gs p5" using p5(3) by (simp add: two_pools_def two_pool_numbers)
  then show ?thesis
    using s1(1-4,7) p p4(1,2) p5(1,2) unfolding vm_pools_main_def
    by (simp add: Let_def devices_ok_messages TestPassed_def)
qed


section \<open>The custom tests\<close>

text \<open>No address of one 4 MB region lies in the first two pages of another.\<close>

lemma other_pool_rejects:
  assumes q: "pool_at pt e q" and ne: "d \<noteq> e" and k: "d < 1023" "k < 1024"
  shows "\<not> legit q (list_regions e) (at_page d k)"
proof -
  have e: "e < 1023" "alloc_list q = at_page e 0" "free_list q = at_page e 1" using q by (simp_all add: pool_at_def)
  have "\<not> (at_page e j \<le> at_page d k \<and> at_page d k < at_page e (Suc j))" if "j < 2" for j
  proof
    assume "at_page e j \<le> at_page d k \<and> at_page d k < at_page e (Suc j)"
    then have "4194304 * e + 4096 * j \<le> 4194304 * d + 4096 * k" "4194304 * d + 4096 * k < 4194304 * e + 4096 * j + 4096"
      using k e(1) that by (simp_all add: word_le_nat_alt word_less_nat_alt unat_at_page)
    then have "e \<le> d" "d \<le> e" using k(2) that by linarith+
    then show False using ne by simp
  qed
  from this [of 0] this [of 1] show ?thesis
    by (auto simp: legit_def in_regions_def e at_page_4096)
qed

lemma CustomTests_ok:
  assumes t: "two_pools fs (paging s)" and ab: "a < 2" "b < 2" "a \<noteq> b"
    and fs: "fs a = (at_page (pool_dir a) k, len) # gs" "length gs < 510" "2 \<le> k" "k < 1023" "4096 < unat len"
  shows "\<exists>p'. CustomTests a (Some b) s = Inr (print_line ''Cross-pool legitimacy isolation passed.'' (s\<lparr>paging := p'\<rparr>))
    \<and> two_pools (fs(a := (at_page (pool_dir a) (k + 1), len - 4096) # gs @ [(at_page (pool_dir a) k, 4096)])) p'
    \<and> free_count p' = free_count (paging s)"
proof -
  let ?s = "paging s" and ?d = "pool_dir a" and ?start = "at_page (pool_dir a) k"
  let ?r = "(?start, word_of_nat (4096 * 1) :: u32)"
  have r: "pools_ready 0 pool_dir [heap_pool, code_pool] first_lists ?s" using t by (simp add: two_pools_def)
  obtain p where p: "vm_pools ?s a = Some p" "vm_holds p ?s (first_lists a) ((?start, len) # gs)" "pages_free ?d ?s"
    using t ab(1) fs(1) by (auto simp: two_pools_def)
  obtain q where q: "vm_pools ?s b = Some q" "vm_holds q ?s (first_lists b) (fs b)"
    using t ab(2) by (auto simp: two_pools_def)
  have mem: "a \<in> set [heap_pool, code_pool]" "b \<in> set [heap_pool, code_pool]" using ab by (auto simp: two_pool_numbers)
  have at: "pool_at 0 ?d p" "pool_at 0 (pool_dir b) q"
    using r mem p(1) q(1) unfolding pools_ready_def by fastforce+
  have ne: "?d \<noteq> pool_dir b" using ab by (auto simp: two_pool_numbers)
  have pg: "pages 16 = 1" by (simp add: pages_def)
  obtain p1 where p1: "new_ints a 16 ?s = Inr (?start, p1)" "keeps (page_range ?d 0 2) ?s p1"
      "vm_holds p p1 (first_lists a @ [?r]) ((at_page ?d (k + 1), len - word_of_nat (4096 * 1)) # gs)"
      "pool_is_legitimate a ?start p1 = Inr (True, p1)" "slots p1 = slots ?s" "free_count p1 = free_count ?s"
    using new_array_ok [OF p(1) at(1) p(2), of 1 16] fs pg by auto
  have k1: "keeps (range (Page ?d)) ?s p1" by (rule keeps_mono [OF p1(2)]) (auto simp: page_range_def)
  have "\<forall>x\<in>list_cells q. page_slot x \<notin> range (Page ?d)" using pool_at_slots [OF at(2)] ne by fastforce
  then have "vm_holds q p1 (first_lists b) (fs b)" by (rule keeps_holds [OF q(2) k1])
  from vm_is_legitimate [OF this, of ?start]
  have no: "pool_is_legitimate b ?start p1 = Inr (False, p1)"
    using q(1) keepsD(7) [OF k1] other_pool_rejects [OF at(2) ne, of k] fs(4) by (simp add: pool_is_legitimate_def)
  have r1: "pools_ready 0 pool_dir [heap_pool, code_pool] (first_lists(a := first_lists a @ [?r])) p1"
    by (rule pools_ready_keeps [OF r k1 mem(1) p(1) p1(3)])
  have v1: "vm_pools p1 a = Some p" using p(1) keepsD(7) [OF k1] by simp
  have kb: "k + 1 \<le> 1023" and l1: "length ((at_page ?d (k + 1), len - word_of_nat (4096 * 1)) # gs) < 511"
    using fs by simp_all
  obtain p2 where p2: "vm_release a ?start p1 = Inr p2"
      "vm_holds p p2 (first_lists a) (((at_page ?d (k + 1), len - word_of_nat (4096 * 1)) # gs) @ [?r])"
      "keeps (range (Page ?d)) p1 p2" "free_count p2 = free_count p1 + pages_held p1 ?start 1"
      "\<forall>t. slots p2 (Page ?d t) = (if k \<le> t \<and> t < k + 1 then None else slots p1 (Page ?d t))"
    using delete_array_ok [OF r1 mem(1) v1 refl _ p1(3) l1 fs(3) kb] by (auto simp del: One_nat_def)
  have k2: "keeps (range (Page ?d)) ?s p2" by (rule keeps_trans [OF k1 p2(3)])
  have "?d < 1024" using pool_dir_simps(4) [of a] by linarith
  then have "page_slot (page_addr ?start 0) = Page ?d k"
    using at_page_slot [of ?d k] fs(4) by (simp add: page_addr_at)
  then have "pages_held p1 ?start 1 = 0"
    using p(3) p1(5) fs(3,4) by (simp add: pages_held_Suc pages_free_def)
  then have count: "free_count p2 = free_count ?s" using p2(4) p1(6) by simp
  have free2: "pages_free ?d p2" using p(3) p1(5) p2(5) by (simp add: pages_free_def)
  have "first_lists(a := first_lists a) = first_lists" by (rule fun_upd_triv)
  then have r2: "pools_ready 0 pool_dir [heap_pool, code_pool] first_lists p2"
    using pools_ready_keeps [OF r k2 mem(1) p(1) p2(2)] by (simp only:)
  have t2: "two_pools (fs(a := ((at_page ?d (k + 1), len - word_of_nat (4096 * 1)) # gs) @ [?r])) p2"
    by (rule two_pools_elsewhere [OF t ab(1) k2 r2 p(1) p2(2) free2])
  have "?start \<noteq> 0" using unat_at_page [of ?d k] fs(3,4) \<open>?d < 1024\<close> by auto
  then have "CustomTests a (Some b) s = Inr (print_line ''Cross-pool legitimacy isolation passed.'' (s\<lparr>paging := p2\<rparr>))"
    using p1(1,4) no p2(1) by (simp add: CustomTests_def delete_ints_def vm_delete_array_def Let_def)
  then show ?thesis using t2 count by auto
qed

end
