(* ===== verification/Kernel_Events.thy ===== *)
theory Kernel_Events
  imports Startup
begin

text \<open>
  The first kernel while \<open>main\<close> idles: it runs only in exception and interrupt handlers.  One event
  is one vector delivered to its stub, whatever its number and its saved registers, and handled to
  the end.  No event damages the descriptor tables, the dispatchers, the timer or the console.
\<close>

inductive kernel_event :: "'a vm_kernel_scheme \<Rightarrow> 'a vm_kernel_scheme \<Rightarrow> bool" where
  exception: "lowlevel_dispatch_exception exception_method r s = Inr s' \<Longrightarrow> kernel_event s s'"
| interrupt: "lowlevel_dispatch_interrupt interrupt_method r s = Inr s' \<Longrightarrow> kernel_event s s'"

inductive_cases kernel_eventE: "kernel_event s s'"

definition kernel_ok :: "(nat \<Rightarrow> u32) \<Rightarrow> (nat \<Rightarrow> u32) \<Rightarrow> 'a vm_kernel_scheme \<Rightarrow> bool" where
  "kernel_ok isr irq s \<longleftrightarrow> devices_ok isr irq s \<and> console_ok s"

lemma console_ok_fields [simp]:
  "console_ok (v\<lparr>paging := p\<rparr>) = console_ok v" "console_ok (v\<lparr>kernel_timer := t\<rparr>) = console_ok v"
  "console_ok (m\<lparr>port_log := l\<rparr>) = console_ok m"
  by (simp_all add: console_ok_def)

lemma kernel_ok_puts: "kernel_ok isr irq s \<Longrightarrow> kernel_ok isr irq (puts str s)"
  using puts_refines(1) [of s str] by (simp add: kernel_ok_def devices_ok_def)

lemma kernel_ok_putch: "kernel_ok isr irq s \<Longrightarrow> kernel_ok isr irq (putch c s)"
  using putch_refines(2) [of s c] by (simp add: kernel_ok_def devices_ok_def)

lemmas kernel_ok_messages = kernel_ok_puts kernel_ok_putch

lemma kernel_ok_eoi: "kernel_ok isr irq s \<Longrightarrow> kernel_ok isr irq (s\<lparr>port_log := port_log s @ eoi i\<rparr>)"
  by (simp add: kernel_ok_def devices_ok_def vectors_eoi)

lemma exception_keeps_kernel_ok:
  assumes ok: "kernel_ok isr irq s" and run: "dispatch_exception exception_method r s = Inr s'"
  shows "kernel_ok isr irq s' \<and> exception_table s' = exception_table s \<and> interrupt_table s' = interrupt_table s"
proof -
  let ?v = "print_line '''' (putui (reg_int_no r) (print ''EXCEPTION DISPATCHER: exc_no = '' s))"
  have v: "kernel_ok isr irq ?v"
    using ok by (simp add: print_line_def print_def putui_def kernel_ok_messages)
  have "\<exists>p. s' = ?v\<lparr>paging := p\<rparr>"
    using run by (auto simp: dispatch_exception_def exception_method_def PageFault_Handler_def DBZ_Handler_def
        Let_def andThen_eq_Inr split: option.splits if_splits)
  then show ?thesis using v by (auto simp: kernel_ok_def devices_ok_messages)
qed

lemma interrupt_keeps_kernel_ok:
  assumes ok: "kernel_ok isr irq s" and run: "dispatch_interrupt interrupt_method r s = Inr s'"
  shows "kernel_ok isr irq s' \<and> exception_table s' = exception_table s \<and> interrupt_table s' = interrupt_table s
    \<and> paging s' = paging s"
proof -
  let ?i = "unat (reg_int_no r - 32)"
  have i: "?i < 16" using run dispatch_interrupt_bad [of r interrupt_method s] by (cases "?i < 16") simp_all
  have "reg_int_no r = 32 + word_of_nat ?i" by simp
  note d = dispatch_interrupt_line [OF i this, of interrupt_method s]
  let ?none = "print_line ''NO DEFAULT INTERRUPT HANDLER REGISTERED''
            (print_line '''' (puti (int ?i) (print ''INTERRUPT NO: '' s)))"
  let ?body = "case interrupt_table s ! ?i of None \<Rightarrow> Inr ?none | Some h \<Rightarrow> interrupt_method h r s"
  obtain v where b: "?body = Inr v" and v: "s' = v\<lparr>port_log := port_log v @ eoi ?i\<rparr>"
    using run unfolding d by (cases ?body) simp_all
  have cases: "v = ?none \<or> (\<exists>t w. timer_interrupt (kernel_timer s) s = (t, w) \<and> v = w\<lparr>kernel_timer := t\<rparr>)"
    using b by (auto simp: interrupt_method_def split: option.splits if_splits prod.splits)
  have "kernel_ok isr irq v \<and> exception_table v = exception_table s \<and> interrupt_table v = interrupt_table s
      \<and> paging v = paging s"
    using cases
  proof
    assume "v = ?none"
    moreover have "kernel_ok isr irq ?none"
      using ok by (simp add: print_line_def print_def puti_def kernel_ok_messages)
    ultimately show ?thesis by simp
  next
    assume "\<exists>t w. timer_interrupt (kernel_timer s) s = (t, w) \<and> v = w\<lparr>kernel_timer := t\<rparr>"
    then obtain t w where t: "timer_interrupt (kernel_timer s) s = (t, w)" and vw: "v = w\<lparr>kernel_timer := t\<rparr>" by blast
    have w: "w = s \<or> w = print_line ''One second has passed'' s"
      using t by (auto simp: timer_interrupt_def Let_def split: if_splits)
    have "t = after_ticks 1 (kernel_timer s)"
      using timer_interrupt_ticks [of "kernel_timer s" 0 s] ok t
      by (simp add: kernel_ok_def devices_ok_def after_ticks_0)
    then have "timer_ok t" using ok after_ticks_ok [of "kernel_timer s" 1] by (simp add: kernel_ok_def devices_ok_def)
    moreover have "kernel_ok isr irq w" using w ok by (auto simp: print_line_def kernel_ok_messages)
    ultimately show ?thesis using w unfolding vw by (auto simp: kernel_ok_def devices_ok_def)
  qed
  then show ?thesis unfolding v by (simp add: kernel_ok_eoi)
qed

lemma events_keep_kernel_ok:
  assumes "kernel_event\<^sup>*\<^sup>* s s'" and "kernel_ok isr irq s"
  shows "kernel_ok isr irq s' \<and> exception_table s' = exception_table s \<and> interrupt_table s' = interrupt_table s"
  using assms
proof (induction rule: rtranclp_induct)
  case (step v w)
  then have v: "kernel_ok isr irq v" "exception_table v = exception_table s" "interrupt_table v = interrupt_table s"
    by simp_all
  from step.hyps(2) show ?case
    by (cases rule: kernel_eventE)
      (use exception_keeps_kernel_ok [OF v(1)] interrupt_keeps_kernel_ok [OF v(1)] v(2,3) in
        \<open>auto simp: lowlevel_dispatch_exception_def lowlevel_dispatch_interrupt_def\<close>)
qed simp

section \<open>Booting establishes it\<close>

lemma console_ok_outside [simp]:
  "console_ok (outportb p b m) = console_ok m" "console_ok (redirect_output on m) = console_ok m"
  "console_ok (d\<lparr>exception_table := et\<rparr>) = console_ok d" "console_ok (d\<lparr>interrupt_table := it\<rparr>) = console_ok d"
  "console_ok (m\<lparr>EFLAGS := e\<rparr>) = console_ok m" "console_ok (t\<lparr>idt := i\<rparr>) = console_ok t"
  by (simp_all add: console_ok_def outportb_def redirect_output_def)

lemma console_ok_messages: "console_ok s \<Longrightarrow> console_ok (print t s)" "console_ok s \<Longrightarrow> console_ok (print_line t s)"
  "console_ok s \<Longrightarrow> console_ok (putui n s)" "console_ok s \<Longrightarrow> console_ok (puti i s)"
  by (simp_all add: print_def print_line_def putui_def puti_def puts_refines(1) putch_refines(2))

lemma console_ok_gates: "console_ok s \<Longrightarrow> console_ok (set_gates base stub k s)"
  by (induction k) (simp_all add: set_gates_Suc console_ok_messages idt_set_gate_def Let_def, simp add: set_gates_def)

lemma console_ok_idt_init: "console_ok (idt_init a t) = console_ok t"
  by (simp add: console_ok_def idt_init_def Let_def)

lemma console_ok_irq_init: "console_ok (irq_init s) = console_ok s"
  by (simp add: irq_init_def irq_remap_def Let_def)

lemma boot_tables_console:
  "boot_tables gdt_addr idt_addr isr irq s = Inr s' \<Longrightarrow> console_ok s'"
  by (auto simp: boot_tables_def andThen_eq_Inr Let_def init_gates console_ok_gates console_ok_irq_init
      console_ok_idt_init init_console_ok(1))

lemma boot_devices_console:
  assumes "boot_devices gdt_addr idt_addr isr irq s = Inr s'"
  shows "console_ok s'"
proof -
  obtain s1 s2 where s1: "boot_tables gdt_addr idt_addr isr irq s = Inr s1"
    and s2: "register_exception_handler 0 dbz_handler s1 = Inr s2"
    and rest: "andThen (SimpleTimer 100 s2) (\<lambda>(t, s). let s = s\<lparr>kernel_timer := t\<rparr> in
      andThen (register_interrupt_handler 0 timer_handler s) (\<lambda>s. enable_interrupts s)) = Inr s'"
    using assms by (auto simp: boot_devices_def andThen_eq_Inr)
  have "console_ok s2" using s2 boot_tables_console [OF s1]
    by (auto simp: register_exception_handler_def Let_def console_ok_messages)
  then show ?thesis using rest
    by (auto simp: SimpleTimer_100 register_interrupt_handler_def Let_def console_ok_messages enable_interrupts_def
        andThen_eq_Inr split: if_splits)
qed

lemma boot_kernel_console:
  assumes "boot_kernel gdt_addr idt_addr isr irq s = Inr s'"
  shows "console_ok s'"
proof -
  obtain s1 p1 p2 where s1: "boot_devices gdt_addr idt_addr isr irq s = Inr s1"
    and s': "s' = print_line ''Hello World!''
      (print_line [] (putui 14 (print ''Installed exception handler at ISR ''
        (print_line ''POOLS INITIALIZED!'' (s1\<lparr>paging := p1\<rparr>)
          \<lparr>exception_table := (exception_table s1)[14 := Some (Suc 0)]\<rparr>)))\<lparr>paging := p2\<rparr>)"
    using assms by (auto simp: boot_kernel_def andThen_eq_Inr register_exception_handler_def Let_def)
  show ?thesis using boot_devices_console [OF s1] unfolding s' by (intro console_ok_messages) (simp add: console_ok_messages)
qed

lemma boot_kernel_kernel_ok:
  assumes "length (gdt s) = 3" and "\<not> interrupts_enabled s"
    and "frame_pools (paging s) = Map.empty" and "fp_head (paging s) = None" and "\<not> bit (cr0 (paging s)) 31"
  shows "\<exists>s'. boot_kernel gdt_addr idt_addr isr irq s = Inr s' \<and> kernel_ok isr irq s'"
proof -
  obtain s' where s': "boot_kernel gdt_addr idt_addr isr irq s = Inr s'" "devices_ok isr irq s'"
    using boot_kernel_ok [OF assms, of gdt_addr idt_addr isr irq] by auto
  then show ?thesis using boot_kernel_console [OF s'(1)] by (simp add: kernel_ok_def)
qed

lemma timer_event:
  assumes ok: "kernel_ok isr irq s" and r: "reg_int_no (r :: regs) = 32"
  shows "\<exists>s'. kernel_event s s' \<and> kernel_timer s' = after_ticks 1 (kernel_timer s)"
  using timer_line_step [of isr irq s r] ok r kernel_event.interrupt [of r s]
  unfolding kernel_ok_def lowlevel_dispatch_interrupt_def by blast

lemma tick_changes:
  assumes "timer_ok t"
  shows "after_ticks 1 t \<noteq> t"
proof (cases "timer_ticks t + 1 < timer_hz t")
  case True
  then have "timer_ticks (after_ticks 1 t) = timer_ticks t + 1" using assms by (simp add: after_ticks_def timer_ok_def)
  then show ?thesis by (metis zero_neq_one add_cancel_right_right)
next
  case False
  then have h: "timer_ticks t + 1 = timer_hz t" "0 < timer_hz t" using assms by (auto simp: timer_ok_def)
  then have "timer_seconds (after_ticks 1 t) = timer_seconds t + 1" by (simp add: after_ticks_def)
  then show ?thesis by (metis zero_neq_one add_cancel_right_right)
qed

end
