(* ===== verification/Untouched_Region.thy ===== *)
theory Untouched_Region
  imports Page_Release
begin

section \<open>Releasing a page of an untouched 4 MB region\<close>

lemma pte_window_twice: "pte_window (pte_window va) = pde_window va"
  by (simp add: word_unat_eq_iff unat_pte_window unat_pde_window window_pieces)

text \<open>
  Where a 4 MB region has no page table yet, the read of the page-table entry in \<open>free_page\<close> faults
  itself.  The handler takes the faulting address for a page and puts a fresh frame into the
  directory: the frame becomes a page table although nothing has initialised it.
\<close>

lemma window_fault:
  assumes ok: "paging_ok s" and d: "dir_ix va < 1023" and none: "slots s (Table (dir_ix va)) = None"
    and free: "0 < free_count s"
  shows "\<exists>f s'. \<not> owned s f \<and> Suc (free_count s') = free_count s
    \<and> demand_load (pte_window va) s = Inr (entry (mem s) f (tbl_ix va), s')
    \<and> demand_load (pte_window va) s' = Inr (entry (mem s) f (tbl_ix va), s')
    \<and> (\<forall>u<1024. mapped s' (dir_ix va) u =
         (if present (entry (mem s) f u) then Some (frame_of (entry (mem s) f u)) else None))"
proof -
  let ?P = "frame_of (cr3 s)" and ?W = "pte_window va" and ?d = "dir_ix va" and ?t = "tbl_ix va"
  let ?s = "s\<lparr>cr2 := pte_window va\<rparr>"
  have ok': "paging_ok ?s" using ok by simp
  have self: "self_mapped (mem s) (cr3 s)" using self_mapped_ok paging_okD(3) [OF ok] .
  have np: "\<not> present (entry (mem s) ?P ?d)" using none d by (simp add: table_frame_def split: if_splits)
  have un: "translate s ?W = None"
    using walk_pte_window [OF self] np paging_okD(2) [OF ok] by (simp add: translate_def)
  have pde: "vload (pde_window ?W) ?s = Inr (entry (mem s) ?P 1023)"
    using pde_access(1) [OF ok', of ?W] by (simp add: window_pieces)
  have pres: "entry (mem s) ?P 1023 AND 1 \<noteq> 0" using self by (simp add: self_mapped_def present_and_1)
  have free': "0 < free_count ?s" using free by simp
  obtain f s1 where f: "get_process_frame ?s = Inr (word_of_nat f, s1)" and t: "takes_frame ?s f s1"
    using get_process_frame_ok [OF paging_okD(1) [OF ok'] free'] by blast
  have fb: "1024 \<le> f" "f < frame_bound" and fo: "frames_only ?s s1" using t by (simp_all add: takes_frame_def)
  have fP: "f \<noteq> ?P" using takes_frame_ok(3) [OF ok' t, of Dir] by auto
  let ?v = "word_of_nat f * PAGE_SIZE OR 7 :: u32"
  define s2 where s2: "s2 = s1\<lparr>mem := store32 (entry_addr ?P ?d) ?v (mem s1)\<rparr>"
  have self1: "self_mapped (mem s1) (cr3 s)"
    using self_mapped_ok [OF paging_okD(3) [OF takes_frame_ok(1) [OF ok' t]]] frames_only_fields [OF fo] by simp
  have "vstore (pte_window ?W) ?v s1 = Inr s2"
    using pde_access(2) [OF ok', of s1 va ?v] fo self1 by (simp add: pte_window_twice s2)
  then have h: "handle_fault 0 ?s = Inr s2"
    using pde pres f by (simp add: handle_fault_def Let_def)
  have e2: "entry (mem s2) g i = (if g = ?P \<and> i = ?d then ?v else entry (mem s) g i)"
    if "1024 \<le> g" "g < frame_bound" "i < 1024" for g i
    using takes_frame_entry [OF t that] entry_put [of ?P ?d g i ?v "mem s1"] that(2,3) dir_ix_bound [of va]
    by (simp add: s2 put_entry_def)
  have Pb: "1024 \<le> ?P" using paging_okD(5) [OF ok, of Dir] by simp
  have v: "frame_of ?v = f" "present ?v" using page_entry [OF fb(2), of 7] by simp_all
  have eP: "entry (mem s2) ?P ?d = ?v" using e2 [OF Pb] by simp
  have ef: "entry (mem s2) f u = entry (mem s) f u" if "u < 1024" for u using e2 [OF fb that] fP by simp
  have cr: "cr3 s2 = cr3 s" "cr0 s2 = cr0 s" using takes_frame_fields [OF t] by (simp_all add: s2)
  have self2: "self_mapped (mem s2) (cr3 s2)"
    using e2 [OF Pb, of 1023] self d cr by (simp add: self_mapped_def)
  have tr: "translate s2 ?W = Some (entry_addr f ?t)"
    using walk_pte_window [OF self2, of va] eP v cr paging_okD(2) [OF ok] by (simp add: translate_def)
  have ld2: "demand_load ?W s2 = Inr (entry (mem s) f ?t, s2)"
    using demand_resident(1) [OF tr] ef [of ?t] by (simp add: entry_def)
  moreover have "demand_load ?W s = demand_load ?W s2"
    using un h by (simp add: demand_load_def touch.simps [of 0 ?W s])
  moreover have "mapped s2 ?d u = (if present (entry (mem s) f u) then Some (frame_of (entry (mem s) f u)) else None)"
    if "u < 1024" for u
    using eP v ef [OF that] cr d that by (simp add: mapped_def lookup_table table_frame_def page_frame_def)
  moreover have "Suc (free_count s2) = free_count s"
  proof -
    have "arena s1" "Suc (free_count s1) = free_count s" using t by (simp_all add: takes_frame_def)
    then show ?thesis
      using arena_mem(3) [of s1 "mem s2"] store_high [OF Pb frame_of_bound dir_ix_bound] by (simp add: s2)
  qed
  moreover have "\<not> owned s f" using t by (simp add: takes_frame_def)
  ultimately show ?thesis by (intro exI [of _ f] exI [of _ s2]) simp
qed

lemma free_page_untouched:
  assumes ok: "paging_ok s" and tab: "page_tables s this = Some t"
    and legit: "some_legitimate (pg * PAGE_SIZE) (head_pool t) s = Some (Inr (True, s))"
    and d: "dir_ix (pg * PAGE_SIZE) < 1023" and none: "slots s (Table (dir_ix (pg * PAGE_SIZE))) = None"
    and free: "0 < free_count s"
  shows "\<exists>f s1. \<not> owned s f \<and> Suc (free_count s1) = free_count s
    \<and> (\<forall>u<1024. mapped s1 (dir_ix (pg * PAGE_SIZE)) u =
         (if present (entry (mem s) f u) then Some (frame_of (entry (mem s) f u)) else None))
    \<and> (if present (entry (mem s) f (tbl_ix (pg * PAGE_SIZE)))
       then \<forall>e. release_frames (entry (mem s) f (tbl_ix (pg * PAGE_SIZE)) div PAGE_SIZE) s1 = Inl e
              \<longrightarrow> free_page this pg s = Inl e
       else free_page this pg s = Inr s1)"
proof -
  obtain f s1 where w: "\<not> owned s f" "Suc (free_count s1) = free_count s"
    "demand_load (pte_window (pg * PAGE_SIZE)) s = Inr (entry (mem s) f (tbl_ix (pg * PAGE_SIZE)), s1)"
    "demand_load (pte_window (pg * PAGE_SIZE)) s1 = Inr (entry (mem s) f (tbl_ix (pg * PAGE_SIZE)), s1)"
    "\<forall>u<1024. mapped s1 (dir_ix (pg * PAGE_SIZE)) u =
         (if present (entry (mem s) f u) then Some (frame_of (entry (mem s) f u)) else None)"
    using window_fault [OF ok d none free] by blast
  have "free_page this pg s = (let v = entry (mem s) f (tbl_ix (pg * PAGE_SIZE)) in
      if present v then
        andThen (release_frames (v div PAGE_SIZE) s1) (\<lambda>s.
        andThen (demand_load (pte_window (pg * PAGE_SIZE)) s) (\<lambda>(v, s).
        andThen (demand_store (pte_window (pg * PAGE_SIZE)) (v AND NOT 1) s) (\<lambda>s. load this s)))
      else Inr s1)"
    using tab legit w(3,4) by (simp add: free_page_def present_and_1 Let_def)
  then show ?thesis using w(1,2,5) by (intro exI [of _ f] exI [of _ s1]) (simp add: Let_def)
qed

end
