(* ===== verification/Assertions.thy ===== *)
theory Assertions
  imports Console
begin

text \<open>
  The function \<open>_assert\<close> (\<open>assert.C\<close>) that the macro \<open>assert\<close> calls when its condition is false.  It
  prints the place and the condition and then calls \<open>abort\<close>, which loops for ever: the result is
  the console state in which it loops.  The operations themselves report a failed assertion as the
  outcome \<open>Inl Assertion\<close>.
\<close>

definition assert_failed :: "string \<Rightarrow> int \<Rightarrow> string \<Rightarrow> 'a console_state_scheme \<Rightarrow> 'a console_state_scheme" where
  "assert_failed file line message s =
     (let s = print ''Assertion failed at file: '' s;
          s = print file s;
          s = print '' line: '' s;
          temp = int2str line;
          s = puts temp s;
          s = print '' assertion: '' s;
          s = print message s
      in print_line '''' s)"

text \<open>The whole message is one string: no part of it cuts off the rest.\<close>

lemma puts_all: "0 \<notin> set str \<Longrightarrow> puts str s = fold putch str s"
  unfolding puts_def by (subst takeWhile_eq_all_conv [THEN iffD2]) auto

lemma puts_append:
  assumes "0 \<notin> set str"
  shows "puts (str @ str') s = puts str' (puts str s)"
proof -
  have "takeWhile (\<lambda>c. c \<noteq> 0) (str @ str') = str @ takeWhile (\<lambda>c. c \<noteq> 0) str'"
    using assms by (intro takeWhile_append2) auto
  then show ?thesis unfolding puts_all [OF assms] by (simp add: puts_def)
qed

definition assert_text :: "string \<Rightarrow> nat \<Rightarrow> string \<Rightarrow> u8 list" where
  "assert_text file line message =
     bytes ''Assertion failed at file: '' @ bytes file @ bytes '' line: '' @ map digit_char (decimal line)
     @ bytes '' assertion: '' @ bytes message @ [0x0A]"

lemma assert_failed_prints:
  assumes "0 \<notin> set (bytes file)" and "0 \<notin> set (bytes message)" and "line < 10000000000"
  shows "assert_failed file (int line) message s = puts (assert_text file line message) s"
proof -
  let ?d = "map digit_char (decimal line) :: u8 list"
  have nz: "0 \<notin> set ?d"
    using set_takeWhileD [of 0 "\<lambda>c. c \<noteq> 0" "?d @ [0]"] unfolding digits_nonzero by blast
  have d: "puts (int2str (int line)) s = puts ?d s" for s :: "'a console_state_scheme"
    unfolding puts_all [OF nz] by (simp only: puts_def int2str_decimal [OF assms(3)] digits_nonzero)
  have b0: "bytes '''' = []" by (simp add: bytes_def)
  have lit: "0 \<notin> set (bytes ''Assertion failed at file: '')" "0 \<notin> set (bytes '' line: '')"
    "0 \<notin> set (bytes '' assertion: '')"
    by (simp_all add: bytes_def of_char_def)
  show ?thesis
    unfolding assert_failed_def assert_text_def Let_def print_def print_line_def d
    by (simp only: puts_append [OF lit(1)] puts_append [OF lit(2)] puts_append [OF lit(3)]
        puts_append [OF assms(1)] puts_append [OF assms(2)] puts_append [OF nz] b0 append_Nil)
qed

section \<open>The end of a failed test\<close>

text \<open>
  \<open>TestFailed\<close> of \<open>kernel.C\<close> prints two lines and loops, as does the function \<open>dbz_handler\<close>, which no
  code calls (the handler that \<open>main\<close> installs is an object of the same name).  The operations report
  the loop as \<open>Inl Hang\<close>.
\<close>

definition TestFailed :: "'a console_state_scheme \<Rightarrow> 'a console_state_scheme" where
  "TestFailed s = print_line ''YOU CAN TURN OFF THE MACHINE NOW.'' (print_line ''Test Failed'' s)"

definition dbz_handler_function :: "'a console_state_scheme \<Rightarrow> 'a console_state_scheme" where
  "dbz_handler_function s = print_line ''DIVISION BY ZERO'' s"

lemma TestFailed_prints:
  "TestFailed s = puts (bytes ''Test Failed'' @ [0x0A] @ bytes ''YOU CAN TURN OFF THE MACHINE NOW.'' @ [0x0A]) s"
proof -
  have lit: "0 \<notin> set (bytes ''Test Failed'' @ [0x0A])" by (simp add: bytes_def of_char_def)
  show ?thesis unfolding TestFailed_def print_line_def by (rule puts_append [OF lit, unfolded append_assoc, symmetric])
qed

end
