(* ===== verification/Kernel_Samples.thy ===== *)
theory Kernel_Samples
  imports Disk_Overlap Sample_States Pool_Main Kernel_Events Untouched_Region Assertions
begin

text \<open>
  Concrete states on which the theorems about the two kernels are instantiated: the machines before
  each \<open>main\<close>, a second kernel on which one thread runs and two are ready, the inputs from the ports,
  a timer interrupt on the first kernel, and one whose pool reaches into an untouched 4 MB.
\<close>

definition no_gate :: gdt_entry where
  "no_gate = gdt_gate 0 0 0 0"

definition power_on :: "(nat \<Rightarrow> u16 \<Rightarrow> u16) \<Rightarrow> thread_kernel" where
  "power_on input =
     \<lparr>EFLAGS = 0, port_log = [],
      vram = (\<lambda>_. 0), attrib = 0, csr_x = 0, csr_y = 0, textmemptr = 0, output_redirected = False,
      gdt = [no_gate, no_gate, no_gate], gp = \<lparr>table_limit = 0, table_base = 0\<rparr>,
      gdt_register = \<lparr>table_limit = 0, table_base = 0\<rparr>, idt = [],
      idtp = \<lparr>table_limit = 0, table_base = 0\<rparr>, idt_register = \<lparr>table_limit = 0, table_base = 0\<rparr>,
      exception_table = [], interrupt_table = [],
      next_free_frame = 0, start_address = 0,
      ram = (\<lambda>_. 0), thread_objs = Map.empty, nextFreePid = 0, current_thread = 0,
      port_input = input, port_reads = 0, disk_size = 0,
      queue_nodes = Map.empty, ready_queue = \<lparr>list_head = 0, list_tail = 0\<rparr>,
      io_queue = \<lparr>list_head = 0, list_tail = 0\<rparr>, currThread = 0, zombieThread = 0,
      queue_locked = False, hw_locked = False, eoq_ticks = 0,
      the_timer = \<lparr>timer_seconds = 0, timer_ticks = 0, timer_hz = 100\<rparr>\<rparr>"

definition some_thread :: thread_obj where
  "some_thread = \<lparr>thread_esp = 0, thread_id = 0, thread_stack = 0, thread_stack_size = 0,
     thread_priority = 0, thread_cargo = 0\<rparr>"

text \<open>Thread \<open>0x1200\<close> runs, the threads \<open>0x1000\<close> and \<open>0x1100\<close> are ready.\<close>

definition three_threads :: "(nat \<Rightarrow> u16 \<Rightarrow> u16) \<Rightarrow> thread_kernel" where
  "three_threads input = (power_on input)
     \<lparr>start_address := 0x3000, current_thread := 0x1200,
      thread_objs := [0x1000 \<mapsto> some_thread, 0x1100 \<mapsto> some_thread, 0x1200 \<mapsto> some_thread],
      queue_nodes := [0x2000 \<mapsto> \<lparr>node_thread = 0x1000, node_next = 0x200C, node_prev = 0\<rparr>,
        0x200C \<mapsto> \<lparr>node_thread = 0x1100, node_next = 0, node_prev = 0x2000\<rparr>],
      ready_queue := \<lparr>list_head = 0x2000, list_tail = 0x200C\<rparr>\<rparr>"

abbreviation (input) two_ready :: "(u32 \<times> u32) list" where
  "two_ready \<equiv> [(0x2000, 0x1000), (0x200C, 0x1100)]"

text \<open>The status register always says busy, or always ready for the transfer of data.\<close>

definition busy_input :: "nat \<Rightarrow> u16 \<Rightarrow> u16" where "busy_input n port = 0x80"

definition ready_input :: "nat \<Rightarrow> u16 \<Rightarrow> u16" where "ready_input n port = (if port = 0x1F7 then 0x58 else word_of_nat n)"

text \<open>The registers saved by interrupt \<open>n\<close>.\<close>

definition int_regs :: "u32 \<Rightarrow> regs" where
  "int_regs n = \<lparr>reg_gs = 0, reg_fs = 0, reg_es = 0, reg_ds = 0, reg_edi = 0, reg_esi = 0, reg_ebp = 0, reg_esp = 0,
     reg_ebx = 0, reg_edx = 0, reg_ecx = 0, reg_eax = 0, reg_int_no = n, reg_err_code = 0, reg_eip = 0, reg_cs = 0,
     reg_eflags = 0, reg_useresp = 0, reg_ss = 0\<rparr>"

lemma power_on_facts:
  "length (gdt (power_on input)) = 3" "\<not> interrupts_enabled (power_on input)" "\<not> queue_locked (power_on input)"
  by (simp_all add: power_on_def interrupts_enabled_def)

lemma three_threads_facts [simp]:
  "current_thread (three_threads input) = 0x1200" "heap_room (three_threads input) = 4294955007"
  "port_input (three_threads input) = input" "port_reads (three_threads input) = 0"
  "hw_locked (three_threads input) = False" "queue_locked (three_threads input) = False"
  "eoq_ticks (three_threads input) = 0" "start_address (three_threads input) = 0x3000"
  by (simp_all add: three_threads_def power_on_def heap_room_def)

lemma three_threads_sched: "sched_ok (three_threads input) two_ready []"
  by (simp add: sched_ok_def list_repr_def three_threads_def power_on_def)

lemma three_threads_running: "running (three_threads input, Map.empty) 0x1200 two_ready"
  using three_threads_sched by (simp add: running_def threads_ok_def pending_ok_def)
    (simp add: three_threads_def power_on_def)

lemma busy_inputs: "busy_at (three_threads busy_input) n" "\<not> busy_at (three_threads ready_input) n"
  by (simp_all add: busy_at_def busy_input_def ready_input_def bit_numeral_rec)

lemma ready_verdict: "verdict (ucast (ready_input n 0x1F7)) = 0"
  by (simp add: ready_input_def verdict_def bit_numeral_rec)

text \<open>The four threads before \<open>main\<close>, with a disk that is always ready.\<close>

definition four_power_on :: four_threads where
  "four_power_on = thread_kernel.extend (power_on ready_input) (four_threads.fields Map.empty Map.empty)"

lemma four_power_on_facts:
  "length (gdt four_power_on) = 3" "\<not> interrupts_enabled four_power_on" "\<not> queue_locked four_power_on"
  "\<not> hw_locked four_power_on" "disk_ready four_power_on" "suspended four_power_on = Map.empty" "bursts four_power_on = Map.empty"
  using ready_verdict
  by (simp_all add: four_power_on_def thread_kernel.defs four_threads.defs power_on_def interrupts_enabled_def
      disk_ready_def busy_at_def ready_input_def bit_numeral_rec)

text \<open>Three threads, and a disk that is busy for the status reads 5, 6 and 7.\<close>

definition slow_input :: "nat \<Rightarrow> u16 \<Rightarrow> u16" where
  "slow_input n port = (if port = 0x1F7 then (if n \<in> {5, 6, 7} then 0xD8 else 0x58) else word_of_nat n)"

definition slow_disk :: four_threads where
  "slow_disk = thread_kernel.extend (three_threads slow_input) (four_threads.fields Map.empty Map.empty)"

lemma slow_disk_facts:
  "crew 0x1200 [0x1000, 0x1100] slow_disk two_ready []" "current_thread slow_disk = 0x1200" "\<not> hw_locked slow_disk"
  "port_reads slow_disk = 0" "busy_at slow_disk n \<longleftrightarrow> n \<in> {5, 6, 7}" "heap_room slow_disk = 4294955007"
  "port_input slow_disk = slow_input" "verdict (ucast (slow_input 10 0x1F7)) = 0"
proof -
  note ext = slow_disk_def thread_kernel.defs four_threads.defs three_threads_def power_on_def
  show "crew 0x1200 [0x1000, 0x1100] slow_disk two_ready []"
    using three_threads_sched [of slow_input]
    by (simp add: crew_def ext sched_ok_def list_repr_def)
  show "current_thread slow_disk = 0x1200" "\<not> hw_locked slow_disk" "port_reads slow_disk = 0"
    "heap_room slow_disk = 4294955007" "port_input slow_disk = slow_input"
    by (simp_all add: ext heap_room_def)
  then show "busy_at slow_disk n \<longleftrightarrow> n \<in> {5, 6, 7}" by (simp add: busy_at_def slow_input_def bit_numeral_rec)
  show "verdict (ucast (slow_input 10 0x1F7)) = 0" by (simp add: slow_input_def verdict_def bit_numeral_rec)
qed

text \<open>The first kernel before \<open>main\<close>.\<close>

definition vm_power_on :: vm_kernel where
  "vm_power_on =
     \<lparr>EFLAGS = 0, port_log = [],
      vram = (\<lambda>_. 0), attrib = 0, csr_x = 0, csr_y = 0, textmemptr = 0, output_redirected = False,
      gdt = [no_gate, no_gate, no_gate], gp = \<lparr>table_limit = 0, table_base = 0\<rparr>,
      gdt_register = \<lparr>table_limit = 0, table_base = 0\<rparr>, idt = [],
      idtp = \<lparr>table_limit = 0, table_base = 0\<rparr>, idt_register = \<lparr>table_limit = 0, table_base = 0\<rparr>,
      exception_table = [], interrupt_table = [],
      kernel_timer = \<lparr>timer_seconds = 0, timer_ticks = 0, timer_hz = 100\<rparr>, paging = blank\<rparr>"

lemma vm_power_on_facts:
  "length (gdt vm_power_on) = 3" "\<not> interrupts_enabled vm_power_on" "frame_pools (paging vm_power_on) = Map.empty"
  "fp_head (paging vm_power_on) = None" "\<not> bit (cr0 (paging vm_power_on)) 31"
  by (simp_all add: vm_power_on_def interrupts_enabled_def blank_def bit_numeral_rec)

text \<open>A timer interrupt on the kernel that has just booted.\<close>

lemma event_exists:
  "\<exists>s s' :: vm_kernel. kernel_event s s' \<and> kernel_ok (\<lambda>n. of_nat n) (\<lambda>n. of_nat n) s \<and> s' \<noteq> s"
proof -
  obtain s :: vm_kernel where s: "kernel_ok (\<lambda>n. of_nat n) (\<lambda>n. of_nat n) s"
    using boot_kernel_kernel_ok [OF vm_power_on_facts, of 0 0 "\<lambda>n. of_nat n" "\<lambda>n. of_nat n"] by blast
  have "reg_int_no (int_regs 32) = 32" by (simp add: int_regs_def)
  from timer_event [OF s this] obtain s' where
    "kernel_event s s'" "kernel_timer s' = after_ticks 1 (kernel_timer s)" by blast
  moreover have "after_ticks 1 (kernel_timer s) \<noteq> kernel_timer s"
    using s by (intro tick_changes) (simp add: kernel_ok_def devices_ok_def)
  ultimately show ?thesis using s by (metis)
qed

section \<open>A region that reaches into an untouched 4 MB\<close>

lemma untouched_exists:
  "\<exists>(s :: paging_state) t. paging_ok s \<and> page_tables s 0 = Some t
    \<and> some_legitimate 0x20400000 (head_pool t) s = Some (Inr (True, s))
    \<and> slots s (Table 129) = None \<and> 0 < free_count s"
proof -
  obtain P F where b: "paging_ok booted" "free_count booted = 14"
    "page_tables booted = [0 \<mapsto> \<lparr>page_directory = cr3 booted, head_pool = None\<rparr>]"
    "slots booted = (\<lambda>_. None)(Dir \<mapsto> P, Table 0 \<mapsto> F)"
    using booted_ok by metis
  let ?AL = "\<lambda>_ :: nat. list_regions 128" and ?D = "\<lambda>_ :: nat. 128 :: nat"
  have r: "pools_ready 0 ?D [] ?AL booted" using b(3) by (simp add: pools_ready_def)
  have e: "slots booted (Table 128) = None" "slots booted (Table 129) = None" unfolding b(4) by simp_all
  have f: "4 \<le> free_count booted" using b(2) by simp
  have al: "?AL 0 = list_regions 128" and inj: "inj_on ?D (insert 0 (set []))" by simp_all
  obtain p and s1 :: paging_state where s1: "vm_pools s1 = (vm_pools booted)(0 \<mapsto> p)" "pools_ready 0 ?D [0] ?AL s1"
      "vm_holds p s1 (list_regions 128) [(at_page 128 2, 0x10000000 - 8192)]"
      "free_count booted = free_count s1 + 3" and tab: "\<forall>e. e \<noteq> 128 \<longrightarrow> slots s1 (Table e) = slots booted (Table e)"
  proof -
    have g: "0 \<notin> set []" "(0 :: nat) < 128" "(128 :: nat) < 1023" "8192 < round_up 0x10000000"
      by (simp_all add: pool_size)
    note new_pool_ready [OF b(1) r g(1) inj refl g(2,3) e(1) al pool_bases(1) [symmetric] g(4) f, of 0]
    then show ?thesis using that unfolding pool_size by (elim exE conjE)
  qed
  let ?as = "list_regions 128 @ [(at_page 128 2, word_of_nat (4096 * 2048))]"
  have v: "vm_pools s1 0 = Some p" using s1(1) by simp
  have sz: "round_up 0x800000 = word_of_nat (4096 * 2048)" by (simp add: round_up_def)
  have "\<exists>fs. alloc_regions (round_up 0x800000) (list_regions 128) [(at_page 128 2, 0x10000000 - 8192)] = Some (at_page 128 2, ?as, fs)"
    unfolding sz by (subst alloc_front) simp_all
  then obtain fs where a: "alloc_regions (round_up 0x800000) (list_regions 128) [(at_page 128 2, 0x10000000 - 8192)]
      = Some (at_page 128 2, ?as, fs)" by blast
  have "round_up 0x800000 \<noteq> 0" by (simp add: round_up_def)
  from vm_allocate_refines [OF v s1(3) this a]
  obtain s2 where s2: "vm_holds p s2 ?as fs" "same_map (list_cells p) s1 s2" by blast
  have ok: "paging_ok s2" using s2(1) by (simp add: vm_holds_def pool_holds_def lists_ready_def)
  obtain t where t: "page_tables s1 0 = Some t" "node_chain (vm_pools s1) (head_pool t) [0]"
    using s1(2) unfolding pools_ready_def by blast
  note same = same_map_fields [OF s2(2)]
  have "in_regions 0x20400000 ?as"
    by (simp add: in_regions_def at_page_def word_le_nat_alt word_less_nat_alt)
  then have "some_legitimate 0x20400000 (head_pool t) s2 = Some (Inr (True, s2))"
    using some_legitimate_spec [of s2 "head_pool t" "[0]" "\<lambda>_. ?as" "0x20400000"] t(2) v s2(1)
    by (auto simp: same legit_def)
  moreover have "slots s2 (Table 129) = None" "free_count s2 = free_count s1"
    using s2(2) tab e(2) by (simp_all add: same_map_def del: slots_simps)
  ultimately show ?thesis using ok t(1) same s1(4) b(2) by (intro exI [of _ s2] exI [of _ t]) simp
qed

end
