(* ===== verification/Processor.thy ===== *)
theory Processor
  imports Memory Machine
begin

text \<open>
  The processor as the assembly files of the kernels use it (\<open>threads_low.asm\<close>, \<open>irq_low.asm\<close>,
  \<open>idt_low.asm\<close>, \<open>gdt_low.asm\<close>, \<open>machine_low.asm\<close>, \<open>paging_low.asm\<close>): registers, flat memory, and
  the instructions that occur in these files, executed one after the other.  Jumps, and the
  C functions that are called, are composed where the files have them.

  A push of a segment register stores its 16 bits zero-extended; a pop takes the low 16 bits.
  \<open>iret\<close> stays in the ring of the kernel and loads the whole flags register, as it stands: that
  the processor keeps bit 1 of it set is not modelled.
\<close>

datatype gpreg = EAX | ECX | EDX | EBX | ESP | EBP | ESI | EDI
datatype segreg = CS | DS | ES | FS | GS | SS
datatype ctrlreg = CR0 | CR2 | CR3

record cpu =
  gpr :: "gpreg \<Rightarrow> u32"
  segs :: "segreg \<Rightarrow> u16"
  ctrl :: "ctrlreg \<Rightarrow> u32"
  gdtr :: "u16 \<times> u32"
  idtr :: "u16 \<times> u32"
  ip :: u32
  cpu_flags :: u32
  cpu_mem :: memory

section \<open>Operands\<close>

text \<open>\<open>At r d\<close> is the word at \<open>[r + d]\<close>, \<open>Var a\<close> the variable at the address \<open>a\<close>.\<close>

datatype operand = Reg gpreg | Seg segreg | Ctrl ctrlreg | Imm u32 | At gpreg u32 | Var u32

fun operand_value :: "operand \<Rightarrow> cpu \<Rightarrow> u32" where
  "operand_value (Reg r) s = gpr s r"
| "operand_value (Seg r) s = ucast (segs s r)"
| "operand_value (Ctrl r) s = ctrl s r"
| "operand_value (Imm v) s = v"
| "operand_value (At r d) s = load32 (cpu_mem s) (gpr s r + d)"
| "operand_value (Var a) s = load32 (cpu_mem s) a"

text \<open>No instruction writes to a constant.\<close>

fun assign :: "operand \<Rightarrow> u32 \<Rightarrow> cpu \<Rightarrow> cpu" where
  "assign (Reg r) v s = s\<lparr>gpr := (gpr s)(r := v)\<rparr>"
| "assign (Seg r) v s = s\<lparr>segs := (segs s)(r := ucast v)\<rparr>"
| "assign (Ctrl r) v s = s\<lparr>ctrl := (ctrl s)(r := v)\<rparr>"
| "assign (Imm _) v s = s"
| "assign (At r d) v s = s\<lparr>cpu_mem := store32 (gpr s r + d) v (cpu_mem s)\<rparr>"
| "assign (Var a) v s = s\<lparr>cpu_mem := store32 a v (cpu_mem s)\<rparr>"

definition push_word :: "u32 \<Rightarrow> cpu \<Rightarrow> cpu" where
  "push_word v s =
     (let sp = gpr s ESP - 4
      in s\<lparr>gpr := (gpr s)(ESP := sp), cpu_mem := store32 sp v (cpu_mem s)\<rparr>)"

definition top_word :: "cpu \<Rightarrow> u32" where
  "top_word s = load32 (cpu_mem s) (gpr s ESP)"

definition drop_word :: "cpu \<Rightarrow> cpu" where
  "drop_word s = s\<lparr>gpr := (gpr s)(ESP := gpr s ESP + 4)\<rparr>"

section \<open>The status flags\<close>

definition status_mask :: u32 where "status_mask = 0x8D5"

definition flag_if :: "bool \<Rightarrow> nat \<Rightarrow> u32" where
  "flag_if b n = (if b then push_bit n 1 else 0)"

text \<open>Carry, parity, adjust, zero, sign and overflow, for the result \<open>r\<close>.\<close>

definition set_status :: "bool \<Rightarrow> bool \<Rightarrow> bool \<Rightarrow> u32 \<Rightarrow> cpu \<Rightarrow> cpu" where
  "set_status carry adjust overflow r s =
     s\<lparr>cpu_flags := (cpu_flags s AND NOT status_mask)
        OR flag_if carry 0 OR flag_if (even (length (filter (bit r) [0..<8]))) 2
        OR flag_if adjust 4 OR flag_if (r = 0) 6 OR flag_if (bit r 31) 7 OR flag_if overflow 11\<rparr>"

definition status_add :: "u32 \<Rightarrow> u32 \<Rightarrow> cpu \<Rightarrow> cpu" where
  "status_add a b = (let r = a + b in
     set_status (r < a) (bit (a XOR b XOR r) 4) (bit ((a XOR r) AND (b XOR r)) 31) r)"

definition status_sub :: "u32 \<Rightarrow> u32 \<Rightarrow> cpu \<Rightarrow> cpu" where
  "status_sub a b = (let r = a - b in
     set_status (a < b) (bit (a XOR b XOR r) 4) (bit ((a XOR b) AND (a XOR r)) 31) r)"

definition zero_flag :: "cpu \<Rightarrow> bool" where
  "zero_flag s \<longleftrightarrow> bit (cpu_flags s) 6"

section \<open>Instructions\<close>

datatype instr =
    Mov operand operand
  | MovAX u16
  | Push operand
  | Pop operand
  | Pushad
  | Popad
  | Pushfd
  | Add operand operand
  | Sub operand operand
  | Cmp operand operand
  | Lgdt u32
  | Lidt u32
  | JmpFar u16
  | Ret
  | Iret

definition pushad :: "cpu \<Rightarrow> cpu" where
  "pushad s = fold push_word (map (gpr s) [EAX, ECX, EDX, EBX, ESP, EBP, ESI, EDI]) s"

text \<open>\<open>popad\<close> skips the saved \<open>esp\<close>.\<close>

definition popad :: "cpu \<Rightarrow> cpu" where
  "popad s =
     (let sp = gpr s ESP; w = (\<lambda>i. load32 (cpu_mem s) (sp + i)) in
      s\<lparr>gpr := (gpr s)(EDI := w 0, ESI := w 4, EBP := w 8, EBX := w 16, EDX := w 20, ECX := w 24, EAX := w 28,
                       ESP := sp + 32)\<rparr>)"

text \<open>The packed pair of a limit and a base, as \<open>lgdt\<close> and \<open>lidt\<close> read it.\<close>

definition table_pointer :: "memory \<Rightarrow> u32 \<Rightarrow> u16 \<times> u32" where
  "table_pointer m a = (ucast (m a) OR push_bit 8 (ucast (m (a + 1))), load32 m (a + 2))"

text \<open>A far jump goes to the next instruction in all its uses.\<close>

fun exec1 :: "instr \<Rightarrow> cpu \<Rightarrow> cpu" where
  "exec1 (Mov d v) s = assign d (operand_value v s) s"
| "exec1 (MovAX v) s = s\<lparr>gpr := (gpr s)(EAX := (gpr s EAX AND NOT (mask 16)) OR ucast v)\<rparr>"
| "exec1 (Push v) s = push_word (operand_value v s) s"
| "exec1 (Pop d) s = assign d (top_word s) (drop_word s)"
| "exec1 Pushad s = pushad s"
| "exec1 Popad s = popad s"
| "exec1 Pushfd s = push_word (cpu_flags s) s"
| "exec1 (Add d v) s = assign d (operand_value d s + operand_value v s) (status_add (operand_value d s) (operand_value v s) s)"
| "exec1 (Sub d v) s = assign d (operand_value d s - operand_value v s) (status_sub (operand_value d s) (operand_value v s) s)"
| "exec1 (Cmp d v) s = status_sub (operand_value d s) (operand_value v s) s"
| "exec1 (Lgdt a) s = s\<lparr>gdtr := table_pointer (cpu_mem s) a\<rparr>"
| "exec1 (Lidt a) s = s\<lparr>idtr := table_pointer (cpu_mem s) a\<rparr>"
| "exec1 (JmpFar selector) s = s\<lparr>segs := (segs s)(CS := selector)\<rparr>"
| "exec1 Ret s = (drop_word s)\<lparr>ip := top_word s\<rparr>"
| "exec1 Iret s =
     (let sp = gpr s ESP in
      s\<lparr>gpr := (gpr s)(ESP := sp + 12), ip := load32 (cpu_mem s) sp,
        segs := (segs s)(CS := ucast (load32 (cpu_mem s) (sp + 4))), cpu_flags := load32 (cpu_mem s) (sp + 8)\<rparr>)"

primrec run :: "instr list \<Rightarrow> cpu \<Rightarrow> cpu" where
  "run [] s = s"
| "run (i # is) s = run is (exec1 i s)"

lemma run_append [simp]: "run (xs @ ys) s = run ys (run xs s)"
  by (induction xs arbitrary: s) simp_all

section \<open>Facts about flags\<close>

lemma set_status_simps [simp]:
  "gpr (set_status c a v r s) = gpr s" "segs (set_status c a v r s) = segs s" "ctrl (set_status c a v r s) = ctrl s"
  "gdtr (set_status c a v r s) = gdtr s" "idtr (set_status c a v r s) = idtr s"
  "ip (set_status c a v r s) = ip s" "cpu_mem (set_status c a v r s) = cpu_mem s"
  by (simp_all add: set_status_def)

lemma status_simps [simp]:
  "gpr (status_add a b s) = gpr s" "segs (status_add a b s) = segs s" "ctrl (status_add a b s) = ctrl s"
  "gdtr (status_add a b s) = gdtr s" "idtr (status_add a b s) = idtr s"
  "ip (status_add a b s) = ip s" "cpu_mem (status_add a b s) = cpu_mem s"
  "gpr (status_sub a b s) = gpr s" "segs (status_sub a b s) = segs s" "ctrl (status_sub a b s) = ctrl s"
  "gdtr (status_sub a b s) = gdtr s" "idtr (status_sub a b s) = idtr s"
  "ip (status_sub a b s) = ip s" "cpu_mem (status_sub a b s) = cpu_mem s"
  by (simp_all add: status_add_def status_sub_def Let_def)

lemma status_flags [simp]:
  "cpu_flags (status_add a b (s\<lparr>gpr := g\<rparr>)) = cpu_flags (status_add a b s)"
  "cpu_flags (status_add a b (s\<lparr>cpu_mem := m\<rparr>)) = cpu_flags (status_add a b s)"
  by (simp_all add: status_add_def set_status_def Let_def)

lemma bit_flag_if: "bit (flag_if b n) i \<longleftrightarrow> b \<and> i = n \<and> n < 32"
  by (auto simp: flag_if_def bit_push_bit_iff bit_1_iff simp del: push_bit_of_1)

lemma zero_flag_cmp: "zero_flag (exec1 (Cmp d v) s) \<longleftrightarrow> operand_value d s = operand_value v s"
  by (simp add: zero_flag_def status_sub_def Let_def set_status_def bit_or_iff bit_and_iff bit_not_iff bit_flag_if status_mask_def bit_numeral_rec)

lemma carry_flag_cmp: "bit (cpu_flags (exec1 (Cmp d v) s)) 0 \<longleftrightarrow> operand_value d s < operand_value v s"
  by (simp add: status_sub_def Let_def set_status_def bit_or_iff bit_and_iff bit_not_iff bit_flag_if status_mask_def bit_numeral_rec)

text \<open>The flags that are not status flags are kept, the interrupt flag among them.\<close>

lemma set_status_kept: "cpu_flags (set_status c a v r s) AND NOT status_mask = cpu_flags s AND NOT status_mask"
  by (rule bit_word_eqI) (auto simp: set_status_def bit_simps bit_flag_if status_mask_def bit_numeral_rec)

lemma status_kept [simp]:
  "cpu_flags (status_add a b s) AND NOT status_mask = cpu_flags s AND NOT status_mask"
  "cpu_flags (status_sub a b s) AND NOT status_mask = cpu_flags s AND NOT status_mask"
  by (simp_all add: status_add_def status_sub_def Let_def set_status_kept)

section \<open>Addresses relative to a base\<close>

lemma aligned_plus [simp]: "aligned b \<Longrightarrow> aligned k \<Longrightarrow> aligned (b + k)"
proof -
  assume "aligned b" "aligned k"
  then have "unat b mod 4 = 0" "unat k mod 4 = 0" by (simp_all add: aligned_def)
  moreover have "unat (b + k) mod 4 = (unat b + unat k) mod 4"
    by (simp add: unat_word_ariths mod_mod_cancel)
  ultimately show ?thesis by (simp add: aligned_def mod_add_eq [symmetric])
qed

lemma aligned_numeral [simp]: "aligned (numeral k) \<longleftrightarrow> (numeral k :: nat) mod 4294967296 mod 4 = 0"
  by (simp add: aligned_def unat_numeral take_bit_eq_mod)

lemma base_offsets:
  "(b :: u32) + numeral m - numeral n = b + (numeral m - numeral n)"
  "b + numeral m + numeral n = b + numeral (m + n)"
  by (simp_all add: add_diff_eq)

end
