(* ===== verification/Context_Switch.thy ===== *)
theory Context_Switch
  imports Processor Thread
begin

text \<open>
  \<open>threads_low_switch_to\<close> of \<open>threads_low.asm\<close>, the code below \<open>Thread::dispatch_to\<close>.  The parameter
  \<open>current_var\<close> is the address of the variable \<open>current_thread\<close>; the stack pointer of a thread is
  the word at the address of its control block.
\<close>

section \<open>The code\<close>

abbreviation (input) KERNEL_CS :: u32 where "KERNEL_CS \<equiv> 0x08"
abbreviation (input) INTERRUPT_STATE_SIZE :: u32 where "INTERRUPT_STATE_SIZE \<equiv> 68"

definition save_registers :: "instr list" where
  "save_registers = [Pushad, Push (Seg DS), Push (Seg ES), Push (Seg FS), Push (Seg GS)]"

definition restore_registers :: "instr list" where
  "restore_registers = [Pop (Seg GS), Pop (Seg FS), Pop (Seg ES), Pop (Seg DS), Popad, Add (Reg ESP) (Imm 8)]"

text \<open>The return address becomes the bottom of a frame that \<open>iret\<close> can take.\<close>

definition build_frame :: "instr list" where
  "build_frame =
     [Push (Reg EAX), Mov (Reg EAX) (At ESP 4),
      Mov (At ESP (-4)) (Reg EAX), Add (Reg ESP) (Imm 8), Pushfd, Mov (Reg EAX) (At ESP (-4)),
      Push (Imm KERNEL_CS), Sub (Reg ESP) (Imm 4),
      Push (Imm 0), Push (Imm 0)]"

definition store_context :: "u32 \<Rightarrow> instr list" where
  "store_context current_var = [Mov (Reg EAX) (Var current_var), Mov (At EAX 0) (Reg ESP)]"

definition take_over :: "u32 \<Rightarrow> instr list" where
  "take_over current_var = [Mov (Var current_var) (Reg EAX), Mov (Reg ESP) (At EAX 0)]"

definition context_load_only :: "u32 \<Rightarrow> instr list" where
  "context_load_only current_var =
     Mov (Reg EAX) (At ESP 4) # take_over current_var @ restore_registers @ [Iret]"

definition threads_low_switch_to :: "u32 \<Rightarrow> cpu \<Rightarrow> cpu" where
  "threads_low_switch_to current_var s =
     (let s = exec1 (Cmp (Var current_var) (Imm 0)) s in
      if zero_flag s then run (context_load_only current_var) s
      else run (build_frame @ save_registers @ store_context current_var @
                Mov (Reg EAX) (At ESP INTERRUPT_STATE_SIZE) #
                take_over current_var @ restore_registers @ [Iret]) s)"

section \<open>Saving a context\<close>

text \<open>The 17 words of a saved context at \<open>b\<close>.\<close>

definition context_addrs :: "u32 \<Rightarrow> u32 list" where
  "context_addrs b = map (\<lambda>i. b + word_of_nat (4 * i)) [0..<17]"

lemma context_addrs_eq:
  "context_addrs b = [b, b + 4, b + 8, b + 12, b + 16, b + 20, b + 24, b + 28, b + 32, b + 36, b + 40, b + 44,
     b + 48, b + 52, b + 56, b + 60, b + 64]"
  by (simp add: context_addrs_def upt_rec)

lemmas run_simps = push_word_def top_word_def drop_word_def pushad_def popad_def Let_def
  diff_conv_add_uminus [symmetric] base_offsets mem_simps

definition store_words :: "(u32 \<times> u32) list \<Rightarrow> memory \<Rightarrow> memory" where
  "store_words = fold (\<lambda>(a, v). store32 a v)"

lemma load_store_words:
  "\<forall>p\<in>set ws. aligned (fst p) \<Longrightarrow> aligned a \<Longrightarrow>
     load32 (store_words ws m) a = (case map_of (rev ws) a of None \<Rightarrow> load32 m a | Some v \<Rightarrow> v)"
  by (induction ws arbitrary: m)
    (auto simp: store_words_def mem_simps map_add_def split: option.splits)

text \<open>The writes of the code, in order.\<close>

definition context_writes :: "cpu \<Rightarrow> u32 \<Rightarrow> (u32 \<times> u32) list" where
  "context_writes s b =
     [(b + 60, gpr s EAX), (b + 56, load32 (cpu_mem s) (b + 64)), (b + 64, cpu_flags (status_add (b + 60) 8 s)),
      (b + 60, KERNEL_CS), (b + 52, 0), (b + 48, 0),
      (b + 44, gpr s EAX), (b + 40, gpr s ECX), (b + 36, gpr s EDX), (b + 32, gpr s EBX),
      (b + 28, b + 48), (b + 24, gpr s EBP), (b + 20, gpr s ESI), (b + 16, gpr s EDI),
      (b + 12, ucast (segs s DS)), (b + 8, ucast (segs s ES)), (b + 4, ucast (segs s FS)), (b, ucast (segs s GS))]"

lemma saves_context:
  assumes b: "aligned b" and sp: "gpr s ESP = b + 64"
  defines "s' \<equiv> run (build_frame @ save_registers) s"
  shows "gpr s' = (gpr s)(ESP := b)" and "segs s' = segs s" and "ctrl s' = ctrl s" and "ip s' = ip s"
    and "cpu_mem s' = store_words (context_writes s b) (cpu_mem s)"
proof -
  show "gpr s' = (gpr s)(ESP := b)" "segs s' = segs s" "ctrl s' = ctrl s" "ip s' = ip s"
    unfolding s'_def build_frame_def save_registers_def using b sp by (auto simp: run_simps fun_eq_iff)
  show "cpu_mem s' = store_words (context_writes s b) (cpu_mem s)"
    unfolding s'_def build_frame_def save_registers_def store_words_def context_writes_def
    using b sp by (simp add: run_simps)
qed

lemma context_writes_aligned: "aligned b \<Longrightarrow> \<forall>p\<in>set (context_writes s b). aligned (fst p)"
  by (simp add: context_writes_def)

lemma saved_elsewhere:
  assumes "aligned b" and "aligned a" and "a \<notin> set (context_addrs b)"
  shows "load32 (store_words (context_writes s b) m) a = load32 m a"
proof -
  have "a \<notin> fst ` set (context_writes s b)"
    using assms(3) by (simp add: context_writes_def context_addrs_eq)
  then have "map_of (rev (context_writes s b)) a = None" by (simp add: map_of_eq_None_iff)
  then show ?thesis using assms by (simp add: load_store_words context_writes_aligned)
qed

text \<open>What the frame holds, lowest address first.\<close>

definition context_values :: "cpu \<Rightarrow> u32 \<Rightarrow> u32 list" where
  "context_values s b =
     [ucast (segs s GS), ucast (segs s FS), ucast (segs s ES), ucast (segs s DS),
      gpr s EDI, gpr s ESI, gpr s EBP, b + 48, gpr s EBX, gpr s EDX, gpr s ECX, gpr s EAX,
      0, 0, load32 (cpu_mem s) (b + 64), KERNEL_CS, cpu_flags (status_add (b + 60) 8 s)]"

lemma saved_words:
  assumes "aligned b"
  shows "map (load32 (store_words (context_writes s b) m)) (context_addrs b) = context_values s b"
  using assms by (simp add: load_store_words context_writes_aligned context_addrs_eq)
    (simp add: context_writes_def context_values_def)

section \<open>Loading a context\<close>

text \<open>The state with the registers \<open>c\<close> taken from the frame at \<open>b\<close>.\<close>

definition with_context :: "regs \<Rightarrow> u32 \<Rightarrow> cpu \<Rightarrow> cpu" where
  "with_context c b s =
     s\<lparr>gpr := (gpr s)(EAX := reg_eax c, ECX := reg_ecx c, EDX := reg_edx c, EBX := reg_ebx c,
                      EBP := reg_ebp c, ESI := reg_esi c, EDI := reg_edi c, ESP := b + 68),
       segs := (segs s)(GS := ucast (reg_gs c), FS := ucast (reg_fs c), ES := ucast (reg_es c),
                        DS := ucast (reg_ds c), CS := ucast (reg_cs c)),
       ip := reg_eip c, cpu_flags := reg_eflags c\<rparr>"

lemma with_context_simps [simp]:
  "cpu_mem (with_context c b s) = cpu_mem s" "ip (with_context c b s) = reg_eip c"
  "cpu_flags (with_context c b s) = reg_eflags c" "gpr (with_context c b s) ESP = b + 68"
  by (simp_all add: with_context_def)

lemma loads_context:
  assumes "gpr s ESP = b"
  shows "run (restore_registers @ [Iret]) s = with_context (load_context (cpu_mem s) b) b s"
  using assms
  by (simp add: restore_registers_def with_context_def load_context_def stack_word_def run_simps)
    (auto intro!: cpu.equality simp: fun_eq_iff)

lemma load_context_words:
  "load_context m b =
     (case map (load32 m) (context_addrs b) @ [stack_word m b 17, stack_word m b 18] of
        [gs, fs, es, ds, edi, esi, ebp, esp, ebx, edx, ecx, eax, no, err, eip, cs, fl, us, ss] \<Rightarrow>
          \<lparr> reg_gs = gs, reg_fs = fs, reg_es = es, reg_ds = ds, reg_edi = edi, reg_esi = esi, reg_ebp = ebp,
            reg_esp = esp, reg_ebx = ebx, reg_edx = edx, reg_ecx = ecx, reg_eax = eax, reg_int_no = no,
            reg_err_code = err, reg_eip = eip, reg_cs = cs, reg_eflags = fl, reg_useresp = us, reg_ss = ss \<rparr>)"
  by (simp add: load_context_def stack_word_def context_addrs_eq)

lemma selector_round_trip [simp]: "ucast (ucast (x :: u16) :: u32) = x"
  by (rule bit_word_eqI) (auto simp: bit_simps)

lemma resumed_registers:
  assumes "map (load32 m) (context_addrs b) = context_values s b"
  shows "gpr (with_context (load_context m b) b u) = (gpr s)(ESP := b + 68)"
    and "r \<noteq> SS \<Longrightarrow> segs (with_context (load_context m b) b u) r = ((segs s)(CS := 8)) r"
    and "reg_eip (load_context m b) = load32 (cpu_mem s) (b + 64)"
    and "reg_eflags (load_context m b) AND NOT status_mask = cpu_flags s AND NOT status_mask"
proof -
  have c: "load_context m b =
    \<lparr> reg_gs = ucast (segs s GS), reg_fs = ucast (segs s FS), reg_es = ucast (segs s ES), reg_ds = ucast (segs s DS),
      reg_edi = gpr s EDI, reg_esi = gpr s ESI, reg_ebp = gpr s EBP, reg_esp = b + 48, reg_ebx = gpr s EBX,
      reg_edx = gpr s EDX, reg_ecx = gpr s ECX, reg_eax = gpr s EAX, reg_int_no = 0, reg_err_code = 0,
      reg_eip = load32 (cpu_mem s) (b + 64), reg_cs = KERNEL_CS, reg_eflags = cpu_flags (status_add (b + 60) 8 s),
      reg_useresp = stack_word m b 17, reg_ss = stack_word m b 18 \<rparr>"
    unfolding load_context_words assms context_values_def by simp
  show "gpr (with_context (load_context m b) b u) = (gpr s)(ESP := b + 68)"
  proof (rule ext)
    show "gpr (with_context (load_context m b) b u) r = ((gpr s)(ESP := b + 68)) r" for r
      unfolding c with_context_def by (cases r) simp_all
  qed
  show "segs (with_context (load_context m b) b u) r = ((segs s)(CS := 8)) r" if "r \<noteq> SS"
    using that unfolding c with_context_def by (cases r) simp_all
  show "reg_eip (load_context m b) = load32 (cpu_mem s) (b + 64)"
    "reg_eflags (load_context m b) AND NOT status_mask = cpu_flags s AND NOT status_mask"
    unfolding c by simp_all
qed

section \<open>The switch\<close>

text \<open>
  Thread \<open>me\<close>, which is running, calls \<open>threads_low_switch_to (t)\<close>: the return address is the word
  at \<open>b + 64\<close>, above it is the argument, and the frame to be built starts at \<open>b\<close>.  The control blocks
  and the variable lie outside the frame.
\<close>

definition calls_switch :: "u32 \<Rightarrow> cpu \<Rightarrow> u32 \<Rightarrow> u32 \<Rightarrow> u32 \<Rightarrow> bool" where
  "calls_switch v s b me t \<longleftrightarrow>
     aligned b \<and> gpr s ESP = b + 64 \<and> segs s CS = 8 \<and> load32 (cpu_mem s) v = me \<and> me \<noteq> 0
     \<and> load32 (cpu_mem s) (b + 68) = t \<and> aligned v \<and> aligned me \<and> aligned t
     \<and> {v, me, t} \<inter> set (context_addrs b) = {} \<and> v \<noteq> me \<and> v \<noteq> t \<and> me \<noteq> b + 68"

definition switch_memory :: "u32 \<Rightarrow> cpu \<Rightarrow> u32 \<Rightarrow> u32 \<Rightarrow> u32 \<Rightarrow> memory" where
  "switch_memory v s b me t =
     store32 v t (store32 me b (store_words (context_writes (exec1 (Cmp (Var v) (Imm 0)) s) b) (cpu_mem s)))"

lemma switch_to_eq:
  assumes c: "calls_switch v s b me t"
  defines "m \<equiv> switch_memory v s b me t"
  shows "\<exists>u. threads_low_switch_to v s = with_context (load_context m (load32 m t)) (load32 m t) u
    \<and> cpu_mem u = m \<and> segs u = segs s \<and> ctrl u = ctrl s"
proof -
  let ?s = "exec1 (Cmp (Var v) (Imm 0)) s" and ?sp = "load32 m t"
  have s: "gpr ?s = gpr s" "segs ?s = segs s" "cpu_mem ?s = cpu_mem s" "ctrl ?s = ctrl s" by simp_all
  have b: "aligned b" "gpr ?s ESP = b + 64" "aligned v" "aligned me" "aligned t" "v \<noteq> t" "v \<noteq> me"
    "v \<notin> set (context_addrs b)" "load32 (cpu_mem s) v = me" "me \<noteq> 0" "load32 (cpu_mem s) (b + 68) = t"
    "me \<notin> set (context_addrs b)" and ne: "me \<noteq> b + 68"
    using c by (auto simp: calls_switch_def)
  define s1 where "s1 = run (build_frame @ save_registers) ?s"
  note s1 = saves_context [OF b(1,2), folded s1_def]
  have al: "aligned (b + 68)" "b + 68 \<notin> set (context_addrs b)" using b(1) by (simp_all add: context_addrs_eq)
  have w: "load32 (cpu_mem s1) v = me" "load32 (cpu_mem s1) (b + 68) = t"
    using b al unfolding s1(5) s(3) by (simp_all add: saved_elsewhere)
  define s2 where "s2 = run (store_context v) s1"
  have s2: "cpu_mem s2 = store32 me b (cpu_mem s1)" "gpr s2 = (gpr s1)(EAX := me)" "segs s2 = segs s1" "ctrl s2 = ctrl s1"
    using w b by (simp_all add: s2_def store_context_def s1(1))
  have t: "load32 (cpu_mem s2) (b + 68) = t"
    using w(2) b al ne by (simp add: s2(1) mem_simps)
  define s3 where "s3 = exec1 (Mov (Reg EAX) (At ESP INTERRUPT_STATE_SIZE)) s2"
  have s3: "cpu_mem s3 = cpu_mem s2" "gpr s3 EAX = t" "segs s3 = segs s" "ctrl s3 = ctrl s"
    using t by (simp_all add: s3_def s2 s1(1,2,3) s)
  define s4 where "s4 = run (take_over v) s3"
  have "cpu_mem s4 = store32 v t (store32 me b (cpu_mem s1))" "segs s4 = segs s" "ctrl s4 = ctrl s"
    by (simp_all add: s4_def take_over_def s3 s2(1))
  then have s4: "cpu_mem s4 = m" "segs s4 = segs s" "ctrl s4 = ctrl s"
    unfolding m_def switch_memory_def s1(5) s(3) by simp_all
  have "gpr s4 ESP = ?sp"
    using s4(1) b by (simp add: s4_def take_over_def s3)
  from loads_context [OF this] have "run (restore_registers @ [Iret]) s4 = with_context (load_context m ?sp) ?sp s4"
    unfolding s4(1) .
  moreover have "threads_low_switch_to v s = run (restore_registers @ [Iret]) s4"
    using b(9,10) by (simp add: threads_low_switch_to_def zero_flag_cmp s1_def s2_def s3_def s4_def Let_def del: exec1.simps)
  ultimately show ?thesis using s4 by auto
qed

lemma switch_memory_words:
  assumes c: "calls_switch v s b me t"
  shows "map (load32 (switch_memory v s b me t)) (context_addrs b) = context_values (exec1 (Cmp (Var v) (Imm 0)) s) b"
    and "load32 (switch_memory v s b me t) me = b" and "load32 (switch_memory v s b me t) v = t"
    and "aligned a \<Longrightarrow> a \<notin> set (context_addrs b) \<Longrightarrow> a \<noteq> v \<Longrightarrow> a \<noteq> me
      \<Longrightarrow> load32 (switch_memory v s b me t) a = load32 (cpu_mem s) a"
proof -
  have b: "aligned b" "aligned v" "aligned me" "v \<noteq> me" "v \<notin> set (context_addrs b)" "me \<notin> set (context_addrs b)"
    using c by (auto simp: calls_switch_def)
  have al: "aligned a" if "a \<in> set (context_addrs b)" for a
    using that b(1) unfolding context_addrs_eq by auto
  show "map (load32 (switch_memory v s b me t)) (context_addrs b) = context_values (exec1 (Cmp (Var v) (Imm 0)) s) b"
    unfolding saved_words [OF b(1), symmetric, where m = "cpu_mem s"]
    using b al by (auto simp: switch_memory_def mem_simps)
  show "load32 (switch_memory v s b me t) me = b" "load32 (switch_memory v s b me t) v = t"
    using b by (simp_all add: switch_memory_def mem_simps)
  show "load32 (switch_memory v s b me t) a = load32 (cpu_mem s) a"
    if "aligned a" "a \<notin> set (context_addrs b)" "a \<noteq> v" "a \<noteq> me"
    using that b by (simp add: switch_memory_def mem_simps saved_elsewhere)
qed

text \<open>
  What happens until \<open>me\<close> is switched back in: the code of the other threads runs, which leaves the
  control block of \<open>me\<close> and the saved context alone, and other threads call the switch in turn.
\<close>

definition keeps_context :: "u32 \<Rightarrow> u32 \<Rightarrow> memory \<Rightarrow> memory \<Rightarrow> bool" where
  "keeps_context me b m m' \<longleftrightarrow> (\<forall>a\<in>insert me (set (context_addrs b)). load32 m' a = load32 m a)"

definition apart :: "u32 \<Rightarrow> u32 \<Rightarrow> u32 \<Rightarrow> u32 \<Rightarrow> bool" where
  "apart me b other c \<longleftrightarrow> insert me (set (context_addrs b)) \<inter> insert other (set (context_addrs c)) = {}"

inductive while_away :: "u32 \<Rightarrow> u32 \<Rightarrow> u32 \<Rightarrow> cpu \<Rightarrow> cpu \<Rightarrow> bool" for v me b where
  start: "while_away v me b s s"
| computes: "while_away v me b s u \<Longrightarrow> keeps_context me b (cpu_mem u) (cpu_mem u') \<Longrightarrow> while_away v me b s u'"
| switches: "while_away v me b s u \<Longrightarrow> calls_switch v u c other t \<Longrightarrow> apart me b other c
    \<Longrightarrow> while_away v me b s (threads_low_switch_to v u)"

lemma keeps_context_trans:
  "keeps_context me b m m' \<Longrightarrow> keeps_context me b m' m'' \<Longrightarrow> keeps_context me b m m''"
  by (simp add: keeps_context_def)

lemma switch_keeps_context:
  assumes "calls_switch v u c other t" and "apart me b other c"
    and "aligned me" and "aligned b" and "v \<notin> insert me (set (context_addrs b))"
  shows "keeps_context me b (cpu_mem u) (cpu_mem (threads_low_switch_to v u))"
  unfolding keeps_context_def
proof
  fix a assume a: "a \<in> insert me (set (context_addrs b))"
  have "aligned a" using a assms(3,4) unfolding context_addrs_eq by auto
  moreover have "a \<notin> set (context_addrs c)" "a \<noteq> other" "a \<noteq> v"
    using a assms(2,5) by (auto simp: apart_def)
  moreover have "cpu_mem (threads_low_switch_to v u) = switch_memory v u c other t"
    using switch_to_eq [OF assms(1)] by auto
  ultimately show "load32 (cpu_mem (threads_low_switch_to v u)) a = load32 (cpu_mem u) a"
    using switch_memory_words(4) [OF assms(1), of a] by simp
qed

lemma away_keeps_context:
  assumes "while_away v me b s u" and "aligned me" and "aligned b" and "v \<notin> insert me (set (context_addrs b))"
  shows "keeps_context me b (cpu_mem s) (cpu_mem u)"
  using assms
proof (induction rule: while_away.induct)
  case (switches s u c other t)
  then show ?case using switch_keeps_context keeps_context_trans by meson
qed (auto simp: keeps_context_def)

text \<open>The state in which \<open>threads_low_switch_to\<close> returns to its caller.\<close>

definition switch_returned :: "u32 \<Rightarrow> u32 \<Rightarrow> u32 \<Rightarrow> cpu \<Rightarrow> cpu \<Rightarrow> bool" where
  "switch_returned v b me s r \<longleftrightarrow>
     ip r = load32 (cpu_mem s) (b + 64) \<and> gpr r = (gpr s)(ESP := gpr s ESP + 4)
     \<and> (\<forall>x. x \<noteq> SS \<longrightarrow> segs r x = segs s x) \<and> cpu_flags r AND NOT status_mask = cpu_flags s AND NOT status_mask
     \<and> load32 (cpu_mem r) v = me"

lemma context_resumes:
  assumes c: "calls_switch v s b me t" and u: "calls_switch v u c other me"
    and kept: "keeps_context me b (switch_memory v s b me t) (switch_memory v u c other me)"
  shows "switch_returned v b me s (threads_low_switch_to v u)"
proof -
  let ?m = "switch_memory v u c other me" and ?s = "exec1 (Cmp (Var v) (Imm 0)) s"
  have sp: "load32 ?m me = b"
    using kept switch_memory_words(2) [OF c] unfolding keeps_context_def by simp
  have "map (load32 ?m) (context_addrs b) = map (load32 (switch_memory v s b me t)) (context_addrs b)"
    using kept unfolding keeps_context_def by simp
  then have words: "map (load32 ?m) (context_addrs b) = context_values ?s b"
    using switch_memory_words(1) [OF c] by metis
  obtain w where w: "threads_low_switch_to v u = with_context (load_context ?m b) b w" "cpu_mem w = ?m"
    using switch_to_eq [OF u] unfolding sp by blast
  note regs = resumed_registers [OF words]
  have cs: "segs s CS = 8" "gpr s ESP = b + 64" using c by (simp_all add: calls_switch_def)
  have "gpr (with_context (load_context ?m b) b w) = (gpr s)(ESP := gpr s ESP + 4)"
    unfolding regs(1) cs(2) by (simp add: base_offsets add.commute)
  moreover have "segs (with_context (load_context ?m b) b w) x = segs s x" if "x \<noteq> SS" for x
    using regs(2) [OF that] cs(1) by auto
  moreover have "load32 ?m v = me" using switch_memory_words(3) [OF u] .
  ultimately show ?thesis
    unfolding switch_returned_def w(1) with_context_simps regs(3,4) w(2) by simp
qed

lemma switch_round_trip:
  assumes c: "calls_switch v s b me t" and away: "while_away v me b (threads_low_switch_to v s) u"
    and u: "calls_switch v u c other me" and apart: "apart me b other c"
  shows "switch_returned v b me s (threads_low_switch_to v u)"
proof (rule context_resumes [OF c u])
  have al: "aligned me" "aligned b" "v \<notin> insert me (set (context_addrs b))"
    using c by (auto simp: calls_switch_def)
  have "cpu_mem (threads_low_switch_to v s) = switch_memory v s b me t"
    "cpu_mem (threads_low_switch_to v u) = switch_memory v u c other me"
    using switch_to_eq [OF c] switch_to_eq [OF u] by auto
  then show "keeps_context me b (switch_memory v s b me t) (switch_memory v u c other me)"
    using keeps_context_trans [OF away_keeps_context [OF away al] switch_keeps_context [OF u apart al]] by simp
qed

text \<open>A thread that dispatches itself gets straight back.\<close>

lemma switch_to_itself:
  assumes "calls_switch v s b me me"
  shows "switch_returned v b me s (threads_low_switch_to v s)"
  by (rule context_resumes [OF assms assms]) (simp add: keeps_context_def)

section \<open>The first switch\<close>

text \<open>The start-up code is no thread: its context is not saved.\<close>

lemma first_switch_eq:
  assumes "load32 (cpu_mem s) v = 0" and "load32 (cpu_mem s) (gpr s ESP + 4) = t"
    and "aligned v" and "aligned t" and "v \<noteq> t"
  defines "m \<equiv> store32 v t (cpu_mem s)"
  shows "\<exists>u. threads_low_switch_to v s = with_context (load_context m (load32 m t)) (load32 m t) u
    \<and> cpu_mem u = m \<and> load32 m t = load32 (cpu_mem s) t"
proof -
  let ?s = "exec1 (Cmp (Var v) (Imm 0)) s"
  define u where "u = run (Mov (Reg EAX) (At ESP 4) # take_over v) ?s"
  have u: "cpu_mem u = m" "gpr u ESP = load32 m t"
    using assms by (simp_all add: u_def take_over_def m_def)
  have "threads_low_switch_to v s = run (restore_registers @ [Iret]) u"
    using assms(1) by (simp add: threads_low_switch_to_def context_load_only_def zero_flag_cmp u_def Let_def del: exec1.simps)
  also have "\<dots> = with_context (load_context m (load32 m t)) (load32 m t) u"
    using loads_context [OF u(2)] unfolding u(1) .
  finally show ?thesis using u(1) assms(3-5) by (auto simp: m_def mem_simps)
qed

text \<open>
  What the constructor \<open>Thread\<close> leaves on a stack is what the switch starts: \<open>thread_start\<close> with
  interrupts off, which returns to the thread's function, which returns to \<open>thread_shutdown\<close>.
\<close>

definition starts_thread :: "u32 \<Rightarrow> u32 \<Rightarrow> u32 \<Rightarrow> cpu \<Rightarrow> bool" where
  "starts_thread start shutdown tf r \<longleftrightarrow>
     ip r = start \<and> segs r CS = 8 \<and> segs r DS = 0x10 \<and> segs r ES = 0x10 \<and> cpu_flags r = 0
     \<and> ip (run [Ret] r) = tf \<and> ip (run [Ret, Ret] r) = shutdown"

lemma first_switch_starts:
  assumes al: "aligned (stack0 + size0)" and room: "80 \<le> unat size0"
    and wrap: "unat stack0 + unat size0 \<le> 4294967295"
    and new: "Thread start shutdown this old tf stack0 size0 k = Inr k'" and t: "thread_objs k' this = Some t"
    and same: "\<forall>i<20. stack_word (cpu_mem s) (thread_esp t) i = stack_word (ram k') (thread_esp t) i"
    and cell: "load32 (cpu_mem s) this = thread_esp t"
    and call: "load32 (cpu_mem s) v = 0" "load32 (cpu_mem s) (gpr s ESP + 4) = this"
    and var: "aligned v" "aligned this" "v \<noteq> this" "\<forall>i<20. v \<noteq> thread_esp t + word_of_nat (4 * i)"
  shows "starts_thread start shutdown tf (threads_low_switch_to v s)"
    and "load32 (cpu_mem (threads_low_switch_to v s)) v = this"
proof -
  let ?b = "thread_esp t" and ?m = "store32 v this (cpu_mem s)"
  obtain k1 t1 where "Thread start shutdown this old tf stack0 size0 k = Inr k1" "thread_objs k1 = (thread_objs k)(this \<mapsto> t1)"
    "thread_esp t1 = stack0 + size0 - 80" "new_context start shutdown tf (ram k1) (thread_esp t1)"
    using Thread_ok [OF al room wrap, of start shutdown this old tf k] by (elim exE conjE)
  then have b: "?b = stack0 + size0 - 80" and ctxt: "new_context start shutdown tf (ram k') ?b"
    using new t by auto
  have "aligned ?b"
  proof -
    have "unat (stack0 + size0) = unat stack0 + unat size0" using wrap by (simp add: unat_word_ariths)
    then have "unat ?b = unat (stack0 + size0) - 80" "80 \<le> unat (stack0 + size0)"
      using room unfolding b by (simp_all add: unat_sub word_le_nat_alt)
    then show ?thesis using al unfolding aligned_def by presburger
  qed
  then have al_word: "aligned (?b + word_of_nat (4 * i))" if "i < 20" for i
    using that unat_of_nat_32 [of "4 * i"] by (intro aligned_plus) (simp_all add: aligned_def del: of_nat_mult of_nat_numeral)
  have word: "stack_word ?m ?b i = stack_word (ram k') ?b i" if "i < 20" for i
    using that same var al_word [OF that] by (simp add: stack_word_def mem_simps)
  have new: "new_context start shutdown tf ?m ?b"
    using ctxt by (simp add: new_context_def load_context_def word)
  obtain u where u: "threads_low_switch_to v s = with_context (load_context ?m ?b) ?b u" "cpu_mem u = ?m"
    using first_switch_eq [OF call var(1-3)] unfolding cell by auto
  have "load32 ?m (?b + 68) = tf" "load32 ?m (?b + 72) = shutdown"
    using new by (simp_all add: new_context_def stack_word_def)
  then show "starts_thread start shutdown tf (threads_low_switch_to v s)"
    using new u by (simp add: starts_thread_def new_context_def run_simps with_context_def)
  show "load32 (cpu_mem (threads_low_switch_to v s)) v = this"
    using u var by (simp add: mem_simps)
qed

end
