(* ===== verification/Trap_Stubs.thy ===== *)
theory Trap_Stubs
  imports Context_Switch
begin

text \<open>
  The way of an interrupt or exception through the processor and the stubs of \<open>irq_low.asm\<close> and
  \<open>idt_low.asm\<close> to the C dispatcher and back.  The gates of the kernels are interrupt gates of the
  same ring, so the processor pushes the flags, \<open>cs\<close> and \<open>eip\<close>, and clears the interrupt flag (with
  TF, NT, RF and VM).  The call of the C function is the parameter \<open>call\<close>, from just before the
  \<open>call\<close> instruction to just after it; \<open>fn\<close> is the address of the function.
\<close>

section \<open>The code\<close>

definition gate_mask :: u32 where "gate_mask = 0x34300"

definition enter_gate :: "cpu \<Rightarrow> cpu" where
  "enter_gate s =
     (let s' = push_word (ip s) (push_word (ucast (segs s CS)) (push_word (cpu_flags s) s))
      in s'\<lparr>cpu_flags := cpu_flags s AND NOT gate_mask\<rparr>)"

definition irq_stub :: "nat \<Rightarrow> instr list" where
  "irq_stub n = [Push (Imm 0), Push (Imm (word_of_nat (32 + n)))]"

text \<open>The stubs of these exceptions expect an error code on the stack.\<close>

definition has_error_code :: "nat \<Rightarrow> bool" where
  "has_error_code n \<longleftrightarrow> n \<in> {8, 10, 11, 12, 13, 14}"

text \<open>The processor pushes one for these (number 17 is raised only for code outside the kernel's ring).\<close>

definition processor_pushes_code :: "nat \<Rightarrow> bool" where
  "processor_pushes_code n \<longleftrightarrow> n \<in> {8, 10, 11, 12, 13, 14, 17}"

definition isr_stub :: "nat \<Rightarrow> instr list" where
  "isr_stub n =
     (if has_error_code n then [Push (Imm (word_of_nat n))] else [Push (Imm 0), Push (Imm (word_of_nat n))])"

definition common_enter :: "u32 \<Rightarrow> instr list" where
  "common_enter fn =
     [Pushad, Push (Seg DS), Push (Seg ES), Push (Seg FS), Push (Seg GS),
      Mov (Reg EAX) (Reg ESP), Push (Reg EAX), Mov (Reg EAX) (Imm fn)]"

definition common_leave :: "instr list" where
  "common_leave =
     [Pop (Reg EAX), Pop (Seg GS), Pop (Seg FS), Pop (Seg ES), Pop (Seg DS), Popad, Add (Reg ESP) (Imm 8), Iret]"

definition common_stub :: "u32 \<Rightarrow> (cpu \<Rightarrow> cpu) \<Rightarrow> cpu \<Rightarrow> cpu" where
  "common_stub fn call s = run common_leave (call (run (common_enter fn) s))"

definition take_interrupt :: "u32 \<Rightarrow> (cpu \<Rightarrow> cpu) \<Rightarrow> nat \<Rightarrow> cpu \<Rightarrow> cpu" where
  "take_interrupt fn call n s = common_stub fn call (run (irq_stub n) (enter_gate s))"

definition take_exception :: "u32 \<Rightarrow> (cpu \<Rightarrow> cpu) \<Rightarrow> nat \<Rightarrow> u32 \<Rightarrow> cpu \<Rightarrow> cpu" where
  "take_exception fn call n code s =
     (let s = enter_gate s;
          s = (if processor_pushes_code n then push_word code s else s)
      in common_stub fn call (run (isr_stub n) s))"

section \<open>What the dispatcher gets\<close>

text \<open>The state at the call: the frame at \<open>a + 4\<close>, the argument \<open>a + 4\<close> below it.\<close>

definition trap_words :: "cpu \<Rightarrow> u32 \<Rightarrow> u32 \<Rightarrow> u32 \<Rightarrow> u32 list" where
  "trap_words s a no code =
     [ucast (segs s GS), ucast (segs s FS), ucast (segs s ES), ucast (segs s DS),
      gpr s EDI, gpr s ESI, gpr s EBP, a + 52, gpr s EBX, gpr s EDX, gpr s ECX, gpr s EAX,
      no, code, ip s, ucast (segs s CS), cpu_flags s]"

text \<open>The number and the error code are below the three words of the processor.\<close>

definition numbered :: "u32 \<Rightarrow> u32 \<Rightarrow> cpu \<Rightarrow> cpu" where
  "numbered no code s = push_word no (push_word code (enter_gate s))"

definition trap_writes :: "cpu \<Rightarrow> u32 \<Rightarrow> u32 \<Rightarrow> u32 \<Rightarrow> (u32 \<times> u32) list" where
  "trap_writes s a no code =
     [(a + 68, cpu_flags s), (a + 64, ucast (segs s CS)), (a + 60, ip s), (a + 56, code), (a + 52, no),
      (a + 48, gpr s EAX), (a + 44, gpr s ECX), (a + 40, gpr s EDX), (a + 36, gpr s EBX),
      (a + 32, a + 52), (a + 28, gpr s EBP), (a + 24, gpr s ESI), (a + 20, gpr s EDI),
      (a + 16, ucast (segs s DS)), (a + 12, ucast (segs s ES)), (a + 8, ucast (segs s FS)), (a + 4, ucast (segs s GS)),
      (a, a + 4)]"

lemma at_call:
  fixes fn no code :: u32
  assumes "gpr s ESP = a + 72"
  defines "s' \<equiv> run (common_enter fn) (numbered no code s)"
  shows "gpr s' = (gpr s)(ESP := a, EAX := fn)" and "segs s' = segs s"
    and "cpu_mem s' = store_words (trap_writes s a no code) (cpu_mem s)"
proof -
  show "gpr s' = (gpr s)(ESP := a, EAX := fn)" "segs s' = segs s"
    unfolding s'_def common_enter_def numbered_def enter_gate_def using assms(1) by (auto simp: run_simps fun_eq_iff)
  show "cpu_mem s' = store_words (trap_writes s a no code) (cpu_mem s)"
    unfolding s'_def common_enter_def numbered_def enter_gate_def store_words_def trap_writes_def
    using assms(1) by (simp add: run_simps)
qed

lemma trap_frame:
  assumes "aligned a"
  shows "map (load32 (store_words (trap_writes s a no code) m)) (context_addrs (a + 4)) = trap_words s a no code"
    and "load32 (store_words (trap_writes s a no code) m) a = a + 4"
proof -
  have al: "\<forall>p\<in>set (trap_writes s a no code). aligned (fst p)" using assms by (simp add: trap_writes_def)
  show "map (load32 (store_words (trap_writes s a no code) m)) (context_addrs (a + 4)) = trap_words s a no code"
    using assms by (simp add: load_store_words al context_addrs_eq base_offsets)
      (simp add: trap_writes_def trap_words_def)
  show "load32 (store_words (trap_writes s a no code) m) a = a + 4"
    using assms by (simp add: load_store_words al) (simp add: trap_writes_def)
qed

lemma stubs_numbered:
  "run (irq_stub n) (enter_gate s) = numbered (word_of_nat (32 + n)) 0 s"
  "n \<noteq> 17 \<Longrightarrow> run (isr_stub n) (if processor_pushes_code n then push_word code (enter_gate s) else enter_gate s) =
     numbered (word_of_nat n) (if has_error_code n then code else 0) s"
  by (simp_all add: irq_stub_def isr_stub_def numbered_def has_error_code_def processor_pushes_code_def)

section \<open>Back to the interrupted code\<close>

text \<open>
  What the stubs rely on: the calling convention (the callee keeps \<open>ebx\<close>, \<open>esp\<close>, \<open>ebp\<close>, \<open>esi\<close> and
  \<open>edi\<close>, and no C function writes a segment register), and handlers that leave the saved
  registers as they are.
\<close>

definition c_call_ok :: "(cpu \<Rightarrow> cpu) \<Rightarrow> cpu \<Rightarrow> bool" where
  "c_call_ok call s \<longleftrightarrow>
     (\<forall>r\<in>{EBX, ESP, EBP, ESI, EDI}. gpr (call s) r = gpr s r) \<and> segs (call s) = segs s
     \<and> (\<forall>x\<in>set (context_addrs (gpr s ESP + 4)). load32 (cpu_mem (call s)) x = load32 (cpu_mem s) x)"

lemma leave_loads:
  assumes "gpr s ESP = a"
  shows "\<exists>u. run common_leave s = with_context (load_context (cpu_mem s) (a + 4)) (a + 4) u
    \<and> cpu_mem u = cpu_mem s \<and> segs u = segs s"
proof -
  let ?u = "exec1 (Pop (Reg EAX)) s"
  have u: "gpr ?u ESP = a + 4" "cpu_mem ?u = cpu_mem s" "segs ?u = segs s"
    using assms by (simp_all add: run_simps)
  have "run common_leave s = run (restore_registers @ [Iret]) ?u"
    by (simp add: common_leave_def restore_registers_def)
  also have "\<dots> = with_context (load_context (cpu_mem s) (a + 4)) (a + 4) ?u"
    using loads_context [OF u(1)] unfolding u(2) .
  finally show ?thesis using u(2,3) by blast
qed

text \<open>The interrupted code goes on with all its registers; the frame is left on the stack below it.\<close>

definition undisturbed :: "cpu \<Rightarrow> cpu \<Rightarrow> bool" where
  "undisturbed s r \<longleftrightarrow> gpr r = gpr s \<and> segs r = segs s \<and> ip r = ip s \<and> cpu_flags r = cpu_flags s"

lemma common_stub_returns:
  assumes a: "aligned a" "gpr s ESP = a + 72"
    and call: "c_call_ok call (run (common_enter fn) (numbered no code s))"
  shows "undisturbed s (common_stub fn call (numbered no code s))"
    and "map (load32 (cpu_mem (common_stub fn call (numbered no code s)))) (context_addrs (a + 4)) = trap_words s a no code"
proof -
  let ?s = "run (common_enter fn) (numbered no code s)"
  note s' = at_call [OF a(2), of fn no code]
  have sp: "gpr (call ?s) ESP = a" "segs (call ?s) = segs s" using call by (simp_all add: c_call_ok_def s'(1,2))
  obtain u where u: "common_stub fn call (numbered no code s) =
      with_context (load_context (cpu_mem (call ?s)) (a + 4)) (a + 4) u" "cpu_mem u = cpu_mem (call ?s)" "segs u = segs s"
    using leave_loads [OF sp(1)] sp(2) unfolding common_stub_def by auto
  have "map (load32 (cpu_mem (call ?s))) (context_addrs (a + 4)) = map (load32 (cpu_mem ?s)) (context_addrs (a + 4))"
    using call by (simp add: c_call_ok_def s'(1))
  also have "\<dots> = trap_words s a no code" unfolding s'(3) using trap_frame(1) [OF a(1)] .
  finally have words: "map (load32 (cpu_mem (call ?s))) (context_addrs (a + 4)) = trap_words s a no code" .
  then show "map (load32 (cpu_mem (common_stub fn call (numbered no code s)))) (context_addrs (a + 4)) = trap_words s a no code"
    unfolding u(1) with_context_simps u(2) .
  let ?c = "load_context (cpu_mem (call ?s)) (a + 4)"
  have c: "reg_eax ?c = gpr s EAX" "reg_ecx ?c = gpr s ECX" "reg_edx ?c = gpr s EDX" "reg_ebx ?c = gpr s EBX"
    "reg_ebp ?c = gpr s EBP" "reg_esi ?c = gpr s ESI" "reg_edi ?c = gpr s EDI"
    "reg_gs ?c = ucast (segs s GS)" "reg_fs ?c = ucast (segs s FS)" "reg_es ?c = ucast (segs s ES)"
    "reg_ds ?c = ucast (segs s DS)" "reg_cs ?c = ucast (segs s CS)" "reg_eip ?c = ip s" "reg_eflags ?c = cpu_flags s"
    unfolding load_context_words words trap_words_def by simp_all
  show "undisturbed s (common_stub fn call (numbered no code s))"
    unfolding undisturbed_def
  proof (intro conjI ext)
    show "gpr (common_stub fn call (numbered no code s)) r = gpr s r" for r
      using a(2) by (cases r) (simp_all add: u(1) with_context_def c base_offsets)
    show "segs (common_stub fn call (numbered no code s)) r = segs s r" for r
      by (cases r) (simp_all add: u(1,3) with_context_def c)
  qed (simp_all add: u(1) c)
qed

section \<open>The registers the dispatcher sees\<close>

lemma trap_registers:
  fixes fn no code :: u32
  assumes "aligned a" and "gpr s ESP = a + 72"
  defines "s' \<equiv> run (common_enter fn) (numbered no code s)"
  defines "c \<equiv> load_context (cpu_mem s') (load32 (cpu_mem s') (gpr s' ESP))"
  shows "reg_int_no c = no" and "reg_err_code c = code" and "reg_eip c = ip s" and "reg_eflags c = cpu_flags s"
    and "reg_eax c = gpr s EAX" and "reg_ebp c = gpr s EBP"
proof -
  note s' = at_call [OF assms(2), of fn no code, folded s'_def]
  have "load32 (cpu_mem s') (gpr s' ESP) = a + 4"
    unfolding s'(1,3) using trap_frame(2) [OF assms(1)] by simp
  then have c: "c = load_context (cpu_mem s') (a + 4)" by (simp add: c_def)
  have words: "map (load32 (cpu_mem s')) (context_addrs (a + 4)) = trap_words s a no code"
    unfolding s'(3) using trap_frame(1) [OF assms(1)] .
  show "reg_int_no c = no" "reg_err_code c = code" "reg_eip c = ip s" "reg_eflags c = cpu_flags s"
    "reg_eax c = gpr s EAX" "reg_ebp c = gpr s EBP"
    unfolding c load_context_words words trap_words_def by simp_all
qed

text \<open>Both kinds of trap, from the interrupted code to the interrupted code.\<close>

lemma interrupt_resumes:
  assumes "aligned a" and "gpr s ESP = a + 72"
    and "c_call_ok call (run (common_enter fn) (run (irq_stub n) (enter_gate s)))"
  shows "undisturbed s (take_interrupt fn call n s)"
  using common_stub_returns(1) [OF assms(1,2), of call fn] assms(3) by (simp add: take_interrupt_def stubs_numbered(1))

lemma exception_resumes:
  assumes "aligned a" and "gpr s ESP = a + 72" and "n \<noteq> 17"
    and "c_call_ok call (run (common_enter fn) (numbered (word_of_nat n) (if has_error_code n then code else 0) s))"
  shows "undisturbed s (take_exception fn call n code s)"
  using common_stub_returns(1) [OF assms(1,2,4)] assms(3)
  by (simp add: take_exception_def Let_def stubs_numbered(2))

section \<open>An interrupt in the middle of a context switch\<close>

text \<open>
  \<open>Scheduler::yield\<close> enables interrupts before it calls \<open>dispatch_to\<close>.  \<open>threads_low_switch_to\<close>
  keeps the return address and \<open>eax\<close> below the stack pointer while it builds the frame, where an
  interrupt pushes its own.  The interrupt is taken after \<open>k\<close> instructions of \<open>build_frame\<close>.
\<close>

definition interrupted_save :: "nat \<Rightarrow> (cpu \<Rightarrow> cpu) \<Rightarrow> cpu \<Rightarrow> cpu" where
  "interrupted_save k interrupt s =
     run (drop k build_frame @ save_registers) (interrupt (run (take k build_frame) s))"

text \<open>What is found in the place of the return address.\<close>

definition wrong_return :: "nat \<Rightarrow> cpu \<Rightarrow> u32" where
  "wrong_return k s =
     (let p = run (take k build_frame) s in
      if k = 3 \<or> k = 7 then cpu_flags p else if k = 4 then ip p else ucast (segs p CS))"

lemma build_frame_split:
  "drop 3 build_frame = [Add (Reg ESP) (Imm 8), Pushfd, Mov (Reg EAX) (At ESP (-4)), Push (Imm 8),
     Sub (Reg ESP) (Imm 4), Push (Imm 0), Push (Imm 0)]"
  "drop 4 build_frame = [Pushfd, Mov (Reg EAX) (At ESP (-4)), Push (Imm 8), Sub (Reg ESP) (Imm 4), Push (Imm 0), Push (Imm 0)]"
  "drop 5 build_frame = [Mov (Reg EAX) (At ESP (-4)), Push (Imm 8), Sub (Reg ESP) (Imm 4), Push (Imm 0), Push (Imm 0)]"
  "drop 6 build_frame = [Push (Imm 8), Sub (Reg ESP) (Imm 4), Push (Imm 0), Push (Imm 0)]"
  "drop 7 build_frame = [Sub (Reg ESP) (Imm 4), Push (Imm 0), Push (Imm 0)]"
  by (simp_all add: build_frame_def)

lemma rest_keeps_word:
  assumes b: "aligned b"
  shows "gpr r ESP = b + 60 \<Longrightarrow> load32 (cpu_mem (run (drop 3 build_frame @ save_registers) r)) (b + 56) = load32 (cpu_mem r) (b + 56)"
    and "gpr r ESP = b + 68 \<Longrightarrow> load32 (cpu_mem (run (drop 4 build_frame @ save_registers) r)) (b + 56) = load32 (cpu_mem r) (b + 56)"
    and "gpr r ESP = b + 64 \<Longrightarrow> load32 (cpu_mem (run (drop 5 build_frame @ save_registers) r)) (b + 56) = load32 (cpu_mem r) (b + 56)"
    and "gpr r ESP = b + 64 \<Longrightarrow> load32 (cpu_mem (run (drop 6 build_frame @ save_registers) r)) (b + 56) = load32 (cpu_mem r) (b + 56)"
    and "gpr r ESP = b + 60 \<Longrightarrow> load32 (cpu_mem (run (drop 7 build_frame @ save_registers) r)) (b + 56) = load32 (cpu_mem r) (b + 56)"
  unfolding build_frame_split save_registers_def using b by (simp_all add: run_simps)

lemma interrupt_top_words:
  assumes "aligned a" and "gpr p ESP = a + 72"
    and "c_call_ok call (run (common_enter fn) (run (irq_stub n) (enter_gate p)))"
  shows "load32 (cpu_mem (take_interrupt fn call n p)) (a + 60) = ip p"
    and "load32 (cpu_mem (take_interrupt fn call n p)) (a + 64) = ucast (segs p CS)"
    and "load32 (cpu_mem (take_interrupt fn call n p)) (a + 68) = cpu_flags p"
    and "undisturbed p (take_interrupt fn call n p)"
proof -
  note returns = common_stub_returns [OF assms(1,2), of call fn "word_of_nat (32 + n)" 0,
      folded stubs_numbered(1), OF assms(3), folded take_interrupt_def]
  then show "load32 (cpu_mem (take_interrupt fn call n p)) (a + 60) = ip p"
    "load32 (cpu_mem (take_interrupt fn call n p)) (a + 64) = ucast (segs p CS)"
    "load32 (cpu_mem (take_interrupt fn call n p)) (a + 68) = cpu_flags p"
    by (simp_all add: context_addrs_eq base_offsets trap_words_def)
  show "undisturbed p (take_interrupt fn call n p)" by (rule returns)
qed

lemma build_frame_start:
  "take 3 build_frame = [Push (Reg EAX), Mov (Reg EAX) (At ESP 4), Mov (At ESP (-4)) (Reg EAX)]"
  "take 4 build_frame = take 3 build_frame @ [Add (Reg ESP) (Imm 8)]"
  "take 5 build_frame = take 4 build_frame @ [Pushfd]"
  "take 6 build_frame = take 5 build_frame @ [Mov (Reg EAX) (At ESP (-4))]"
  "take 7 build_frame = take 6 build_frame @ [Push (Imm 8)]"
  by (simp_all add: build_frame_def)

lemma interrupt_points:
  assumes "gpr s ESP = b + 64"
  shows "gpr (run (take 3 build_frame) s) ESP = b + 60" "gpr (run (take 4 build_frame) s) ESP = b + 68"
    "gpr (run (take 5 build_frame) s) ESP = b + 64" "gpr (run (take 6 build_frame) s) ESP = b + 64"
    "gpr (run (take 7 build_frame) s) ESP = b + 60"
  unfolding build_frame_start using assms by (simp_all add: run_simps)

lemma interrupted_save_word:
  fixes call :: "cpu \<Rightarrow> cpu"
  assumes b: "aligned b" "gpr s ESP = b + 64" and k: "k \<in> {3, 4, 5, 6, 7}"
    and call: "c_call_ok call (run (common_enter fn) (run (irq_stub n) (enter_gate (run (take k build_frame) s))))"
  shows "load32 (cpu_mem (interrupted_save k (take_interrupt fn call n) s)) (b + 56) = wrong_return k s"
proof -
  let ?p = "run (take k build_frame) s"
  have top: "load32 (cpu_mem (take_interrupt fn call n ?p)) (e - 12) = ip ?p \<and>
      load32 (cpu_mem (take_interrupt fn call n ?p)) (e - 8) = ucast (segs ?p CS) \<and>
      load32 (cpu_mem (take_interrupt fn call n ?p)) (e - 4) = cpu_flags ?p \<and>
      gpr (take_interrupt fn call n ?p) ESP = e" if "aligned e" "gpr ?p ESP = e" for e
  proof -
    have "aligned (e - 72)" using aligned_plus [OF that(1), of "-72"] by (simp add: aligned_def)
    moreover have "e - 72 + 60 = e - 12" "e - 72 + 64 = e - 8" "e - 72 + 68 = e - 4" by simp_all
    ultimately show ?thesis
      using interrupt_top_words [OF _ _ call, of "e - 72"] that(2) unfolding undisturbed_def by simp
  qed
  consider "k = 3" | "k = 4" | "k = 5" | "k = 6" | "k = 7" using k by auto
  then show ?thesis
  proof cases
    case 1
    then show ?thesis
      using top [of "b + 60"] b rest_keeps_word(1) [OF b(1)] interrupt_points(1) [OF b(2)]
      by (simp add: interrupted_save_def wrong_return_def Let_def base_offsets)
  next
    case 2
    then show ?thesis
      using top [of "b + 68"] b rest_keeps_word(2) [OF b(1)] interrupt_points(2) [OF b(2)]
      by (simp add: interrupted_save_def wrong_return_def Let_def base_offsets)
  next
    case 3
    then show ?thesis
      using top [of "b + 64"] b rest_keeps_word(3) [OF b(1)] interrupt_points(3) [OF b(2)]
      by (simp add: interrupted_save_def wrong_return_def Let_def base_offsets)
  next
    case 4
    then show ?thesis
      using top [of "b + 64"] b rest_keeps_word(4) [OF b(1)] interrupt_points(4) [OF b(2)]
      by (simp add: interrupted_save_def wrong_return_def Let_def base_offsets)
  next
    case 5
    then show ?thesis
      using top [of "b + 60"] b rest_keeps_word(5) [OF b(1)] interrupt_points(5) [OF b(2)]
      by (simp add: interrupted_save_def wrong_return_def Let_def base_offsets)
  qed
qed

end
