(* ===== verification/Low_Level.thy ===== *)
theory Low_Level
  imports Processor
begin

text \<open>
  The short assembly routines: \<open>get_EFLAGS\<close> (\<open>machine_low.asm\<close>), access to the control registers
  (\<open>paging_low.asm\<close>), \<open>gdt_flush\<close> and \<open>idt_load\<close> (\<open>gdt_low.asm\<close>, \<open>idt_low.asm\<close>), and the loops of
  \<open>start.asm\<close> over the tables of global constructors and destructors.
\<close>

section \<open>The code\<close>

definition get_EFLAGS :: "instr list" where
  "get_EFLAGS = [Pushfd, Pop (Reg EAX), Ret]"

definition read_cr0 :: "instr list" where "read_cr0 = [Mov (Reg EAX) (Ctrl CR0), Ret]"
definition read_cr2 :: "instr list" where "read_cr2 = [Mov (Reg EAX) (Ctrl CR2), Ret]"
definition read_cr3 :: "instr list" where "read_cr3 = [Mov (Reg EAX) (Ctrl CR3), Ret]"

definition write_cr0 :: "instr list" where
  "write_cr0 = [Push (Reg EBP), Mov (Reg EBP) (Reg ESP), Mov (Reg EAX) (At EBP 8), Mov (Ctrl CR0) (Reg EAX), Pop (Reg EBP), Ret]"

definition write_cr3 :: "instr list" where
  "write_cr3 = [Push (Reg EBP), Mov (Reg EBP) (Reg ESP), Mov (Reg EAX) (At EBP 8), Mov (Ctrl CR3) (Reg EAX), Pop (Reg EBP), Ret]"

definition gdt_flush :: "u32 \<Rightarrow> instr list" where
  "gdt_flush gp_var =
     [Lgdt gp_var, MovAX 0x10, Mov (Seg DS) (Reg EAX), Mov (Seg ES) (Reg EAX), Mov (Seg FS) (Reg EAX),
      Mov (Seg GS) (Reg EAX), JmpFar 0x08, Ret]"

definition idt_load :: "u32 \<Rightarrow> instr list" where
  "idt_load idtp_var = [Lidt idtp_var, Ret]"

text \<open>
  The body and the test of both loops; \<open>call\<close> is the call of the function at an address.  A loop
  that does not end is \<open>None\<close>.
\<close>

definition below :: "operand \<Rightarrow> operand \<Rightarrow> cpu \<Rightarrow> bool" where
  "below d v s \<longleftrightarrow> bit (cpu_flags (exec1 (Cmp d v) s)) 0"

partial_function (option) table_loop :: "(u32 \<Rightarrow> cpu \<Rightarrow> cpu) \<Rightarrow> u32 \<Rightarrow> cpu \<Rightarrow> cpu option" where
  "table_loop call fin s =
     (let t = exec1 (Cmp (Reg EBX) (Imm fin)) s in
      if below (Reg EBX) (Imm fin) s
      then table_loop call fin (exec1 (Add (Reg EBX) (Imm 4)) (call (load32 (cpu_mem t) (gpr t EBX)) t))
      else Some t)"

definition call_table :: "(u32 \<Rightarrow> cpu \<Rightarrow> cpu) \<Rightarrow> u32 \<Rightarrow> u32 \<Rightarrow> cpu \<Rightarrow> cpu option" where
  "call_table call first fin s = table_loop call fin (exec1 (Mov (Reg EBX) (Imm first)) s)"

text \<open>After the destructors the code jumps to itself; the result is the state in which it does.\<close>

definition start_kernel ::
  "(u32 \<Rightarrow> cpu \<Rightarrow> cpu) \<Rightarrow> u32 \<Rightarrow> u32 \<Rightarrow> u32 \<Rightarrow> u32 \<Rightarrow> u32 \<Rightarrow> u32 \<Rightarrow> cpu \<Rightarrow> cpu option" where
  "start_kernel call sys_stack start_ctors end_ctors main start_dtors end_dtors s =
     (case call_table call start_ctors end_ctors (exec1 (Mov (Reg ESP) (Imm sys_stack)) s) of
        None \<Rightarrow> None
      | Some s \<Rightarrow> call_table call start_dtors end_dtors (call main s))"

section \<open>Functions that return to their caller\<close>

definition returned :: "cpu \<Rightarrow> cpu \<Rightarrow> bool" where
  "returned s r \<longleftrightarrow> ip r = top_word s \<and> gpr r ESP = gpr s ESP + 4 \<and> (\<forall>x\<in>{EBX, EBP, ESI, EDI}. gpr r x = gpr s x)"

lemma low_level_reads:
  "returned s (run read_cr0 s) \<and> gpr (run read_cr0 s) EAX = ctrl s CR0"
  "returned s (run read_cr2 s) \<and> gpr (run read_cr2 s) EAX = ctrl s CR2"
  "returned s (run read_cr3 s) \<and> gpr (run read_cr3 s) EAX = ctrl s CR3"
  by (simp_all add: returned_def read_cr0_def read_cr2_def read_cr3_def top_word_def drop_word_def)

lemma get_EFLAGS_returns:
  assumes "aligned (gpr s ESP)"
  shows "returned s (run get_EFLAGS s)" and "gpr (run get_EFLAGS s) EAX = cpu_flags s"
proof -
  have "aligned (gpr s ESP - 4)" using aligned_plus [OF assms, of "-4"] by (simp add: aligned_def)
  then show "returned s (run get_EFLAGS s)" "gpr (run get_EFLAGS s) EAX = cpu_flags s"
    using assms by (simp_all add: returned_def get_EFLAGS_def top_word_def drop_word_def push_word_def Let_def mem_simps)
qed

lemma low_level_writes:
  assumes "aligned (gpr s ESP)"
  shows "returned s (run write_cr0 s)" and "ctrl (run write_cr0 s) = (ctrl s)(CR0 := load32 (cpu_mem s) (gpr s ESP + 4))"
    and "returned s (run write_cr3 s)" and "ctrl (run write_cr3 s) = (ctrl s)(CR3 := load32 (cpu_mem s) (gpr s ESP + 4))"
proof -
  have "aligned (gpr s ESP - 4)" "aligned (gpr s ESP + 4)"
    using aligned_plus [OF assms, of "-4"] aligned_plus [OF assms, of 4] by (simp_all add: aligned_def)
  then show "returned s (run write_cr0 s)" "ctrl (run write_cr0 s) = (ctrl s)(CR0 := load32 (cpu_mem s) (gpr s ESP + 4))"
    "returned s (run write_cr3 s)" "ctrl (run write_cr3 s) = (ctrl s)(CR3 := load32 (cpu_mem s) (gpr s ESP + 4))"
    using assms
    by (simp_all add: returned_def write_cr0_def write_cr3_def top_word_def drop_word_def push_word_def Let_def mem_simps)
      (simp_all add: add.commute)
qed

lemma gdt_flush_loads:
  "returned s (run (gdt_flush gp_var) s)"
  "gdtr (run (gdt_flush gp_var) s) = table_pointer (cpu_mem s) gp_var"
  "segs (run (gdt_flush gp_var) s) = (segs s)(DS := 0x10, ES := 0x10, FS := 0x10, GS := 0x10, CS := 0x08)"
proof -
  have "ucast ((v AND NOT (mask 16)) OR ucast (0x10 :: u16) :: u32) = (0x10 :: u16)" for v :: u32
    by (rule bit_word_eqI) (auto simp: bit_simps bit_numeral_rec)
  then show "segs (run (gdt_flush gp_var) s) = (segs s)(DS := 0x10, ES := 0x10, FS := 0x10, GS := 0x10, CS := 0x08)"
    by (simp add: gdt_flush_def drop_word_def)
qed (simp_all add: returned_def gdt_flush_def top_word_def drop_word_def)

lemma idt_load_loads:
  "returned s (run (idt_load idtp_var) s)" "idtr (run (idt_load idtp_var) s) = table_pointer (cpu_mem s) idtp_var"
  by (simp_all add: returned_def idt_load_def top_word_def drop_word_def)

section \<open>The table of constructors\<close>

lemma below_iff: "below d v s \<longleftrightarrow> operand_value d s < operand_value v s"
  unfolding below_def by (rule carry_flag_cmp)

text \<open>
  \<open>calls\<close> is the list of functions called so far.  The called functions keep \<open>ebx\<close>, as the calling
  convention says, and the words at \<open>T\<close>, which has the table.
\<close>

lemma table_loop_calls:
  assumes calls: "\<And>f s. calls (call f s) = calls s @ [f]"
    and frame: "\<And>s g. calls (s\<lparr>gpr := g\<rparr>) = calls s" "\<And>s fl. calls (s\<lparr>cpu_flags := fl\<rparr>) = calls s"
    and keeps: "\<And>f s. gpr (call f s) EBX = gpr s EBX" "\<And>f s a. a \<in> T \<Longrightarrow> load32 (cpu_mem (call f s)) a = load32 (cpu_mem s) a"
    and table: "\<And>i. i < m \<Longrightarrow> first + word_of_nat (4 * i) \<in> T"
    and fin: "unat fin = unat first + 4 * m"
    and start: "n \<le> m" "gpr s EBX = first + word_of_nat (4 * (m - n))"
  shows "\<exists>r. table_loop call fin s = Some r
    \<and> calls r = calls s @ map (\<lambda>i. load32 (cpu_mem s) (first + word_of_nat (4 * i))) [m - n..<m]
    \<and> (\<forall>a\<in>T. load32 (cpu_mem r) a = load32 (cpu_mem s) a)"
  using start
proof (induction n arbitrary: s)
  have sub: "calls (status_sub a b s) = calls s" and add: "calls (status_add a b s) = calls s" for a b s
    by (simp_all add: status_sub_def status_add_def set_status_def Let_def frame(2))
  have u: "unat (first + word_of_nat (4 * i)) = unat first + 4 * i" if "i \<le> m" for i
    using that fin unat_less_32 [of fin] by (simp add: unat_word_ariths unat_of_nat take_bit_nat_eq_self del: of_nat_mult of_nat_numeral)
  {
    case 0
    then have "\<not> below (Reg EBX) (Imm fin) s" using u [of m] fin by (simp add: below_iff word_less_nat_alt)
    then show ?case by (subst table_loop.simps) (simp add: Let_def sub)
  next
    case (Suc n)
    define t where "t = exec1 (Cmp (Reg EBX) (Imm fin)) s"
    define i where "i = m - Suc n"
    let ?f = "load32 (cpu_mem s) (first + word_of_nat (4 * i))"
    have i: "i < m" "m - n = Suc i" using Suc.prems(1) by (simp_all add: i_def)
    have b: "below (Reg EBX) (Imm fin) s"
      using u [of i] fin i Suc.prems(2) by (simp add: below_iff word_less_nat_alt i_def)
    define w where "w = exec1 (Add (Reg EBX) (Imm 4)) (call ?f t)"
    have step: "table_loop call fin s = table_loop call fin w"
      using b Suc.prems(2) by (subst table_loop.simps) (simp add: Let_def w_def t_def i_def)
    have "gpr w EBX = first + word_of_nat (4 * (m - n))"
      using Suc.prems(2) unfolding i(2) by (simp add: w_def t_def keeps(1) i_def)
    moreover have "n \<le> m" using Suc.prems(1) by simp
    ultimately obtain r where r: "table_loop call fin w = Some r"
      "calls r = calls w @ map (\<lambda>i. load32 (cpu_mem w) (first + word_of_nat (4 * i))) [m - n..<m]"
      "\<forall>a\<in>T. load32 (cpu_mem r) a = load32 (cpu_mem w) a"
      using Suc.IH by blast
    have "calls w = calls s @ [?f]" by (simp add: w_def t_def calls frame add sub)
    moreover have same: "load32 (cpu_mem w) a = load32 (cpu_mem s) a" if "a \<in> T" for a
      using keeps(2) [OF that] by (simp add: w_def t_def)
    moreover have "load32 (cpu_mem w) (first + word_of_nat (4 * j)) = load32 (cpu_mem s) (first + word_of_nat (4 * j))" if "j < m" for j
      using same [OF table [OF that]] .
    moreover have "[m - Suc n..<m] = i # [m - n..<m]" using i by (simp add: i_def [symmetric] upt_conv_Cons)
    ultimately show ?case using r step by simp
  }
qed

lemma start_kernel_calls:
  assumes calls: "\<And>f s. calls (call f s) = calls s @ [f]"
    and frame: "\<And>s g. calls (s\<lparr>gpr := g\<rparr>) = calls s" "\<And>s fl. calls (s\<lparr>cpu_flags := fl\<rparr>) = calls s"
    and keeps: "\<And>f s. gpr (call f s) EBX = gpr s EBX"
      "\<And>f s a. a \<in> T \<Longrightarrow> load32 (cpu_mem (call f s)) a = load32 (cpu_mem s) a"
    and tables: "\<And>i. i < m \<Longrightarrow> ctors + word_of_nat (4 * i) \<in> T" "\<And>i. i < k \<Longrightarrow> dtors + word_of_nat (4 * i) \<in> T"
    and fin: "unat end_ctors = unat ctors + 4 * m" "unat end_dtors = unat dtors + 4 * k"
  shows "\<exists>r. start_kernel call sys_stack ctors end_ctors main dtors end_dtors s = Some r
    \<and> calls r = calls s @ map (\<lambda>i. load32 (cpu_mem s) (ctors + word_of_nat (4 * i))) [0..<m] @ [main]
        @ map (\<lambda>i. load32 (cpu_mem s) (dtors + word_of_nat (4 * i))) [0..<k]"
proof -
  have loop: "\<exists>r. call_table call first fin s = Some r
      \<and> calls r = calls s @ map (\<lambda>i. load32 (cpu_mem s) (first + word_of_nat (4 * i))) [0..<n]
      \<and> (\<forall>a\<in>T. load32 (cpu_mem r) a = load32 (cpu_mem s) a)"
    if "\<And>i. i < n \<Longrightarrow> first + word_of_nat (4 * i) \<in> T" "unat fin = unat first + 4 * n" for first fin n s
  proof -
    have "gpr (exec1 (Mov (Reg EBX) (Imm first)) s) EBX = first + word_of_nat (4 * (n - n))" by simp
    from table_loop_calls [where calls = calls, OF calls frame keeps that order_refl this]
    show ?thesis by (simp add: call_table_def frame)
  qed
  let ?s = "exec1 (Mov (Reg ESP) (Imm sys_stack)) s"
  obtain r where r: "call_table call ctors end_ctors ?s = Some r"
    "calls r = calls ?s @ map (\<lambda>i. load32 (cpu_mem ?s) (ctors + word_of_nat (4 * i))) [0..<m]"
    "\<forall>a\<in>T. load32 (cpu_mem r) a = load32 (cpu_mem ?s) a"
    using loop [OF tables(1) fin(1)] by blast
  obtain w where w: "call_table call dtors end_dtors (call main r) = Some w"
    "calls w = calls (call main r) @ map (\<lambda>i. load32 (cpu_mem (call main r)) (dtors + word_of_nat (4 * i))) [0..<k]"
    using loop [OF tables(2) fin(2)] by blast
  have "load32 (cpu_mem (call main r)) (dtors + word_of_nat (4 * i)) = load32 (cpu_mem s) (dtors + word_of_nat (4 * i))"
    if "i < k" for i
    using keeps(2) [OF tables(2) [OF that]] r(3) tables(2) [OF that] by simp
  then show ?thesis using r w by (simp add: start_kernel_def calls frame)
qed

end
