(* ===== verification/Switch_Samples.thy ===== *)
theory Switch_Samples
  imports Trap_Stubs Low_Level Kernel_Samples
begin

text \<open>
  A processor on which thread \<open>0x1000\<close> is about to switch to thread \<open>0x1100\<close>, whose context is saved
  at \<open>0x30000\<close>; the variable \<open>current_thread\<close> is at \<open>0x500\<close>, the return address is \<open>0x100123\<close>.
\<close>

definition caller :: cpu where
  "caller =
     \<lparr>gpr = (\<lambda>_. 7)(ESP := 0x20040), segs = (\<lambda>_. 0x10)(CS := 8), ctrl = (\<lambda>_. 0), gdtr = (0, 0), idtr = (0, 0),
      ip = 0x100000, cpu_flags = 0x202,
      cpu_mem = store32 0x500 0x1000 (store32 0x20040 0x100123 (store32 0x20044 0x1100 (store32 0x1100 0x30000 (\<lambda>_. 0))))\<rparr>"

lemma caller_facts:
  "calls_switch 0x500 caller 0x20000 0x1000 0x1100" "gpr caller ESP = 0x20040" "load32 (cpu_mem caller) 0x20040 = 0x100123"
  "segs caller r = (if r = CS then 8 else 0x10)"
  by (simp_all add: calls_switch_def caller_def context_addrs_eq mem_simps)

text \<open>Later thread \<open>0x1100\<close>, on a stack at \<open>0x31040\<close>, switches back to \<open>0x1000\<close>.\<close>

definition switching_back :: cpu where
  "switching_back =
     (let r = threads_low_switch_to 0x500 caller
      in r\<lparr>gpr := (\<lambda>_. 0)(ESP := 0x31040), segs := (\<lambda>_. 0x10)(CS := 8), cpu_mem := store32 0x31044 0x1000 (cpu_mem r)\<rparr>)"

lemma switching_back_facts:
  "calls_switch 0x500 switching_back 0x31000 0x1100 0x1000" "apart 0x1000 0x20000 0x1100 0x31000"
  "while_away 0x500 0x1000 0x20000 (threads_low_switch_to 0x500 caller) switching_back"
proof -
  have m: "cpu_mem (threads_low_switch_to 0x500 caller) = switch_memory 0x500 caller 0x20000 0x1000 0x1100"
    using switch_to_eq [OF caller_facts(1)] by auto
  show "calls_switch 0x500 switching_back 0x31000 0x1100 0x1000"
    using switch_memory_words(3) [OF caller_facts(1)] unfolding calls_switch_def switching_back_def Let_def
    by (simp add: context_addrs_eq mem_simps m)
  show "apart 0x1000 0x20000 0x1100 0x31000" by (simp add: apart_def context_addrs_eq)
  have "keeps_context 0x1000 0x20000 (cpu_mem (threads_low_switch_to 0x500 caller)) (cpu_mem switching_back)"
    by (simp add: keeps_context_def switching_back_def Let_def context_addrs_eq mem_simps)
  then show "while_away 0x500 0x1000 0x20000 (threads_low_switch_to 0x500 caller) switching_back"
    by (rule while_away.computes [OF while_away.start])
qed

text \<open>A handler that uses \<open>eax\<close>.\<close>

definition some_handler :: "cpu \<Rightarrow> cpu" where
  "some_handler s = s\<lparr>gpr := (gpr s)(EAX := 1)\<rparr>"

lemma some_handler_ok: "c_call_ok some_handler s"
  by (simp add: c_call_ok_def some_handler_def)

text \<open>The processor on which the first thread is dispatched, with the memory \<open>m\<close> for the rest.\<close>

definition dispatching_first :: "memory \<Rightarrow> u32 \<Rightarrow> cpu" where
  "dispatching_first m sp = caller\<lparr>cpu_mem := store32 0x500 0 (store32 0x20044 0x1000 (store32 0x1000 sp m))\<rparr>"

lemma first_context_words:
  assumes "i < 20"
  shows "stack_word (cpu_mem (dispatching_first m sp)) 0x403B0 i = stack_word m 0x403B0 i"
    and "(0x500 :: u32) \<noteq> 0x403B0 + word_of_nat (4 * i)"
proof -
  have u: "unat (0x403B0 + word_of_nat (4 * i) :: u32) = 0x403B0 + 4 * i"
    using assms by (simp add: unat_word_ariths unat_of_nat take_bit_nat_eq_self del: of_nat_mult of_nat_numeral)
  have al: "aligned (0x403B0 + word_of_nat (4 * i))" unfolding aligned_def u by simp
  have ne: "x \<noteq> 0x403B0 + word_of_nat (4 * i)" if "unat x < 0x403B0" for x :: u32
    using that u by auto
  show "(0x500 :: u32) \<noteq> 0x403B0 + word_of_nat (4 * i)" by (rule ne) simp
  show "stack_word (cpu_mem (dispatching_first m sp)) 0x403B0 i = stack_word m 0x403B0 i"
    using al ne [of "0x500"] ne [of "0x20044"] ne [of "0x1000"]
    by (simp add: stack_word_def dispatching_first_def mem_simps del: of_nat_mult of_nat_numeral)
qed

end
