(* ===== verification/Spec2Isabelle.thy ===== *)
theory Spec2Isabelle
  imports Kernel_Samples Switch_Samples
begin

text \<open>
  A model of two teaching kernels for 32-bit x86, written in C++.  Both are under \<open>src/\<close>:
  \<open>Virtual Memory Management and Memory Allocation\<close> (the first kernel below: contiguous frame pools,
  demand paging through a recursive page directory, virtual memory pools) and \<open>Kernel-level Thread
  Scheduling and Disk Device Driver\<close> (the second: threads, a FIFO and round-robin scheduler, a
  blocking and a non-blocking disk driver).  The files \<open>console.C\<close>, \<open>gdt.C\<close>, \<open>idt.C\<close>, \<open>irq.C\<close>,
  \<open>exceptions.C\<close>, \<open>machine.C\<close> and \<open>assert.H\<close> are the same in both, and \<open>utils.C\<close>,
  \<open>interrupts.C\<close> and \<open>simple_timer.C\<close> differ only in what one of them adds.

  Conventions (\<open>Prelude\<close>).  Machine integers are words of their width; a C \<open>int\<close> that the code only
  counts with is an \<open>int\<close>.  Memory is a function from addresses to bytes.  An operation that can
  stop returns a value of type \<open>outcome\<close>: \<open>Inl Assertion\<close> is a failed \<open>assert\<close>, \<open>Inl Hang\<close> a
  loop that never ends, \<open>Inl Wild\<close> undefined behaviour.  Loops that may not end are partial
  functions with values in \<open>option\<close>, so that not returning is the value \<open>None\<close>; no fuel is used
  anywhere.  Each layer extends the state record of the layer below it, and one lemma,
  \<open>putch_invariant\<close>, shows of any field that no console message changes it.

  The first kernel.

  \<^item> \<open>Frame_Pool_Bits\<close>, \<open>Cont_Frame_Pool\<close>: class \<open>ContFramePool\<close> on its bitmap of two bits per frame
    (\<open>cont_frame_pool.C\<close>).  \<open>Frame_Sections\<close> states what it promises on lists of frame states,
    \<open>Frame_Pool_Search\<close> and \<open>Frame_Pool_Contract\<close> show that the bitmap code implements it, and
    \<open>Frame_Pool_System\<close> composes several pools in one memory.
  \<^item> \<open>Memory\<close>, \<open>Paging_Hardware\<close>: 32-bit loads and stores, and the walk of the memory management
    unit through directory and table with the recursive last entry.
  \<^item> \<open>Page_Table\<close>: class \<open>PageTable\<close> (\<open>page_table.C\<close>) and the entry points of \<open>VMPool\<close> that touch
    paged memory.  \<open>Paging_Invariant\<close> is the invariant \<open>paging_ok\<close> (every table and page frame is
    owned once), \<open>Fault_Handler\<close> and \<open>Page_Release\<close> preserve it, \<open>Page_Map\<close> and \<open>Paging_Boot\<close>
    establish it, and \<open>Demand_Memory\<close> derives that a program sees plain memory, store by store and
    over sequences of stores.  \<open>Kept_Pages\<close> is the
    frame rule \<open>keeps B s s'\<close>: only pages in \<open>B\<close> may have changed, so what the pools and the programs
    keep elsewhere is still there.  \<open>Untouched_Region\<close> is the case in which releasing goes wrong.
  \<^item> \<open>VM_Pool\<close>: class \<open>VMPool\<close> (\<open>vm_pool.C\<close>) over parameters for reading and writing the lists;
    \<open>Regions\<close> is the abstract allocator, \<open>VM_Lists\<close> the refinement on the lists in memory,
    \<open>VM_System\<close> the composition with faults.  \<open>Pool_Runs\<close>: any sequence of \<open>allocate\<close>, \<open>release\<close>,
    loads and stores on several pools (\<open>pool_run\<close>) and its invariant \<open>pools_hold\<close>.
  \<^item> \<open>Kernel_Boot\<close>, \<open>Startup\<close>: \<open>main\<close> (\<open>kernel.C\<close>) with the handlers it installs and the page-table
    test.  \<open>Pool_Test\<close>, \<open>Pool_Main\<close>: the form of \<open>main\<close> in its \<open>#else\<close> branch, with \<open>operator new\<close> and
    \<open>operator delete\<close> on the current pool, the pool test and \<open>CustomTests\<close>; both pools are described by
    \<open>two_pools\<close>.
  \<^item> \<open>Kernel_Events\<close>: the idle kernel as a step relation, one step an exception or interrupt that is
    delivered and handled, and its invariant \<open>kernel_ok\<close>, which booting establishes.

  Code of both kernels.

  \<^item> \<open>Utils\<close> (\<open>utils.C\<close>), \<open>Machine\<close> (\<open>machine.C\<close>; output to ports is a log), \<open>Console\<close>
    (\<open>console.C\<close>): video memory, cursor and serial port, with a terminal of 25 rows and 80 columns as
    the abstract specification.  \<open>Assertions\<close> is what \<open>_assert\<close> (\<open>assert.C\<close>)
    and \<open>TestFailed\<close> (\<open>kernel.C\<close>) print before they loop.
  \<^item> \<open>Descriptors\<close> (\<open>gdt.C\<close>, \<open>idt.C\<close>, \<open>irq.C\<close>): the tables as the processor decodes them, and the
    interrupt controllers as machines that read the port log.
  \<^item> \<open>Dispatch\<close> (\<open>exceptions.C\<close>, \<open>interrupts.C\<close>): the locale \<open>handler_table\<close> is the contract of both
    dispatchers.
  \<^item> \<open>Timer\<close> (\<open>simple_timer.C\<close>): counting, the timer chip, and the busy wait over the sequence of
    timer states it observes.

  The second kernel.

  \<^item> \<open>Mem_Pool\<close> (\<open>frame_pool.C\<close>, \<open>mem_pool.C\<close>, \<open>operator new\<close> in \<open>kernel.C\<close>), \<open>Thread\<close>
    (\<open>thread.C\<close>): the initial context is written to memory and read back as \<open>threads_low.asm\<close> reads it.
  \<^item> \<open>Ready_Queue\<close>: the doubly linked queues on a heap of nodes, and the sequences they stand for.
  \<^item> \<open>Simple_Disk\<close> (\<open>simple_disk.C\<close>): register accesses over a sequence of port inputs, and the
    controller as a machine that reads the port log.
  \<^item> \<open>Scheduler\<close> (\<open>scheduler.C\<close>, \<open>DiskLock\<close> of \<open>nonblocking_disk.C\<close>): \<open>yield\<close> split where the
    processor changes hands.  What the other threads do until a thread is switched back is the
    parameter \<open>run_others\<close>, a function on the state about which nothing is assumed unless a theorem
    says so.  \<open>Scheduling\<close> has the invariant \<open>sched_ok\<close> of the two queues, the abstract choice
    \<open>next_thread\<close>, and the locale \<open>round_robin\<close> with its fairness lemma.
  \<^item> \<open>Kernel_Threads\<close>: the step relation \<open>kernel_step\<close> of a system of threads, each step from one
    context switch to the next, and its invariant \<open>running\<close>.
  \<^item> \<open>NonBlocking_Disk\<close> (\<open>nonblocking_disk.C\<close>), \<open>EOQ_Timer\<close> (\<open>EOQTimer\<close> of \<open>simple_timer.C\<close>),
    \<open>Thread_Kernel\<close> (\<open>main\<close> and the thread functions of \<open>kernel.C\<close>).
  \<^item> \<open>Four_Threads\<close>: the closed system.  \<open>others\<close> runs the code of threads 1, 3 and 4 until thread 2 is
    dispatched, and takes the place of \<open>run_others\<close> in the code of thread 2; \<open>iterations\<close> are the first
    \<open>n\<close> rounds of its endless loop.  \<open>Disk_Overlap\<close> is a read or write of thread 2 on a disk that stays
    busy for \<open>k + 1\<close> status reads after the command, while the others take \<open>k\<close> turns.

  The assembly files.

  \<^item> \<open>Processor\<close>: registers, flags, flat memory and the instructions that occur in the files; a
    straight piece of code is a list of instructions.  \<open>Low_Level\<close>: \<open>get_EFLAGS\<close> (\<open>machine_low.asm\<close>), the
    control registers (\<open>paging_low.asm\<close>), \<open>gdt_flush\<close>, \<open>idt_load\<close>, and the start-up code (\<open>start.asm\<close>).
  \<^item> \<open>Context_Switch\<close>: \<open>threads_low_switch_to\<close> (\<open>threads_low.asm\<close>).  \<open>while_away\<close> is what may happen
    between the switch away from a thread and the switch back: it is what \<open>run_others\<close> stands for in
    \<open>dispatch_to\<close>, and \<open>switch_round_trip\<close> is why \<open>dispatch_to\<close> may be modelled as a call that returns.
  \<^item> \<open>Trap_Stubs\<close>: the stubs of \<open>irq_low.asm\<close> and \<open>idt_low.asm\<close> with the gates of the processor; the frame
    they build is the record \<open>regs\<close> of the dispatchers.  An interrupt in the middle of a context switch.

  \<open>Sample_States\<close>, \<open>Kernel_Samples\<close> and \<open>Switch_Samples\<close> are the concrete states on which the theorems are instantiated.

  What the theorems below show.  The \<open>main\<close> functions reach their goals: both forms of the first one
  their last message with all their checks passed, the second one the dispatch of its first thread
  with all contexts in place.  The fault handler, the pools and the allocators refine their abstract
  counterparts, keep the paging invariant, and make demand-paged memory look like memory; the error
  branches fail as the code says.  No sequence of exceptions and interrupts damages the devices.  The
  scheduler's choice refines \<open>next_thread\<close>, threads that pass the processor on all make progress, and
  their queues stay consistent in every reachable state.  The context switch returns to its caller and
  interrupts are transparent, under the calling convention.  The disk driver issues the commands and
  moves the words it should.  Some theorems state defects: \<open>get_frames_hangs\<close>,
  \<open>last_page_rewrites_table\<close>, \<open>untouched_release_maps_garbage\<close>, \<open>queue_lock_held_hangs\<close>,
  \<open>waiting_thread_lost\<close>, and the duplicate queue entry in \<open>nonblocking_read_ready\<close>, which makes the
  ready queue grow by two entries per iteration in \<open>disk_thread_floods_queue\<close> (for 40 million iterations; the heap
  is never reused); a disk that is busy after the command gives the
  intended overlap in \<open>read_overlaps_threads\<close> (\<open>write_overlaps\<close> for a write).  \<open>interrupted_switch_loses_return\<close> is the price of calling the
  switch with interrupts on.  Facts about loads, the constructor and the error branches of the pools,
  \<open>is_legitimate\<close>, \<open>mark_inaccessible\<close>, a failed page fault, \<open>free_page\<close> on ordinary pages and \<open>release\<close>
  of an unknown address are lemmas of their theories (\<open>demand_load_ok\<close>, \<open>pool_construct_marked\<close>, \<open>release_frames_unowned\<close>, \<open>vm_allocate_fails\<close>, \<open>vm_is_legitimate\<close>,
  \<open>mark_inaccessible_free\<close>, \<open>handle_fault_exhausted\<close>, \<open>free_page_ok\<close>,
  \<open>vm_release_unknown\<close>).

  Not modelled.  The processor of the assembly files and the state of the C++ code meet at the frames
  on the stack and at the saved registers only.  In the C++ code, interrupts between two statements are
  sequences of handler calls, not interleavings with the interrupted code; a disk that becomes busy
  before the command or after the flush meets the other threads only as \<open>run_others\<close>.  The translation
  lookaside buffer and the text printed by the frame pools and the page table are left out.  The second kernel's copies of files that are the
  same as the first's are not modelled twice.
\<close>

text \<open>
  C1: the whole \<open>main\<close> of the first kernel: with the console, the dispatchers and the timer in place it
  builds the frame pools, installs the page-fault handler, turns paging on, and its memory test passes:
  \<open>main\<close> reaches its last message, and every word of the tested array holds what was written.
\<close>
theorem main_test_passes:
  assumes "length (gdt s) = 3" and "\<not> interrupts_enabled s"
    and "frame_pools (paging s) = Map.empty" and "fp_head (paging s) = None" and "\<not> bit (cr0 (paging s)) 31"
  shows "\<exists>s'. vm_main gdt_addr idt_addr isr irq s = Inr s' \<and> devices_ok isr irq s'
    \<and> exception_table s' ! 14 = Some pagefault_handler \<and> holds_words 0x400000 2048 (paging s')"
  using assms by (rule vm_main_ok)

theorem main_test_passes_witness:
  "\<exists>s'. vm_main 0x5000 0x6000 (\<lambda>_. 0x7000) (\<lambda>_. 0x8000) vm_power_on = Inr s' \<and> interrupts_enabled s'"
  using main_test_passes [OF vm_power_on_facts, of "0x5000" "0x6000" "\<lambda>_. 0x7000" "\<lambda>_. 0x8000"]
  by (auto simp: devices_ok_def)

text \<open>
  C2: for a fault on a page that is not present, outside the first and the last 4 MB region, the
  handler returns; the page is then mapped to a frame that nothing owned, a new page table was
  added exactly when the region had none, no page that was mapped changes its frame or its
  contents, one or two frames are consumed accordingly, and the paging invariant still holds.
\<close>
theorem page_fault_maps_page:
  assumes "paging_ok s" and "cr2 s = va" and "0 < dir_ix va" and "dir_ix va < 1023"
    and "mapped s (dir_ix va) (tbl_ix va) = None"
    and "fault_cost s va \<le> free_count s" and "err AND 1 = 0"
  shows "\<exists>f s'. handle_fault err s = Inr s' \<and> page_added s va f s'"
  using assms by (rule handle_fault_ok)

theorem page_fault_maps_page_witness:
  "\<exists>f s'. handle_fault 2 (booted\<lparr>cr2 := 0x20000000\<rparr>) = Inr s'
    \<and> page_added (booted\<lparr>cr2 := 0x20000000\<rparr>) 0x20000000 f s'"
proof -
  have b: "paging_ok booted" "free_count booted = 14" using booted_ok by metis+
  have "fault_cost (booted\<lparr>cr2 := 0x20000000\<rparr>) 0x20000000 \<le> 14" by (simp add: fault_cost_def)
  then show ?thesis
    using page_fault_maps_page [of "booted\<lparr>cr2 := 0x20000000\<rparr>" "0x20000000" 2] b
    by (simp add: sample_dirs booted_unmapped)
qed

text \<open>
  C3: a store to a word of demand-paged memory, whether or not it faults, is seen by the next load
  of that word, and every other word that was in memory keeps its value.
\<close>
theorem demand_store_is_memory:
  assumes "paging_ok s" and "servable s a"
  shows "\<exists>s'. demand_store a v s = Inr s' \<and> paging_ok s' \<and> demand_load a s' = Inr (v, s')
    \<and> (\<forall>b. resident s b \<longrightarrow> b \<noteq> a \<longrightarrow> demand_load b s' = Inr (vword s b, s'))"
  using assms by (rule demand_store_ok)

theorem demand_store_is_memory_witness:
  "\<exists>s'. demand_store 0x20003004 42 with_pool = Inr s' \<and> demand_load 0x20003004 s' = Inr (42, s')"
proof -
  have "paging_ok with_pool" using vm_holds_table(2) [OF with_pool_ok(2) refl] .
  then show ?thesis
    using demand_store_is_memory [of with_pool "0x20003004" 42] with_pool_servable by blast
qed

text \<open>
  C4: any sequence of stores to words of user pages (outside the first and the last 4 MB region and the
  last page of a region) goes through as long as there are two frames per store, whatever faults it
  takes.  Afterwards every word that was stored to, and every word that was in memory before, loads the
  last value it was given; distinct words lie at distinct physical addresses, and no word lies in
  the kernel's first 4 MB, in a page table or in the page directory.
\<close>
theorem stores_are_isolated:
  assumes "paging_ok s" and "\<forall>w\<in>set ws. user_word (fst w)" and "2 * length ws \<le> free_count s"
  shows "\<exists>s'. for_each (\<lambda>(a, v). demand_store a v) ws s = Inr s' \<and> paging_ok s'
    \<and> (\<forall>a\<in>fst ` set ws \<union> {a. user_word a \<and> resident s a}.
         demand_load a s' = Inr (last_stored ws (vword s) a, s'))
    \<and> isolated s' (fst ` set ws \<union> {a. user_word a \<and> resident s a})"
proof -
  obtain s' where s': "for_each (\<lambda>(a, v). demand_store a v) ws s = Inr s'" "paging_ok s'"
      "\<And>a. a \<in> fst ` set ws \<or> resident s a \<Longrightarrow> resident s' a \<and> vword s' a = last_stored ws (vword s) a"
    using store_run [OF assms] by blast
  have "demand_load a s' = Inr (last_stored ws (vword s) a, s')"
    if "a \<in> fst ` set ws \<union> {a. user_word a \<and> resident s a}" for a
  proof -
    have "a \<in> fst ` set ws \<or> resident s a" using that by blast
    from s'(3) [OF this] show ?thesis using load_resident [OF s'(2), of a] by simp
  qed
  moreover have "isolated s' (fst ` set ws \<union> {a. user_word a \<and> resident s a})"
    by (rule resident_isolated [OF s'(2)]) (use assms(2) s'(3) in auto)
  ultimately show ?thesis using s'(1,2) by blast
qed

theorem stores_are_isolated_witness:
  "\<exists>s'. for_each (\<lambda>(a, v). demand_store a v) [(0x20002000, 1), (0x20003004, 2), (0x20002000, 3)] with_pool = Inr s'
    \<and> demand_load 0x20002000 s' = Inr (3, s') \<and> demand_load 0x20003004 s' = Inr (2, s')
    \<and> translate s' 0x20002000 \<noteq> translate s' 0x20003004
    \<and> translate s' 0x20000000 \<noteq> translate s' 0x20002000"
proof -
  let ?ws = "[(0x20002000, 1), (0x20003004, 2), (0x20002000, 3)]"
  have u: "user_word 0x20000000" "user_word 0x20002000" "user_word 0x20003004"
    by (simp_all add: user_word_def aligned_def dir_ix_def tbl_ix_def)
  obtain s' where s': "for_each (\<lambda>(a, v). demand_store a v) ?ws with_pool = Inr s'"
      "\<forall>a\<in>fst ` set ?ws \<union> {a. user_word a \<and> resident with_pool a}.
         demand_load a s' = Inr (last_stored ?ws (vword with_pool) a, s')"
      "isolated s' (fst ` set ?ws \<union> {a. user_word a \<and> resident with_pool a})"
    using stores_are_isolated [OF vm_holds_table(2) [OF with_pool_ok(2) refl], of ?ws] u with_pool_ok(5)
    by auto
  have W: "0x20002000 \<in> fst ` set ?ws \<union> {a. user_word a \<and> resident with_pool a}"
      "0x20003004 \<in> fst ` set ?ws \<union> {a. user_word a \<and> resident with_pool a}"
      "0x20000000 \<in> fst ` set ?ws \<union> {a. user_word a \<and> resident with_pool a}"
    using u with_pool_resident by simp_all
  have "demand_load 0x20002000 s' = Inr (3, s')" "demand_load 0x20003004 s' = Inr (2, s')"
    using bspec [OF s'(2) W(1)] bspec [OF s'(2) W(2)] by (simp_all add: last_stored_def)
  moreover have "inj_on (translate s') (fst ` set ?ws \<union> {a. user_word a \<and> resident with_pool a})"
    using s'(3) by (simp add: isolated_def)
  then have "translate s' 0x20002000 \<noteq> translate s' 0x20003004" "translate s' 0x20000000 \<noteq> translate s' 0x20002000"
    using inj_onD [OF _ _ W(1,2)] inj_onD [OF _ _ W(3,1)] by fastforce+
  ultimately show ?thesis using s'(1) by blast
qed

text \<open>
  C5: the form of the first kernel's \<open>main\<close> that tests the virtual memory pools reaches its last
  message from any machine that is switched on.  Every array that \<open>GenerateVMPoolMemoryReferences\<close>
  allocates in its 49 rounds on each pool is accepted by \<open>is_legitimate\<close>, reads back what was
  written, and is released.  At the end no page is left mapped but the four list pages (of the 6910
  frames after booting, 6904 are free: four pages and two page tables), and the regions that were
  released lie behind the rest of the pool on its free list, in the order of the rounds.
\<close>
theorem vm_pool_test_passes:
  assumes "length (gdt s) = 3" and "\<not> interrupts_enabled s"
    and "frame_pools (paging s) = Map.empty" and "fp_head (paging s) = None" and "\<not> bit (cr0 (paging s)) 31"
  shows "\<exists>s'. vm_pools_main gdt_addr idt_addr isr irq s = Inr s' \<and> devices_ok isr irq s'
    \<and> exception_table s' ! 14 = Some pagefault_handler \<and> free_count (paging s') = 6904
    \<and> two_pools (\<lambda>m. (at_page (pool_dir m) 147, 0xFF6D000) # freed_regions (pool_dir m) 100 50) (paging s')"
  using assms by (rule vm_pools_main_ok)

theorem vm_pool_test_passes_witness:
  "\<exists>s'. vm_pools_main 0x5000 0x6000 (\<lambda>_. 0x7000) (\<lambda>_. 0x8000) vm_power_on = Inr s'
    \<and> free_count (paging s') = 6904"
  using vm_pool_test_passes [OF vm_power_on_facts, of "0x5000" "0x6000" "\<lambda>_. 0x7000" "\<lambda>_. 0x8000"]
  by auto

text \<open>
  C6: no thread starves.  In a system of threads that pass the processor on, the thread that has
  \<open>i\<close> threads in front of it in the ready queue runs after \<open>i + 1\<close> calls of \<open>pass_on_CPU\<close>, none of
  which fails, as long as the heap has 12 bytes for each of their queue nodes.
\<close>
theorem no_thread_starves:
  assumes "running C c R" and "i < length R" and "12 * Suc i \<le> heap_room (fst C)"
  shows "\<exists>C' R'. repeat_step (Suc i) pass_segment C = Inr C' \<and> running C' (snd (R ! i)) R'"
proof -
  have "Suc i \<le> heap_room (fst C) div 12"
    using div_le_mono [OF assms(3), of 12] by simp
  from cpu.gets_the_processor [of C c "map snd R" i, OF _ _ this] assms(1,2)
  show ?thesis by auto
qed

theorem no_thread_starves_witness:
  "\<exists>C'. repeat_step 2 pass_segment (three_threads ready_input, Map.empty) = Inr C' \<and> current_thread (fst C') = 0x1100"
  using no_thread_starves [OF three_threads_running, of 1 ready_input]
  by (auto simp: running_def numeral_2_eq_2)

text \<open>
  C7: up to the dispatch, \<open>yield\<close> is the choice \<open>next_thread\<close> on the two queues: the first thread
  that waits for the disk if there is one and the disk is not busy, and otherwise the first ready
  thread; it takes that thread out of its queue, leaves the other queue and all threads as they were,
  and turns interrupts on.
\<close>
theorem yield_chooses_next:
  assumes "sched_ok s R D" and "current_thread s \<noteq> 0"
    and "next_thread (interrupt = 0 \<and> busy_at s (port_reads s)) R D = (choice, R', D')"
  shows "\<exists>s'. yield_select ro interrupt s = Inr (map_option fst choice, s') \<and> sched_ok s' R' D' \<and> same_threads s s'
    \<and> interrupts_enabled s'
    \<and> (\<forall>n t. choice = Some (n, t) \<longrightarrow> (\<exists>v. queue_nodes s' n = Some v \<and> node_thread v = t))"
  using assms by (rule yield_select_refines)

theorem yield_chooses_next_witness:
  "\<exists>s'. yield_select Inr 0 (three_threads busy_input) = Inr (Some 0x2000, s') \<and> sched_ok s' [(0x200C, 0x1100)] []"
  using yield_chooses_next [OF three_threads_sched, of busy_input 0 "Some (0x2000, 0x1000)" "[(0x200C, 0x1100)]" "[]" Inr]
  by (auto simp: next_thread_def)

text \<open>
  C8: \<open>allocate\<close> on a pool whose lists partition its range returns the start of the first free
  region that is large enough for the size rounded up to pages; the new region was free, the lists
  in memory still partition the range, and only the two list pages changed (no page of the new
  region is touched: the loop of \<open>allocate\<close> that would touch them, as \<open>README.md\<close> and \<open>design.pdf\<close>
  say it does, is commented out, so they are mapped later, by faults).
\<close>
theorem allocate_takes_first_fit:
  assumes "vm_pools s this = Some p" and "vm_holds p s as fs" and "partitions lo hi as fs"
    and "0 < sz0" and "unat sz0 + 4095 < 4294967296"
    and "first_fit (round_up sz0) fs < length fs" and "length as < 511"
  shows "\<exists>s' as' fs'. vm_allocate this sz0 s = Inr (fst (fs ! first_fit (round_up sz0) fs), s')
    \<and> as' = as @ [(fst (fs ! first_fit (round_up sz0) fs), round_up sz0)]
    \<and> vm_holds p s' as' fs' \<and> partitions lo hi as' fs' \<and> same_map (list_cells p) s s'"
proof -
  let ?f = "fs ! first_fit (round_up sz0) fs"
  obtain fs' where a: "alloc_regions (round_up sz0) as fs
      = Some (fst ?f, as @ [(fst ?f, round_up sz0)], fs')"
    using assms(6,7) by (cases ?f) (auto simp: alloc_regions_def Let_def)
  from vm_allocate_refines [OF assms(1,2) round_up_page(1) [OF assms(4,5)] a]
  obtain s' where s': "vm_allocate this sz0 s = Inr (fst ?f, s')"
    "vm_holds p s' (as @ [(fst ?f, round_up sz0)]) fs'" "same_map (list_cells p) s s'" by blast
  moreover have "partitions lo hi (as @ [(fst ?f, round_up sz0)]) fs'"
    using alloc_partitions [OF assms(3) round_up_page(1,2) [OF assms(4,5)] a] .
  ultimately show ?thesis by blast
qed

theorem allocate_takes_first_fit_witness:
  "\<exists>s' as' fs'. vm_allocate 0 5000 with_pool = Inr (0x20002000, s')
    \<and> as' = sample_alloc @ [(0x20002000, 0x2000)] \<and> vm_holds sample_vm_pool s' as' fs'
    \<and> partitions 0x20000000 0x20010000 as' fs'"
proof -
  have p: "vm_pools with_pool 0 = Some sample_vm_pool" by (simp add: with_pool_ok(3))
  have "first_fit (round_up 5000) sample_free = 0" "round_up 5000 = 8192"
    by (simp_all add: first_fit_def round_up_def)
  then show ?thesis
    using allocate_takes_first_fit [OF p with_pool_ok(2) sample_partition, of 5000] by auto
qed

text \<open>
  C9: \<open>release\<close> of an allocated region frees its page frames one by one through \<open>free_page\<close>,
  unmapping exactly the region's pages, and moves the region to the end of the free list; the lists
  in memory still partition the range.
\<close>
theorem release_unmaps_region:
  assumes "vm_pools s this = Some p" and "vm_holds p s as fs" and "partitions lo hi as fs"
    and "release_regions start as fs = Some (as', fs')"
    and "as ! region_ix start as = (start, word_of_nat (4096 * n))" and "start mod 4096 = 0"
    and "page_tables s (page_table p) = Some t" and "cr3 s = page_directory t"
    and "node_chain (vm_pools s) (head_pool t) ns" and "this \<in> set ns"
    and "\<forall>m\<in>set ns. \<exists>fs. vm_holds (the (vm_pools s m)) s (AL m) fs" and "AL this = as"
    and "\<forall>m\<in>set ns. \<forall>a\<in>list_cells (the (vm_pools s m)). \<forall>k<n.
       page_slot a \<noteq> page_slot (page_addr start k)"
    and "unat start + 4096 * n \<le> 4294967295"
    and "region_ready s start n"
  shows "\<exists>s1 s'. vm_release this start s = Inr s' \<and> vm_holds p s' as' fs' \<and> partitions lo hi as' fs'
    \<and> region_unmapped s start n s1 \<and> same_map (list_cells p) s1 s'"
  using vm_release_ok [OF assms(1,2,4-15)] release_partitions [OF assms(3,4)] by blast

theorem release_unmaps_region_witness:
  "\<exists>s1 s'. vm_release 0 0x20002000 with_region = Inr s'
    \<and> vm_holds sample_vm_pool s' sample_alloc [(0x20004000, 0xC000), (0x20002000, 0x2000)]
    \<and> region_unmapped with_region 0x20002000 2 s1"
proof -
  note sm = with_region_ok(3)
  have vp: "vm_pools with_region = [0 \<mapsto> sample_vm_pool]"
    and pt: "page_tables with_region = [0 \<mapsto> \<lparr>page_directory = cr3 with_region, head_pool = Some 0\<rparr>]"
    using same_map_fields [OF sm] with_pool_ok(3,4) by simp_all
  let ?as = "sample_alloc @ [(0x20002000, 0x2000)]"
  have rel: "release_regions 0x20002000 ?as [(0x20004000, 0xC000)]
      = Some (sample_alloc, [(0x20004000, 0xC000), (0x20002000, 0x2000)])"
    and ix: "?as ! region_ix 0x20002000 ?as = (0x20002000, word_of_nat (4096 * 2))"
    by (simp_all add: release_regions_def region_ix_def drop_nth_def)
  have part: "partitions 0x20000000 0x20010000 ?as [(0x20004000, 0xC000)]"
    by (rule sample_region_partition)
  have ap: "page_slot a \<noteq> page_slot (page_addr 0x20002000 k)"
    if "a \<in> list_cells sample_vm_pool" "k < 2" for a k
    using sample_list_slots [OF that(1)] sample_region_slots [OF that(2)] that(2) by auto
  have "vm_release 0 0x20002000 with_region = vm_release 0 0x20002000 with_region" ..
  have p: "vm_pools with_region 0 = Some sample_vm_pool" by (simp add: vp)
  have pt0: "page_tables with_region (page_table sample_vm_pool)
      = Some \<lparr>page_directory = cr3 with_region, head_pool = Some 0\<rparr>"
    by (simp add: pt sample_vm_pool_fields)
  show ?thesis
    using release_unmaps_region [where ns = "[0]" and AL = "\<lambda>_. ?as", OF p with_region_ok(2) part rel ix _ pt0]
      with_region_ok(2) ap with_region_ready
    by (auto simp: vp sample_vm_pool_fields)
qed

text \<open>
  C10: \<open>main\<close> of the thread kernel sets up descriptor tables, handlers, memory, timer, disk and
  scheduler without failing, creates four threads, and hands the processor to thread 1 with threads
  2, 3 and 4 in the ready queue in this order.  All four are about to run their functions: what the
  context switch loads from their stacks is the initial context.  Interrupts are on, and if
  \<open>main\<close> is ever scheduled again its last assertion fails.
\<close>
theorem main_starts_threads:
  assumes "length (gdt s) = 3" and "\<not> interrupts_enabled s" and "\<not> queue_locked s"
  shows "\<exists>s' R. thread_main gdt_addr idt_addr isr irq start shutdown old tf ro s = andThen (ro s') (\<lambda>_. Inl Assertion)
    \<and> running (s', Map.empty) 0x201028 R \<and> map snd R = [0x202040, 0x203058, 0x204070]
    \<and> ready_to_start start shutdown s' (0x201028 # map snd R) (map tf [1, 2, 3, 4]) \<and> interrupts_enabled s'"
proof -
  obtain s' R where s': "thread_main gdt_addr idt_addr isr irq start shutdown old tf ro s = andThen (ro s') (\<lambda>_. Inl Assertion)"
    "running (s', Map.empty) 0x201028 R" "map snd R = [0x202040, 0x203058, 0x204070]"
    "ready_to_start start shutdown s' main_threads (map tf [1, 2, 3, 4])" "interrupts_enabled s'"
    using thread_main_ok [OF assms, of gdt_addr idt_addr isr irq start shutdown old tf] unfolding list.sel(3)
    by (elim exE conjE) (erule allE [of _ ro], erule (4) that)
  then show ?thesis by (intro exI [of _ s'] exI [of _ R]) simp
qed

theorem main_starts_threads_witness:
  "\<exists>s' :: thread_kernel. thread_main 0x5000 0x6000 (\<lambda>_. 0x7000) (\<lambda>_. 0x8000) 0x9000 0x9100 (\<lambda>_. some_thread) (\<lambda>_. 0xA000) Inr
      (power_on ready_input) = andThen (Inr s') (\<lambda>_. Inl Assertion) \<and> current_thread s' = 0x201028"
proof -
  obtain s' :: thread_kernel and R where "thread_main 0x5000 0x6000 (\<lambda>_. 0x7000) (\<lambda>_. 0x8000) 0x9000 0x9100 (\<lambda>_. some_thread)
      (\<lambda>_. 0xA000) Inr (power_on ready_input) = andThen (Inr s') (\<lambda>_. Inl Assertion)"
    "running (s', Map.empty) 0x201028 R"
    using main_starts_threads [OF power_on_facts, of "0x5000" "0x6000" "\<lambda>_. 0x7000" "\<lambda>_. 0x8000" "0x9000" "0x9100"
      "\<lambda>_. some_thread" "\<lambda>_. 0xA000" Inr ready_input] by blast
  then show ?thesis by (intro exI [of _ s']) (simp add: running_def)
qed

text \<open>
  C11: the second kernel from power on, on a disk that is always ready: \<open>main\<close> dispatches thread 1,
  whose first turn dispatches thread 2, and the iterations of thread 2, the one that uses the disk,
  all complete while the other three take their turns.  Iteration \<open>i\<close> has the controller read block
  \<open>i + 1\<close>, write block \<open>i\<close> (modulo 10) and flush its cache, and the words written are all made of the
  byte \<open>i mod 256\<close>.  After it the hardware lock is free, the queues are well formed, and each of the
  other threads is in the ready queue once.  But thread 2 is in it \<open>2 * n\<close> times: every operation that
  finds the disk ready leaves one entry behind, so its share of the processor and the queue keep
  growing.  This holds for every \<open>n\<close> up to 40 million; each iteration takes nodes from the heap, which is never
  reused, and after that it may be exhausted.
\<close>
theorem disk_thread_floods_queue:
  assumes "length (gdt s) = 3" and "\<not> interrupts_enabled s" and "\<not> queue_locked s" and "\<not> hw_locked s"
    and "disk_ready s" and "suspended s = Map.empty" and "bursts s = Map.empty" and "n \<le> 40000000"
  shows "\<exists>s1 s2 s3 s4 R.
      (\<forall>ro. thread_main gdt_addr idt_addr isr irq start shutdown old tf ro s = andThen (ro s1) (\<lambda>_. Inl Assertion))
    \<and> others which disk_thread s1 = Inr s2 \<and> begin_fun 2 s2 = Inr s3 \<and> current_thread s3 = disk_thread
    \<and> iterations n (fun2_iteration 0x203058 buf (others which disk_thread)) 0 ((1, 0), s3)
        = Inr ((int (Suc n mod 10), int (n mod 10)), s4)
    \<and> four_ok disk_thread printing_threads s4 R \<and> current_thread s4 = disk_thread
    \<and> count_list (map snd R) disk_thread = 2 * n
    \<and> ata_commands (ata_run (port_log s4) a) = ata_commands (ata_run (port_log s3) a) @ concat (map disk_commands [0..<n])
    \<and> ata_data (ata_run (port_log s4) a) = ata_data (ata_run (port_log s3) a)
        @ concat (map (\<lambda>i. replicate 256 (block_word (int i))) [0..<n])"
  using assms by (rule kernel_runs)

theorem disk_thread_floods_queue_witness:
  "\<exists>(s4 :: four_threads) R. four_ok disk_thread printing_threads s4 R \<and> count_list (map snd R) disk_thread = 24"
proof -
  obtain s4 :: four_threads and R where "four_ok disk_thread printing_threads s4 R"
    "count_list (map snd R) disk_thread = 2 * 12"
    using disk_thread_floods_queue [OF four_power_on_facts, where n = 12 and gdt_addr = "0x5000" and idt_addr = "0x6000"
        and isr = "\<lambda>_. 0x7000" and irq = "\<lambda>_. 0x8000" and start = "0x9000" and shutdown = "0x9100"
        and old = "\<lambda>_. some_thread" and tf = "\<lambda>_. 0xA000" and which = "\<lambda>t. if t = 0x201028 then 1 else if t = 0x203058 then 3 else 4"
        and buf = "0x201F00" and a = "ata.make 0 0 0 0 0 [] []"] by auto
  then show ?thesis by auto
qed

text \<open>
  C12: a non-blocking read overlaps with the other threads.  The disk accepts the command at once and
  is then busy for \<open>k + 1\<close> reads of its status; the caller is in no queue when it starts.  The caller
  waits in the disk's queue while the other threads, running their own code, take \<open>k\<close> turns; the
  first yield that finds the disk ready dispatches the caller, which finds its buffer filled with the
  256 words delivered.  At the end the hardware lock is free, the disk's queue is empty, the others are
  in the ready queue as if they had passed the processor on \<open>k\<close> times, and no entry of the caller is left.
\<close>
theorem read_overlaps_threads:
  assumes "crew me ts s R []" and "current_thread s = me" and "me \<notin> set (map snd R)" and "R \<noteq> []" and "\<not> hw_locked s"
    and "\<not> busy_at s (port_reads s)" and "busy_for s (port_reads s + 5) (Suc k)" and "\<not> busy_at s (port_reads s + k + 7)"
    and "verdict (ucast (port_input s (port_reads s + k + 8) 0x1F7)) = 0" and "24 + 12 * k + 12 * length ts \<le> heap_room s"
  shows "\<exists>s' R'. nb_read (others which me) block_no buf s = Inr s' \<and> current_thread s' = me
    \<and> crew me ts s' R' [] \<and> map snd R' = rotate k (map snd R) \<and> \<not> hw_locked s'
    \<and> heap_room s \<le> heap_room s' + 24 + 12 * k + 12 * length ts
    \<and> (\<forall>i<256. buffer_word (ram s') buf i = port_input s (port_reads s + k + 9 + i) 0x1F0)
    \<and> ata_commands (ata_run (port_log s') a) = ata_commands (ata_run (port_log s) a) @ [(0x20, block_no AND 0x0FFFFFFF)]
    \<and> ata_data (ata_run (port_log s') a) = ata_data (ata_run (port_log s) a)"
  using assms by (rule read_overlaps)

theorem read_overlaps_threads_witness:
  "\<exists>s' R'. nb_read (others (\<lambda>t. if t = 0x1000 then 1 else 3) 0x1200) 7 0x4000 slow_disk = Inr s'
    \<and> crew 0x1200 [0x1000, 0x1100] s' R' [] \<and> map snd R' = [0x1000, 0x1100]
    \<and> (\<forall>i<256. buffer_word (ram s') 0x4000 i = word_of_nat (11 + i))"
proof -
  have busy: "busy_for slow_disk (port_reads slow_disk + 5) (Suc 2)"
    unfolding busy_for_def slow_disk_facts(4,5) by auto
  have "\<exists>s' R'. nb_read (others (\<lambda>t. if t = 0x1000 then 1 else 3) 0x1200) 7 0x4000 slow_disk = Inr s' \<and> current_thread s' = 0x1200
    \<and> crew 0x1200 [0x1000, 0x1100] s' R' [] \<and> map snd R' = rotate 2 (map snd two_ready) \<and> \<not> hw_locked s'
    \<and> heap_room slow_disk \<le> heap_room s' + 24 + 12 * 2 + 12 * length [0x1000 :: u32, 0x1100]
    \<and> (\<forall>i<256. buffer_word (ram s') 0x4000 i = port_input slow_disk (port_reads slow_disk + 2 + 9 + i) 0x1F0)
    \<and> ata_commands (ata_run (port_log s') (ata.make 0 0 0 0 0 [] []))
        = ata_commands (ata_run (port_log slow_disk) (ata.make 0 0 0 0 0 [] [])) @ [(0x20, 7 AND 0x0FFFFFFF)]
    \<and> ata_data (ata_run (port_log s') (ata.make 0 0 0 0 0 [] [])) = ata_data (ata_run (port_log slow_disk) (ata.make 0 0 0 0 0 [] []))"
    by (rule read_overlaps_threads [OF slow_disk_facts(1,2) _ _ slow_disk_facts(3) _ busy])
      (simp_all add: slow_disk_facts(4-8))
  then obtain s' R' where read: "nb_read (others (\<lambda>t. if t = 0x1000 then 1 else 3) 0x1200) 7 0x4000 slow_disk = Inr s'"
    "crew 0x1200 [0x1000, 0x1100] s' R' []" and order: "map snd R' = rotate 2 (map snd two_ready)"
    and sector: "\<forall>i<256. buffer_word (ram s') 0x4000 i = port_input slow_disk (port_reads slow_disk + 2 + 9 + i) 0x1F0"
    by (elim exE conjE)
  have "map snd R' = [0x1000, 0x1100]" unfolding order by (simp add: numeral_2_eq_2)
  moreover have "\<forall>i<256. buffer_word (ram s') 0x4000 i = word_of_nat (11 + i)"
    using sector unfolding slow_disk_facts(4,7) slow_input_def by simp
  ultimately show ?thesis using read by (intro exI [of _ s'] exI [of _ R'] conjI)
qed

text \<open>
  C13: whatever the threads do, passing the processor on, creating threads and ending, in every state
  they reach the ready queue is well formed, the running thread and the ready threads are all
  different and have control blocks, the zombie is none of them, and the nodes that suspended threads
  still have to delete are not in the queue.
\<close>
theorem threads_stay_consistent:
  assumes "running C c R" and "kernel_step\<^sup>*\<^sup>* C C'"
  shows "\<exists>c' R'. running C' c' R'"
  using reachable_running [OF assms(2,1)] .

theorem threads_stay_consistent_witness:
  "\<exists>C' c' R'. kernel_step (three_threads ready_input, Map.empty) C' \<and> running C' c' R'"
proof -
  obtain C' where "pass_segment (three_threads ready_input, Map.empty) = Inr C'"
    using pass_segment_ok [OF three_threads_running, of ready_input] by auto
  then have "kernel_step (three_threads ready_input, Map.empty) C'" by (rule kernel_step.pass) simp
  then show ?thesis using threads_stay_consistent [OF three_threads_running, of ready_input C'] by blast
qed

text \<open>
  C14: the context switch returns to its caller.  A thread calls the assembly routine below
  \<open>dispatch_to\<close>; while it is away other threads compute and switch among themselves, any number of
  times, without touching its saved context; when one of them switches to it, it continues after its
  call with all its registers, with its stack as after a return and with the flags it had (but for
  the status flags), and it is the current thread.
\<close>
theorem switch_returns_to_caller:
  assumes "calls_switch v s b me t" and "while_away v me b (threads_low_switch_to v s) u"
    and "calls_switch v u c other me" and "apart me b other c"
  shows "ip (threads_low_switch_to v u) = load32 (cpu_mem s) (b + 64)
    \<and> gpr (threads_low_switch_to v u) = (gpr s)(ESP := gpr s ESP + 4)
    \<and> (\<forall>x. x \<noteq> SS \<longrightarrow> segs (threads_low_switch_to v u) x = segs s x)
    \<and> cpu_flags (threads_low_switch_to v u) AND NOT status_mask = cpu_flags s AND NOT status_mask
    \<and> load32 (cpu_mem (threads_low_switch_to v u)) v = me"
  using switch_round_trip [OF assms] unfolding switch_returned_def .

theorem switch_returns_to_caller_witness:
  "ip (threads_low_switch_to 0x500 switching_back) = 0x100123
    \<and> gpr (threads_low_switch_to 0x500 switching_back) = (gpr caller)(ESP := 0x20044)"
  using switch_returns_to_caller [OF caller_facts(1) switching_back_facts(3,1,2)] caller_facts(2,3) by simp

text \<open>
  C15: interrupts are transparent.  An interrupt taken at any instruction goes through the stub to the
  dispatcher and back; if the called function keeps to the calling convention and leaves the saved
  registers alone, the interrupted code continues with all its registers, flags and address.  The
  dispatcher is given the number of the interrupt and the interrupted registers.
\<close>
theorem interrupts_are_transparent:
  assumes "aligned a" and "gpr s ESP = a + 72" and "n < 16"
    and "c_call_ok call (run (common_enter fn) (run (irq_stub n) (enter_gate s)))"
  defines "e \<equiv> run (common_enter fn) (run (irq_stub n) (enter_gate s))"
  defines "c \<equiv> load_context (cpu_mem e) (load32 (cpu_mem e) (gpr e ESP))"
  shows "gpr (take_interrupt fn call n s) = gpr s \<and> segs (take_interrupt fn call n s) = segs s
    \<and> ip (take_interrupt fn call n s) = ip s \<and> cpu_flags (take_interrupt fn call n s) = cpu_flags s
    \<and> unat (reg_int_no c - 32) = n \<and> reg_eip c = ip s \<and> reg_eflags c = cpu_flags s \<and> reg_eax c = gpr s EAX"
proof -
  have "undisturbed s (take_interrupt fn call n s)"
    using interrupt_resumes [OF assms(1,2,4)] .
  moreover have "reg_int_no c = word_of_nat (32 + n)" "reg_eip c = ip s" "reg_eflags c = cpu_flags s" "reg_eax c = gpr s EAX"
    using trap_registers [OF assms(1,2), of fn "word_of_nat (32 + n)" 0] by (simp_all add: c_def e_def stubs_numbered(1))
  moreover have "unat (word_of_nat (32 + n) - 32 :: u32) = n" using assms(3) by simp
  ultimately show ?thesis unfolding undisturbed_def by simp
qed

theorem interrupts_are_transparent_witness:
  "gpr (take_interrupt 0x100500 some_handler 0 caller) = gpr caller
    \<and> cpu_flags (take_interrupt 0x100500 some_handler 0 caller) = 0x202"
proof -
  have "aligned (0x1FFF8 :: u32)" "gpr caller ESP = 0x1FFF8 + 72" by (simp_all add: caller_facts(2))
  from interrupts_are_transparent [OF this _ some_handler_ok, of 0 "0x100500"] show ?thesis by (simp add: caller_def)
qed

text \<open>
  C16: the first dispatch runs the context that the constructor of a thread builds: it enters
  \<open>thread_start\<close> with interrupts off and the kernel's segments, which returns to the thread's function,
  which returns to \<open>thread_shutdown\<close>.
\<close>
theorem first_switch_starts_thread:
  assumes "aligned (stack0 + size0)" and "80 \<le> unat size0" and "unat stack0 + unat size0 \<le> 4294967295"
    and "Thread start shutdown this old tf stack0 size0 k = Inr k'" and "thread_objs k' this = Some t"
    and "\<forall>i<20. stack_word (cpu_mem s) (thread_esp t) i = stack_word (ram k') (thread_esp t) i"
    and "load32 (cpu_mem s) this = thread_esp t"
    and "load32 (cpu_mem s) v = 0" and "load32 (cpu_mem s) (gpr s ESP + 4) = this"
    and "aligned v" and "aligned this" and "v \<noteq> this" and "\<forall>i<20. v \<noteq> thread_esp t + word_of_nat (4 * i)"
  defines "r \<equiv> threads_low_switch_to v s"
  shows "ip r = start \<and> segs r CS = 8 \<and> segs r DS = 0x10 \<and> segs r ES = 0x10 \<and> cpu_flags r = 0
    \<and> ip (run [Ret] r) = tf \<and> ip (run [Ret, Ret] r) = shutdown \<and> load32 (cpu_mem r) v = this"
  using first_switch_starts [OF assms(1-13)] unfolding starts_thread_def r_def by blast

theorem first_switch_starts_thread_witness:
  "\<exists>s. ip (threads_low_switch_to 0x500 s) = 0x100200 \<and> cpu_flags (threads_low_switch_to 0x500 s) = 0
    \<and> ip (run [Ret] (threads_low_switch_to 0x500 s)) = 0x100400"
proof -
  have st: "aligned ((0x40000 :: u32) + 0x400)" "80 \<le> unat (0x400 :: u32)" "unat (0x40000 :: u32) + unat (0x400 :: u32) \<le> 4294967295"
    by simp_all
  obtain k' t where k': "Thread 0x100200 0x100300 0x1000 some_thread 0x100400 0x40000 0x400 (power_on ready_input) = Inr k'"
    and t: "thread_objs k' 0x1000 = Some t" and esp: "thread_esp t = 0x403B0"
    using Thread_ok [OF st, of "0x100200" "0x100300" "0x1000" some_thread "0x100400" "power_on ready_input"] by auto
  let ?s = "dispatching_first (ram k') 0x403B0"
  have mem: "load32 (cpu_mem ?s) 0x1000 = 0x403B0" "load32 (cpu_mem ?s) 0x500 = 0"
    "load32 (cpu_mem ?s) (gpr ?s ESP + 4) = 0x1000"
    using caller_facts(2) by (simp_all add: dispatching_first_def mem_simps)
  show ?thesis
    by (rule exI [of _ ?s], use first_switch_starts_thread [OF st k' t _ _ mem(2,3)] first_context_words mem esp in simp)
qed

text \<open>
  C17: a context switch must not be interrupted, but it is called with interrupts on.  An
  interrupt taken after the third to the seventh instruction of the frame's construction overwrites
  the return address, which the code keeps below the stack pointer at that time: what is saved for
  the thread to continue at is the flags register, the address of the interrupt or the code selector.
\<close>
theorem interrupted_switch_loses_return:
  assumes "aligned b" and "gpr s ESP = b + 64" and "k \<in> {3, 4, 5, 6, 7}"
    and "c_call_ok call (run (common_enter fn) (run (irq_stub n) (enter_gate (run (take k build_frame) s))))"
  shows "reg_eip (load_context (cpu_mem (interrupted_save k (take_interrupt fn call n) s)) b) =
      (if k = 4 then ip s else if k \<in> {5, 6} then ucast (segs s CS) else cpu_flags (run (take k build_frame) s))
    \<and> reg_eip (load_context (cpu_mem (run (build_frame @ save_registers) s)) b) = load32 (cpu_mem s) (b + 64)"
proof
  have same: "ip (run (take k build_frame) s) = ip s" "segs (run (take k build_frame) s) = segs s"
    using assms(3) by (auto simp: build_frame_start run_simps)
  have "stack_word (cpu_mem (interrupted_save k (take_interrupt fn call n) s)) b 14 = wrong_return k s"
    using interrupted_save_word [OF assms] by (simp add: stack_word_def)
  then show "reg_eip (load_context (cpu_mem (interrupted_save k (take_interrupt fn call n) s)) b) =
      (if k = 4 then ip s else if k \<in> {5, 6} then ucast (segs s CS) else cpu_flags (run (take k build_frame) s))"
    using assms(3) same by (auto simp: load_context_def wrong_return_def Let_def)
  have "map (load32 (cpu_mem (run (build_frame @ save_registers) s))) (context_addrs b) = context_values s b"
    unfolding saves_context(5) [OF assms(1,2)] by (rule saved_words [OF assms(1)])
  then show "reg_eip (load_context (cpu_mem (run (build_frame @ save_registers) s)) b) = load32 (cpu_mem s) (b + 64)"
    unfolding load_context_words context_values_def by simp
qed

theorem interrupted_switch_loses_return_witness:
  "reg_eip (load_context (cpu_mem (interrupted_save 5 (take_interrupt 0x100500 some_handler 0) caller)) 0x20000) = 8
    \<and> reg_eip (load_context (cpu_mem (run (build_frame @ save_registers) caller)) 0x20000) = 0x100123"
proof -
  have "aligned (0x20000 :: u32)" "gpr caller ESP = 0x20000 + 64" by (simp_all add: caller_facts(2))
  from interrupted_switch_loses_return [OF this _ some_handler_ok, of 5] show ?thesis by (simp add: caller_facts)
qed

text \<open>
  C18: once \<open>main\<close> idles, the first kernel runs only in its handlers.  Whatever exceptions and
  interrupts are delivered to it, in whatever order and with whatever registers, as long as each is
  handled to its end: the vector table, the interrupt flag, the dispatch tables, the timer and the
  console stay well formed, and no handler is lost.
\<close>
theorem devices_stay_well_formed:
  assumes "kernel_event\<^sup>*\<^sup>* s s'" and "kernel_ok isr irq s"
  shows "kernel_ok isr irq s' \<and> exception_table s' = exception_table s \<and> interrupt_table s' = interrupt_table s"
  using assms by (rule events_keep_kernel_ok)

theorem devices_stay_well_formed_witness:
  "\<exists>s s' :: vm_kernel. kernel_event s s' \<and> s' \<noteq> s \<and> interrupt_table s' = interrupt_table s
    \<and> kernel_ok (\<lambda>n. of_nat n) (\<lambda>n. of_nat n) s'"
proof -
  obtain s s' where s: "kernel_event s s'" "kernel_ok (\<lambda>n. of_nat n) (\<lambda>n. of_nat n) (s :: vm_kernel)" "s' \<noteq> s"
    using event_exists by blast
  then show ?thesis using devices_stay_well_formed [OF r_into_rtranclp [of kernel_event], OF s(1,2)] by blast
qed

text \<open>
  C19: \<open>get_frames(n)\<close> on a pool of a well-formed system returns the frame number of the first run
  of \<open>n\<close> free frames, turns exactly that run into a section (a head of sequence followed by used
  frames), lowers the free counter by \<open>n\<close>, and leaves every other pool and every byte outside the
  pool's bitmap as it was; the system stays well-formed.
\<close>
theorem get_frames_first_fit:
  assumes "pools_ok s" and "frame_pools s a = Some p" and "0 < n"
    and "free_run (states s a) i (unat n)"
    and "\<forall>j<i. \<not> free_run (states s a) j (unat n)"
  shows "\<exists>s'. get_frames a n s = Inr (base_frame_no p + word_of_nat i, s')
    \<and> frame_pools s' a = Some (p\<lparr>nFreeFrames := nFreeFrames p - n\<rparr>)
    \<and> states s' a = take_run i (unat n) (states s a) \<and> pools_ok s' \<and> only_pool a p s s'"
  using assms by (rule get_frames_alloc)

theorem get_frames_first_fit_witness:
  "\<exists>s'. get_frames 0 3 with_frames = Inr (1024, s')
    \<and> states s' 0 = [HoS, Used, Used] @ replicate 13 Free \<and> pools_ok s'"
  using get_frames_first_fit [OF with_frames_ok(1), of 0 sample_frame_pool 3 0]
  by (auto simp: with_frames_ok(2) with_frames_fields free_run_def sample_runs sample_frame_pool_def)

text \<open>
  C20: \<open>release_frames(f)\<close> finds the pool that owns frame \<open>f\<close> through the static list of pools and,
  when \<open>f\<close> heads a section, makes all frames of that section, and no others, free again and raises
  the counter by the length of the section.
\<close>
theorem release_frames_frees_section:
  assumes "pools_ok s" and "frame_pools s a = Some p"
    and "i < unat (nframes p)" and "states s a ! i = HoS"
  shows "\<exists>s'. release_frames (base_frame_no p + word_of_nat i) s = Inr s'
    \<and> frame_pools s' a = Some (p\<lparr>nFreeFrames := nFreeFrames p + word_of_nat (section_len i (states s a))\<rparr>)
    \<and> states s' a = release_run i (states s a) \<and> pools_ok s' \<and> only_pool a p s s'"
  using assms by (rule release_frames_section)

theorem release_frames_frees_section_witness:
  "\<exists>s'. release_frames (base_frame_no (sample_frame_pool\<lparr>nFreeFrames := 13\<rparr>) + word_of_nat 0) with_section = Inr s'
    \<and> states s' 0 = replicate 16 Free \<and> pools_ok s'"
proof -
  have h: "states with_section 0 ! 0 = HoS" by (simp add: with_section_ok(3))
  have i: "0 < unat (nframes (sample_frame_pool\<lparr>nFreeFrames := 13\<rparr>))" by (simp add: sample_frame_pool_def)
  have "release_run 0 (states with_section 0) = replicate 16 Free"
    unfolding with_section_ok(3) by (rule sample_runs)
  then show ?thesis
    using release_frames_frees_section [OF with_section_ok(1,2) i h] by auto
qed

text \<open>
  C21: a thread whose \<open>wait_while_busy\<close> finds the disk busy when no thread waits in the disk's queue
  switches to the next ready thread without putting itself into a queue: however the other threads
  pass the processor on, create threads and end from then on, it never runs again.
\<close>
theorem waiting_thread_lost:
  assumes "running (s, pending) c ((n, t) # R)" and "busy_at s (port_reads s)" and "busy_at s (port_reads s + 1)"
  shows "\<exists>s1. nb_wait_while_busy ro s = andThen (ro s1) (\<lambda>s2. nb_wait_while_busy ro (yield_finish n s2))
    \<and> current_thread s1 = t
    \<and> (\<forall>C'. kernel_step\<^sup>*\<^sup>* (s1, pending(c \<mapsto> n)) C' \<longrightarrow> current_thread (fst C') \<noteq> c)"
proof -
  have ok: "sched_ok s ((n, t) # R) []" "current_thread s = c" "threads_ok s (c # t # map snd R)"
      "pending_ok pending s ((n, t) # R)"
    using assms(1) by (simp_all add: running_def)
  have c0: "current_thread s \<noteq> 0" using ok(2,3) by (auto simp: threads_ok_def)
  obtain s1 where s1: "nb_wait_while_busy ro s = andThen (ro s1) (\<lambda>s2. nb_wait_while_busy ro (yield_finish n s2))"
    "current_thread s1 = t" "sched_ok s1 R []" "thread_objs s1 = thread_objs s" "hw_locked s1 = hw_locked s"
    "start_address s1 = start_address s" "zombieThread s1 = zombieThread s"
    using wait_busy_switches [OF ok(1) c0 assms(2,3), of ro] by (elim exE conjE)
  have "n \<notin> fst ` set R" "unat n < unat (start_address s)"
    using ok(1) by (auto simp: sched_ok_def list_repr_def)
  then have "running (s1, pending(c \<mapsto> n)) t R"
    using s1(2,3) ok(3,4) by (simp add: running_def threads_ok_def pending_ok_def s1(4,6,7))
  moreover have "c \<notin> set (t # map snd R)" "unat c < unat (start_address s1)"
    using ok(3) s1(6) by (simp_all add: threads_ok_def)
  ultimately have "forgotten c (s1, pending(c \<mapsto> n))" unfolding forgotten_def by auto
  from forgotten_for_ever(2) [OF _ this] show ?thesis using s1(1,2) by blast
qed

theorem waiting_thread_lost_witness:
  "\<exists>s1 :: thread_kernel. current_thread s1 = 0x1000 \<and> (\<forall>C'. kernel_step\<^sup>*\<^sup>* (s1, [0x1200 \<mapsto> 0x2000]) C' \<longrightarrow> current_thread (fst C') \<noteq> 0x1200)"
  using waiting_thread_lost [OF three_threads_running busy_inputs(1) busy_inputs(1), of Inr] by blast

text \<open>
  C22: \<open>yield\<close> and \<open>lock_queue\<close> call each other: while the queue's lock is taken, every call of either
  recurses for ever and never returns, whatever the other threads would do; so a second thread that
  starts a disk operation or yields then is stuck, and the lock's owner never runs again.
\<close>
theorem queue_lock_held_hangs:
  assumes "queue_locked s" and "current_thread s \<noteq> 0"
  shows "lock_queue ro s = Inl Hang \<and> yield ro i s = Inl Hang \<and> nb_read ro block_no buf s = Inl Hang"
proof -
  have never: "scheduler_call ro c v = None" if "queue_locked v" "current_thread v \<noteq> 0" for c v
    using that by (rule queue_lock_hangs)
  then show ?thesis
    using assms by (simp add: lock_queue_def yield_def yield_select_def nb_read_def enqueue_io_def make_node_eq)
qed

theorem queue_lock_held_hangs_witness:
  "yield Inr 0 ((three_threads ready_input)\<lparr>queue_locked := True\<rparr>) = Inl Hang"
  using queue_lock_held_hangs [of "(three_threads ready_input)\<lparr>queue_locked := True\<rparr>" Inr 0 0 0] by simp

text \<open>
  C23: \<open>free_page\<close> on a page of a 4 MB region that has never been touched, which \<open>release\<close> reaches
  for a large array that was never used: the read of the page-table entry faults, and the handler
  answers by making a fresh frame the page table of the region.  Nothing initialises that frame: its
  old contents become the mappings of all 1024 pages of the region, the frame stays taken, and if the
  old contents of the page's own entry look present, the frame they name is released.
\<close>
theorem untouched_release_maps_garbage:
  assumes "paging_ok s" and "page_tables s this = Some t"
    and "some_legitimate (pg * PAGE_SIZE) (head_pool t) s = Some (Inr (True, s))"
    and "dir_ix (pg * PAGE_SIZE) < 1023" and "slots s (Table (dir_ix (pg * PAGE_SIZE))) = None"
    and "0 < free_count s"
  shows "\<exists>f s1. \<not> owned s f \<and> Suc (free_count s1) = free_count s
    \<and> (\<forall>u<1024. mapped s1 (dir_ix (pg * PAGE_SIZE)) u =
         (if present (entry (mem s) f u) then Some (frame_of (entry (mem s) f u)) else None))
    \<and> (if present (entry (mem s) f (tbl_ix (pg * PAGE_SIZE)))
       then \<forall>e. release_frames (entry (mem s) f (tbl_ix (pg * PAGE_SIZE)) div PAGE_SIZE) s1 = Inl e
              \<longrightarrow> free_page this pg s = Inl e
       else free_page this pg s = Inr s1)"
  using assms by (rule free_page_untouched)

theorem untouched_release_maps_garbage_witness:
  "\<exists>(s :: paging_state) f s1. \<not> owned s f
    \<and> (\<forall>u<1024. mapped s1 129 u =
         (if present (entry (mem s) f u) then Some (frame_of (entry (mem s) f u)) else None))
    \<and> (\<not> present (entry (mem s) f 0) \<longrightarrow> free_page 0 0x20400 s = Inr s1)"
proof -
  obtain s :: paging_state and t where s: "paging_ok s" "page_tables s 0 = Some t"
    "some_legitimate 0x20400000 (head_pool t) s = Some (Inr (True, s))" "slots s (Table 129) = None" "0 < free_count s"
    using untouched_exists by blast
  have ix: "dir_ix 0x20400000 = 129" "tbl_ix 0x20400000 = 0" by (simp_all add: dir_ix_def tbl_ix_def)
  have a: "0x20400 * PAGE_SIZE = 0x20400000" by simp
  show ?thesis
    using untouched_release_maps_garbage [of s 0 t "0x20400", unfolded a ix, OF s(1-3) _ s(4,5)]
    by (auto split: if_splits)
qed

text \<open>
  C24: \<open>read\<close> of the non-blocking disk, when the disk is ready and nobody holds a lock: the buffer has
  the 256 words the controller delivered, the hardware lock is free again, and the caller stands at the
  end of the ready queue.  The node it put into the disk's queue is still there unless it was the first:
  then the first thread of the disk's queue runs next, and the caller is in both queues.
\<close>
theorem nonblocking_read_ready:
  assumes "sched_ok s R D" and "current_thread s \<noteq> 0" and "24 \<le> heap_room s" and "\<not> hw_locked s"
    and "\<not> busy_at s (port_reads s)" and "\<not> busy_at s (port_reads s + 5)"
    and "verdict (ucast (port_input s (port_reads s + 6) 0x1F7)) = 0" and "\<not> busy_at s (port_reads s + 263)"
  shows "\<exists>s1 n n' D'. nb_read ro block_no buf s = andThen (ro s1) (\<lambda>s2. Inr (yield_finish (fst (hd D')) s2))
    \<and> D' = D @ [(n, current_thread s)] \<and> current_thread s1 = snd (hd D')
    \<and> sched_ok s1 (R @ [(n', current_thread s)]) (tl D')
    \<and> \<not> hw_locked s1 \<and> (\<forall>i<256. buffer_word (ram s1) buf i = port_input s (port_reads s + 7 + i) 0x1F0)"
  using nb_read_ready [OF assms, of ro block_no buf undefined] by blast

theorem nonblocking_read_ready_witness:
  "\<exists>s1 n n'. nb_read Inr 7 0x4000 (three_threads ready_input) = andThen (Inr s1) (\<lambda>s2. Inr (yield_finish n s2))
    \<and> current_thread s1 = 0x1200 \<and> sched_ok s1 (two_ready @ [(n', 0x1200)]) []
    \<and> (\<forall>i<256. buffer_word (ram s1) 0x4000 i = word_of_nat (7 + i))"
  using nonblocking_read_ready [OF three_threads_sched, of ready_input Inr 7 "0x4000"] busy_inputs(2) ready_verdict
  by (auto simp: ready_input_def)

text \<open>
  C25: \<open>SimpleDisk::read\<close>, when the disk gets ready after any number of busy statuses: the controller is
  given one read command for the block (its low 28 bits); if the status then shows data and no error
  the buffer gets the 256 words the controller delivers, low byte first, and no other byte of memory
  changes; otherwise the assertion fails.
\<close>
theorem disk_read_fills_buffer:
  assumes "busy_for s (port_reads s) k" and "busy_for s (port_reads s + k + 5) k'" and "n = port_reads s + k + k' + 6"
  shows "if verdict (ucast (port_input s n 0x1F7)) = 0
    then \<exists>m log. disk_read wait_while_busy block_no buf s
        = Inr (s\<lparr>port_log := log, ram := m, port_reads := n + 257\<rparr>)
      \<and> (\<forall>i<256. buffer_word m buf i = port_input s (n + 1 + i) 0x1F0)
      \<and> (\<forall>x. (\<forall>j<512. x \<noteq> buf + word_of_nat j) \<longrightarrow> m x = ram s x)
      \<and> ata_commands (ata_run log c) = ata_commands (ata_run (port_log s) c) @ [(0x20, block_no AND 0x0FFFFFFF)]
      \<and> ata_data (ata_run log c) = ata_data (ata_run (port_log s) c)
    else disk_read wait_while_busy block_no buf s = Inl Assertion"
  unfolding assms(3) using assms(1,2) by (rule disk_read_block)

theorem disk_read_fills_buffer_witness:
  "\<exists>m log. disk_read wait_while_busy 9 0x4000 (three_threads ready_input)
      = Inr ((three_threads ready_input)\<lparr>port_log := log, ram := m, port_reads := 263\<rparr>)
    \<and> (\<forall>i<256. buffer_word m 0x4000 i = word_of_nat (7 + i))"
proof -
  have b: "busy_for (three_threads ready_input) n 0" for n by (simp add: busy_for_def busy_inputs)
  show ?thesis
    using disk_read_fills_buffer [OF b b refl, where block_no = 9 and buf = "0x4000" and c = "ata.make 0 0 0 0 0 [] []"] ready_verdict by (auto simp: ready_input_def)
qed

text \<open>
  C26: the interrupt that ends the quantum preempts: the running thread goes to the end of the ready
  queue, the tick count starts again, the interrupt is acknowledged, and the first ready thread gets
  the processor before the handler returns.
\<close>
theorem quantum_preempts:
  assumes "sched_ok s R []" and "current_thread s \<noteq> 0" and "12 \<le> heap_room s"
    and "eoq_ticks s + 1 = quantum t" and "reg_int_no r = 32"
  shows "\<exists>s1 n R'. eoq_interrupt (yield ro 0) t r s = andThen (ro s1) (\<lambda>s2. Inr (yield_finish n s2))
    \<and> sched_ok s1 R' [] \<and> current_thread s1 # map snd R' = map snd R @ [current_thread s] \<and> eoq_ticks s1 = 0
    \<and> port_log s1 = port_log (print_line ''5ms has passed'' (s\<lparr>eoq_ticks := eoq_ticks s + 1\<rparr>)) @ eoi 0"
  using assms by (rule eoq_preempts)

theorem quantum_preempts_witness:
  "\<exists>s1 :: thread_kernel. \<exists>n R'. eoq_interrupt (yield Inr 0) (eoq_timer.make 0 0 100 1) (int_regs 32) (three_threads ready_input)
      = andThen (Inr s1) (\<lambda>s2. Inr (yield_finish n s2)) \<and> current_thread s1 = 0x1000"
  using quantum_preempts [OF three_threads_sched, of ready_input "eoq_timer.make 0 0 100 1" "int_regs 32" Inr]
  by (auto simp: int_regs_def eoq_timer.defs)

text \<open>
  C27: a successful \<open>get_frames\<close> followed by \<open>release_frames\<close> of its result restores the free
  counters and the states of all frames of all pools.
\<close>
theorem get_release_restores:
  assumes "pools_ok s" and "frame_pools s a = Some p" and "0 < n"
    and "free_run (states s a) i (unat n)"
    and "\<forall>j<i. \<not> free_run (states s a) j (unat n)"
  shows "\<exists>r s' s''. get_frames a n s = Inr (r, s') \<and> release_frames r s' = Inr s''
    \<and> frame_pools s'' = frame_pools s \<and> (\<forall>b. frame_pools s b \<noteq> None \<longrightarrow> states s'' b = states s b)"
  using assms by (rule get_release_roundtrip)

theorem get_release_restores_witness:
  "\<exists>r s' s''. get_frames 0 5 with_frames = Inr (r, s') \<and> release_frames r s' = Inr s''
    \<and> frame_pools s'' = frame_pools with_frames"
  using get_release_restores [OF with_frames_ok(1), of 0 sample_frame_pool 5 0]
  by (auto simp: with_frames_ok(2) with_frames_fields free_run_def)

text \<open>
  C28: the boot sequence (the \<open>PageTable\<close> constructor, \<open>load\<close>, \<open>enable_paging\<close>) succeeds with two
  free frames; afterwards paging is on, the directory maps itself, the first 4 MB are mapped one
  to one, nothing else is mapped, and the paging invariant holds.
\<close>
theorem boot_establishes_paging:
  assumes "arena s" and "2 \<le> free_count s" and "\<not> bit (cr0 s) 31"
  shows "\<exists>P F s'. boot_paging this s = Inr s' \<and> paging_ok s'
    \<and> slots s' = (\<lambda>_. None)(Dir \<mapsto> P, Table 0 \<mapsto> F)
    \<and> (\<forall>t<1024. mapped s' 0 t = Some t)
    \<and> free_count s = free_count s' + 2
    \<and> page_tables s' = (page_tables s)(this \<mapsto>
         \<lparr>page_directory = word_of_nat P * PAGE_SIZE, head_pool = None\<rparr>)
    \<and> cr3 s' = word_of_nat P * PAGE_SIZE \<and> current_page_table s' = Some this
    \<and> vm_pools s' = vm_pools s"
  using assms by (rule boot_paging_ok)

theorem boot_establishes_paging_witness:
  "\<exists>s'. boot_paging 7 with_frames = Inr s' \<and> paging_ok s' \<and> mapped s' 0 5 = Some 5"
proof -
  have "\<not> bit (cr0 with_frames) 31" by (simp add: with_frames_fields)
  from boot_establishes_paging [OF with_frames_arena(1) _ this, of 7] show ?thesis
    by (auto simp: with_frames_arena(2))
qed

text \<open>
  C29: the constructor of a \<open>VMPool\<close> on a page table whose first two list pages are not mapped:
  it faults both pages in, registers the pool with the page table in front of the list of pools,
  and leaves the lists in memory describing two allocated regions (the list pages) and one free
  region (the rest), which partition the pool's address range.
\<close>
theorem new_vm_pool_partitions:
  assumes "paging_ok s" and "page_tables s pt = Some t"
    and "base mod 4096 = 0" and "unat base + unat (round_up size0) \<le> 4294967295"
    and "0 < dir_ix base" and "dir_ix (base + 4096) < 1023"
    and "tbl_ix (base + 4096) \<noteq> 1023"
    and "mapped s (dir_ix base) (tbl_ix base) = None"
    and "mapped s (dir_ix (base + 4096)) (tbl_ix (base + 4096)) = None"
    and "0 < size0" "unat size0 + 4095 < 4294967296" "8192 < round_up size0" and "4 \<le> free_count s"
  shows "\<exists>s' as fs. VMPool this base size0 fp pt s = Inr s'
    \<and> vm_pools s' = (vm_pools s)(this \<mapsto> built_pool base size0 fp pt t)
    \<and> page_tables s' = (page_tables s)(pt \<mapsto> t\<lparr>head_pool := Some this\<rparr>)
    \<and> vm_holds (built_pool base size0 fp pt t) s' as fs
    \<and> as = [(base, 4096), (base + 4096, 4096)] \<and> fs = [(base + 8192, round_up size0 - 8192)]
    \<and> partitions (unat base) (unat base + unat (round_up size0)) as fs"
proof -
  let ?p = "built_pool base size0 fp pt t"
  have p: "base_address ?p = base" "vm_size ?p = round_up size0"
    by (simp_all add: built_pool_def new_vm_pool_def)
  have n: "unat base + 8192 \<le> 4294967295"
    using assms(4,12) by (simp add: word_less_nat_alt)
  have ne: "round_up size0 \<noteq> 8192" using assms(12) by auto
  obtain s' where "VMPool this base size0 fp pt s = Inr s'"
    "vm_holds ?p s' (fst (first_regions ?p)) (snd (first_regions ?p))"
    "vm_pools s' = (vm_pools s)(this \<mapsto> ?p)"
    "page_tables s' = (page_tables s)(pt \<mapsto> t\<lparr>head_pool := Some this\<rparr>)"
    using VMPool_ok [OF assms(1-3) n assms(5-9) ne assms(13)] by blast
  moreover have "partitions (unat base) (unat base + unat (round_up size0))
      (fst (first_regions ?p)) (snd (first_regions ?p))"
    using first_regions_partition [OF assms(3,4,10-12) p] .
  moreover have "fst (first_regions ?p) = [(base, 4096), (base + 4096, 4096)]"
      "snd (first_regions ?p) = [(base + 8192, round_up size0 - 8192)]"
    using p by (simp_all add: first_regions_def)
  ultimately show ?thesis by metis
qed

theorem new_vm_pool_partitions_witness:
  "\<exists>s' as fs. VMPool 3 0x20000000 0x10000 0 0 booted = Inr s'
    \<and> vm_holds (built_pool 0x20000000 0x10000 0 0 \<lparr>page_directory = cr3 booted, head_pool = None\<rparr>) s' as fs
    \<and> as = [(0x20000000, 4096), (0x20001000, 4096)] \<and> fs = [(0x20002000, 0xE000)]
    \<and> partitions 0x20000000 0x20010000 as fs"
proof -
  obtain P F where b: "paging_ok booted" "free_count booted = 14"
    "page_tables booted = [0 \<mapsto> \<lparr>page_directory = cr3 booted, head_pool = None\<rparr>]"
    using booted_ok by metis
  then have "page_tables booted 0 = Some \<lparr>page_directory = cr3 booted, head_pool = None\<rparr>" by simp
  from new_vm_pool_partitions [OF b(1) this, of "0x20000000" "0x10000" 3 0] show ?thesis
    by (auto simp: sample_dirs booted_unmapped b(2) round_up_def)
qed

text \<open>
  C30: the hardware lock excludes: a thread that calls \<open>hw_lock.lock()\<close> while the lock is taken does not
  return from the call as long as the other threads, whenever it yields to them, leave the lock taken.
\<close>
theorem hw_lock_excludes:
  assumes "respects_lock ro" and "hw_locked s"
  shows "\<not> (\<exists>s'. lock_hw ro s = Inr s')"
  using lock_hw_excludes [OF assms] by blast

theorem hw_lock_excludes_witness:
  "\<not> (\<exists>s'. lock_hw Inr ((three_threads ready_input)\<lparr>hw_locked := True\<rparr>) = Inr s')"
  using hw_lock_excludes [of Inr "(three_threads ready_input)\<lparr>hw_locked := True\<rparr>"] by (simp add: respects_lock_def)

text \<open>
  C31: \<open>SimpleDisk::write\<close>: the controller is given one write command for the block, then the 256 words
  of the buffer in order, low byte first, and then the command to flush its cache.
\<close>
theorem disk_write_sends_buffer:
  assumes "busy_for s (port_reads s) k" and "busy_for s (port_reads s + k + 5) k'"
    and "busy_for s (port_reads s + k + k' + 10) k''"
  shows "\<exists>log. disk_write wait_while_busy block_no buf s
        = Inr (s\<lparr>port_log := log, port_reads := port_reads s + k + k' + k'' + 11\<rparr>)
      \<and> ata_commands (ata_run log c) = ata_commands (ata_run (port_log s) c)
          @ [(0x30, block_no AND 0x0FFFFFFF), (0xE7, block_no AND 0x0FFFFFFF)]
      \<and> ata_data (ata_run log c) = ata_data (ata_run (port_log s) c) @ map (buffer_word (ram s) buf) [0..<256]"
  using assms by (rule disk_write_block)

theorem disk_write_sends_buffer_witness:
  "\<exists>log. disk_write wait_while_busy 9 0x4000 (three_threads ready_input)
      = Inr ((three_threads ready_input)\<lparr>port_log := log, port_reads := 11\<rparr>)"
proof -
  have b: "busy_for (three_threads ready_input) n 0" for n by (simp add: busy_for_def busy_inputs)
  show ?thesis using disk_write_sends_buffer [OF b b b, where block_no = 9 and buf = "0x4000" and c = "ata.make 0 0 0 0 0 [] []"] by auto
qed

text \<open>
  C32: \<open>puts\<close> drives a terminal of 25 rows and 80 columns: with the cursor on the screen, the characters
  up to the terminating zero have, one after the other, the effect \<open>term_putch\<close> (glyph, backspace, tab,
  return, newline, wrapping at the margin, scrolling at the bottom), the cursor stays on the screen, and
  no byte outside the video memory changes.
\<close>
theorem puts_drives_terminal:
  assumes "console_ok s"
  shows "console_ok (puts str s) \<and> same_console s (puts str s)
    \<and> term_of (puts str s) = fold (term_putch (blank_word s) (attrib s)) (takeWhile (\<lambda>c. c \<noteq> 0) str) (term_of s)"
  using puts_refines [OF assms, of str] by simp

theorem puts_drives_terminal_witness:
  "\<exists>s. s = puts [72, 10, 0, 33] (init_console 15 0 vm_power_on) \<and> console_ok s \<and> snd (term_of s) = (0, 1)"
proof -
  have ok: "console_ok (init_console 15 0 vm_power_on)" by (rule init_console_ok)
  show ?thesis
    using puts_drives_terminal [OF ok, of "[72, 10, 0, 33]"] init_console_ok(2) [of 15 0 vm_power_on]
    by (simp add: term_putch_def term_char_def term_wrap_def Let_def)
qed

text \<open>
  C33: the tables and devices of the first kernel: after the first calls of \<open>main\<close> every exception vector
  and every vector the interrupt controllers deliver has a present gate to its stub, the segments are
  flat, the handlers of exception 0 and line 0 are installed, the timer is set, and interrupts are on.
\<close>
theorem boot_installs_vectors:
  assumes "length (gdt s) = 3" and "\<not> interrupts_enabled s"
  shows "\<exists>s'. boot_devices gdt_addr idt_addr isr irq s = Inr s' \<and> devices_ok isr irq s'
    \<and> kernel_timer s' = \<lparr>timer_seconds = 0, timer_ticks = 0, timer_hz = 100\<rparr> \<and> paging s' = paging s
    \<and> map segment_last (gdt s') = [0, 0xFFFFFFFF, 0xFFFFFFFF]"
  using assms by (rule boot_devices_ok)

theorem boot_installs_vectors_witness:
  "\<exists>s'. boot_devices 0 0 (\<lambda>n. of_nat n) (\<lambda>n. of_nat n) vm_power_on = Inr s'
    \<and> gate_target (idt s' ! unat (vector_of \<lparr>icw_step = 0, vector_offset = 0, irq_mask = 0\<rparr> s' 14)) = 14"
  using boot_installs_vectors [OF vm_power_on_facts(1,2), of 0 0 "\<lambda>n. of_nat n" "\<lambda>n. of_nat n"]
  by (auto simp: devices_ok_def vectors_installed_def)

text \<open>
  C34: however many interrupts arrive on line 0 of the booted kernel, each is dispatched to the timer and
  acknowledged: after \<open>n\<close> of them the timer shows the seconds and ticks of \<open>n\<close> more ticks, its tick
  count below its frequency, and the end-of-interrupt commands on the ports have grown by exactly \<open>n\<close>, all to
  the master controller and none to the slave (whatever the timer's messages wrote to other ports);
  nothing in the paging system changes.
\<close>
theorem timer_counts_interrupts:
  assumes "devices_ok isr irq s" and "reg_int_no r = 32"
  shows "\<exists>s'. for_each (\<lambda>_. dispatch_interrupt interrupt_method r) [0..<n] s = Inr s' \<and> devices_ok isr irq s'
    \<and> kernel_timer s' = after_ticks n (kernel_timer s) \<and> paging s' = paging s
    \<and> acknowledged s' = acknowledged s @ replicate n (OutB 0x20 0x20)"
  using assms by (rule timer_line_run)

theorem timer_counts_interrupts_witness:
  "\<exists>s s'. boot_devices 0 0 (\<lambda>_. 0) (\<lambda>_. 0) vm_power_on = Inr s
    \<and> for_each (\<lambda>_. dispatch_interrupt interrupt_method (int_regs 32)) [0..<250] s = Inr s'
    \<and> kernel_timer s' = \<lparr>timer_seconds = 2, timer_ticks = 50, timer_hz = 100\<rparr>
    \<and> length (acknowledged s') = length (acknowledged s) + 250"
proof -
  obtain s :: vm_kernel where s: "boot_devices 0 0 (\<lambda>_. 0) (\<lambda>_. 0) vm_power_on = Inr s"
    "devices_ok (\<lambda>_. 0) (\<lambda>_. 0) s" "kernel_timer s = \<lparr>timer_seconds = 0, timer_ticks = 0, timer_hz = 100\<rparr>"
    using boot_devices_ok [OF vm_power_on_facts(1,2), of 0 0 "\<lambda>_. 0" "\<lambda>_. 0"] by blast
  have "reg_int_no (int_regs 32) = 32" by (simp add: int_regs_def)
  from timer_counts_interrupts [OF s(2) this, of 250] s(1,3) show ?thesis by (auto simp: after_ticks_def)
qed



text \<open>
  C36: \<open>CustomTests\<close> on two pools, whatever else has been allocated and released in them: the first
  pool accepts the address it has handed out and the other rejects it, so neither error message is
  printed, only the last one.  The array is released although none of its pages has been touched:
  no frame is lost, and its page goes to the end of the free list.
\<close>
theorem custom_tests_isolate:
  assumes "two_pools fs (paging s)" and "a < 2" and "b < 2" and "a \<noteq> b"
    and "fs a = (at_page (pool_dir a) k, len) # gs" and "length gs < 510"
    and "2 \<le> k" and "k < 1023" and "4096 < unat len"
  shows "\<exists>p'. CustomTests a (Some b) s
      = Inr (print_line ''Cross-pool legitimacy isolation passed.'' (s\<lparr>paging := p'\<rparr>))
    \<and> two_pools (fs(a := (at_page (pool_dir a) (k + 1), len - 4096) # gs @ [(at_page (pool_dir a) k, 4096)])) p'
    \<and> free_count p' = free_count (paging s)"
  using assms by (rule CustomTests_ok)

theorem custom_tests_isolate_witness:
  "\<exists>(s :: vm_kernel) p'. CustomTests heap_pool (Some code_pool) s
      = Inr (print_line ''Cross-pool legitimacy isolation passed.'' (s\<lparr>paging := p'\<rparr>))"
proof -
  obtain s :: vm_kernel where s:
    "two_pools (\<lambda>m. (at_page (pool_dir m) 147, 0xFF6D000) # freed_regions (pool_dir m) 100 50) (paging s)"
    using vm_pools_main_ok [OF vm_power_on_facts] by blast
  show ?thesis
    using custom_tests_isolate [OF s, of heap_pool code_pool 147 "0xFF6D000" "freed_regions 256 100 50"]
    by (auto simp: freed_regions_def)
qed

text \<open>
  C37: the heap of the second kernel never hands out a byte twice: as long as the sizes do not make the
  addresses wrap, the blocks of any sequence of allocations lie one after the other from the start of
  the pool, so any two are disjoint.
\<close>
theorem heap_blocks_disjoint:
  assumes "unat (start_address s) + bytes_total ns \<le> 4294967295" and "i < j" and "j < length ns"
  shows "\<exists>as s'. allocate_all ns s = (as, s') \<and> length as = length ns
    \<and> unat (as ! i) + unat (ns ! i) \<le> unat (as ! j)
    \<and> unat (as ! j) + unat (ns ! j) \<le> unat (start_address s')"
proof -
  obtain as s' where r: "allocate_all ns s = (as, s')" "length as = length ns"
    "\<forall>i<length ns. unat (as ! i) = unat (start_address s) + bytes_total (take i ns)"
    "unat (start_address s') = unat (start_address s) + bytes_total ns"
    using allocate_all_addresses [OF assms(1)] by (elim exE conjE)
  then show ?thesis
    using bytes_total_before [of i j ns] bytes_total_before [of j "length ns" ns] assms(2,3) by auto
qed

theorem heap_blocks_disjoint_witness:
  "\<exists>as s'. allocate_all [4096, 24, 12] (three_threads ready_input) = (as, s') \<and> unat (as ! 0) + 4096 \<le> unat (as ! 2)"
  using heap_blocks_disjoint [of "three_threads ready_input" "[4096, 24, 12]" 0 2] by auto

text \<open>
  C38: \<open>puti\<close> writes the decimal digits of a nonnegative number without leading zeros, that is, the
  digits of the reference function \<open>decimal\<close> and nothing else; \<open>int2str\<close> terminates them with a zero
  byte.
\<close>
theorem puti_prints_decimal:
  assumes "n < 10000000000"
  shows "int2str (int n) = map digit_char (decimal n) @ [0] \<and> puti (int n) s = fold putch (map digit_char (decimal n)) s"
  using assms int2str_decimal puti_decimal by blast

theorem puti_prints_decimal_witness:
  "int2str 2048 = [50, 48, 52, 56, 0]"
  using puti_prints_decimal [of 2048 vm_power_on] by (simp add: decimal.simps digit_char_def)

text \<open>
  C39: after the first fault in a 4 MB region, on a page other than its last, a program that stores a
  word into the last page of that region rewrites the region's page table, without a fault: word \<open>i\<close> of
  the last page is the entry of page \<open>i\<close>, so the value decides which physical frame the addresses of that page
  reach from then on, and none if its present bit is clear.  Any frame will do:
  the witness maps the kernel's own frame 1 at 0x20001000.
\<close>
theorem last_page_rewrites_table:
  assumes "paging_ok s" and "cr2 s = va" and "0 < dir_ix va" and "dir_ix va < 1023"
    and "slots s (Table (dir_ix va)) = None" and "tbl_ix va \<noteq> 1023"
    and "2 \<le> free_count s" and "err AND 1 = 0"
    and "aligned a" and "dir_ix a = dir_ix va" and "tbl_ix a = 1023"
    and "dir_ix b = dir_ix va" and "tbl_ix b = offset a div 4"
  shows "\<exists>s' s''. handle_fault err s = Inr s' \<and> demand_store a v s' = Inr s''
    \<and> translate s'' b = (if present v then Some (phys (frame_of v) (offset b)) else None)"
proof -
  have "mapped s (dir_ix va) (tbl_ix va) = None"
    using assms(4,5) by (simp add: mapped_def lookup_table)
  then obtain f s' where s': "handle_fault err s = Inr s'" "page_added s va f s'"
    using handle_fault_ok [OF assms(1-4) _ _ assms(8)] assms(5,7) by (auto simp: fault_cost_def)
  have "\<exists>F. slots s' (Table (dir_ix va)) = Some F \<and> mapped s' (dir_ix va) 1023 = Some F"
    using s'(2) assms(5,6) unfolding page_added_def by metis
  moreover have "paging_ok s'" using s'(2) unfolding page_added_def by blast
  ultimately show ?thesis using last_page_store [OF _ _ _ assms(9-13)] s'(1) by blast
qed

theorem last_page_rewrites_table_witness:
  "\<exists>s' s''. handle_fault 2 (booted\<lparr>cr2 := 0x20000000\<rparr>) = Inr s' \<and> demand_store 0x203FF004 0x1003 s' = Inr s''
    \<and> translate s'' 0x20001234 = Some 0x1234"
proof -
  obtain P F where b: "paging_ok booted" "free_count booted = 14"
      "slots booted = (\<lambda>_. None)(Dir \<mapsto> P, Table 0 \<mapsto> F)" using booted_ok by metis
  have un: "slots (booted\<lparr>cr2 := 0x20000000\<rparr>) (Table 128) = None"
    unfolding paging_ok_cr2 b(3) by simp
  have ix: "aligned 0x203FF004" "dir_ix 0x203FF004 = 128" "tbl_ix 0x203FF004 = 1023"
    "dir_ix 0x20001234 = 128" "tbl_ix 0x20001234 = offset 0x203FF004 div 4"
    by (simp_all add: aligned_def dir_ix_def tbl_ix_def offset_def)
  have v: "present 0x1003" "phys (frame_of 0x1003) (offset 0x20001234) = 0x1234"
    by (simp_all add: present_def phys_def frame_of_def offset_def bit_0)
  show ?thesis
    using last_page_rewrites_table [of "booted\<lparr>cr2 := 0x20000000\<rparr>" "0x20000000" 2 "0x203FF004" "0x20001234" "0x1003"]
      un ix b(1,2) v unfolding sample_dirs by simp
qed

text \<open>
  C40: when no run of \<open>n\<close> free frames exists although at least \<open>n\<close> frames are free, and no frame
  state from the pool's last frame on reads as free, \<open>get_frames(n)\<close> never returns: the inner loop
  that skips allocated frames has no bound.
\<close>
theorem get_frames_hangs:
  assumes "n \<le> nFreeFrames p" and "0 < n" and "\<forall>j. \<not> free_run (fstates m p) j (unat n)"
    and "0 < nframes p" and "\<forall>g. nframes p - 1 \<le> g \<longrightarrow> get_state m p g \<noteq> Free"
  shows "pool_get_frames m p n = Inl Hang"
  using assms by (intro pool_get_frames_hangs) (auto simp: never_found_def)

definition fragmented :: memory where
  "fragmented = (\<lambda>a. if a = 0x1000 then 0x11 else 0)"

lemma fragmented_states:
  "get_state fragmented (sample_frame_pool\<lparr>nFreeFrames := 2, nframes := 4\<rparr>) g =
     (if g = 0 \<or> g = 2 then Free else Used)"
proof (cases "g div 4 = 0")
  case True
  then have "unat g < 4" by (simp add: word_unat_eq_iff unat_div)
  then have "unat g = 0 \<or> unat g = 1 \<or> unat g = 2 \<or> unat g = 3" by linarith
  then have "g = 0 \<or> g = 1 \<or> g = 2 \<or> g = 3" by (simp add: word_unat_eq_iff)
  then show ?thesis
    by (elim disjE) (simp_all add: get_state_def fragmented_def sample_frame_pool_def)
next
  case False
  then have "g \<noteq> 0" "g \<noteq> 2" by auto
  moreover have "(0x1000 :: u32) + g div 4 \<noteq> 0x1000" using False by simp
  ultimately show ?thesis
    by (simp add: get_state_def fragmented_def sample_frame_pool_def del: add_cancel_left_right)
qed

theorem get_frames_hangs_witness:
  "pool_get_frames fragmented (sample_frame_pool\<lparr>nFreeFrames := 2, nframes := 4\<rparr>) 2 = Inl Hang"
proof (rule get_frames_hangs)
  let ?p = "sample_frame_pool\<lparr>nFreeFrames := 2, nframes := 4\<rparr>"
  have fs: "fstates fragmented ?p = [Free, Used, Free, Used]"
    by (simp add: fstates_def fragmented_states upt_rec [of _ 4])
  have "\<not> free_run [Free, Used, Free, Used] j 2" for j
  proof
    assume r: "free_run [Free, Used, Free, Used] j 2"
    then have "j = 0 \<or> j = 1 \<or> j = 2" by (auto simp: free_run_def)
    moreover have "[Free, Used, Free, Used] ! (j + 0) = Free" "[Free, Used, Free, Used] ! (j + 1) = Free"
      using r unfolding free_run_def by (metis zero_less_numeral, metis one_less_numeral_iff semiring_norm(76))
    ultimately show False by auto
  qed
  then show "\<forall>j. \<not> free_run (fstates fragmented ?p) j (unat (2 :: u32))" unfolding fs by simp
  show "\<forall>g. nframes ?p - 1 \<le> g \<longrightarrow> get_state fragmented ?p g \<noteq> Free"
    by (auto simp: fragmented_states word_le_nat_alt)
qed simp_all

end
